(* ===== verification/Go_Prelude.thy ===== *)
theory Go_Prelude
  imports Complex_Main "HOL-Library.AList" "HOL-Library.Multiset"
begin

text \<open>
  Shared vocabulary of the development: the outcomes of a Go call (a value, a returned
  \<open>error\<close> or a runtime panic), loops that may stop with an error, bounds-checked
  slice access, Go maps with their zero-value reads, the iteration order of
  \<open>range\<close> over a map, and the locales of the interfaces that several components
  rely on.
\<close>

named_theorems go_simps \<open>unfolding rules for outcomes, slices and maps\<close>

subsection \<open>Outcomes of a call\<close>

text \<open>
  \<open>GoError\<close> is a value of type \<open>error\<close> returned to the caller; the other
  constructors are runtime panics.
\<close>

datatype go_error =
    GoError string
  | IndexOutOfRange
  | NilDereference
  | NilMapWrite
  | GoPanic string

type_synonym 'a result = "go_error + 'a"

definition res_bind :: "'a result \<Rightarrow> ('a \<Rightarrow> 'b result) \<Rightarrow> 'b result" where
  "res_bind m f = (case m of Inl e \<Rightarrow> Inl e | Inr x \<Rightarrow> f x)"

lemma res_bind_simps [simp, go_simps]:
  "res_bind (Inl e) f = Inl e"
  "res_bind (Inr x) f = f x"
  by (simp_all add: res_bind_def)

lemma res_bind_Inr_iff:
  "res_bind m f = Inr y \<longleftrightarrow> (\<exists>x. m = Inr x \<and> f x = Inr y)"
  by (cases m) simp_all

text \<open>A \<open>for\<close> loop over a slice whose body may return early with an error.\<close>

fun res_fold :: "('a \<Rightarrow> 's \<Rightarrow> 's result) \<Rightarrow> 'a list \<Rightarrow> 's \<Rightarrow> 's result" where
  "res_fold f [] s = Inr s"
| "res_fold f (x # xs) s = res_bind (f x s) (res_fold f xs)"

lemma res_fold_append:
  "res_fold f (xs @ ys) s = res_bind (res_fold f xs s) (res_fold f ys)"
proof (induction xs arbitrary: s)
  case (Cons x xs)
  then show ?case by (cases "f x s") auto
qed simp

text \<open>
  A loop whose body cannot fail on the states it meets is the plain fold; \<open>P\<close> is
  the invariant of those states.
\<close>

lemma res_fold_pure:
  assumes "P s"
    and "\<And>x s. x \<in> set xs \<Longrightarrow> P s \<Longrightarrow> f x s = Inr (g x s)"
    and "\<And>x s. x \<in> set xs \<Longrightarrow> P s \<Longrightarrow> P (g x s)"
  shows "res_fold f xs s = Inr (fold g xs s) \<and> P (fold g xs s)"
  using assms
proof (induction xs arbitrary: s)
  case (Cons x xs)
  have "P (g x s)" using Cons.prems by simp
  then have "res_fold f xs (g x s) = Inr (fold g xs (g x s)) \<and> P (fold g xs (g x s))"
    by (rule Cons.IH) (use Cons.prems in auto)
  then show ?case using Cons.prems by simp
qed simp

lemma fold_invariant_set:
  assumes "P s" and "\<And>x s. x \<in> set xs \<Longrightarrow> P s \<Longrightarrow> P (g x s)"
  shows "P (fold g xs s)"
  using assms
proof (induction xs arbitrary: s)
  case (Cons x xs)
  from Cons.prems have "P (g x s)" by simp
  then have "P (fold g xs (g x s))" by (rule Cons.IH) (use Cons.prems in auto)
  then show ?case by simp
qed simp

text \<open>
  A loop that only adds to what \<open>rel\<close> collects: iteration \<open>x\<close> adds \<open>A x\<close>,
  so the loop adds the union, and it never fails.
\<close>

lemma res_fold_collect:
  fixes rel :: "'s \<Rightarrow> 'r set"
  assumes "P s"
    and "\<And>x s. x \<in> set xs \<Longrightarrow> P s \<Longrightarrow> \<exists>s'. f x s = Inr s' \<and> P s' \<and> rel s' = rel s \<union> A x"
  shows "\<exists>s'. res_fold f xs s = Inr s' \<and> P s' \<and> rel s' = rel s \<union> (\<Union>x \<in> set xs. A x)"
  using assms
proof (induction xs arbitrary: s)
  case (Cons x xs)
  obtain s1 where s1: "f x s = Inr s1" "P s1" "rel s1 = rel s \<union> A x"
    using Cons.prems(2)[of x s] Cons.prems(1) by auto
  have "\<exists>s'. res_fold f xs s1 = Inr s' \<and> P s' \<and> rel s' = rel s1 \<union> (\<Union>x \<in> set xs. A x)"
    by (rule Cons.IH) (use s1(2) Cons.prems(2) in auto)
  with s1 show ?case by auto
qed simp

text \<open>A loop whose body keeps \<open>Q\<close> and never fails.\<close>

lemma res_fold_keep: "Q s \<Longrightarrow> (\<And>x s. Q s \<Longrightarrow> \<exists>s'. f x s = Inr s' \<and> Q s') \<Longrightarrow> \<exists>s'. res_fold f xs s = Inr s' \<and> Q s'"
proof (induction xs arbitrary: s)
  case (Cons x xs)
  then obtain s1 where "f x s = Inr s1" "Q s1" by blast
  then show ?case using Cons.IH[of s1] Cons.prems(2) by simp
qed simp

lemma fold_collect:
  fixes rel :: "'s \<Rightarrow> 'r set"
  assumes "P s"
    and "\<And>x s. x \<in> set xs \<Longrightarrow> P s \<Longrightarrow> P (g x s) \<and> rel (g x s) = rel s \<union> A x"
  shows "P (fold g xs s) \<and> rel (fold g xs s) = rel s \<union> (\<Union>x \<in> set xs. A x)"
  using assms
proof (induction xs arbitrary: s)
  case (Cons x xs)
  have s1: "P (g x s)" "rel (g x s) = rel s \<union> A x"
    using Cons.prems by auto
  have "P (fold g xs (g x s)) \<and> rel (fold g xs (g x s)) = rel (g x s) \<union> (\<Union>x \<in> set xs. A x)"
    by (rule Cons.IH) (use s1 Cons.prems(2) in auto)
  with s1 show ?case by auto
qed simp

subsection \<open>Slices\<close>

definition slice_get :: "'a list \<Rightarrow> int \<Rightarrow> 'a result" where
  "slice_get xs i =
     (if 0 \<le> i \<and> i < int (length xs) then Inr (xs ! nat i) else Inl IndexOutOfRange)"

definition slice_set :: "'a list \<Rightarrow> int \<Rightarrow> 'a \<Rightarrow> 'a list result" where
  "slice_set xs i v =
     (if 0 \<le> i \<and> i < int (length xs) then Inr (xs[nat i := v]) else Inl IndexOutOfRange)"

lemma slice_get_nat [simp, go_simps]:
  "i < length xs \<Longrightarrow> slice_get xs (int i) = Inr (xs ! i)"
  by (simp add: slice_get_def)

lemma slice_get_Inr: "slice_get xs i = Inr x \<Longrightarrow> x \<in> set xs"
  by (auto simp: slice_get_def split: if_splits)

subsection \<open>Maps\<close>

text \<open>
  A Go map is an association list with distinct keys. Reading an absent key gives the
  zero value \<open>d\<close> of the element type; assignment is \<open>AList.update\<close>.
\<close>

type_synonym ('k, 'v) gomap = "('k \<times> 'v) list"

definition map_get :: "'v \<Rightarrow> ('k, 'v) gomap \<Rightarrow> 'k \<Rightarrow> 'v" where
  "map_get d m k = (case map_of m k of None \<Rightarrow> d | Some v \<Rightarrow> v)"

definition map_set :: "('k, 'v) gomap \<Rightarrow> 'k \<Rightarrow> 'v \<Rightarrow> ('k, 'v) gomap" where
  "map_set m k v = AList.update k v m"

definition map_keys :: "('k, 'v) gomap \<Rightarrow> 'k list" where
  "map_keys m = map fst m"

definition map_ok :: "('k, 'v) gomap \<Rightarrow> bool" where
  "map_ok m \<longleftrightarrow> distinct (map fst m)"

text \<open>The maps the program uses as sets hold \<open>true\<close> for their members.\<close>

abbreviation has :: "('k, bool) gomap \<Rightarrow> 'k \<Rightarrow> bool" where
  "has m k \<equiv> map_get False m k"

locale go_map =
  fixes lookup :: "'m \<Rightarrow> 'k \<Rightarrow> 'v option"
    and update :: "'m \<Rightarrow> 'k \<Rightarrow> 'v \<Rightarrow> 'm"
    and keys :: "'m \<Rightarrow> 'k list"
    and invar :: "'m \<Rightarrow> bool"
  assumes lookup_update: "lookup (update m k v) = (lookup m)(k \<mapsto> v)"
    and keys_dom: "set (keys m) = dom (lookup m)"
    and invar_update: "invar m \<Longrightarrow> invar (update m k v)"
    and invar_distinct: "invar m \<Longrightarrow> distinct (keys m)"
begin

lemma lookup_update_all:
  "lookup (fold (\<lambda>k m. update m k v) ks m) k =
     (if k \<in> set ks then Some v else lookup m k)"
  by (induction ks arbitrary: m) (auto simp: lookup_update)

lemma keys_update: "set (keys (update m k v)) = insert k (set (keys m))"
  by (simp add: keys_dom lookup_update)

lemma length_keys_update:
  "invar m \<Longrightarrow> k \<notin> set (keys m) \<Longrightarrow> length (keys (update m k v)) = Suc (length (keys m))"
  using distinct_card [OF invar_distinct [OF invar_update]] distinct_card [OF invar_distinct]
  by (metis List.finite_set card_insert_disjoint keys_update)

lemma invar_update_all: "invar m \<Longrightarrow> invar (fold (\<lambda>k m. update m k v) ks m)"
  by (induction ks arbitrary: m) (auto simp: invar_update)

end

interpretation gomap: go_map map_of map_set map_keys map_ok
  by unfold_locales
    (auto simp: map_set_def map_keys_def map_ok_def update_conv' dom_map_of_conv_image_fst
      distinct_update)

lemma map_get_set [simp, go_simps]:
  "map_get d (map_set m k v) k' = (if k' = k then v else map_get d m k')"
  by (simp add: map_get_def gomap.lookup_update)

lemma map_get_empty [simp, go_simps]: "map_get d [] k = d"
  by (simp add: map_get_def)

lemma map_ok_empty [simp]: "map_ok []"
  by (simp add: map_ok_def)

lemma map_ok_set [simp]: "map_ok m \<Longrightarrow> map_ok (map_set m k v)"
  by (rule gomap.invar_update)

text \<open>A map used as a set of keys taken from \<open>K\<close>.\<close>

definition key_set :: "'k set \<Rightarrow> ('k, bool) gomap \<Rightarrow> bool" where
  "key_set K m \<longleftrightarrow> map_ok m \<and> (\<forall>(k, v) \<in> set m. v \<and> k \<in> K)"

lemma set_update_subset: "set (AList.update k v m) \<subseteq> insert (k, v) (set m)"
  by (induction m) auto

lemma key_set_empty [simp]: "key_set K []"
  by (simp add: key_set_def)

lemma key_set_insert: "key_set K m \<Longrightarrow> k \<in> K \<Longrightarrow> key_set K (map_set m k True)"
  using set_update_subset[of k True m] by (auto simp: key_set_def map_set_def map_ok_def distinct_update)

lemma has_iff: "has m k \<longleftrightarrow> map_of m k = Some True"
  by (auto simp: map_get_def split: option.splits)

subsection \<open>Iteration order\<close>

text \<open>
  \<open>range\<close> over a map visits its keys in an unspecified order. A definition that
  ranges over a map whose order matters takes an argument \<open>rng\<close> that arranges the keys;
  the language promises only that it is a rearrangement.
\<close>

definition range_order :: "('a list \<Rightarrow> 'a list) \<Rightarrow> bool" where
  "range_order rng \<longleftrightarrow> (\<forall>xs. mset (rng xs) = mset xs)"

lemma range_order_set: "range_order rng \<Longrightarrow> set (rng xs) = set xs"
  by (metis range_order_def set_mset_mset)

lemma range_order_distinct: "range_order rng \<Longrightarrow> distinct (rng xs) \<longleftrightarrow> distinct xs"
  by (metis range_order_def mset_eq_imp_distinct_iff)

lemma range_order_id [simp]: "range_order (\<lambda>xs. xs)"
  by (simp add: range_order_def)

lemma range_order_rev [simp]: "range_order rev"
  by (simp add: range_order_def)

subsection \<open>Transition systems\<close>

inductive reach :: "('s \<Rightarrow> bool) \<Rightarrow> ('s \<Rightarrow> 's \<Rightarrow> bool) \<Rightarrow> 's \<Rightarrow> bool"
  for init :: "'s \<Rightarrow> bool" and step :: "'s \<Rightarrow> 's \<Rightarrow> bool" where
  reach_init: "init s \<Longrightarrow> reach init step s"
| reach_step: "reach init step s \<Longrightarrow> step s t \<Longrightarrow> reach init step t"

locale invariant_system =
  fixes init :: "'s \<Rightarrow> bool"
    and step :: "'s \<Rightarrow> 's \<Rightarrow> bool"
    and Inv :: "'s \<Rightarrow> bool"
  assumes init_inv: "init s \<Longrightarrow> Inv s"
    and step_inv: "step s t \<Longrightarrow> Inv s \<Longrightarrow> Inv t"
begin

lemma reachable_inv: "reach init step s \<Longrightarrow> Inv s"
  by (induction rule: reach.induct) (auto intro: init_inv step_inv)

lemma steps_inv: "step\<^sup>*\<^sup>* s t \<Longrightarrow> Inv s \<Longrightarrow> Inv t"
  by (induction rule: rtranclp_induct) (auto intro: step_inv)

end

end
