(* ===== verification/Locality_Nodes.thy ===== *)
theory Locality_Nodes
  imports Go_Prelude
begin

text \<open>
  The data of package \<open>gentree\<close>: node names and their index, locality nodes, the
  collection \<open>LocalityNodes\<close> with its lookups, the Euclidean distance, and the ordering
  and allocation that \<open>Service.Setup\<close> performs on the collection.
  A pointer to a locality node is its position in the slice \<open>All\<close>; a \<open>float64\<close> is
  a real number.
\<close>

subsection \<open>strings.Split, strconv.Atoi and strconv.Itoa\<close>

fun split_on :: "char \<Rightarrow> string \<Rightarrow> string list" where
  "split_on c [] = [[]]"
| "split_on c (x # xs) =
     (if x = c then [] # split_on c xs
      else case split_on c xs of [] \<Rightarrow> [[x]] | y # ys \<Rightarrow> (x # y) # ys)"

definition is_digit :: "char \<Rightarrow> bool" where
  "is_digit c \<longleftrightarrow> 48 \<le> (of_char c :: nat) \<and> (of_char c :: nat) \<le> 57"

definition digits_value :: "string \<Rightarrow> int" where
  "digits_value s = foldl (\<lambda>v c. 10 * v + (int (of_char c) - 48)) 0 s"

definition atoi :: "string \<Rightarrow> int option" where
  "atoi s =
     (let neg = (s \<noteq> [] \<and> hd s = CHR ''-'');
          ds = (if s \<noteq> [] \<and> (hd s = CHR ''-'' \<or> hd s = CHR ''+'') then tl s else s);
          v = (if neg then - digits_value ds else digits_value ds)
      in if ds = [] \<or> \<not> list_all is_digit ds then None
         else if - (2 ^ 63) \<le> v \<and> v < 2 ^ 63 then Some v else None)"

fun itoa_nat :: "nat \<Rightarrow> string" where
  "itoa_nat n =
     (if n < 10 then [char_of (48 + n)] else itoa_nat (n div 10) @ [char_of (48 + n mod 10)])"

declare itoa_nat.simps [simp del]

definition itoa :: "int \<Rightarrow> string" where
  "itoa i = (if i < 0 then CHR ''-'' # itoa_nat (nat (- i)) else itoa_nat (nat i))"

subsection \<open>Node names (gentree.go, NodeNameToInt)\<close>

definition NodeNameToInt :: "string \<Rightarrow> int result" where
  "NodeNameToInt nodeName =
     res_bind (slice_get (split_on CHR ''_'' nodeName) 1) (\<lambda>s.
       case atoi s of None \<Rightarrow> Inl (GoPanic ''strconv.Atoi'') | Some idx \<Rightarrow> Inr idx)"

definition node_name :: "int \<Rightarrow> string" where
  "node_name i = ''node_'' @ itoa i"

lemma split_on_no_sep: "c \<notin> set s \<Longrightarrow> split_on c s = [s]"
  by (induction s) auto

lemma split_on_append_sep: "c \<notin> set s \<Longrightarrow> split_on c (s @ c # t) = s # split_on c t"
  by (induction s) auto

lemma itoa_nat_nonempty [simp]: "itoa_nat n \<noteq> []"
  by (subst itoa_nat.simps) simp

lemma is_digit_char_of: "d < 10 \<Longrightarrow> is_digit (char_of (48 + d :: nat))"
  by (simp add: is_digit_def)

lemma itoa_nat_digits: "list_all is_digit (itoa_nat n)"
proof (induction n rule: itoa_nat.induct)
  case (1 n)
  then show ?case
    by (subst itoa_nat.simps) (auto simp: is_digit_char_of)
qed

lemma digits_value_snoc: "digits_value (s @ [c]) = 10 * digits_value s + (int (of_char c) - 48)"
  by (simp add: digits_value_def)

lemma digits_value_itoa: "digits_value (itoa_nat n) = int n"
proof (induction n rule: itoa_nat.induct)
  case (1 n)
  show ?case
  proof (cases "n < 10")
    case True
    then show ?thesis by (subst itoa_nat.simps) (simp add: digits_value_def)
  next
    case False
    have "int (n mod 10) + 10 * int (n div 10) = int n"
      by (metis mod_mult_div_eq of_nat_add of_nat_mult of_nat_numeral)
    with False 1 show ?thesis
      by (subst itoa_nat.simps) (simp add: digits_value_snoc)
  qed
qed

lemma digit_not_sep: "is_digit c \<Longrightarrow> c \<noteq> CHR ''_'' \<and> c \<noteq> CHR ''-'' \<and> c \<noteq> CHR ''+''"
  by (auto simp: is_digit_def)

lemma itoa_nat_no_sep: "CHR ''_'' \<notin> set (itoa_nat n)"
  using itoa_nat_digits[of n] digit_not_sep by (auto simp: list_all_iff)

lemma itoa_nat_hd: "hd (itoa_nat n) \<noteq> CHR ''-'' \<and> hd (itoa_nat n) \<noteq> CHR ''+''"
  using itoa_nat_digits[of n] digit_not_sep itoa_nat_nonempty[of n]
  by (metis list.set_sel(1) list_all_iff)

lemma atoi_itoa: "0 \<le> i \<Longrightarrow> i < 2 ^ 63 \<Longrightarrow> atoi (itoa i) = Some i"
  using itoa_nat_hd[of "nat i"] itoa_nat_digits[of "nat i"]
  by (simp add: atoi_def itoa_def digits_value_itoa Let_def)

lemma NodeNameToInt_node_name:
  assumes "0 \<le> i" "i < 2 ^ 63"
  shows "NodeNameToInt (node_name i) = Inr i"
proof -
  have "split_on CHR ''_'' (''node'' @ CHR ''_'' # itoa i) = [''node'', itoa i]"
    using assms(1) itoa_nat_no_sep[of "nat i"]
    by (subst split_on_append_sep) (auto simp: itoa_def split_on_no_sep)
  then show ?thesis
    using atoi_itoa[OF assms]
    by (simp add: NodeNameToInt_def node_name_def slice_get_def)
qed

subsection \<open>Locality nodes\<close>

text \<open>
  \<open>network.ServerIdentity\<close> is third-party; the program uses its identifier, its string
  form, the host of its address and the string form of its public key.
\<close>

record ServerIdentity =
  SI_ID :: nat
  SI_String :: string
  SI_Host :: string
  SI_Public :: string

record LocalityNode =
  Name :: string
  IP :: string
  X :: real
  Y :: real
  Level :: int
  ADist :: "real list"
  PDist :: "string list"
  Cluster :: "(string, bool) gomap"
  Bunch :: "(string, bool) gomap"
  OptimalCluster :: "(string, bool) gomap"
  OptimalBunch :: "(string, bool) gomap"
  Rings :: "string list"
  NrOwnRings :: int
  NodeIdentity :: "ServerIdentity option"

type_synonym node_ptr = nat

record LocalityNodes =
  All_nodes :: "LocalityNode list"
  ServerIdentityToName :: "(nat, string) gomap"
  ClusterBunchDistances :: "node_ptr \<Rightarrow> node_ptr \<Rightarrow> real"
  Links :: "node_ptr \<Rightarrow> node_ptr \<Rightarrow> (node_ptr, bool) gomap"

abbreviation nr_nodes :: "LocalityNodes \<Rightarrow> nat" where
  "nr_nodes ns \<equiv> length (All_nodes ns)"

abbreviation node_at :: "LocalityNodes \<Rightarrow> node_ptr \<Rightarrow> LocalityNode" where
  "node_at ns p \<equiv> All_nodes ns ! p"

definition update_node :: "node_ptr \<Rightarrow> (LocalityNode \<Rightarrow> LocalityNode) \<Rightarrow> LocalityNodes \<Rightarrow> LocalityNodes" where
  "update_node p f ns = ns\<lparr>All_nodes := (All_nodes ns)[p := f (node_at ns p)]\<rparr>"

lemma update_node_simps [simp]:
  "length (All_nodes (update_node p f ns)) = nr_nodes ns"
  "ClusterBunchDistances (update_node p f ns) = ClusterBunchDistances ns"
  "Links (update_node p f ns) = Links ns"
  "ServerIdentityToName (update_node p f ns) = ServerIdentityToName ns"
  by (simp_all add: update_node_def)

lemma node_at_update:
  "q < nr_nodes ns \<Longrightarrow>
     node_at (update_node p f ns) q = (if q = p then f (node_at ns p) else node_at ns q)"
  by (simp add: update_node_def nth_list_update)

subsection \<open>Lookups (gentree.go)\<close>

fun find_ip :: "LocalityNode list \<Rightarrow> string \<Rightarrow> nat \<Rightarrow> node_ptr option" where
  "find_ip [] ip i = None"
| "find_ip (n # ns) ip i = (if IP n = ip then Some i else find_ip ns ip (Suc i))"

definition GetByIP :: "LocalityNodes \<Rightarrow> string \<Rightarrow> node_ptr option" where
  "GetByIP ns ip = find_ip (All_nodes ns) ip 0"

definition GetByName :: "LocalityNodes \<Rightarrow> string \<Rightarrow> node_ptr option result" where
  "GetByName ns name =
     res_bind (NodeNameToInt name) (\<lambda>nodeIdx.
       if int (nr_nodes ns) < nodeIdx then Inr None
       else res_bind (slice_get (All_nodes ns) nodeIdx) (\<lambda>_. Inr (Some (nat nodeIdx))))"

definition NameToServerIdentity :: "LocalityNodes \<Rightarrow> string \<Rightarrow> ServerIdentity option result" where
  "NameToServerIdentity ns name =
     res_bind (GetByName ns name) (\<lambda>node.
       case node of None \<Rightarrow> Inr None | Some p \<Rightarrow> Inr (NodeIdentity (node_at ns p)))"

definition GetServerIdentityToName :: "LocalityNodes \<Rightarrow> ServerIdentity \<Rightarrow> string" where
  "GetServerIdentityToName ns sid = map_get [] (ServerIdentityToName ns) (SI_ID sid)"

text \<open>The slice is ordered by the index in the node names: what \<open>Setup\<close> establishes.\<close>

definition indexed :: "LocalityNode list \<Rightarrow> bool" where
  "indexed vs \<longleftrightarrow> (\<forall>i < length vs. NodeNameToInt (Name (vs ! i)) = Inr (int i))"

lemma indexedD: "indexed vs \<Longrightarrow> i < length vs \<Longrightarrow> NodeNameToInt (Name (vs ! i)) = Inr (int i)"
  by (simp add: indexed_def)

lemma indexed_inj:
  "indexed vs \<Longrightarrow> i < length vs \<Longrightarrow> j < length vs \<Longrightarrow> Name (vs ! i) = Name (vs ! j) \<longleftrightarrow> i = j"
  by (metis indexedD of_nat_eq_iff sum.inject(2))

lemma indexed_cong:
  assumes "length ws = length vs" "\<And>i. i < length vs \<Longrightarrow> Name (ws ! i) = Name (vs ! i)"
  shows "indexed ws = indexed vs"
  using assms by (simp add: indexed_def)

lemma GetByName_indexed [simp]:
  assumes "indexed (All_nodes ns)" "p < nr_nodes ns"
  shows "GetByName ns (Name (node_at ns p)) = Inr (Some p)"
  using assms by (simp add: GetByName_def indexedD)

text \<open>The outcomes of \<open>GetByName\<close>, in terms of the index of the name.\<close>

lemma GetByName_cases:
  assumes "NodeNameToInt name = Inr i"
  shows "GetByName ns name =
    (if int (nr_nodes ns) < i then Inr None
     else if 0 \<le> i \<and> i < int (nr_nodes ns) then Inr (Some (nat i))
     else Inl IndexOutOfRange)"
  using assms by (simp add: GetByName_def slice_get_def)

subsection \<open>Distances\<close>

text \<open>\<open>math.MaxFloat64\<close>.\<close>

definition max_float64 :: real where
  "max_float64 = (2 - 1 / 2 ^ 52) * 2 ^ 1023"

definition ComputeDist :: "LocalityNode \<Rightarrow> LocalityNode \<Rightarrow> real" where
  "ComputeDist v1 v2 = sqrt ((X v1 - X v2) ^ 2 + (Y v1 - Y v2) ^ 2)"

locale pseudometric =
  fixes d :: "'a \<Rightarrow> 'a \<Rightarrow> real"
  assumes d_self [simp]: "d a a = 0"
    and d_sym: "d a b = d b a"
    and d_triangle: "d a c \<le> d a b + d b c"
begin

lemma d_nonneg [simp]: "0 \<le> d a b"
  using d_triangle[of a a b] d_sym[of a b] by simp

lemma d_zero_same: "d a b = 0 \<Longrightarrow> d a c = d b c"
  using d_triangle[of a c b] d_triangle[of b c a] d_sym[of a b] by simp

text \<open>A detour through \<open>w\<close> costs at least the direct way and at most twice the way to
  \<open>w\<close> more.\<close>

lemma detour_lower: "d a b \<le> d w a + d w b"
  using d_triangle[of a b w] d_sym[of w a] by simp

lemma detour_upper: "d w a + d w b \<le> 2 * d w a + d a b"
  using d_triangle[of w b a] by simp

end

interpretation dist: pseudometric ComputeDist
proof
  fix a b c :: LocalityNode
  show "ComputeDist a a = 0" by (simp add: ComputeDist_def)
  show "ComputeDist a b = ComputeDist b a"
    by (simp add: ComputeDist_def power2_commute)
  have "sqrt ((X a - X b + (X b - X c))\<^sup>2 + (Y a - Y b + (Y b - Y c))\<^sup>2)
      \<le> sqrt ((X a - X b)\<^sup>2 + (Y a - Y b)\<^sup>2) + sqrt ((X b - X c)\<^sup>2 + (Y b - Y c)\<^sup>2)"
    by (rule real_sqrt_sum_squares_triangle_ineq)
  then show "ComputeDist a c \<le> ComputeDist a b + ComputeDist b c"
    by (simp add: ComputeDist_def)
qed

lemma ComputeDist_cong:
  "X a = X a' \<Longrightarrow> Y a = Y a' \<Longrightarrow> X b = X b' \<Longrightarrow> Y b = Y b' \<Longrightarrow> ComputeDist a b = ComputeDist a' b'"
  by (simp add: ComputeDist_def)

lemma ComputeDist_same_row: "Y a = Y b \<Longrightarrow> ComputeDist a b = \<bar>X a - X b\<bar>"
  by (simp add: ComputeDist_def)

subsection \<open>Ordering and allocation (Service.Setup)\<close>

definition reset_node :: "LocalityNode \<Rightarrow> LocalityNode" where
  "reset_node n = n\<lparr>ADist := [], PDist := [], OptimalCluster := [], OptimalBunch := [],
     Cluster := [], Bunch := [], Rings := []\<rparr>"

definition place_node :: "LocalityNode \<Rightarrow> LocalityNode option list \<Rightarrow> LocalityNode option list result" where
  "place_node n slots = res_bind (NodeNameToInt (Name n)) (\<lambda>i. slice_set slots i (Some n))"

definition order_nodes :: "LocalityNode list \<Rightarrow> LocalityNode option list result" where
  "order_nodes vs = res_fold place_node vs (replicate (length vs) None)"

text \<open>
  A slot no node was placed in holds \<open>nil\<close>; the first loop over the nodes dereferences it.
\<close>

definition deref_all :: "LocalityNode option list \<Rightarrow> LocalityNode list result" where
  "deref_all slots = (if None \<in> set slots then Inl NilDereference else Inr (map the slots))"

definition Setup_nodes ::
  "LocalityNode list \<Rightarrow> (ServerIdentity \<times> string) list \<Rightarrow> LocalityNodes result" where
  "Setup_nodes reqNodes reqNames =
     res_bind (order_nodes (map reset_node reqNodes)) (\<lambda>slots.
     res_bind (deref_all slots) (\<lambda>nodes.
       Inr \<lparr>All_nodes = nodes,
         ServerIdentityToName = fold (\<lambda>(k, v) m. map_set m (SI_ID k) v) reqNames [],
         ClusterBunchDistances = (\<lambda>a b. if a = b then 0 else max_float64),
         Links = (\<lambda>a b. [])\<rparr>))"

text \<open>The index a well-formed name carries.\<close>

definition name_idx :: "LocalityNode \<Rightarrow> nat" where
  "name_idx n = (case NodeNameToInt (Name n) of Inr i \<Rightarrow> nat i | Inl _ \<Rightarrow> 0)"

text \<open>The names of a request are a permutation of \<open>node_0\<close>, ..., \<open>node_(n-1)\<close>.\<close>

definition names_complete :: "LocalityNode list \<Rightarrow> bool" where
  "names_complete vs \<longleftrightarrow> distinct (map name_idx vs)
     \<and> (\<forall>n \<in> set vs. NodeNameToInt (Name n) = Inr (int (name_idx n)) \<and> name_idx n < length vs)"

lemma place_node_ok:
  assumes "names_complete vs" "n \<in> set vs" "length slots = length vs"
  shows "place_node n slots = Inr (slots[name_idx n := Some n])"
  using assms by (simp add: place_node_def names_complete_def slice_set_def)

lemma order_nodes_fold:
  assumes "names_complete vs"
  shows "order_nodes vs
      = Inr (fold (\<lambda>n s. s[name_idx n := Some n]) vs (replicate (length vs) None))"
  unfolding order_nodes_def
  using res_fold_pure[where P = "\<lambda>s. length s = length vs" and xs = vs
      and f = place_node and g = "\<lambda>n s. s[name_idx n := Some n]"] place_node_ok[OF assms]
  by simp

lemma length_fold_place [simp]:
  "length (fold (\<lambda>n s. s[name_idx n := Some n]) vs slots) = length slots"
  by (induction vs arbitrary: slots) auto

lemma fold_place_nth:
  assumes "distinct (map name_idx vs)" "n \<in> set vs" "name_idx n < length slots"
  shows "fold (\<lambda>n s. s[name_idx n := Some n]) vs slots ! name_idx n = Some n"
  using assms
proof (induction vs rule: rev_induct)
  case (snoc v vs)
  show ?case
  proof (cases "n = v")
    case False
    have "name_idx v \<notin> name_idx ` set vs" and "n \<in> set vs"
      using snoc.prems False by auto
    then have "name_idx v \<noteq> name_idx n" by blast
    with False snoc show ?thesis by simp
  qed (use snoc.prems in simp)
qed simp

lemma names_complete_surj:
  assumes "names_complete vs"
  shows "name_idx ` set vs = {..<length vs}"
proof (rule card_subset_eq)
  have "card (name_idx ` set vs) = card (set (map name_idx vs))" by simp
  also have "\<dots> = length (map name_idx vs)"
    using assms by (intro distinct_card) (simp add: names_complete_def)
  finally show "card (name_idx ` set vs) = card {..<length vs}" by simp
qed (use assms in \<open>auto simp: names_complete_def\<close>)

lemma order_nodes_complete:
  assumes "names_complete vs"
  obtains nodes where "order_nodes vs = Inr (map Some nodes)" "indexed nodes" "mset nodes = mset vs"
proof -
  define slots where "slots = fold (\<lambda>n s. s[name_idx n := Some n]) vs (replicate (length vs) None)"
  have len: "length slots = length vs" by (simp add: slots_def)
  have at: "slots ! name_idx n = Some n" if "n \<in> set vs" for n
    unfolding slots_def
    using assms that by (intro fold_place_nth) (auto simp: names_complete_def)
  define nodes where "nodes = map the slots"
  have slot: "\<exists>n \<in> set vs. name_idx n = i \<and> slots ! i = Some n" if "i < length vs" for i
    using that at names_complete_surj[OF assms] by (metis imageE lessThan_iff)
  have nth: "slots ! i = Some (nodes ! i)" if "i < length vs" for i
    using slot[OF that] that len by (auto simp: nodes_def)
  have lenN: "length nodes = length vs" by (simp add: nodes_def len)
  have "map Some nodes = slots"
    by (intro nth_equalityI) (simp_all add: nth len lenN)
  moreover have "indexed nodes"
    unfolding indexed_def
  proof (intro allI impI)
    fix i assume "i < length nodes"
    then have i: "i < length vs" by (simp add: lenN)
    then obtain n where "n \<in> set vs" "name_idx n = i" "nodes ! i = n"
      using slot[OF i] nth[OF i] by auto
    then show "NodeNameToInt (Name (nodes ! i)) = Inr (int i)"
      using assms by (auto simp: names_complete_def)
  qed
  moreover have "mset nodes = mset vs"
  proof -
    have "map (\<lambda>n. nodes ! name_idx n) vs = vs"
      using assms at nth by (intro map_idI) (auto simp: names_complete_def)
    moreover have "nodes = map ((!) nodes) [0..<length vs]"
      by (intro nth_equalityI) (simp_all add: lenN)
    moreover have "mset (map name_idx vs) = mset [0..<length vs]"
      using assms names_complete_surj[OF assms]
      by (intro set_eq_iff_mset_eq_distinct[THEN iffD1])
        (auto simp: names_complete_def atLeast0LessThan)
    then have "mset (map ((!) nodes) (map name_idx vs)) = mset (map ((!) nodes) [0..<length vs])"
      by (metis mset_map)
    ultimately show ?thesis by (simp add: comp_def)
  qed
  ultimately show ?thesis
    using that order_nodes_fold[OF assms] slots_def by metis
qed

lemma reset_node_Name [simp]: "Name (reset_node n) = Name n"
  by (simp add: reset_node_def)

lemma names_complete_reset: "names_complete (map reset_node vs) = names_complete vs"
proof -
  have "name_idx (reset_node n) = name_idx n" for n by (simp add: name_idx_def)
  then show ?thesis by (simp add: names_complete_def comp_def)
qed

text \<open>A request whose names are \<open>node_0\<close> to \<open>node_(n-1)\<close> in any order is accepted:
  \<open>Setup\<close> keeps exactly its nodes, cleared, orders them by index so that
  \<open>GetByName\<close> finds each under its own name, and marks every pair of different nodes as
  not linked.\<close>

theorem Setup_orders_nodes:
  assumes "names_complete reqNodes"
  shows "\<exists>ns. Setup_nodes reqNodes reqNames = Inr ns
    \<and> mset (All_nodes ns) = mset (map reset_node reqNodes)
    \<and> (\<forall>p < nr_nodes ns. GetByName ns (Name (node_at ns p)) = Inr (Some p))
    \<and> (\<forall>p < nr_nodes ns. \<forall>q < nr_nodes ns.
         ClusterBunchDistances ns p q = (if p = q then 0 else max_float64))"
proof -
  obtain nodes where n: "order_nodes (map reset_node reqNodes) = Inr (map Some nodes)"
    "indexed nodes" "mset nodes = mset (map reset_node reqNodes)"
    using assms order_nodes_complete[of "map reset_node reqNodes"] names_complete_reset by metis
  have "deref_all (map Some nodes) = Inr nodes"
    by (auto simp: deref_all_def comp_def)
  with n(1) obtain ns where ns: "Setup_nodes reqNodes reqNames = Inr ns" "All_nodes ns = nodes"
    "ClusterBunchDistances ns = (\<lambda>a b. if a = b then 0 else max_float64)"
    by (simp add: Setup_nodes_def)
  moreover have "\<forall>p < nr_nodes ns. GetByName ns (Name (node_at ns p)) = Inr (Some p)"
    using GetByName_indexed[of ns] n(2) by (simp only: ns(2)) blast
  ultimately show ?thesis using n(3) by auto
qed

theorem Setup_orders_nodes_witness:
  "\<exists>ns. Setup_nodes
      [\<lparr>Name = ''node_1'', IP = [], X = 5, Y = 0, Level = 1, ADist = [], PDist = [], Cluster = [],
        Bunch = [], OptimalCluster = [], OptimalBunch = [], Rings = [], NrOwnRings = 0,
        NodeIdentity = None\<rparr>,
       \<lparr>Name = ''node_0'', IP = [], X = 0, Y = 0, Level = 0, ADist = [], PDist = [], Cluster = [],
        Bunch = [], OptimalCluster = [], OptimalBunch = [], Rings = [], NrOwnRings = 0,
        NodeIdentity = None\<rparr>] [] = Inr ns
    \<and> (\<forall>p < nr_nodes ns. GetByName ns (Name (node_at ns p)) = Inr (Some p))"
proof -
  have "NodeNameToInt ''node_0'' = Inr 0" "NodeNameToInt ''node_1'' = Inr 1" by code_simp+
  then show ?thesis
    using Setup_orders_nodes[where reqNames = "[]" and reqNodes =
      "[\<lparr>Name = ''node_1'', IP = [], X = 5, Y = 0, Level = 1, ADist = [], PDist = [], Cluster = [],
        Bunch = [], OptimalCluster = [], OptimalBunch = [], Rings = [], NrOwnRings = 0,
        NodeIdentity = None\<rparr>,
       \<lparr>Name = ''node_0'', IP = [], X = 0, Y = 0, Level = 0, ADist = [], PDist = [], Cluster = [],
        Bunch = [], OptimalCluster = [], OptimalBunch = [], Rings = [], NrOwnRings = 0,
        NodeIdentity = None\<rparr>]"]
    by (auto simp: names_complete_def name_idx_def)
qed

end
