(* ===== verification/Locality_Graph.thy ===== *)
theory Locality_Graph
  imports Locality_Nodes
begin

text \<open>
  \<open>gentree.CreateLocalityGraph\<close>: random coordinates and levels, the nearest node of
  every level, the bunch and the cluster of every node and the table of direct distances.
  The files the function writes are left out. The predicate \<open>locality_graph\<close> at the end is
  what the distance oracle relies on.
\<close>

subsection \<open>Random coordinates and levels\<close>

text \<open>\<open>rand k\<close> is the \<open>k\<close>-th value the random source yields.\<close>

fun random_coords :: "(nat \<Rightarrow> real) \<Rightarrow> LocalityNode list \<Rightarrow> nat \<Rightarrow> LocalityNode list \<times> nat" where
  "random_coords rand [] k = ([], k)"
| "random_coords rand (n # ns) k =
     (let (ns', k') = random_coords rand ns (k + 2)
      in (n\<lparr>X := rand k * 500, Y := rand (k + 1) * 500\<rparr> # ns', k'))"

fun promote :: "(nat \<Rightarrow> real) \<Rightarrow> real \<Rightarrow> int \<Rightarrow> LocalityNode list \<Rightarrow> nat \<Rightarrow> LocalityNode list \<times> nat" where
  "promote rand pr i [] k = ([], k)"
| "promote rand pr i (n # ns) k =
     (if Level n = i - 1
      then (let (ns', k') = promote rand pr i ns (k + 1)
            in ((if rand k < pr then n\<lparr>Level := i\<rparr> else n) # ns', k'))
      else (let (ns', k') = promote rand pr i ns k in (n # ns', k')))"

definition random_levels ::
  "(nat \<Rightarrow> real) \<Rightarrow> int \<Rightarrow> LocalityNode list \<Rightarrow> nat \<Rightarrow> LocalityNode list \<times> nat" where
  "random_levels rand levels vs k =
     (let pr = 1 / (real (length vs) powr (1 / of_int levels))
      in fold (\<lambda>i (vs, k). promote rand pr (int i) vs k) [1..<nat levels] (vs, k))"

definition randomise ::
  "(nat \<Rightarrow> real) \<Rightarrow> bool \<Rightarrow> bool \<Rightarrow> int \<Rightarrow> LocalityNode list \<Rightarrow> LocalityNode list" where
  "randomise rand randomCoords randomLevels levels vs =
     (let (vs1, k1) = (if randomCoords then random_coords rand vs 0 else (vs, 0));
          (vs2, _) = (if randomLevels then random_levels rand levels vs1 k1 else (vs1, k1))
      in vs2)"

subsection \<open>The nearest node of every level\<close>

text \<open>The inner loop over \<open>v2\<close>: the name and the distance of the best node so far.\<close>

fun nearest :: "LocalityNode \<Rightarrow> int \<Rightarrow> LocalityNode list \<Rightarrow> string \<times> real \<Rightarrow> string \<times> real" where
  "nearest v1 i [] acc = acc"
| "nearest v1 i (v2 # vs) (node, mn) =
     nearest v1 i vs
       (if i \<le> Level v2 \<and> ComputeDist v1 v2 < mn then (Name v2, ComputeDist v1 v2) else (node, mn))"

definition append_level :: "nat \<Rightarrow> LocalityNode list \<Rightarrow> LocalityNode list" where
  "append_level i vs =
     map (\<lambda>v1. let (node, mn) = nearest v1 (int i) vs ('''', max_float64)
               in v1\<lparr>PDist := PDist v1 @ [node], ADist := ADist v1 @ [mn]\<rparr>) vs"

definition level_phase :: "int \<Rightarrow> LocalityNode list \<Rightarrow> LocalityNode list" where
  "level_phase levels vs = fold append_level [0..<nat levels] vs"

subsection \<open>Bunches\<close>

fun check_from :: "real \<Rightarrow> nat list \<Rightarrow> real list \<Rightarrow> bool result" where
  "check_from distance [] Adist = Inr True"
| "check_from distance (i # is) Adist =
     res_bind (slice_get Adist (int i)) (\<lambda>a.
       if distance \<le> a then check_from distance is Adist else Inr False)"

definition checkDistance :: "real \<Rightarrow> nat \<Rightarrow> nat \<Rightarrow> real list \<Rightarrow> bool result" where
  "checkDistance distance lvl lvls Adist = check_from distance [lvl + 1..<lvls] Adist"

definition set_both :: "node_ptr \<Rightarrow> node_ptr \<Rightarrow> real \<Rightarrow> LocalityNodes \<Rightarrow> LocalityNodes" where
  "set_both a b d ns =
     (let f = ClusterBunchDistances ns;
          f1 = f(a := (f a)(b := d))
      in ns\<lparr>ClusterBunchDistances := f1(b := (f1 b)(a := d))\<rparr>)"

definition link_bunch :: "node_ptr \<Rightarrow> node_ptr \<Rightarrow> real \<Rightarrow> LocalityNodes \<Rightarrow> LocalityNodes" where
  "link_bunch v1 v2 d ns =
     (let nm = Name (node_at ns v2)
      in set_both v1 v2 d
           (update_node v1 (\<lambda>n. n\<lparr>Bunch := map_set (Bunch n) nm True,
              OptimalBunch := map_set (OptimalBunch n) nm True\<rparr>) ns))"

definition bunch_step ::
  "int \<Rightarrow> node_ptr \<Rightarrow> nat \<Rightarrow> node_ptr \<Rightarrow> LocalityNodes \<Rightarrow> LocalityNodes result" where
  "bunch_step levels v1 i v2 ns =
     (let d = ComputeDist (node_at ns v1) (node_at ns v2)
      in res_bind
           (if int i \<le> Level (node_at ns v2)
            then res_bind (checkDistance d i (nat levels) (ADist (node_at ns v1))) (\<lambda>ok.
              Inr (if ok \<and> v2 \<noteq> v1 then link_bunch v1 v2 d ns else ns))
            else Inr ns)
           (\<lambda>ns1. Inr (if Level (node_at ns1 v2) = levels - 1 \<and> v2 \<noteq> v1
                       then link_bunch v1 v2 d ns1 else ns1)))"

definition bunch_phase :: "int \<Rightarrow> LocalityNodes \<Rightarrow> LocalityNodes result" where
  "bunch_phase levels ns =
     res_fold (\<lambda>v1. res_fold (\<lambda>i. res_fold (bunch_step levels v1 i) [0..<nr_nodes ns])
       [0..<nat levels - 1]) [0..<nr_nodes ns] ns"

subsection \<open>Clusters\<close>

definition cluster_step :: "node_ptr \<Rightarrow> node_ptr \<Rightarrow> LocalityNodes \<Rightarrow> LocalityNodes" where
  "cluster_step v1 v2 ns =
     (if has (Bunch (node_at ns v2)) (Name (node_at ns v1))
         \<and> Name (node_at ns v2) \<noteq> Name (node_at ns v1)
      then (let nm = Name (node_at ns v2); d = ComputeDist (node_at ns v1) (node_at ns v2)
            in set_both v1 v2 d
                 (update_node v1 (\<lambda>n. n\<lparr>OptimalCluster := map_set (OptimalCluster n) nm True,
                    Cluster := map_set (Cluster n) nm True\<rparr>) ns))
      else ns)"

definition cluster_phase :: "LocalityNodes \<Rightarrow> LocalityNodes" where
  "cluster_phase ns =
     fold (\<lambda>v1. fold (cluster_step v1) [0..<nr_nodes ns]) [0..<nr_nodes ns] ns"

definition CreateLocalityGraph ::
  "(nat \<Rightarrow> real) \<Rightarrow> LocalityNodes \<Rightarrow> bool \<Rightarrow> bool \<Rightarrow> int \<Rightarrow> LocalityNodes result" where
  "CreateLocalityGraph rand ns randomCoords randomLevels levels =
     res_bind (bunch_phase levels
        (ns\<lparr>All_nodes := level_phase levels
              (randomise rand randomCoords randomLevels levels (All_nodes ns))\<rparr>))
       (\<lambda>ns1. Inr (cluster_phase ns1))"

subsection \<open>What the phases compute: nearest nodes\<close>

definition same_place :: "LocalityNode \<Rightarrow> LocalityNode \<Rightarrow> bool" where
  "same_place a b \<longleftrightarrow> X a = X b \<and> Y a = Y b \<and> Level a = Level b \<and> Name a = Name b
     \<and> Rings a = Rings b \<and> NrOwnRings a = NrOwnRings b \<and> NodeIdentity a = NodeIdentity b"

lemma same_place_dist: "same_place a a' \<Longrightarrow> same_place b b' \<Longrightarrow> ComputeDist a b = ComputeDist a' b'"
  by (auto simp: same_place_def intro: ComputeDist_cong)

lemma nearest_cong:
  assumes "same_place v w"
  shows "list_all2 same_place vs ws \<Longrightarrow> nearest v i vs acc = nearest w i ws acc"
proof (induction vs ws arbitrary: acc rule: list_all2_induct)
  case (Cons a vs b ws)
  obtain node mn where acc: "acc = (node, mn)" by fastforce
  have "Level a = Level b" "Name a = Name b" "ComputeDist v a = ComputeDist w b"
    using Cons.hyps(1) same_place_dist[OF assms, of a b] by (simp_all add: same_place_def)
  then have "nearest v i (a # vs) acc
      = nearest v i vs (if i \<le> Level b \<and> ComputeDist w b < mn then (Name b, ComputeDist w b) else (node, mn))"
    unfolding acc by simp
  also have "\<dots> = nearest w i (b # ws) acc"
    unfolding acc Cons.IH by simp
  finally show ?case .
qed simp

definition level_entry :: "LocalityNode list \<Rightarrow> nat \<Rightarrow> LocalityNode \<Rightarrow> LocalityNode" where
  "level_entry vs L v =
     v\<lparr>PDist := PDist v @ map (\<lambda>i. fst (nearest v (int i) vs ('''', max_float64))) [0..<L],
       ADist := ADist v @ map (\<lambda>i. snd (nearest v (int i) vs ('''', max_float64))) [0..<L]\<rparr>"

lemma level_entry_same_place: "same_place (level_entry vs L v) v"
  by (simp add: level_entry_def same_place_def)

lemma fold_append_level: "fold append_level [0..<L] vs = map (level_entry vs L) vs"
proof (induction L)
  case 0
  have "level_entry vs 0 v = v" for v by (simp add: level_entry_def)
  then show ?case by simp
next
  case (Suc L)
  have "nearest (level_entry vs L v) (int L) (map (level_entry vs L) vs) acc = nearest v (int L) vs acc"
    for v acc
    by (rule nearest_cong) (simp_all add: level_entry_same_place list_all2_map1 list_all2_same)
  then have "append_level L (map (level_entry vs L) vs) = map (level_entry vs (Suc L)) vs"
    by (simp add: append_level_def level_entry_def split_beta Let_def)
  with Suc show ?case by simp
qed

lemma level_phase_map: "level_phase levels vs = map (level_entry vs (nat levels)) vs"
  by (simp add: level_phase_def fold_append_level)

text \<open>The scan keeps the minimum, and a name that attains it.\<close>

lemma nearest_le: "snd (nearest v i vs (nm, mn)) \<le> mn"
proof (induction vs arbitrary: nm mn)
  case (Cons a vs)
  have "snd (nearest v i vs (Name a, ComputeDist v a)) \<le> ComputeDist v a" by (rule Cons.IH)
  moreover have "snd (nearest v i vs (nm, mn)) \<le> mn" by (rule Cons.IH)
  ultimately show ?case by simp
qed simp

lemma nearest_lower:
  "w \<in> set vs \<Longrightarrow> i \<le> Level w \<Longrightarrow> snd (nearest v i vs (nm, mn)) \<le> ComputeDist v w"
proof (induction vs arbitrary: nm mn)
  case (Cons a vs)
  show ?case
  proof (cases "w = a")
    case True
    with Cons.prems show ?thesis
      using nearest_le[of v i vs "Name a" "ComputeDist v a"] nearest_le[of v i vs nm mn] by auto
  next
    case False
    with Cons show ?thesis by simp
  qed
qed simp

lemma nearest_attained:
  "nearest v i vs (nm, mn) = (nm, mn)
   \<or> (\<exists>w \<in> set vs. i \<le> Level w \<and> nearest v i vs (nm, mn) = (Name w, ComputeDist v w)
        \<and> ComputeDist v w < mn)"
proof (induction vs arbitrary: nm mn)
  case (Cons a vs)
  show ?case
  proof (cases "i \<le> Level a \<and> ComputeDist v a < mn")
    case True
    then show ?thesis using Cons.IH[of "Name a" "ComputeDist v a"] by fastforce
  next
    case False
    then show ?thesis using Cons.IH[of nm mn] by auto
  qed
qed simp

text \<open>
  \<open>nearest_ok g p i\<close>: the two tables of node \<open>p\<close> at level \<open>i\<close> give the distance to
  the nearest node of that level or above, and its name; a level without nodes gives
  \<open>MaxFloat64\<close> and the empty name.
\<close>

definition nearest_ok :: "LocalityNodes \<Rightarrow> node_ptr \<Rightarrow> nat \<Rightarrow> bool" where
  "nearest_ok g p i \<longleftrightarrow>
     (\<forall>q < nr_nodes g. int i \<le> Level (node_at g q) \<longrightarrow>
        ADist (node_at g p) ! i \<le> ComputeDist (node_at g p) (node_at g q))
     \<and> (PDist (node_at g p) ! i = '''' \<and> ADist (node_at g p) ! i = max_float64
        \<or> (\<exists>q < nr_nodes g. int i \<le> Level (node_at g q) \<and> PDist (node_at g p) ! i = Name (node_at g q)
            \<and> ADist (node_at g p) ! i = ComputeDist (node_at g p) (node_at g q)
            \<and> ADist (node_at g p) ! i < max_float64))"

lemma level_entry_nearest_ok:
  assumes "All_nodes g = map (level_entry vs L) vs" and "p < length vs" "i < L"
    and "ADist (vs ! p) = []" "PDist (vs ! p) = []"
  shows "nearest_ok g p i"
proof -
  let ?r = "nearest (vs ! p) (int i) vs ('''', max_float64)"
  have d: "ComputeDist (node_at g p) (node_at g q) = ComputeDist (vs ! p) (vs ! q)"
    if "q < length vs" for q
    using assms(1,2) that by (simp add: same_place_dist[OF level_entry_same_place level_entry_same_place])
  have lv: "Level (node_at g q) = Level (vs ! q)" "Name (node_at g q) = Name (vs ! q)"
    if "q < length vs" for q
    using assms(1) that by (simp_all add: level_entry_def)
  have r: "ADist (node_at g p) ! i = snd ?r" "PDist (node_at g p) ! i = fst ?r"
    using assms by (simp_all add: level_entry_def)
  have len: "nr_nodes g = length vs" using assms(1) by simp
  have "snd ?r \<le> ComputeDist (vs ! p) (vs ! q)" if "q < length vs" "int i \<le> Level (vs ! q)" for q
    using that by (intro nearest_lower) auto
  moreover have "?r = ('''', max_float64) \<or> (\<exists>q < length vs. int i \<le> Level (vs ! q)
      \<and> ?r = (Name (vs ! q), ComputeDist (vs ! p) (vs ! q)) \<and> ComputeDist (vs ! p) (vs ! q) < max_float64)"
    using nearest_attained[of "vs ! p" "int i" vs "''''" max_float64] by (metis in_set_conv_nth)
  ultimately show ?thesis
    unfolding nearest_ok_def using d lv r len by (auto simp: len)
qed

subsection \<open>What the phases compute: bunches and direct distances\<close>

lemma check_from_ok:
  "(\<forall>i \<in> set is. i < length A) \<Longrightarrow> check_from d is A = Inr (\<forall>i \<in> set is. d \<le> A ! i)"
  by (induction "is") auto

lemma checkDistance_ok [simp]:
  "L \<le> length A \<Longrightarrow> checkDistance d i L A = Inr (\<forall>j. i < j \<and> j < L \<longrightarrow> d \<le> A ! j)"
  unfolding checkDistance_def by (subst check_from_ok) (auto simp: Ball_def Suc_le_eq)

text \<open>The part of a node that linking bunches leaves alone.\<close>

definition bare :: "LocalityNode \<Rightarrow> LocalityNode" where
  "bare n = n\<lparr>Bunch := [], OptimalBunch := []\<rparr>"

lemma bare_simps [simp]:
  "Name (bare n) = Name n" "IP (bare n) = IP n" "X (bare n) = X n" "Y (bare n) = Y n"
  "Level (bare n) = Level n" "ADist (bare n) = ADist n" "PDist (bare n) = PDist n"
  "Cluster (bare n) = Cluster n" "OptimalCluster (bare n) = OptimalCluster n"
  "Rings (bare n) = Rings n" "NrOwnRings (bare n) = NrOwnRings n"
  "NodeIdentity (bare n) = NodeIdentity n"
  by (simp_all add: bare_def)

lemma bare_eqD:
  assumes "bare a = bare b"
  shows "Name a = Name b" "X a = X b" "Y a = Y b" "Level a = Level b" "ADist a = ADist b"
    "PDist a = PDist b" "Cluster a = Cluster b" "OptimalCluster a = OptimalCluster b"
    "Rings a = Rings b" "NrOwnRings a = NrOwnRings b" "NodeIdentity a = NodeIdentity b"
  using assms by (metis bare_simps)+

definition bunch_rel :: "LocalityNodes \<Rightarrow> (node_ptr \<times> node_ptr) set" where
  "bunch_rel g = {(a, b). a < nr_nodes g \<and> b < nr_nodes g
     \<and> has (Bunch (node_at g a)) (Name (node_at g b))}"

abbreviation node_dist :: "LocalityNodes \<Rightarrow> node_ptr \<Rightarrow> node_ptr \<Rightarrow> real" where
  "node_dist g a b \<equiv> ComputeDist (node_at g a) (node_at g b)"

text \<open>The table holds the distance of the pairs that are linked, 0 on the diagonal.\<close>

definition table_ok :: "LocalityNodes \<Rightarrow> bool" where
  "table_ok g \<longleftrightarrow> (\<forall>a < nr_nodes g. \<forall>b < nr_nodes g. ClusterBunchDistances g a b =
     (if a = b then 0 else if (a, b) \<in> bunch_rel g \<or> (b, a) \<in> bunch_rel g
      then node_dist g a b else max_float64))"

definition bunch_inv :: "LocalityNodes \<Rightarrow> LocalityNodes \<Rightarrow> bool" where
  "bunch_inv g0 g \<longleftrightarrow>
     map bare (All_nodes g) = map bare (All_nodes g0)
     \<and> (\<forall>p < nr_nodes g. OptimalBunch (node_at g p) = Bunch (node_at g p)
          \<and> key_set (Name ` set (All_nodes g)) (Bunch (node_at g p)))
     \<and> table_ok g \<and> indexed (All_nodes g)"

lemma bunch_inv_nodes:
  assumes "bunch_inv g0 g"
  shows "nr_nodes g = nr_nodes g0"
    and "p < nr_nodes g0 \<Longrightarrow> bare (node_at g p) = bare (node_at g0 p)"
  using assms unfolding bunch_inv_def by (metis length_map, metis length_map nth_map)

lemmas bunch_inv_node = bare_eqD[OF bunch_inv_nodes(2)]

lemma bunch_inv_dist:
  "bunch_inv g0 g \<Longrightarrow> a < nr_nodes g0 \<Longrightarrow> b < nr_nodes g0 \<Longrightarrow> node_dist g a b = node_dist g0 a b"
  by (intro ComputeDist_cong bunch_inv_node)

lemma set_both_simps [simp]:
  "All_nodes (set_both a b d g) = All_nodes g"
  "Links (set_both a b d g) = Links g"
  "ClusterBunchDistances (set_both a b d g) x y =
     (if x = a \<and> y = b \<or> x = b \<and> y = a then d else ClusterBunchDistances g x y)"
  by (auto simp: set_both_def Let_def)

lemma link_bunch_nodes:
  assumes "p < nr_nodes g"
  shows "node_at (link_bunch v1 v2 d g) p =
    (if p = v1 then (node_at g p)\<lparr>Bunch := map_set (Bunch (node_at g p)) (Name (node_at g v2)) True,
       OptimalBunch := map_set (OptimalBunch (node_at g p)) (Name (node_at g v2)) True\<rparr>
     else node_at g p)"
  using assms by (simp add: link_bunch_def Let_def node_at_update)

lemma link_bunch_length [simp]: "nr_nodes (link_bunch v1 v2 d g) = nr_nodes g"
  by (simp add: link_bunch_def Let_def)

lemma link_bunch_bare: "map bare (All_nodes (link_bunch v1 v2 d g)) = map bare (All_nodes g)"
  by (intro nth_equalityI) (auto simp: link_bunch_nodes bare_def)

lemma link_bunch_Name [simp]:
  "p < nr_nodes g \<Longrightarrow> Name (node_at (link_bunch v1 v2 d g) p) = Name (node_at g p)"
  by (simp add: link_bunch_nodes)

lemma link_bunch_rel:
  assumes "indexed (All_nodes g)" "v1 < nr_nodes g" "v2 < nr_nodes g"
  shows "bunch_rel (link_bunch v1 v2 d g) = insert (v1, v2) (bunch_rel g)"
  using assms by (auto simp: bunch_rel_def link_bunch_nodes indexed_inj split: if_splits)

lemma link_bunch_dist:
  "a < nr_nodes g \<Longrightarrow> b < nr_nodes g \<Longrightarrow> node_dist (link_bunch v1 v2 d g) a b = node_dist g a b"
  by (intro ComputeDist_cong) (simp_all add: link_bunch_nodes)

lemma link_bunch_table:
  assumes "indexed (All_nodes g)" "v1 < nr_nodes g" "v2 < nr_nodes g" "v1 \<noteq> v2"
    and "d = node_dist g v1 v2" "table_ok g"
  shows "table_ok (link_bunch v1 v2 d g)"
proof -
  have "ClusterBunchDistances (link_bunch v1 v2 d g) a b =
      (if a = v1 \<and> b = v2 \<or> a = v2 \<and> b = v1 then d else ClusterBunchDistances g a b)" for a b
    by (simp add: link_bunch_def Let_def)
  then show ?thesis
    using assms(4-6) dist.d_sym
    by (auto simp: table_ok_def link_bunch_rel[OF assms(1-3)] link_bunch_dist)
qed

lemma link_bunch_inv:
  assumes "bunch_inv g0 g" "v1 < nr_nodes g" "v2 < nr_nodes g" "v1 \<noteq> v2" "d = node_dist g v1 v2"
  shows "bunch_inv g0 (link_bunch v1 v2 d g)"
proof -
  let ?g = "link_bunch v1 v2 d g"
  have names: "Name ` set (All_nodes ?g) = Name ` set (All_nodes g)"
    by (metis (mono_tags, lifting) bare_simps(1) image_cong image_image link_bunch_bare list.set_map)
  have idx: "indexed (All_nodes ?g)"
    using assms(1) by (subst indexed_cong[of _ "All_nodes g"]) (simp_all add: bunch_inv_def)
  have "OptimalBunch (node_at ?g p) = Bunch (node_at ?g p)
      \<and> key_set (Name ` set (All_nodes g)) (Bunch (node_at ?g p))" if "p < nr_nodes g" for p
    using assms(1,3) that by (auto simp: link_bunch_nodes bunch_inv_def intro: key_set_insert)
  then show ?thesis
    using assms(1) link_bunch_table[OF _ assms(2-5)] idx
    unfolding bunch_inv_def link_bunch_bare names link_bunch_length by blast
qed

text \<open>The condition under which one iteration links \<open>v2\<close> into the bunch of \<open>v1\<close>.\<close>

definition bunch_cond :: "int \<Rightarrow> LocalityNodes \<Rightarrow> node_ptr \<Rightarrow> nat \<Rightarrow> node_ptr \<Rightarrow> bool" where
  "bunch_cond levels g v1 i v2 \<longleftrightarrow> v2 \<noteq> v1
     \<and> (int i \<le> Level (node_at g v2)
          \<and> (\<forall>j. i < j \<and> j < nat levels \<longrightarrow> node_dist g v1 v2 \<le> ADist (node_at g v1) ! j)
        \<or> Level (node_at g v2) = levels - 1)"

lemma bunch_step_inv:
  assumes "bunch_inv g0 g" "v1 < nr_nodes g0" "v2 < nr_nodes g0"
    and "nat levels \<le> length (ADist (node_at g0 v1))"
  shows "\<exists>g'. bunch_step levels v1 i v2 g = Inr g' \<and> bunch_inv g0 g'
    \<and> bunch_rel g' = bunch_rel g \<union> (if bunch_cond levels g0 v1 i v2 then {(v1, v2)} else {})"
proof -
  let ?d = "node_dist g v1 v2"
  note n = bunch_inv_nodes(1)[OF assms(1)]
  have lt: "v1 < nr_nodes g" "v2 < nr_nodes g" using assms n by simp_all
  have eqs: "?d = node_dist g0 v1 v2" "Level (node_at g v2) = Level (node_at g0 v2)"
    "ADist (node_at g v1) = ADist (node_at g0 v1)"
    using assms bunch_inv_dist bunch_inv_node by simp_all
  define c1 where "c1 \<longleftrightarrow> v2 \<noteq> v1 \<and> int i \<le> Level (node_at g0 v2)
      \<and> (\<forall>j. i < j \<and> j < nat levels \<longrightarrow> node_dist g0 v1 v2 \<le> ADist (node_at g0 v1) ! j)"
  define c2 where "c2 \<longleftrightarrow> v2 \<noteq> v1 \<and> Level (node_at g0 v2) = levels - 1"
  define g1 where "g1 = (if c1 then link_bunch v1 v2 ?d g else g)"
  define g2 where "g2 = (if c2 then link_bunch v1 v2 ?d g1 else g1)"
  have idx: "indexed (All_nodes g)" using assms(1) by (simp add: bunch_inv_def)
  have inv1: "bunch_inv g0 g1"
    using link_bunch_inv[OF assms(1) lt] assms(1) by (auto simp: g1_def c1_def)
  have rel1: "bunch_rel g1 = bunch_rel g \<union> (if c1 then {(v1, v2)} else {})"
    using link_bunch_rel[OF idx lt] by (auto simp: g1_def)
  have lt1: "v1 < nr_nodes g1" "v2 < nr_nodes g1" using lt by (simp_all add: g1_def)
  have idx1: "indexed (All_nodes g1)" using inv1 by (simp add: bunch_inv_def)
  have d1: "?d = node_dist g1 v1 v2" using link_bunch_dist[of v1 g v2] lt by (simp add: g1_def)
  have inv2: "bunch_inv g0 g2"
    using link_bunch_inv[OF inv1 lt1 _ d1] inv1 by (auto simp: g2_def c2_def)
  have "bunch_rel g2 = bunch_rel g1 \<union> (if c2 then {(v1, v2)} else {})"
    using link_bunch_rel[OF idx1 lt1] by (auto simp: g2_def)
  then have "bunch_rel g2 = bunch_rel g \<union> (if bunch_cond levels g0 v1 i v2 then {(v1, v2)} else {})"
    using rel1 by (auto simp: bunch_cond_def c1_def c2_def)
  moreover have "bunch_step levels v1 i v2 g = Inr g2"
    using assms(4) lt
    by (auto simp: bunch_step_def Let_def eqs g1_def g2_def c1_def c2_def link_bunch_nodes)
  ultimately show ?thesis using inv2 by blast
qed

lemma bunch_phase_ok:
  assumes "bunch_inv g0 g0"
    and len: "\<And>p. p < nr_nodes g0 \<Longrightarrow> nat levels \<le> length (ADist (node_at g0 p))"
  shows "\<exists>g. bunch_phase levels g0 = Inr g \<and> bunch_inv g0 g
    \<and> bunch_rel g = bunch_rel g0 \<union> {(a, b). a < nr_nodes g0 \<and> b < nr_nodes g0
        \<and> (\<exists>i < nat levels - 1. bunch_cond levels g0 a i b)}"
proof -
  let ?N = "[0..<nr_nodes g0]"
  let ?A = "\<lambda>v1 i v2. if bunch_cond levels g0 v1 i v2 then {(v1, v2)} else {}"
  have inner: "\<exists>g'. res_fold (bunch_step levels v1 i) ?N g = Inr g' \<and> bunch_inv g0 g'
      \<and> bunch_rel g' = bunch_rel g \<union> (\<Union>v2 \<in> set ?N. ?A v1 i v2)"
    if "v1 < nr_nodes g0" "bunch_inv g0 g" for v1 i g
    using that(2) by (rule res_fold_collect) (use that(1) len bunch_step_inv in auto)
  have middle: "\<exists>g'. res_fold (\<lambda>i. res_fold (bunch_step levels v1 i) ?N) [0..<nat levels - 1] g = Inr g'
      \<and> bunch_inv g0 g' \<and> bunch_rel g' = bunch_rel g
         \<union> (\<Union>i \<in> set [0..<nat levels - 1]. \<Union>v2 \<in> set ?N. ?A v1 i v2)"
    if "v1 < nr_nodes g0" "bunch_inv g0 g" for v1 g
    using that(2) by (rule res_fold_collect) (use that(1) inner in blast)
  have "\<exists>g'. bunch_phase levels g0 = Inr g' \<and> bunch_inv g0 g' \<and> bunch_rel g' = bunch_rel g0
      \<union> (\<Union>v1 \<in> set ?N. \<Union>i \<in> set [0..<nat levels - 1]. \<Union>v2 \<in> set ?N. ?A v1 i v2)"
    unfolding bunch_phase_def
    using assms(1) by (rule res_fold_collect) (use middle in auto)
  moreover have "(\<Union>v1 \<in> set ?N. \<Union>i \<in> set [0..<nat levels - 1]. \<Union>v2 \<in> set ?N. ?A v1 i v2)
      = {(a, b). a < nr_nodes g0 \<and> b < nr_nodes g0 \<and> (\<exists>i < nat levels - 1. bunch_cond levels g0 a i b)}"
    by (auto simp: atLeast0LessThan split: if_splits)
  ultimately show ?thesis by simp
qed

subsection \<open>What the phases compute: clusters\<close>

definition core :: "LocalityNode \<Rightarrow> LocalityNode" where
  "core n = n\<lparr>Cluster := [], OptimalCluster := []\<rparr>"

lemma core_simps [simp]:
  "Name (core n) = Name n" "IP (core n) = IP n" "X (core n) = X n" "Y (core n) = Y n"
  "Level (core n) = Level n" "ADist (core n) = ADist n" "PDist (core n) = PDist n"
  "Bunch (core n) = Bunch n" "OptimalBunch (core n) = OptimalBunch n"
  "Rings (core n) = Rings n" "NrOwnRings (core n) = NrOwnRings n"
  "NodeIdentity (core n) = NodeIdentity n"
  by (simp_all add: core_def)

lemma core_eqD:
  assumes "core a = core b"
  shows "Name a = Name b" "X a = X b" "Y a = Y b" "Level a = Level b" "ADist a = ADist b"
    "PDist a = PDist b" "Bunch a = Bunch b" "OptimalBunch a = OptimalBunch b"
    "Rings a = Rings b" "NrOwnRings a = NrOwnRings b" "NodeIdentity a = NodeIdentity b"
  using assms by (metis core_simps)+

definition cluster_rel :: "LocalityNodes \<Rightarrow> (node_ptr \<times> node_ptr) set" where
  "cluster_rel g = {(a, b). a < nr_nodes g \<and> b < nr_nodes g
     \<and> has (Cluster (node_at g a)) (Name (node_at g b))}"

definition cluster_inv :: "LocalityNodes \<Rightarrow> LocalityNodes \<Rightarrow> bool" where
  "cluster_inv g0 g \<longleftrightarrow>
     map core (All_nodes g) = map core (All_nodes g0)
     \<and> (\<forall>p < nr_nodes g. OptimalCluster (node_at g p) = Cluster (node_at g p)
          \<and> key_set (Name ` set (All_nodes g0)) (Cluster (node_at g p)))
     \<and> (\<forall>a < nr_nodes g. \<forall>b < nr_nodes g. ClusterBunchDistances g a b = ClusterBunchDistances g0 a b)"

lemma cluster_inv_nodes:
  assumes "cluster_inv g0 g"
  shows "nr_nodes g = nr_nodes g0"
    and "p < nr_nodes g0 \<Longrightarrow> core (node_at g p) = core (node_at g0 p)"
  using assms unfolding cluster_inv_def by (metis length_map, metis length_map nth_map)

lemmas cluster_inv_node = core_eqD[OF cluster_inv_nodes(2)]

lemma cluster_inv_dist:
  "cluster_inv g0 g \<Longrightarrow> a < nr_nodes g0 \<Longrightarrow> b < nr_nodes g0 \<Longrightarrow> node_dist g a b = node_dist g0 a b"
  by (intro ComputeDist_cong cluster_inv_node)

lemma cluster_step_inv:
  assumes "cluster_inv g0 g" "indexed (All_nodes g0)" "table_ok g0"
    and "v1 < nr_nodes g0" "v2 < nr_nodes g0"
  shows "cluster_inv g0 (cluster_step v1 v2 g) \<and> cluster_rel (cluster_step v1 v2 g)
    = cluster_rel g \<union> (if (v2, v1) \<in> bunch_rel g0 \<and> v1 \<noteq> v2 then {(v1, v2)} else {})"
proof (cases "(v2, v1) \<in> bunch_rel g0 \<and> v1 \<noteq> v2")
  case False
  then have "cluster_step v1 v2 g = g"
    using assms cluster_inv_node[OF assms(1)]
    by (auto simp: cluster_step_def bunch_rel_def indexed_inj)
  with assms(1) False show ?thesis by auto
next
  case True
  note n = cluster_inv_nodes(1)[OF assms(1)]
  note nd = cluster_inv_node[OF assms(1)]
  define g' where "g' = cluster_step v1 v2 g"
  have eq: "g' = set_both v1 v2 (node_dist g v1 v2)
      (update_node v1 (\<lambda>m. m\<lparr>OptimalCluster := map_set (OptimalCluster m) (Name (node_at g v2)) True,
         Cluster := map_set (Cluster m) (Name (node_at g v2)) True\<rparr>) g)"
    using True assms nd by (simp add: g'_def cluster_step_def bunch_rel_def indexed_inj Let_def)
  have len: "nr_nodes g' = nr_nodes g0" by (simp add: eq n)
  have at: "node_at g' p = (if p = v1 then (node_at g p)
       \<lparr>OptimalCluster := map_set (OptimalCluster (node_at g p)) (Name (node_at g v2)) True,
        Cluster := map_set (Cluster (node_at g p)) (Name (node_at g v2)) True\<rparr> else node_at g p)"
    if "p < nr_nodes g0" for p
    using that n by (simp add: eq node_at_update)
  have "map core (All_nodes g') = map core (All_nodes g)"
    by (intro nth_equalityI) (auto simp: len n at core_def)
  moreover have "ClusterBunchDistances g' a b = ClusterBunchDistances g0 a b"
    if "a < nr_nodes g0" "b < nr_nodes g0" for a b
    using that assms n True cluster_inv_dist[OF assms(1)] dist.d_sym
    by (auto simp: eq cluster_inv_def table_ok_def)
  moreover have "OptimalCluster (node_at g' p) = Cluster (node_at g' p)
      \<and> key_set (Name ` set (All_nodes g0)) (Cluster (node_at g' p))" if "p < nr_nodes g0" for p
    using assms that n nd by (auto simp: at cluster_inv_def intro!: key_set_insert)
  ultimately have "cluster_inv g0 g'"
    using assms(1) by (simp add: cluster_inv_def len)
  moreover have "cluster_rel g' = cluster_rel g \<union> {(v1, v2)}"
    using assms n nd by (auto simp: cluster_rel_def len at indexed_inj split: if_splits)
  ultimately show ?thesis using True by (simp add: g'_def)
qed

lemma cluster_phase_ok:
  assumes "cluster_inv g0 g0" "indexed (All_nodes g0)" "table_ok g0"
  shows "cluster_inv g0 (cluster_phase g0)
    \<and> cluster_rel (cluster_phase g0) = cluster_rel g0 \<union> {(a, b). (b, a) \<in> bunch_rel g0 \<and> a \<noteq> b}"
proof -
  let ?N = "[0..<nr_nodes g0]"
  let ?A = "\<lambda>v1 v2. if (v2, v1) \<in> bunch_rel g0 \<and> v1 \<noteq> v2 then {(v1, v2)} else {}"
  have inner: "cluster_inv g0 (fold (cluster_step v1) ?N g)
      \<and> cluster_rel (fold (cluster_step v1) ?N g) = cluster_rel g \<union> (\<Union>v2 \<in> set ?N. ?A v1 v2)"
    if "v1 < nr_nodes g0" "cluster_inv g0 g" for v1 g
    using that(2) by (rule fold_collect) (use that(1) assms cluster_step_inv in auto)
  have "cluster_inv g0 (cluster_phase g0) \<and> cluster_rel (cluster_phase g0)
      = cluster_rel g0 \<union> (\<Union>v1 \<in> set ?N. \<Union>v2 \<in> set ?N. ?A v1 v2)"
    unfolding cluster_phase_def
    using assms(1) by (rule fold_collect) (use inner in auto)
  moreover have "(\<Union>v1 \<in> set ?N. \<Union>v2 \<in> set ?N. ?A v1 v2) = {(a, b). (b, a) \<in> bunch_rel g0 \<and> a \<noteq> b}"
    by (auto simp: bunch_rel_def split: if_splits)
  ultimately show ?thesis by simp
qed

subsection \<open>The contract of CreateLocalityGraph\<close>

text \<open>The state \<open>Setup\<close> leaves behind: ordered nodes with empty tables.\<close>

definition fresh_nodes :: "LocalityNodes \<Rightarrow> bool" where
  "fresh_nodes ns \<longleftrightarrow> indexed (All_nodes ns)
     \<and> (\<forall>v \<in> set (All_nodes ns). ADist v = [] \<and> PDist v = [] \<and> Bunch v = [] \<and> OptimalBunch v = []
          \<and> Cluster v = [] \<and> OptimalCluster v = [])
     \<and> (\<forall>a < nr_nodes ns. \<forall>b < nr_nodes ns.
          ClusterBunchDistances ns a b = (if a = b then 0 else max_float64))"

text \<open>
  \<open>in_bunch levels g a b\<close>: \<open>b\<close> belongs to the bunch of \<open>a\<close>, read off positions and
  levels. For some level \<open>i\<close> below the top, \<open>b\<close> is of level \<open>i\<close> or above and not
  farther from \<open>a\<close> than the nearest node of any higher level; or \<open>b\<close> is of the top level.
\<close>

definition in_bunch :: "int \<Rightarrow> LocalityNodes \<Rightarrow> node_ptr \<Rightarrow> node_ptr \<Rightarrow> bool" where
  "in_bunch levels g a b \<longleftrightarrow> a < nr_nodes g \<and> b < nr_nodes g \<and> (\<exists>i < nat levels - 1. bunch_cond levels g a i b)"

definition locality_graph :: "int \<Rightarrow> LocalityNodes \<Rightarrow> bool" where
  "locality_graph levels g \<longleftrightarrow>
     indexed (All_nodes g)
     \<and> (\<forall>p < nr_nodes g. length (ADist (node_at g p)) = nat levels
          \<and> length (PDist (node_at g p)) = nat levels
          \<and> (\<forall>i < nat levels. nearest_ok g p i)
          \<and> OptimalBunch (node_at g p) = Bunch (node_at g p)
          \<and> OptimalCluster (node_at g p) = Cluster (node_at g p)
          \<and> key_set (Name ` set (All_nodes g)) (Bunch (node_at g p))
          \<and> key_set (Name ` set (All_nodes g)) (Cluster (node_at g p)))
     \<and> bunch_rel g = {(a, b). in_bunch levels g a b}
     \<and> cluster_rel g = (bunch_rel g)\<inverse>
     \<and> table_ok g"

lemma bunch_rel_cong:
  assumes "nr_nodes g = nr_nodes h"
    and "\<And>p. p < nr_nodes h \<Longrightarrow> Bunch (node_at g p) = Bunch (node_at h p) \<and> Name (node_at g p) = Name (node_at h p)"
  shows "bunch_rel g = bunch_rel h"
  using assms by (auto simp: bunch_rel_def)

lemma nearest_ok_cong:
  assumes "nr_nodes g = nr_nodes h" "p < nr_nodes h"
    and "\<And>q. q < nr_nodes h \<Longrightarrow> same_place (node_at g q) (node_at h q)"
    and "ADist (node_at g p) = ADist (node_at h p)" "PDist (node_at g p) = PDist (node_at h p)"
  shows "nearest_ok g p i = nearest_ok h p i"
proof -
  have "node_dist g p q = node_dist h p q" if "q < nr_nodes h" for q
    using assms(2,3) that same_place_dist by blast
  then show ?thesis
    using assms by (auto simp: nearest_ok_def same_place_def)
qed

lemma bunch_cond_cong:
  assumes "same_place (node_at g a) (node_at h a)" "same_place (node_at g b) (node_at h b)"
    and "ADist (node_at g a) = ADist (node_at h a)"
  shows "bunch_cond levels g a i b = bunch_cond levels h a i b"
  using assms same_place_dist[OF assms(1,2)] by (simp add: bunch_cond_def same_place_def)



text \<open>Random coordinates and levels change nothing else.\<close>

definition placed_like :: "LocalityNode \<Rightarrow> LocalityNode \<Rightarrow> bool" where
  "placed_like v w \<longleftrightarrow> Name v = Name w \<and> IP v = IP w \<and> ADist v = ADist w \<and> PDist v = PDist w
     \<and> Bunch v = Bunch w \<and> OptimalBunch v = OptimalBunch w \<and> Cluster v = Cluster w
     \<and> OptimalCluster v = OptimalCluster w \<and> Rings v = Rings w \<and> NrOwnRings v = NrOwnRings w
     \<and> NodeIdentity v = NodeIdentity w"

lemma placed_like_updates [simp]:
  "placed_like v v" "placed_like (v\<lparr>X := x, Y := y\<rparr>) v" "placed_like (v\<lparr>Level := i\<rparr>) v"
  by (simp_all add: placed_like_def)

lemma random_coords_like: "list_all2 placed_like (fst (random_coords rand vs k)) vs"
  by (induction vs arbitrary: k) (simp_all add: split_beta Let_def)

lemma promote_like: "list_all2 placed_like (fst (promote rand pr i vs k)) vs"
  by (induction vs arbitrary: k) (simp_all add: split_beta Let_def)

lemma placed_like_trans: "placed_like u v \<Longrightarrow> placed_like v w \<Longrightarrow> placed_like u w"
  by (simp add: placed_like_def)

lemma fold_promote_like:
  "list_all2 placed_like (fst (fold (\<lambda>i (vs, k). promote rand pr (int i) vs k) is (vs, k))) vs"
proof (induction "is" arbitrary: vs k)
  case (Cons i "is")
  obtain ws k' where p: "promote rand pr (int i) vs k = (ws, k')" by fastforce
  have "list_all2 placed_like ws vs" using promote_like[of rand pr "int i" vs k] p by simp
  with Cons[of ws k'] p show ?case
    by (auto intro: list_all2_trans[OF placed_like_trans])
qed (simp add: list_all2_same)

lemma randomise_like: "list_all2 placed_like (randomise rand rc rl levels vs) vs"
proof -
  obtain vs1 k1 where 1: "(if rc then random_coords rand vs 0 else (vs, 0)) = (vs1, k1)" by fastforce
  have l1: "list_all2 placed_like vs1 vs"
    using 1 random_coords_like[of rand vs 0]
    by (auto simp: list_all2_same split: if_splits)
  have "list_all2 placed_like (fst (if rl then random_levels rand levels vs1 k1 else (vs1, k1))) vs1"
    by (simp add: random_levels_def Let_def fold_promote_like list_all2_same)
  with l1 show ?thesis
    by (auto simp: randomise_def 1 Let_def split_beta intro: list_all2_trans[OF placed_like_trans])
qed

lemma fresh_level_phase:
  assumes "fresh_nodes ns" and "list_all2 placed_like vs (All_nodes ns)"
  shows "bunch_inv (ns\<lparr>All_nodes := level_phase levels vs\<rparr>) (ns\<lparr>All_nodes := level_phase levels vs\<rparr>)"
    and "bunch_rel (ns\<lparr>All_nodes := level_phase levels vs\<rparr>) = {}"
    and "p < nr_nodes ns \<Longrightarrow> i < nat levels \<Longrightarrow>
      nearest_ok (ns\<lparr>All_nodes := level_phase levels vs\<rparr>) p i"
    and "p < nr_nodes ns \<Longrightarrow> length (ADist (level_phase levels vs ! p)) = nat levels
      \<and> length (PDist (level_phase levels vs ! p)) = nat levels"
    and "p < nr_nodes ns \<Longrightarrow> Cluster (level_phase levels vs ! p) = [] \<and> OptimalCluster (level_phase levels vs ! p) = []"
proof -
  let ?g = "ns\<lparr>All_nodes := level_phase levels vs\<rparr>"
  have len: "length vs = nr_nodes ns" using assms(2) by (rule list_all2_lengthD)
  have v: "Name (vs ! p) = Name (node_at ns p)" "ADist (vs ! p) = []" "PDist (vs ! p) = []"
    "Bunch (vs ! p) = []" "OptimalBunch (vs ! p) = []" "Cluster (vs ! p) = []" "OptimalCluster (vs ! p) = []"
    if "p < nr_nodes ns" for p
    using list_all2_nthD2[OF assms(2), of p] that assms(1) by (auto simp: placed_like_def fresh_nodes_def)
  have at: "level_phase levels vs ! p = level_entry vs (nat levels) (vs ! p)" if "p < nr_nodes ns" for p
    using that len by (simp add: level_phase_map)
  have lenp: "length (level_phase levels vs) = nr_nodes ns" by (simp add: level_phase_map len)
  show rel: "bunch_rel ?g = {}"
    by (auto simp: bunch_rel_def lenp at v level_entry_def)
  have "indexed (level_phase levels vs) = indexed (All_nodes ns)"
    by (rule indexed_cong) (simp_all add: lenp at v level_entry_def)
  then show "bunch_inv ?g ?g"
    using assms(1) by (simp add: bunch_inv_def table_ok_def rel lenp at v level_entry_def fresh_nodes_def)
  show "nearest_ok ?g p i" if "p < nr_nodes ns" "i < nat levels"
    using that len v by (intro level_entry_nearest_ok[of _ vs "nat levels"]) (simp_all add: level_phase_map)
  show "length (ADist (level_phase levels vs ! p)) = nat levels
      \<and> length (PDist (level_phase levels vs ! p)) = nat levels"
    "Cluster (level_phase levels vs ! p) = [] \<and> OptimalCluster (level_phase levels vs ! p) = []"
    if "p < nr_nodes ns"
    using that v by (simp_all add: at level_entry_def)
qed

text \<open>The two link phases, from the state after the level phase.\<close>

lemma link_phases_ok:
  assumes inv: "bunch_inv g0 g0" and rel: "bunch_rel g0 = {}"
    and len: "\<And>p. p < nr_nodes g0 \<Longrightarrow> length (ADist (node_at g0 p)) = nat levels
      \<and> length (PDist (node_at g0 p)) = nat levels"
    and near: "\<And>p i. p < nr_nodes g0 \<Longrightarrow> i < nat levels \<Longrightarrow> nearest_ok g0 p i"
    and cl: "\<And>p. p < nr_nodes g0 \<Longrightarrow> Cluster (node_at g0 p) = [] \<and> OptimalCluster (node_at g0 p) = []"
  shows "\<exists>g. res_bind (bunch_phase levels g0) (\<lambda>g1. Inr (cluster_phase g1)) = Inr g
    \<and> locality_graph levels g \<and> nr_nodes g = nr_nodes g0
    \<and> (\<forall>p < nr_nodes g. same_place (node_at g p) (node_at g0 p))"
proof -
  obtain g1 where g1: "bunch_phase levels g0 = Inr g1" "bunch_inv g0 g1"
    and rel1: "bunch_rel g1 = {(a, b). in_bunch levels g0 a b}"
    using bunch_phase_ok[OF inv, of levels] len rel unfolding in_bunch_def by auto
  note n1 = bunch_inv_nodes(1)[OF g1(2)] and nd1 = bunch_inv_node[OF g1(2)]
  have cl1: "Cluster (node_at g1 p) = [] \<and> OptimalCluster (node_at g1 p) = []" if "p < nr_nodes g1" for p
    using cl nd1 that n1 by simp
  define g where "g = cluster_phase g1"
  have "cluster_inv g1 g1" using cl1 by (simp add: cluster_inv_def)
  moreover have "cluster_rel g1 = {}" using cl1 by (auto simp: cluster_rel_def)
  ultimately have cinv: "cluster_inv g1 g"
    and crel: "cluster_rel g = {(a, b). (b, a) \<in> bunch_rel g1 \<and> a \<noteq> b}"
    using cluster_phase_ok[of g1] g1(2) by (auto simp: g_def bunch_inv_def)
  note n2 = cluster_inv_nodes(1)[OF cinv] and nd2 = cluster_inv_node[OF cinv]
  have n: "nr_nodes g = nr_nodes g0" using n1 n2 by simp
  have place: "same_place (node_at g p) (node_at g0 p)" if "p < nr_nodes g0" for p
    using that n1 nd1 nd2 by (simp add: same_place_def)
  have adist: "ADist (node_at g p) = ADist (node_at g0 p)" "PDist (node_at g p) = PDist (node_at g0 p)"
    if "p < nr_nodes g0" for p using that n1 nd1 nd2 by simp_all
  have brel: "bunch_rel g = bunch_rel g1"
    by (rule bunch_rel_cong) (use n2 nd2 in auto)
  have cond: "in_bunch levels g a b = in_bunch levels g0 a b" for a b
    using n place adist bunch_cond_cong[of g a g0 b] by (auto simp: in_bunch_def)
  have "table_ok g"
    using g1(2) cinv brel n1 n2 cluster_inv_dist[OF cinv]
    by (simp add: table_ok_def bunch_inv_def cluster_inv_def)
  moreover have "indexed (All_nodes g)"
    using g1(2) indexed_cong[of "All_nodes g" "All_nodes g1"] n2 nd2(1) by (simp add: bunch_inv_def)
  moreover have "nearest_ok g p i" if "p < nr_nodes g0" "i < nat levels" for p i
    using nearest_ok_cong[OF n, of p i] place adist near that by auto
  moreover have "OptimalBunch (node_at g p) = Bunch (node_at g p)
      \<and> OptimalCluster (node_at g p) = Cluster (node_at g p)" if "p < nr_nodes g0" for p
    using that g1(2) cinv n1 n2 nd2 by (auto simp: bunch_inv_def cluster_inv_def)
  moreover have "key_set (Name ` set (All_nodes g)) (Bunch (node_at g p))
      \<and> key_set (Name ` set (All_nodes g)) (Cluster (node_at g p))" if "p < nr_nodes g0" for p
  proof -
    have "map Name (All_nodes g) = map Name (All_nodes g1)"
      using n2 nd2(1) by (intro nth_equalityI) simp_all
    then have "Name ` set (All_nodes g) = Name ` set (All_nodes g1)" by (metis set_map)
    then show ?thesis using that g1(2) cinv n1 n2 nd2 by (simp add: bunch_inv_def cluster_inv_def)
  qed
  moreover have "bunch_rel g = {(a, b). in_bunch levels g a b}"
    using brel rel1 cond by simp
  moreover have "cluster_rel g = (bunch_rel g)\<inverse>"
    unfolding crel brel rel1 by (auto simp: in_bunch_def bunch_cond_def)
  ultimately have "locality_graph levels g"
    using len adist by (simp add: locality_graph_def n)
  then show ?thesis using g1(1) n place by (auto simp: g_def)
qed

lemma CreateLocalityGraph_ok:
  assumes "fresh_nodes ns"
  shows "\<exists>g. CreateLocalityGraph rand ns rc rl levels = Inr g \<and> locality_graph levels g
    \<and> nr_nodes g = nr_nodes ns
    \<and> (\<forall>p < nr_nodes g. same_place (node_at g p) (randomise rand rc rl levels (All_nodes ns) ! p))"
proof -
  let ?vs = "randomise rand rc rl levels (All_nodes ns)"
  let ?g0 = "ns\<lparr>All_nodes := level_phase levels ?vs\<rparr>"
  note like = randomise_like[of rand rc rl levels "All_nodes ns"]
  have len: "length ?vs = nr_nodes ns" using like by (rule list_all2_lengthD)
  then have n0: "nr_nodes ?g0 = nr_nodes ns" by (simp add: level_phase_map)
  note fresh = fresh_level_phase[OF assms like, where levels = levels]
  have "\<exists>g. res_bind (bunch_phase levels ?g0) (\<lambda>g1. Inr (cluster_phase g1)) = Inr g
    \<and> locality_graph levels g \<and> nr_nodes g = nr_nodes ?g0
    \<and> (\<forall>p < nr_nodes g. same_place (node_at g p) (node_at ?g0 p))"
    by (rule link_phases_ok) (use fresh n0 in simp_all)
  moreover have "same_place (node_at ?g0 p) (?vs ! p)" if "p < nr_nodes ns" for p
    using that len by (simp add: level_phase_map level_entry_same_place)
  ultimately show ?thesis
    using n0 by (auto simp: CreateLocalityGraph_def same_place_def)
qed

text \<open>Consequences that clients of the graph use.\<close>

lemma locality_graphD:
  assumes "locality_graph levels g" "p < nr_nodes g"
  shows "length (ADist (node_at g p)) = nat levels" "length (PDist (node_at g p)) = nat levels"
    and "i < nat levels \<Longrightarrow> nearest_ok g p i"
  using assms by (simp_all add: locality_graph_def)

lemma locality_graph_table:
  assumes "locality_graph levels g" "a < nr_nodes g" "b < nr_nodes g"
    and "a = b \<or> (a, b) \<in> bunch_rel g \<or> (b, a) \<in> bunch_rel g"
  shows "ClusterBunchDistances g a b = node_dist g a b"
  using assms by (auto simp: locality_graph_def table_ok_def)

text \<open>The distance to the nearest node grows with the level.\<close>

lemma ADist_mono:
  assumes "locality_graph levels g" "p < nr_nodes g" "i \<le> j" "j < nat levels"
    and small: "\<And>q. q < nr_nodes g \<Longrightarrow> node_dist g p q \<le> max_float64"
  shows "ADist (node_at g p) ! i \<le> ADist (node_at g p) ! j"
proof -
  have ni: "nearest_ok g p i" and nj: "nearest_ok g p j" using assms by (auto intro: locality_graphD)
  from nj consider "ADist (node_at g p) ! j = max_float64"
    | q where "q < nr_nodes g" "int j \<le> Level (node_at g q)" "ADist (node_at g p) ! j = node_dist g p q"
    unfolding nearest_ok_def by blast
  then show ?thesis
  proof cases
    case 1
    then show ?thesis using ni small unfolding nearest_ok_def by fastforce
  next
    case (2 q)
    then have "ADist (node_at g p) ! i \<le> node_dist g p q"
      using ni assms(3) unfolding nearest_ok_def by simp
    with 2 show ?thesis by simp
  qed
qed

subsection \<open>A small graph\<close>

text \<open>Three nodes on a line, one of each of the three levels, as \<open>Setup\<close> leaves them.\<close>

definition line_node :: "int \<Rightarrow> real \<Rightarrow> int \<Rightarrow> LocalityNode" where
  "line_node k x l = \<lparr>Name = node_name k, IP = [], X = x, Y = 0, Level = l, ADist = [], PDist = [],
     Cluster = [], Bunch = [], OptimalCluster = [], OptimalBunch = [], Rings = [], NrOwnRings = 0,
     NodeIdentity = None\<rparr>"

definition line_nodes :: LocalityNodes where
  "line_nodes = \<lparr>All_nodes = [line_node 0 0 0, line_node 1 3 1, line_node 2 10 2],
     ServerIdentityToName = [], ClusterBunchDistances = (\<lambda>a b. if a = b then 0 else max_float64),
     Links = (\<lambda>a b. [])\<rparr>"

lemma line_node_simps [simp]:
  "Name (line_node k x l) = node_name k" "X (line_node k x l) = x" "Y (line_node k x l) = 0"
  "Level (line_node k x l) = l" "ComputeDist (line_node k x l) (line_node j y m) = \<bar>x - y\<bar>"
  by (simp_all add: line_node_def ComputeDist_same_row)

lemma line_nodes_fresh: "fresh_nodes line_nodes"
proof -
  have "NodeNameToInt (node_name 0) = Inr 0" "NodeNameToInt (node_name 1) = Inr 1"
    "NodeNameToInt (node_name 2) = Inr 2"
    using NodeNameToInt_node_name[of 0] NodeNameToInt_node_name[of 1] NodeNameToInt_node_name[of 2]
    by simp_all
  then have "indexed (All_nodes line_nodes)"
    by (simp add: indexed_def line_nodes_def All_less_Suc)
  then show ?thesis by (auto simp: fresh_nodes_def line_nodes_def line_node_def)
qed

subsection \<open>Properties of the construction\<close>

text \<open>C15: Building the graph never fails on nodes that \<open>Setup\<close> has prepared, and afterwards the
  two tables of a node hold, for every level, the distance of the nearest node of that level or
  above and its name; a level without nodes keeps \<open>MaxFloat64\<close> and the empty name.\<close>

theorem nearest_tables:
  assumes "fresh_nodes ns"
  shows "\<exists>g. CreateLocalityGraph rand ns rc rl levels = Inr g \<and> nr_nodes g = nr_nodes ns
    \<and> (\<forall>p < nr_nodes g. length (ADist (node_at g p)) = nat levels
       \<and> (\<forall>i < nat levels.
          (\<forall>q < nr_nodes g. int i \<le> Level (node_at g q) \<longrightarrow>
             ADist (node_at g p) ! i \<le> ComputeDist (node_at g p) (node_at g q))
          \<and> (PDist (node_at g p) ! i = '''' \<and> ADist (node_at g p) ! i = max_float64
             \<or> (\<exists>q < nr_nodes g. int i \<le> Level (node_at g q)
                  \<and> PDist (node_at g p) ! i = Name (node_at g q)
                  \<and> ADist (node_at g p) ! i = ComputeDist (node_at g p) (node_at g q)))))"
proof -
  obtain g where g: "CreateLocalityGraph rand ns rc rl levels = Inr g" "locality_graph levels g"
    "nr_nodes g = nr_nodes ns"
    using CreateLocalityGraph_ok[OF assms, of rand rc rl levels] by blast
  have "nearest_ok g p i" if "p < nr_nodes g" "i < nat levels" for p i
    using locality_graphD(3)[OF g(2) that(1)] that(2) .
  then show ?thesis
    using g locality_graphD(1)[OF g(2)] unfolding nearest_ok_def by blast
qed

theorem nearest_tables_witness:
  "\<exists>g. CreateLocalityGraph (\<lambda>k. 0) line_nodes False False 3 = Inr g \<and> nr_nodes g = 3
    \<and> (\<forall>p < nr_nodes g. length (ADist (node_at g p)) = 3)"
  using nearest_tables[OF line_nodes_fresh, of "\<lambda>k. 0" False False 3]
  by (auto simp: line_nodes_def)

text \<open>C14: In the graph built, \<open>b\<close> is in the bunch of \<open>a\<close> exactly when they differ and either
  \<open>b\<close> is of the top level (and there are two levels or more), or for some level \<open>i\<close> below the
  top, \<open>b\<close> is of level \<open>i\<close> or above and no farther from \<open>a\<close> than the nearest node of each
  higher level.\<close>

theorem bunch_characterisation:
  assumes "fresh_nodes ns"
  shows "\<exists>g. CreateLocalityGraph rand ns rc rl levels = Inr g \<and> nr_nodes g = nr_nodes ns
    \<and> (\<forall>a < nr_nodes g. \<forall>b < nr_nodes g. has (Bunch (node_at g a)) (Name (node_at g b)) \<longleftrightarrow>
        a \<noteq> b \<and> (\<exists>i. int i < levels - 1 \<and> (Level (node_at g b) = levels - 1
          \<or> int i \<le> Level (node_at g b) \<and> (\<forall>j. i < j \<and> int j < levels \<longrightarrow>
               ComputeDist (node_at g a) (node_at g b) \<le> ADist (node_at g a) ! j))))"
proof -
  obtain g where g: "CreateLocalityGraph rand ns rc rl levels = Inr g" "locality_graph levels g"
    "nr_nodes g = nr_nodes ns"
    using CreateLocalityGraph_ok[OF assms, of rand rc rl levels] by blast
  have lv: "i < nat levels - 1 \<longleftrightarrow> int i < levels - 1" "j < nat levels \<longleftrightarrow> int j < levels" for i j
    by auto
  have "has (Bunch (node_at g a)) (Name (node_at g b)) \<longleftrightarrow> in_bunch levels g a b"
    if "a < nr_nodes g" "b < nr_nodes g" for a b
    using g(2) that by (auto simp: locality_graph_def bunch_rel_def set_eq_iff)
  then have "has (Bunch (node_at g a)) (Name (node_at g b)) \<longleftrightarrow>
      a \<noteq> b \<and> (\<exists>i. int i < levels - 1 \<and> (Level (node_at g b) = levels - 1
        \<or> int i \<le> Level (node_at g b) \<and> (\<forall>j. i < j \<and> int j < levels \<longrightarrow>
             ComputeDist (node_at g a) (node_at g b) \<le> ADist (node_at g a) ! j)))"
    if "a < nr_nodes g" "b < nr_nodes g" for a b
    using that unfolding in_bunch_def bunch_cond_def lv by blast
  with g show ?thesis by blast
qed

theorem bunch_characterisation_witness:
  "\<exists>g. CreateLocalityGraph (\<lambda>k. 0) line_nodes False False 3 = Inr g
    \<and> (\<forall>a < nr_nodes g. \<not> has (Bunch (node_at g a)) (Name (node_at g a)))"
  using bunch_characterisation[OF line_nodes_fresh, of "\<lambda>k. 0" False False 3] by blast

text \<open>C16: In the graph built, \<open>b\<close> is in the cluster of \<open>a\<close> exactly when \<open>a\<close> is in the
  bunch of \<open>b\<close>, the optimised bunch and cluster start as copies of the plain ones, and the
  table of direct distances holds the distance of linked nodes, 0 for a node to itself and
  \<open>MaxFloat64\<close> for every other pair.\<close>

theorem cluster_duality:
  assumes "fresh_nodes ns"
  shows "\<exists>g. CreateLocalityGraph rand ns rc rl levels = Inr g
    \<and> (\<forall>a < nr_nodes g. OptimalBunch (node_at g a) = Bunch (node_at g a)
         \<and> OptimalCluster (node_at g a) = Cluster (node_at g a))
    \<and> (\<forall>a < nr_nodes g. \<forall>b < nr_nodes g.
         has (Cluster (node_at g a)) (Name (node_at g b)) = has (Bunch (node_at g b)) (Name (node_at g a))
         \<and> ClusterBunchDistances g a b =
             (if a = b then 0
              else if has (Bunch (node_at g a)) (Name (node_at g b))
                    \<or> has (Bunch (node_at g b)) (Name (node_at g a))
              then ComputeDist (node_at g a) (node_at g b) else max_float64))"
proof -
  obtain g where g: "CreateLocalityGraph rand ns rc rl levels = Inr g" "locality_graph levels g"
    using CreateLocalityGraph_ok[OF assms, of rand rc rl levels] by blast
  have "cluster_rel g = (bunch_rel g)\<inverse>" "table_ok g"
    using g(2) by (simp_all add: locality_graph_def)
  moreover have "\<forall>a < nr_nodes g. OptimalBunch (node_at g a) = Bunch (node_at g a)
      \<and> OptimalCluster (node_at g a) = Cluster (node_at g a)"
    using g(2) by (simp add: locality_graph_def)
  ultimately show ?thesis
    using g(1) by (auto simp: cluster_rel_def bunch_rel_def table_ok_def set_eq_iff)
qed

theorem cluster_duality_witness:
  "\<exists>g. CreateLocalityGraph (\<lambda>k. 0) line_nodes False False 3 = Inr g
    \<and> (\<forall>a < nr_nodes g. ClusterBunchDistances g a a = 0)"
  using cluster_duality[OF line_nodes_fresh, of "\<lambda>k. 0" False False 3] by auto

end
