(* ===== verification/Graph_Bridges.thy ===== *)
theory Graph_Bridges
  imports Locality_Graph
begin

text \<open>
  The search for the bridges of the optimised graph (Save.go): \<open>GetChildren\<close>, \<open>recursive\<close>
  and \<open>GetBridges\<close>. The depth of the recursion is bounded by fuel; more fuel than nodes is
  always enough. The bridges reported all lie on one path from the root.
\<close>

subsection \<open>Definitions\<close>

text \<open>The keys of \<open>Children\<close> are pointers, \<open>None\<close> for \<open>nil\<close>. The order in which the
  two maps of the node are read only decides the order of the keys, and every reader of the
  result ranges over it in an order of its own.\<close>

definition add_children ::
  "LocalityNodes \<Rightarrow> (string, bool) gomap \<Rightarrow> (node_ptr option, bool) gomap \<Rightarrow> (node_ptr option, bool) gomap result" where
  "add_children all m =
     res_fold (\<lambda>n C. if has m n then res_bind (GetByName all n) (\<lambda>p. Inr (map_set C p True)) else Inr C) (map_keys m)"

definition GetChildren :: "LocalityNodes \<Rightarrow> node_ptr \<Rightarrow> (node_ptr option, bool) gomap result" where
  "GetChildren all A =
     res_bind (add_children all (OptimalBunch (node_at all A)) [])
       (add_children all (OptimalCluster (node_at all A)))"

type_synonym bridges = "(node_ptr, (node_ptr, bool) gomap) gomap"

record dfs =
  timer :: nat
  state :: "(node_ptr, bool) gomap"
  tin :: "(node_ptr, nat) gomap"
  fup :: "(node_ptr, nat) gomap"
  Bridges :: bridges

definition bridge :: "bridges \<Rightarrow> node_ptr \<Rightarrow> node_ptr \<Rightarrow> bool" where
  "bridge B a b \<longleftrightarrow> has (map_get [] B a) b"

definition set_bridge :: "node_ptr \<Rightarrow> node_ptr \<Rightarrow> bridges \<Rightarrow> bridges" where
  "set_bridge a b B = map_set B a (map_set (map_get [] B a) b True)"

text \<open>The assignments before the loop over the children, which allocate the maps of bridges.\<close>

definition enter_node :: "LocalityNodes \<Rightarrow> node_ptr \<Rightarrow> dfs \<Rightarrow> dfs" where
  "enter_node all A D =
     (let t = timer D + 1
      in \<lparr>timer = t, state = map_set (state D) A True, tin = map_set (tin D) A t, fup = map_set (fup D) A t,
          Bridges = fold (\<lambda>c B. map_set B c []) [0..<nr_nodes all] (Bridges D)\<rparr>)"

definition lower_fup :: "node_ptr \<Rightarrow> nat \<Rightarrow> dfs \<Rightarrow> dfs" where
  "lower_fup A t D = D\<lparr>fup := map_set (fup D) A (min (map_get 0 (fup D) A) t)\<rparr>"

text \<open>What follows the recursive call for the child \<open>c\<close>.\<close>

definition leave_child :: "node_ptr \<Rightarrow> node_ptr \<Rightarrow> dfs \<Rightarrow> dfs" where
  "leave_child A c D =
     (let D1 = lower_fup A (map_get 0 (fup D) c) D
      in if map_get 0 (fup D1) c > map_get 0 (tin D1) A
         then D1\<lparr>Bridges := set_bridge c A (set_bridge A c (Bridges D1))\<rparr> else D1)"

text \<open>\<open>ord t\<close> is the order in which the call that sets the timer to \<open>t\<close> ranges over its
  children. A child \<open>nil\<close> is dereferenced by the recursive call.\<close>

fun recursive ::
    "(nat \<Rightarrow> node_ptr option list \<Rightarrow> node_ptr option list) \<Rightarrow> LocalityNodes \<Rightarrow> nat \<Rightarrow> node_ptr \<Rightarrow> node_ptr option
      \<Rightarrow> dfs \<Rightarrow> dfs option result"
  and visit_children ::
    "(nat \<Rightarrow> node_ptr option list \<Rightarrow> node_ptr option list) \<Rightarrow> LocalityNodes \<Rightarrow> nat \<Rightarrow> node_ptr \<Rightarrow> node_ptr option
      \<Rightarrow> node_ptr option list \<Rightarrow> dfs \<Rightarrow> dfs option result" where
  "recursive ord all 0 A B D = Inr None"
| "recursive ord all (Suc n) A B D =
     (let D1 = enter_node all A D
      in res_bind (GetChildren all A) (\<lambda>cs. visit_children ord all n A B (ord (timer D1) (map_keys cs)) D1))"
| "visit_children ord all n A B [] D = Inr (Some D)"
| "visit_children ord all n A B (c # cs) D =
     (if c = B then visit_children ord all n A B cs D
      else case c of
             None \<Rightarrow> Inl NilDereference
           | Some q \<Rightarrow>
               if has (state D) q then visit_children ord all n A B cs (lower_fup A (map_get 0 (tin D) q) D)
               else res_bind (recursive ord all n q (Some A) D) (\<lambda>r.
                 case r of None \<Rightarrow> Inr None
                 | Some D1 \<Rightarrow> visit_children ord all n A B cs (leave_child A q D1)))"

definition GetBridges ::
  "(nat \<Rightarrow> node_ptr option list \<Rightarrow> node_ptr option list) \<Rightarrow> LocalityNodes \<Rightarrow> node_ptr \<Rightarrow> bridges option result" where
  "GetBridges ord all Root =
     res_bind (recursive ord all (Suc (nr_nodes all)) Root None
         \<lparr>timer = 0, state = [], tin = [], fup = [], Bridges = []\<rparr>) (\<lambda>r. Inr (map_option Bridges r))"

subsection \<open>The children of a node\<close>

definition opt_links_ok :: "LocalityNodes \<Rightarrow> bool" where
  "opt_links_ok g \<longleftrightarrow> indexed (All_nodes g) \<and> (\<forall>p < nr_nodes g. \<forall>k.
     has (OptimalBunch (node_at g p)) k \<or> has (OptimalCluster (node_at g p)) k \<longrightarrow> k \<in> Name ` set (All_nodes g))"

definition adjacent :: "LocalityNodes \<Rightarrow> node_ptr \<Rightarrow> node_ptr \<Rightarrow> bool" where
  "adjacent g a b \<longleftrightarrow> a < nr_nodes g \<and> b < nr_nodes g
     \<and> (has (OptimalBunch (node_at g a)) (Name (node_at g b)) \<or> has (OptimalCluster (node_at g a)) (Name (node_at g b)))"

lemma opt_links_lookup:
  assumes "opt_links_ok g" "p < nr_nodes g" "has (OptimalBunch (node_at g p)) k \<or> has (OptimalCluster (node_at g p)) k"
  obtains q where "q < nr_nodes g" "k = Name (node_at g q)" "GetByName g k = Inr (Some q)"
proof -
  have "k \<in> Name ` set (All_nodes g)" "indexed (All_nodes g)" using assms unfolding opt_links_ok_def by blast+
  then show ?thesis using that by (auto simp: in_set_conv_nth)
qed

lemma has_key: "has m k \<Longrightarrow> k \<in> set (map_keys m)"
  by (auto simp: map_get_def map_keys_def rev_image_eqI dest!: map_of_SomeD split: option.splits)

lemma add_children_ok:
  assumes "\<And>k. has m k \<Longrightarrow> \<exists>q < nr_nodes g. k = Name (node_at g q) \<and> GetByName g k = Inr (Some q)"
  shows "\<exists>C'. add_children g m C = Inr C'
    \<and> set (map_keys C') = set (map_keys C) \<union> {Some q | q. q < nr_nodes g \<and> has m (Name (node_at g q)) \<and> GetByName g (Name (node_at g q)) = Inr (Some q)}"
proof -
  let ?A = "\<lambda>k. {Some q | q. q < nr_nodes g \<and> k = Name (node_at g q) \<and> has m k \<and> GetByName g k = Inr (Some q)}"
  have "\<exists>s'. (if has m k then res_bind (GetByName g k) (\<lambda>p. Inr (map_set s p True)) else Inr s) = Inr s'
      \<and> True \<and> set (map_keys s') = set (map_keys s) \<union> ?A k" for k s
  proof (cases "has m k")
    case True
    then obtain q where "q < nr_nodes g" "k = Name (node_at g q)" "GetByName g k = Inr (Some q)" using assms by blast
    with True show ?thesis by (auto simp: gomap.keys_update)
  qed auto
  from res_fold_collect[where P = "\<lambda>_. True" and rel = "\<lambda>C. set (map_keys C)" and A = ?A and xs = "map_keys m" and s = C, OF TrueI this]
  obtain C' where C': "add_children g m C = Inr C'" "set (map_keys C') = set (map_keys C) \<union> (\<Union>k \<in> set (map_keys m). ?A k)"
    unfolding add_children_def by auto
  have "(\<Union>k \<in> set (map_keys m). ?A k)
      = {Some q | q. q < nr_nodes g \<and> has m (Name (node_at g q)) \<and> GetByName g (Name (node_at g q)) = Inr (Some q)}"
    using has_key[of m] by (auto 0 3)
  with C' show ?thesis by blast
qed

lemma GetChildren_ok:
  assumes "opt_links_ok g" "A < nr_nodes g"
  obtains C where "GetChildren g A = Inr C" "set (map_keys C) = Some ` {q. adjacent g A q}"
proof -
  let ?N = "node_at g A"
  have g: "GetByName g (Name (node_at g q)) = Inr (Some q)" if "q < nr_nodes g" for q
    using assms(1) that unfolding opt_links_ok_def by simp
  have b: "\<exists>q < nr_nodes g. k = Name (node_at g q) \<and> GetByName g k = Inr (Some q)"
    if "has (OptimalBunch ?N) k \<or> has (OptimalCluster ?N) k" for k
    using opt_links_lookup[OF assms that] by metis
  obtain C1 where C1: "add_children g (OptimalBunch ?N) [] = Inr C1"
    "set (map_keys C1) = {Some q | q. q < nr_nodes g \<and> has (OptimalBunch ?N) (Name (node_at g q)) \<and> GetByName g (Name (node_at g q)) = Inr (Some q)}"
    using add_children_ok[of "OptimalBunch ?N" g "[]"] b by (auto simp: map_keys_def)
  obtain C2 where C2: "add_children g (OptimalCluster ?N) C1 = Inr C2"
    "set (map_keys C2) = set (map_keys C1) \<union> {Some q | q. q < nr_nodes g \<and> has (OptimalCluster ?N) (Name (node_at g q)) \<and> GetByName g (Name (node_at g q)) = Inr (Some q)}"
    using add_children_ok[of "OptimalCluster ?N" g C1] b by auto
  have "set (map_keys C2) = Some ` {q. adjacent g A q}" unfolding C2(2) C1(2) using assms(2) g by (auto simp: adjacent_def)
  with C1(1) C2(1) that show ?thesis by (simp add: GetChildren_def)
qed

subsection \<open>The search ends\<close>

definition unvisited :: "LocalityNodes \<Rightarrow> dfs \<Rightarrow> node_ptr set" where
  "unvisited g D = {q. q < nr_nodes g \<and> \<not> has (state D) q}"

lemma unvisited_simps [simp]:
  "state (lower_fup A t D) = state D" "state (leave_child A c D) = state D"
  "unvisited g (lower_fup A t D) = unvisited g D" "unvisited g (leave_child A c D) = unvisited g D"
  "unvisited g (enter_node g A D) = unvisited g D - {A}"
  by (auto simp: unvisited_def lower_fup_def leave_child_def enter_node_def Let_def split: if_splits)

lemma finite_unvisited [simp]: "finite (unvisited g D)"
  by (simp add: unvisited_def)

text \<open>All bridges recorded join neighbours on the path \<open>ps\<close>.\<close>

definition bridge_path :: "LocalityNodes \<Rightarrow> bridges \<Rightarrow> node_ptr list \<Rightarrow> bool" where
  "bridge_path g B ps \<longleftrightarrow> distinct ps \<and> successively (adjacent g) ps
     \<and> (\<forall>a b. bridge B a b \<longrightarrow> (a, b) \<in> set (zip ps (tl ps)) \<or> (b, a) \<in> set (zip ps (tl ps)))"

lemma bridge_set [simp]:
  "bridge (set_bridge x y B) a b \<longleftrightarrow> a = x \<and> b = y \<or> bridge B a b"
  by (auto simp: bridge_def set_bridge_def)

lemma enter_no_bridge:
  assumes "\<And>a b. bridge (Bridges D) a b \<Longrightarrow> a < nr_nodes g"
  shows "\<not> bridge (Bridges (enter_node g A D)) a b"
proof (cases "a < nr_nodes g")
  case True
  then show ?thesis by (auto simp: enter_node_def Let_def bridge_def map_get_def gomap.lookup_update_all)
next
  case False
  then show ?thesis using assms[of a b] by (auto simp: enter_node_def Let_def bridge_def map_get_def gomap.lookup_update_all)
qed

lemma bridge_path_bound: "bridge_path g B ps \<Longrightarrow> bridge B a b \<Longrightarrow> a < nr_nodes g"
proof -
  assume p: "bridge_path g B ps" "bridge B a b"
  have s: "successively (adjacent g) ps" using p(1) by (simp add: bridge_path_def)
  have z: "(x, y) \<in> set (zip ps (tl ps)) \<Longrightarrow> adjacent g x y" for x y
    using s by (induction ps rule: induct_list012) auto
  show ?thesis using p z unfolding bridge_path_def adjacent_def by blast
qed

lemma bridge_path_leave:
  assumes "bridge_path g (Bridges D) ps" "adjacent g A q" "hd ps = q" "ps \<noteq> []" "A \<notin> set ps"
  shows "bridge_path g (Bridges (leave_child A q D)) (A # ps)"
  using assms by (cases ps) (auto simp: bridge_path_def leave_child_def lower_fup_def Let_def)

lemma bridge_path_lower: "Bridges (lower_fup A t D) = Bridges D"
  by (simp add: lower_fup_def)

text \<open>The contract of \<open>recursive\<close> with fuel \<open>n\<close>: it returns, and the bridges it leaves lie on a
  path of nodes it has entered.\<close>

definition search_ok :: "(nat \<Rightarrow> node_ptr option list \<Rightarrow> node_ptr option list) \<Rightarrow> LocalityNodes \<Rightarrow> nat \<Rightarrow> bool" where
  "search_ok ord g n \<longleftrightarrow> (\<forall>A B D. A \<in> unvisited g D \<and> card (unvisited g D) \<le> n
       \<and> (\<forall>a b. bridge (Bridges D) a b \<longrightarrow> a < nr_nodes g) \<longrightarrow>
     (\<exists>D' ps. recursive ord g n A B D = Inr (Some D') \<and> unvisited g D' \<subseteq> unvisited g D
        \<and> bridge_path g (Bridges D') ps \<and> ps \<noteq> [] \<and> hd ps = A \<and> set ps \<subseteq> unvisited g D))"

lemma visit_children_ok:
  assumes "search_ok ord g n" "A \<notin> U"
    and "set cs \<subseteq> Some ` {q. adjacent g A q}" "card (unvisited g D) \<le> n" "unvisited g D \<subseteq> U"
    and "bridge_path g (Bridges D) (A # ps)" "set ps \<subseteq> U"
  shows "\<exists>D' ps'. visit_children ord g n A B cs D = Inr (Some D') \<and> unvisited g D' \<subseteq> unvisited g D
    \<and> bridge_path g (Bridges D') (A # ps') \<and> set ps' \<subseteq> U"
  using assms(3-)
proof (induction cs arbitrary: D ps)
  case (Cons c cs)
  then obtain q where q: "c = Some q" "adjacent g A q" "q < nr_nodes g" by (auto simp: adjacent_def)
  consider "c = B" | "c \<noteq> B" "has (state D) q" | "c \<noteq> B" "\<not> has (state D) q" by blast
  then show ?case
  proof cases
    case 3
    then have "q \<in> unvisited g D" using q by (simp add: unvisited_def)
    then obtain D' qs where D': "recursive ord g n q (Some A) D = Inr (Some D')" "unvisited g D' \<subseteq> unvisited g D"
        "bridge_path g (Bridges D') qs" "qs \<noteq> []" "hd qs = q" "set qs \<subseteq> unvisited g D"
      using assms(1) Cons.prems(2) bridge_path_bound[OF Cons.prems(4)] unfolding search_ok_def by blast
    have "A \<notin> set qs" using D'(6) Cons.prems(3) assms(2) by blast
    from bridge_path_leave[OF D'(3) q(2) D'(5,4) this]
    have "\<exists>D'' ps'. visit_children ord g n A B cs (leave_child A q D') = Inr (Some D'')
        \<and> unvisited g D'' \<subseteq> unvisited g (leave_child A q D') \<and> bridge_path g (Bridges D'') (A # ps') \<and> set ps' \<subseteq> U"
      by (intro Cons.IH[where ps = qs]) (use Cons.prems D' card_mono[OF finite_unvisited D'(2)] in auto)
    then show ?thesis using 3 q D' by auto
  next
    case 2
    then show ?thesis
      using Cons.IH[of "lower_fup A (map_get 0 (tin D) q) D" ps] Cons.prems q by (simp add: bridge_path_lower)
  qed (use Cons q in auto)
qed auto

lemma search_ok_all:
  assumes "opt_links_ok g" "\<And>t. range_order (ord t)"
  shows "search_ok ord g n"
proof (induction n)
  case (Suc n)
  have "\<exists>D' ps. recursive ord g (Suc n) A B D = Inr (Some D') \<and> unvisited g D' \<subseteq> unvisited g D
        \<and> bridge_path g (Bridges D') ps \<and> ps \<noteq> [] \<and> hd ps = A \<and> set ps \<subseteq> unvisited g D"
    if "A \<in> unvisited g D" "card (unvisited g D) \<le> Suc n" "\<And>a b. bridge (Bridges D) a b \<Longrightarrow> a < nr_nodes g" for A B D
  proof -
    let ?D = "enter_node g A D"
    have "A < nr_nodes g" using that(1) by (simp add: unvisited_def)
    from GetChildren_ok[OF assms(1) this] obtain C where
      C: "GetChildren g A = Inr C" "set (map_keys C) = Some ` {q. adjacent g A q}" .
    have U: "card (unvisited g D - {A}) \<le> n" using that(1,2) by (simp add: card_Diff_singleton)
    have "bridge_path g (Bridges ?D) [A]" using enter_no_bridge[OF that(3)] by (simp add: bridge_path_def)
    then obtain D' ps where "visit_children ord g n A B (ord (timer ?D) (map_keys C)) ?D = Inr (Some D')"
        "unvisited g D' \<subseteq> unvisited g D - {A}" "bridge_path g (Bridges D') (A # ps)" "set ps \<subseteq> unvisited g D - {A}"
      using visit_children_ok[OF Suc, of A "unvisited g D - {A}" "ord (timer ?D) (map_keys C)" ?D "[]" B] U C
      by (auto simp: range_order_set[OF assms(2)])
    with C(1) that(1) show ?thesis by (fastforce simp: Let_def)
  qed
  then show ?case unfolding search_ok_def by blast
qed (auto simp: search_ok_def)

lemma GetBridges_ok:
  assumes "opt_links_ok g" "\<And>t. range_order (ord t)" "r < nr_nodes g"
  shows "\<exists>B ps. GetBridges ord g r = Inr (Some B) \<and> ps \<noteq> [] \<and> hd ps = r \<and> bridge_path g B ps"
proof -
  let ?D = "\<lparr>timer = 0, state = [], tin = [], fup = [], Bridges = []\<rparr> :: dfs"
  have "r \<in> unvisited g ?D" "card (unvisited g ?D) \<le> Suc (nr_nodes g)" using assms(3) by (simp_all add: unvisited_def)
  moreover have "\<not> bridge (Bridges ?D) a b" for a b by (simp add: bridge_def)
  ultimately obtain D' ps where "recursive ord g (Suc (nr_nodes g)) r None ?D = Inr (Some D')"
      "bridge_path g (Bridges D') ps" "ps \<noteq> []" "hd ps = r"
    using search_ok_all[of g ord "Suc (nr_nodes g)", OF assms(1,2)] unfolding search_ok_def by blast
  then show ?thesis by (auto simp: GetBridges_def)
qed

subsection \<open>What is reported\<close>

text \<open>C33: \<open>GetBridges\<close> always returns, and the bridges it reports all lie on one simple path from
  the root: a call of \<open>recursive\<close> allocates the maps of bridges anew, so what was found before
  the last node was entered is lost.\<close>

theorem bridges_on_one_path:
  assumes "opt_links_ok g" "\<And>t. range_order (ord t)" "r < nr_nodes g"
  shows "\<exists>B ps. GetBridges ord g r = Inr (Some B) \<and> ps \<noteq> [] \<and> hd ps = r \<and> distinct ps \<and> successively (adjacent g) ps
    \<and> (\<forall>a b. bridge B a b \<longrightarrow> (a, b) \<in> set (zip ps (tl ps)) \<or> (b, a) \<in> set (zip ps (tl ps)))"
  using GetBridges_ok[of g ord r, OF assms] unfolding bridge_path_def by blast

text \<open>A star with two rays: both links are bridges.\<close>

definition star_nodes :: LocalityNodes where
  "star_nodes = line_nodes\<lparr>All_nodes :=
     [(line_node 0 0 0)\<lparr>OptimalBunch := [(node_name 1, True), (node_name 2, True)]\<rparr>,
      (line_node 1 3 1)\<lparr>OptimalCluster := [(node_name 0, True)]\<rparr>,
      (line_node 2 10 2)\<lparr>OptimalCluster := [(node_name 0, True)]\<rparr>]\<rparr>"

lemma star_links_ok: "opt_links_ok star_nodes"
proof -
  have "indexed (All_nodes line_nodes)" using line_nodes_fresh by (simp add: fresh_nodes_def)
  then have "indexed (All_nodes star_nodes)"
    by (subst indexed_cong[of _ "All_nodes line_nodes"]) (auto simp: star_nodes_def line_nodes_def line_node_def less_Suc_eq)
  then show ?thesis
    by (auto simp: opt_links_ok_def star_nodes_def less_Suc_eq line_node_def map_get_def split: if_splits option.splits)
qed

text \<open>Only one of them is reported, whatever the order of the search.\<close>

theorem bridges_on_one_path_witness:
  "\<exists>B. GetBridges (\<lambda>t. rev) star_nodes 0 = Inr (Some B) \<and> \<not> (bridge B 0 1 \<and> bridge B 0 2)"
proof -
  have "0 < nr_nodes star_nodes" by (simp add: star_nodes_def)
  from bridges_on_one_path[of star_nodes "\<lambda>t. rev", OF star_links_ok range_order_rev this] obtain B ps
    where B: "GetBridges (\<lambda>t. rev) star_nodes 0 = Inr (Some B)" "ps \<noteq> []" "hd ps = 0" "distinct ps"
      "\<And>a b. bridge B a b \<Longrightarrow> (a, b) \<in> set (zip ps (tl ps)) \<or> (b, a) \<in> set (zip ps (tl ps))"
    by blast
  have "x = hd (tl ps)" if "bridge B 0 x" for x
    using B(2-4) B(5)[OF that] by (cases ps; cases "tl ps") (auto dest: set_zip_leftD set_zip_rightD)
  from this[of 1] this[of 2] show ?thesis using B(1) by auto
qed

end
