(* ===== verification/Distance_Oracle.thy ===== *)
theory Distance_Oracle
  imports Locality_Graph
begin

text \<open>
  \<open>gentree.approxDistance\<close> and \<open>gentree.AproximateDistanceOracle\<close> (Save.go): the
  estimate of the distance between any two nodes through the bunches, and the proof of its
  stretch. The commented-out \<open>MinDist\<close> variants and the files the oracle writes are not
  part of the model.
\<close>

subsection \<open>Definitions\<close>

text \<open>The inner loop that looks a node up by name; without a match \<open>w\<close> keeps its value.\<close>

fun find_named :: "LocalityNode list \<Rightarrow> string \<Rightarrow> nat \<Rightarrow> node_ptr option" where
  "find_named [] nm i = None"
| "find_named (n # ns) nm i = (if Name n = nm then Some i else find_named ns nm (Suc i))"

function approx_loop ::
  "LocalityNodes \<Rightarrow> node_ptr \<Rightarrow> node_ptr \<Rightarrow> node_ptr \<Rightarrow> nat \<Rightarrow> (node_ptr \<times> node_ptr \<times> node_ptr) result" where
  "approx_loop ns nodeU nodeV w i =
     (if has (Bunch (node_at ns nodeV)) (Name (node_at ns w)) then Inr (w, nodeU, nodeV)
      else case slice_get (PDist (node_at ns nodeV)) (int (Suc i)) of
             Inl e \<Rightarrow> Inl e
           | Inr nm \<Rightarrow>
               approx_loop ns nodeV nodeU
                 (case find_named (All_nodes ns) nm 0 of None \<Rightarrow> w | Some n \<Rightarrow> n) (Suc i))"
  by pat_completeness auto
termination
  by (relation "measure (\<lambda>(ns, u, v, w, i).
        max (length (PDist (node_at ns u))) (length (PDist (node_at ns v))) - i)")
    (auto simp: slice_get_def split: if_splits)

declare approx_loop.simps [simp del]

definition approxDistance :: "LocalityNodes \<Rightarrow> node_ptr \<Rightarrow> node_ptr \<Rightarrow> real result" where
  "approxDistance ns nodeU nodeV =
     res_bind (approx_loop ns nodeU nodeV nodeU 0) (\<lambda>(w, u, v).
       Inr (ClusterBunchDistances ns w u + ClusterBunchDistances ns w v))"

type_synonym dist_table = "node_ptr \<Rightarrow> node_ptr \<Rightarrow> real"

definition oracle_entry :: "LocalityNodes \<Rightarrow> node_ptr \<Rightarrow> node_ptr \<Rightarrow> dist_table \<Rightarrow> dist_table result" where
  "oracle_entry ns u v dist2 =
     (if Name (node_at ns u) = Name (node_at ns v) then Inr (dist2(u := (dist2 u)(v := 0)))
      else res_bind (approxDistance ns u v) (\<lambda>d. Inr (dist2(u := (dist2 u)(v := d)))))"

definition AproximateDistanceOracle :: "LocalityNodes \<Rightarrow> dist_table result" where
  "AproximateDistanceOracle ns =
     res_fold (\<lambda>u. res_fold (oracle_entry ns u) [0..<nr_nodes ns]) [0..<nr_nodes ns]
       (ClusterBunchDistances ns)"

text \<open>The check of the experiment: how many estimates exceed five times the distance.\<close>

definition tooLargeDist :: "LocalityNodes \<Rightarrow> dist_table \<Rightarrow> nat" where
  "tooLargeDist ns dist2 =
     length (filter (\<lambda>(a, b). dist2 a b > 5 * ComputeDist (node_at ns a) (node_at ns b))
       (List.product [0..<nr_nodes ns] [0..<nr_nodes ns]))"

subsection \<open>Looking a node up by its name\<close>

lemma find_named_Some:
  "find_named vs nm i = Some k \<Longrightarrow> i \<le> k \<and> k < i + length vs \<and> Name (vs ! (k - i)) = nm"
  by (induction vs nm i rule: find_named.induct) (auto simp: nth_Cons' split: if_splits)

lemma find_named_exists: "p < length vs \<Longrightarrow> \<exists>k. find_named vs (Name (vs ! p)) i = Some k"
proof (induction vs arbitrary: p i)
  case (Cons a vs)
  then show ?case by (cases p) auto
qed simp

lemma find_named_indexed:
  assumes "indexed vs" "p < length vs"
  shows "find_named vs (Name (vs ! p)) 0 = Some p"
proof -
  obtain k where k: "find_named vs (Name (vs ! p)) 0 = Some k"
    using find_named_exists[OF assms(2)] by blast
  then have "k < length vs" "Name (vs ! k) = Name (vs ! p)"
    using find_named_Some[OF k] by simp_all
  with assms k show ?thesis by (simp add: indexed_inj)
qed

subsection \<open>Termination and stretch\<close>

text \<open>
  A graph the oracle can serve: at least two levels, every level inside the range, some node of
  the top level, and no distance as large as \<open>MaxFloat64\<close>.
\<close>

definition levels_ok :: "int \<Rightarrow> LocalityNodes \<Rightarrow> bool" where
  "levels_ok levels g \<longleftrightarrow> 2 \<le> levels
     \<and> (\<forall>p < nr_nodes g. 0 \<le> Level (node_at g p) \<and> Level (node_at g p) < levels)
     \<and> (\<exists>p < nr_nodes g. Level (node_at g p) = levels - 1)
     \<and> (\<forall>p < nr_nodes g. \<forall>q < nr_nodes g. node_dist g p q < max_float64)"

lemma nearest_node:
  assumes "locality_graph levels g" "levels_ok levels g" "p < nr_nodes g" "i < nat levels"
  obtains q where "q < nr_nodes g" "int i \<le> Level (node_at g q)"
    "find_named (All_nodes g) (PDist (node_at g p) ! i) 0 = Some q"
    "ADist (node_at g p) ! i = node_dist g p q"
proof -
  obtain t where t: "t < nr_nodes g" "Level (node_at g t) = levels - 1"
    using assms(2) by (auto simp: levels_ok_def)
  have "nearest_ok g p i" using assms(1,3,4) by (rule locality_graphD)
  moreover have "ADist (node_at g p) ! i < max_float64"
  proof -
    have "ADist (node_at g p) ! i \<le> node_dist g p t"
      using \<open>nearest_ok g p i\<close> t assms(4) by (simp add: nearest_ok_def)
    also have "\<dots> < max_float64" using assms(2,3) t by (simp add: levels_ok_def)
    finally show ?thesis .
  qed
  ultimately obtain q where "q < nr_nodes g" "int i \<le> Level (node_at g q)"
    "PDist (node_at g p) ! i = Name (node_at g q)" "ADist (node_at g p) ! i = node_dist g p q"
    unfolding nearest_ok_def by auto
  moreover have "indexed (All_nodes g)" using assms(1) by (simp add: locality_graph_def)
  ultimately show ?thesis using that find_named_indexed by simp
qed

lemma ADist_mono_ok:
  assumes "locality_graph levels g" "levels_ok levels g" "p < nr_nodes g" "i \<le> j" "j < nat levels"
  shows "ADist (node_at g p) ! i \<le> ADist (node_at g p) ! j"
  by (rule ADist_mono[OF assms(1,3,4,5)]) (use assms(2,3) in \<open>auto simp: levels_ok_def less_imp_le\<close>)

lemma bunch_relI:
  assumes "locality_graph levels g" "a < nr_nodes g" "b < nr_nodes g" "i < nat levels - 1"
    "bunch_cond levels g a i b"
  shows "(a, b) \<in> bunch_rel g"
  using assms by (auto simp: locality_graph_def in_bunch_def)

text \<open>
  The loop invariant at level \<open>i\<close>: \<open>w\<close> is a node of level \<open>i\<close> or above at the distance
  of the nearest such node from \<open>u\<close>, linked with \<open>u\<close>, different from \<open>v\<close>, and at
  most \<open>i\<close> times as far from \<open>u\<close> as \<open>v\<close> is.
\<close>

definition oracle_inv :: "int \<Rightarrow> LocalityNodes \<Rightarrow> node_ptr \<Rightarrow> node_ptr \<Rightarrow> node_ptr \<Rightarrow> nat \<Rightarrow> bool" where
  "oracle_inv levels g u v w i \<longleftrightarrow>
     u < nr_nodes g \<and> v < nr_nodes g \<and> w < nr_nodes g \<and> u \<noteq> v \<and> w \<noteq> v \<and> i < nat levels
     \<and> int i \<le> Level (node_at g w)
     \<and> node_dist g u w \<le> ADist (node_at g u) ! i
     \<and> node_dist g u w \<le> real i * node_dist g u v
     \<and> (w = u \<or> (u, w) \<in> bunch_rel g)"

lemma oracle_inv_start:
  assumes "locality_graph levels g" "levels_ok levels g" "u < nr_nodes g" "v < nr_nodes g" "u \<noteq> v"
  shows "oracle_inv levels g u v u 0"
proof -
  have "0 < nat levels" using assms(2) by (simp add: levels_ok_def)
  then obtain q where "ADist (node_at g u) ! 0 = node_dist g u q"
    using nearest_node[OF assms(1-3)] by metis
  then have "0 \<le> ADist (node_at g u) ! 0" by simp
  with assms \<open>0 < nat levels\<close> show ?thesis
    by (simp add: oracle_inv_def levels_ok_def)
qed

text \<open>A node of the last level is found.\<close>

lemma oracle_inv_last:
  assumes "locality_graph levels g" "levels_ok levels g" "oracle_inv levels g u v w i"
    "\<not> Suc i < nat levels"
  shows "(v, w) \<in> bunch_rel g"
proof (rule bunch_relI[OF assms(1), where i = 0])
  have "Level (node_at g w) = levels - 1"
    using assms(2-4) by (auto simp: oracle_inv_def levels_ok_def)
  then show "bunch_cond levels g v 0 w"
    using assms(3) by (simp add: oracle_inv_def bunch_cond_def)
qed (use assms(2,3) in \<open>simp_all add: oracle_inv_def levels_ok_def\<close>)

text \<open>A node that is not found is farther than the next level.\<close>

lemma oracle_inv_missed:
  assumes "locality_graph levels g" "levels_ok levels g" "oracle_inv levels g u v w i"
    "(v, w) \<notin> bunch_rel g"
  shows "Suc i < nat levels" and "ADist (node_at g v) ! Suc i < node_dist g v w"
proof -
  show i: "Suc i < nat levels" using oracle_inv_last[OF assms(1-3)] assms(4) by blast
  have v: "v < nr_nodes g" "w < nr_nodes g" using assms(3) by (simp_all add: oracle_inv_def)
  have "i < nat levels - 1" using i by linarith
  then have "\<not> bunch_cond levels g v i w" using bunch_relI[OF assms(1) v, of i] assms(4) by auto
  then obtain j where "i < j" "j < nat levels" "ADist (node_at g v) ! j < node_dist g v w"
    using assms(3) by (auto simp: bunch_cond_def oracle_inv_def)
  then show "ADist (node_at g v) ! Suc i < node_dist g v w"
    using ADist_mono_ok[OF assms(1,2) v(1), of "Suc i" j] by simp
qed

lemma oracle_inv_step:
  assumes g: "locality_graph levels g" "levels_ok levels g" and inv: "oracle_inv levels g u v w i"
    and miss: "(v, w) \<notin> bunch_rel g"
    and q: "q < nr_nodes g" "int (Suc i) \<le> Level (node_at g q)" "ADist (node_at g v) ! Suc i = node_dist g v q"
  shows "oracle_inv levels g v u q (Suc i)"
proof -
  note i = oracle_inv_missed[OF g inv miss]
  have v: "v < nr_nodes g" "u < nr_nodes g" "w < nr_nodes g" and uw: "node_dist g u w \<le> real i * node_dist g u v"
    using inv by (simp_all add: oracle_inv_def)
  have "node_dist g v w \<le> node_dist g v u + node_dist g u w" by (rule dist.d_triangle)
  with i(2) uw q(3) have far: "node_dist g v q \<le> real (Suc i) * node_dist g v u"
    using dist.d_sym[of "node_at g u" "node_at g v"] by (simp add: algebra_simps)
  have "q \<noteq> u"
  proof
    assume "q = u"
    then have "int i \<le> Level (node_at g u)" "nearest_ok g u i"
      using locality_graphD(3)[OF g(1) v(2), of i] i(1) q(2) by simp_all
    then have "ADist (node_at g u) ! i \<le> node_dist g u u"
      using v(2) unfolding nearest_ok_def by blast
    then have "node_dist g u w \<le> 0" using inv by (simp add: oracle_inv_def)
    then have "node_dist g u w = 0" using dist.d_nonneg[of "node_at g u" "node_at g w"] by linarith
    then have "node_dist g v w = node_dist g v u"
      using dist.d_zero_same[of "node_at g u" "node_at g w" "node_at g v"] dist.d_sym by metis
    with i(2) q(3) \<open>q = u\<close> show False by simp
  qed
  moreover have "q = v \<or> (v, q) \<in> bunch_rel g"
  proof (cases "q = v")
    case False
    have "bunch_cond levels g v i q"
      using False q(2,3) ADist_mono_ok[OF g v(1), of "Suc i"] by (auto simp: bunch_cond_def)
    then show ?thesis using bunch_relI[OF g(1) v(1) q(1), of i] i(1) by simp
  qed simp
  ultimately show ?thesis
    using inv i(1) q far by (simp add: oracle_inv_def)
qed

lemma bunch_rel_iff:
  assumes "v < nr_nodes g" "w < nr_nodes g"
  shows "has (Bunch (node_at g v)) (Name (node_at g w)) \<longleftrightarrow> (v, w) \<in> bunch_rel g"
  using assms by (simp add: bunch_rel_def)

lemma approx_loop_ok:
  assumes g: "locality_graph levels g" "levels_ok levels g"
  shows "oracle_inv levels g u v w i \<Longrightarrow>
    \<exists>w' u' v' i'. approx_loop g u v w i = Inr (w', u', v') \<and> {u', v'} = {u, v}
      \<and> oracle_inv levels g u' v' w' i' \<and> (v', w') \<in> bunch_rel g"
proof (induction "nat levels - i" arbitrary: u v w i rule: less_induct)
  case less
  have lt: "v < nr_nodes g" "w < nr_nodes g" using less.prems by (simp_all add: oracle_inv_def)
  show ?case
  proof (cases "(v, w) \<in> bunch_rel g")
    case True
    then have "approx_loop g u v w i = Inr (w, u, v)"
      by (subst approx_loop.simps) (simp add: bunch_rel_iff[OF lt])
    with True less.prems show ?thesis by blast
  next
    case False
    note i = oracle_inv_missed(1)[OF g less.prems False]
    obtain q where q: "q < nr_nodes g" "int (Suc i) \<le> Level (node_at g q)"
      "find_named (All_nodes g) (PDist (node_at g v) ! Suc i) 0 = Some q"
      "ADist (node_at g v) ! Suc i = node_dist g v q"
      using nearest_node[OF g lt(1) i] by metis
    have "slice_get (PDist (node_at g v)) (int (Suc i)) = Inr (PDist (node_at g v) ! Suc i)"
      using i locality_graphD(2)[OF g(1) lt(1)] by (intro slice_get_nat) simp
    then have "approx_loop g u v w i = approx_loop g v u q (Suc i)"
      using False q(3) by (subst approx_loop.simps) (simp add: bunch_rel_iff[OF lt] del: of_nat_Suc)
    moreover have "oracle_inv levels g v u q (Suc i)"
      by (rule oracle_inv_step[OF g less.prems False q(1,2,4)])
    moreover have "nat levels - Suc i < nat levels - i" using i by linarith
    ultimately show ?thesis
      using less.hyps[of "Suc i" v u q] by (simp add: insert_commute)
  qed
qed

lemma oracle_inv_bounds:
  assumes g: "locality_graph levels g" and inv: "oracle_inv levels g u v w i"
    and found: "(v, w) \<in> bunch_rel g"
  shows "ClusterBunchDistances g w u + ClusterBunchDistances g w v = node_dist g w u + node_dist g w v"
    and "node_dist g u v \<le> node_dist g w u + node_dist g w v"
    and "node_dist g w u + node_dist g w v \<le> of_int (2 * levels - 1) * node_dist g u v"
proof -
  let ?D = "node_dist g u v"
  show "ClusterBunchDistances g w u + ClusterBunchDistances g w v = node_dist g w u + node_dist g w v"
    using locality_graph_table[OF g] inv found by (auto simp: oracle_inv_def)
  show "?D \<le> node_dist g w u + node_dist g w v" by (rule dist.detour_lower)
  have "node_dist g w u \<le> real i * ?D"
    using inv dist.d_sym[of "node_at g w" "node_at g u"] by (simp add: oracle_inv_def)
  then have "node_dist g w u + node_dist g w v \<le> 2 * (real i * ?D) + ?D"
    using dist.detour_upper[of "node_at g w" "node_at g u" "node_at g v"] by linarith
  also have "\<dots> = (2 * real i + 1) * ?D" by (simp add: algebra_simps)
  also have "\<dots> \<le> of_int (2 * levels - 1) * ?D"
  proof (rule mult_right_mono)
    have "2 * int i + 1 \<le> 2 * levels - 1" using inv by (auto simp: oracle_inv_def)
    then show "2 * real i + 1 \<le> real_of_int (2 * levels - 1)" by linarith
  qed simp
  finally show "node_dist g w u + node_dist g w v \<le> of_int (2 * levels - 1) * ?D" .
qed

lemma approxDistance_bounds:
  assumes g: "locality_graph levels g" "levels_ok levels g"
    and uv: "u < nr_nodes g" "v < nr_nodes g" "u \<noteq> v"
  obtains r where "approxDistance g u v = Inr r" "node_dist g u v \<le> r"
    "r \<le> of_int (2 * levels - 1) * node_dist g u v"
proof -
  obtain w u' v' i where l: "approx_loop g u v u 0 = Inr (w, u', v')" "{u', v'} = {u, v}"
    "oracle_inv levels g u' v' w i" "(v', w) \<in> bunch_rel g"
    using approx_loop_ok[OF g oracle_inv_start[OF g uv]] by blast
  have D: "node_dist g u' v' = node_dist g u v"
    using l(2) dist.d_sym by (auto simp: doubleton_eq_iff)
  have "approxDistance g u v = Inr (node_dist g w u' + node_dist g w v')"
    using l(1) oracle_inv_bounds(1)[OF g(1) l(3,4)] by (simp add: approxDistance_def)
  with that oracle_inv_bounds(2,3)[OF g(1) l(3,4)] D show ?thesis by metis
qed

subsection \<open>The whole table\<close>

lemma res_fold_row:
  assumes "\<And>v D. v \<in> set vs \<Longrightarrow> f v D = Inr (D(u := (D u)(v := e v)))"
  shows "res_fold f vs D = Inr (D(u := (\<lambda>x. if x \<in> set vs then e x else D u x)))"
  using assms
proof (induction vs arbitrary: D)
  case (Cons v vs)
  then show ?case by (auto simp: fun_eq_iff)
qed simp

lemma res_fold_table:
  assumes "\<And>u v D. u \<in> set us \<Longrightarrow> v \<in> set vs \<Longrightarrow> f u v D = Inr (D(u := (D u)(v := e u v)))"
  shows "\<exists>D'. res_fold (\<lambda>u. res_fold (f u) vs) us D = Inr D'
    \<and> (\<forall>u \<in> set us. \<forall>v \<in> set vs. D' u v = e u v)"
  using assms
proof (induction us rule: rev_induct)
  case (snoc u us)
  from snoc obtain D' where D': "res_fold (\<lambda>u. res_fold (f u) vs) us D = Inr D'"
    "\<forall>u \<in> set us. \<forall>v \<in> set vs. D' u v = e u v"
    by auto
  have "res_fold (f u) vs D' = Inr (D'(u := (\<lambda>x. if x \<in> set vs then e u x else D' u x)))"
    by (rule res_fold_row) (rule snoc.prems, simp_all)
  with D' show ?case by (auto simp: res_fold_append)
qed simp

text \<open>When every pair has an estimate with the property \<open>Q\<close>, the table has it too.\<close>

lemma oracle_table:
  assumes "indexed (All_nodes g)"
    and "\<And>u v. u < nr_nodes g \<Longrightarrow> v < nr_nodes g \<Longrightarrow> u \<noteq> v \<Longrightarrow> \<exists>r. approxDistance g u v = Inr r \<and> Q u v r"
  shows "\<exists>D. AproximateDistanceOracle g = Inr D \<and> (\<forall>u < nr_nodes g. \<forall>v < nr_nodes g.
    if u = v then D u v = 0 else Q u v (D u v))"
proof -
  define e where "e u v = (if u = v then 0 else projr (approxDistance g u v))" for u v
  have e: "approxDistance g u v = Inr (e u v) \<and> Q u v (e u v)"
    if "u < nr_nodes g" "v < nr_nodes g" "u \<noteq> v" for u v
    using assms(2)[OF that] that(3) by (metis e_def sum.sel(2))
  have "oracle_entry g u v D = Inr (D(u := (D u)(v := e u v)))"
    if "u \<in> set [0..<nr_nodes g]" "v \<in> set [0..<nr_nodes g]" for u v D
  proof (cases "u = v")
    case False
    then have "approxDistance g u v = Inr (e u v)" using e that by simp
    with False show ?thesis using indexed_inj[OF assms(1), of u v] that by (simp add: oracle_entry_def)
  qed (simp add: oracle_entry_def e_def)
  then have "\<exists>D. AproximateDistanceOracle g = Inr D
      \<and> (\<forall>u \<in> set [0..<nr_nodes g]. \<forall>v \<in> set [0..<nr_nodes g]. D u v = e u v)"
    unfolding AproximateDistanceOracle_def by (rule res_fold_table)
  then obtain D where D: "AproximateDistanceOracle g = Inr D"
    "\<And>u v. u < nr_nodes g \<Longrightarrow> v < nr_nodes g \<Longrightarrow> D u v = e u v"
    by auto
  have "if u = v then D u v = 0 else Q u v (D u v)" if "u < nr_nodes g" "v < nr_nodes g" for u v
    using D(2)[OF that] e[OF that] by (auto simp: e_def)
  with D(1) show ?thesis by blast
qed

lemma oracle_ok:
  assumes g: "locality_graph levels g" "levels_ok levels g"
  shows "\<exists>D. AproximateDistanceOracle g = Inr D \<and> (\<forall>u < nr_nodes g. \<forall>v < nr_nodes g.
    node_dist g u v \<le> D u v \<and> D u v \<le> of_int (2 * levels - 1) * node_dist g u v)"
proof -
  have "\<exists>r. approxDistance g u v = Inr r \<and> node_dist g u v \<le> r \<and> r \<le> of_int (2 * levels - 1) * node_dist g u v"
    if "u < nr_nodes g" "v < nr_nodes g" "u \<noteq> v" for u v
    using approxDistance_bounds[OF g that] by metis
  moreover have "indexed (All_nodes g)" using g(1) by (simp add: locality_graph_def)
  ultimately obtain D where D: "AproximateDistanceOracle g = Inr D"
    "\<forall>u < nr_nodes g. \<forall>v < nr_nodes g. if u = v then D u v = 0
      else node_dist g u v \<le> D u v \<and> D u v \<le> of_int (2 * levels - 1) * node_dist g u v"
    using oracle_table[where Q = "\<lambda>u v r. node_dist g u v \<le> r \<and> r \<le> of_int (2 * levels - 1) * node_dist g u v"] by blast
  then show ?thesis by (metis dist.d_self mult_zero_right order_refl)
qed

text \<open>The condition on levels and distances reads positions and levels only.\<close>

lemma levels_ok_same_place:
  assumes "nr_nodes g = nr_nodes h" "\<And>p. p < nr_nodes h \<Longrightarrow> same_place (node_at g p) (node_at h p)"
    and "levels_ok levels h"
  shows "levels_ok levels g"
proof -
  have "Level (node_at g p) = Level (node_at h p)" if "p < nr_nodes h" for p
    using assms(2)[OF that] by (simp add: same_place_def)
  moreover have "node_dist g p q = node_dist h p q" if "p < nr_nodes h" "q < nr_nodes h" for p q
    using assms(2) that by (intro same_place_dist) auto
  ultimately show ?thesis using assms(1,3) by (auto simp: levels_ok_def)
qed

lemma created_graph:
  assumes "fresh_nodes ns"
    and "levels_ok levels (ns\<lparr>All_nodes := randomise rand rc rl levels (All_nodes ns)\<rparr>)"
  obtains g where "CreateLocalityGraph rand ns rc rl levels = Inr g" "nr_nodes g = nr_nodes ns"
    "locality_graph levels g" "levels_ok levels g"
proof -
  let ?vs = "randomise rand rc rl levels (All_nodes ns)"
  obtain g where g: "CreateLocalityGraph rand ns rc rl levels = Inr g" "locality_graph levels g"
    "nr_nodes g = nr_nodes ns" "\<And>p. p < nr_nodes g \<Longrightarrow> same_place (node_at g p) (?vs ! p)"
    using CreateLocalityGraph_ok[OF assms(1), of rand rc rl levels] by blast
  have "length ?vs = nr_nodes ns"
    using randomise_like[of rand rc rl levels "All_nodes ns"] by (rule list_all2_lengthD)
  then have "levels_ok levels g"
    using g(3,4) by (intro levels_ok_same_place[OF _ _ assms(2)]) simp_all
  with g that show ?thesis by blast
qed

text \<open>C12: The distance oracle of a graph the program has just built always answers: no lookup
  fails, and the estimate for any two nodes is at least their distance and at most
  \<open>2 * levels - 1\<close> times it. It is enough that there are two levels or more, that some
  node is of the top one and that no distance reaches \<open>MaxFloat64\<close>.\<close>

theorem oracle_stretch:
  assumes "fresh_nodes ns"
    and "levels_ok levels (ns\<lparr>All_nodes := randomise rand rc rl levels (All_nodes ns)\<rparr>)"
  shows "\<exists>g D. CreateLocalityGraph rand ns rc rl levels = Inr g
    \<and> AproximateDistanceOracle g = Inr D
    \<and> (\<forall>u < nr_nodes ns. \<forall>v < nr_nodes ns. ComputeDist (node_at g u) (node_at g v) \<le> D u v
         \<and> D u v \<le> of_int (2 * levels - 1) * ComputeDist (node_at g u) (node_at g v))"
proof -
  obtain g where "CreateLocalityGraph rand ns rc rl levels = Inr g" "nr_nodes g = nr_nodes ns"
    "locality_graph levels g" "levels_ok levels g"
    using created_graph[OF assms] .
  with oracle_ok[of levels g] show ?thesis by auto
qed

text \<open>With the three levels the experiments use, the check that counts the estimates above five
  times the distance counts none.\<close>

theorem no_estimate_too_large:
  assumes "fresh_nodes ns"
    and "levels_ok 3 (ns\<lparr>All_nodes := randomise rand rc rl 3 (All_nodes ns)\<rparr>)"
  shows "\<exists>g D. CreateLocalityGraph rand ns rc rl 3 = Inr g
    \<and> AproximateDistanceOracle g = Inr D \<and> tooLargeDist g D = 0"
proof -
  obtain g where g: "CreateLocalityGraph rand ns rc rl 3 = Inr g"
    "locality_graph 3 g" "levels_ok 3 g"
    using created_graph[OF assms] by blast
  then obtain D where "AproximateDistanceOracle g = Inr D"
    "\<And>u v. u < nr_nodes g \<Longrightarrow> v < nr_nodes g \<Longrightarrow> D u v \<le> 5 * node_dist g u v"
    using oracle_ok[of 3 g] by auto
  moreover from this have "tooLargeDist g D = 0"
    by (fastforce simp: tooLargeDist_def filter_empty_conv)
  ultimately show ?thesis using g by blast
qed

lemma line_nodes_levels:
  "levels_ok 3 (line_nodes\<lparr>All_nodes := randomise rand False False 3 (All_nodes line_nodes)\<rparr>)"
  by (simp add: levels_ok_def randomise_def line_nodes_def max_float64_def All_less_Suc Ex_less_Suc)

theorem oracle_stretch_witness:
  "\<exists>g D. CreateLocalityGraph (\<lambda>k. 0) line_nodes False False 3 = Inr g
    \<and> AproximateDistanceOracle g = Inr D
    \<and> (\<forall>u < 3. \<forall>v < 3. ComputeDist (node_at g u) (node_at g v) \<le> D u v
         \<and> D u v \<le> 5 * ComputeDist (node_at g u) (node_at g v))"
  using oracle_stretch[OF line_nodes_fresh line_nodes_levels, of "\<lambda>k. 0"]
  by (simp add: line_nodes_def numeral_3_eq_3)

theorem no_estimate_too_large_witness:
  "\<exists>g D. CreateLocalityGraph (\<lambda>k. 0) line_nodes False False 3 = Inr g
    \<and> AproximateDistanceOracle g = Inr D \<and> tooLargeDist g D = 0"
  using no_estimate_too_large[OF line_nodes_fresh line_nodes_levels, of "\<lambda>k. 0"] .

end
