(* ===== verification/Graph_Optim.thy ===== *)
theory Graph_Optim
  imports Graph_Bridges Distance_Oracle
begin

text \<open>
  The optimisation of the graph (Save.go, gentree.go): \<open>RemoveLinks\<close> drops links of nodes that
  have more than \<open>max\<close> of them, \<open>UpdateDistance\<close> recomputes the distances of a node over the
  links that are left, \<open>OptimizeGraph\<close> calls them. The invariant \<open>opt_inv\<close> relates the graph
  to the one the optimisation started from; every loop keeps it. The loop over a bunch may run
  forever and takes fuel; \<open>UpdateDistance\<close> takes as many rounds as there are nodes, which is
  enough.
\<close>

subsection \<open>UpdateDistance\<close>

definition nodes_to_visit :: "LocalityNodes \<Rightarrow> node_ptr \<Rightarrow> nat" where
  "nodes_to_visit all startNode =
     length (filter (\<lambda>n. has (Cluster (node_at all startNode)) (Name n) \<or> has (Bunch (node_at all startNode)) (Name n)) (All_nodes all))"

definition already_known :: "LocalityNodes \<Rightarrow> node_ptr \<Rightarrow> nat" where
  "already_known all startNode =
     length (filter (\<lambda>p. ClusterBunchDistances all startNode p < max_float64) [0..<nr_nodes all])"

definition add_link :: "node_ptr \<Rightarrow> node_ptr \<Rightarrow> node_ptr \<Rightarrow> LocalityNodes \<Rightarrow> LocalityNodes" where
  "add_link a b via all = all\<lparr>Links := (Links all)(a := (Links all a)(b := map_set (Links all a b) via True))\<rparr>"

definition relax_entry :: "node_ptr \<Rightarrow> node_ptr \<Rightarrow> real \<Rightarrow> node_ptr \<Rightarrow> LocalityNodes \<Rightarrow> LocalityNodes" where
  "relax_entry startNode crtNode distSoFar node all =
     (let d = ClusterBunchDistances all crtNode node
      in if d < max_float64 \<and> distSoFar + d < ClusterBunchDistances all startNode node
         then add_link startNode node crtNode (set_both startNode node (distSoFar + d) all)
         else all)"

definition next_node ::
  "LocalityNodes \<Rightarrow> node_ptr \<Rightarrow> (string, bool) gomap \<Rightarrow> node_ptr list \<Rightarrow> node_ptr option \<times> real" where
  "next_node all startNode visited ps =
     fold (\<lambda>p (nextNode, d).
         if \<not> has visited (Name (node_at all p)) \<and> ClusterBunchDistances all startNode p < d
         then (Some p, ClusterBunchDistances all startNode p) else (nextNode, d))
       ps (None, max_float64)"

text \<open>The loop, \<open>rng k\<close> being the order in which it ranges over the row of the table when
  \<open>k\<close> rounds of fuel are left. Without a node to go on to it dereferences \<open>nil\<close>.\<close>

fun update_loop ::
  "(nat \<Rightarrow> node_ptr list \<Rightarrow> node_ptr list) \<Rightarrow> node_ptr \<Rightarrow> nat \<Rightarrow> nat \<Rightarrow> node_ptr \<Rightarrow> real \<Rightarrow> (string, bool) gomap
    \<Rightarrow> nat \<Rightarrow> LocalityNodes \<Rightarrow> LocalityNodes option result" where
  "update_loop rng startNode nodesToVisit n crtNode distSoFar visited nodesVisited all =
     (if nodesToVisit \<le> nodesVisited then Inr (Some all)
      else case n of
             0 \<Rightarrow> Inr None
           | Suc k \<Rightarrow>
               let all1 = fold (relax_entry startNode crtNode distSoFar) [0..<nr_nodes all] all
               in case next_node all1 startNode visited (rng k [0..<nr_nodes all]) of
                    (None, _) \<Rightarrow> Inl NilDereference
                  | (Some nextNode, d) \<Rightarrow>
                      let nm = Name (node_at all1 nextNode)
                      in update_loop rng startNode nodesToVisit k nextNode d (map_set visited nm True)
                           (if has (Bunch (node_at all1 startNode)) nm \<or> has (Cluster (node_at all1 startNode)) nm
                            then nodesVisited + 1 else nodesVisited) all1)"

declare update_loop.simps [simp del]

definition UpdateDistance ::
  "(nat \<Rightarrow> node_ptr list \<Rightarrow> node_ptr list) \<Rightarrow> LocalityNodes \<Rightarrow> node_ptr \<Rightarrow> LocalityNodes option result" where
  "UpdateDistance rng all startNode =
     (let nodesToVisit = nodes_to_visit all startNode
      in if already_known all startNode = nodesToVisit then Inr (Some all)
         else update_loop rng startNode nodesToVisit (nr_nodes all) startNode 0 [] 0 all)"

subsection \<open>RemoveLinks\<close>

definition MapLen2 :: "(string, bool) gomap \<Rightarrow> int" where
  "MapLen2 m = int (length (filter (\<lambda>k. has m k) (map_keys m)))"

text \<open>The orders of the map ranges: over the children in the \<open>i\<close>-th search for bridges, and
  over the table in the update of a node.\<close>

record optim_params =
  Op_children :: "nat \<Rightarrow> nat \<Rightarrow> node_ptr option list \<Rightarrow> node_ptr option list"
  Op_table :: "node_ptr \<Rightarrow> nat \<Rightarrow> node_ptr list \<Rightarrow> node_ptr list"

record optim =
  Opt_nodes :: LocalityNodes
  Opt_bridges :: bridges
  Opt_searches :: nat
  nredges :: int
  PriorityLevel :: int
  nrPerLevel :: "(int, (string, bool) gomap) gomap"

text \<open>\<open>x\<close> loses \<open>y\<close> from its bunch, \<open>y\<close> loses \<open>x\<close> from its cluster, and the
  direct distance is forgotten.\<close>

definition unlink :: "node_ptr \<Rightarrow> node_ptr \<Rightarrow> LocalityNodes \<Rightarrow> LocalityNodes" where
  "unlink x y all =
     (let nx = Name (node_at all x); ny = Name (node_at all y)
      in set_both x y max_float64
           (update_node y (\<lambda>n. n\<lparr>OptimalCluster := map_set (OptimalCluster n) nx False\<rparr>)
             (update_node x (\<lambda>n. n\<lparr>OptimalBunch := map_set (OptimalBunch n) ny False\<rparr>) all)))"

definition drop_link :: "optim_params \<Rightarrow> node_ptr \<Rightarrow> node_ptr \<Rightarrow> node_ptr \<Rightarrow> optim \<Rightarrow> optim option result" where
  "drop_link P Root x y s =
     (let all = unlink x y (Opt_nodes s)
      in res_bind (GetBridges (Op_children P (Opt_searches s)) all Root) (\<lambda>r.
           Inr (map_option (\<lambda>B. s\<lparr>Opt_nodes := all, Opt_bridges := B, Opt_searches := Opt_searches s + 1,
             nredges := nredges s - 1\<rparr>) r)))"

text \<open>One pass over the cluster of \<open>a\<close> at the level \<open>ClusterPriority\<close>.\<close>

fun cluster_pass ::
  "optim_params \<Rightarrow> node_ptr \<Rightarrow> int \<Rightarrow> int \<Rightarrow> node_ptr \<Rightarrow> node_ptr list \<Rightarrow> optim \<Rightarrow> optim option result" where
  "cluster_pass P Root mx prio a [] s = Inr (Some s)"
| "cluster_pass P Root mx prio a (c # cs) s =
     (let na = node_at (Opt_nodes s) a; nc = node_at (Opt_nodes s) c
      in if has (OptimalCluster na) (Name nc) \<and> Level nc = prio
            \<and> \<not> (Name na \<in> set (PDist nc) \<or> c = a \<or> bridge (Opt_bridges s) a c)
         then res_bind (drop_link P Root c a s) (\<lambda>r.
                case r of
                  None \<Rightarrow> Inr None
                | Some s1 \<Rightarrow> if nredges s1 \<le> mx then Inr (Some s1) else cluster_pass P Root mx prio a cs s1)
         else cluster_pass P Root mx prio a cs s)"

fun cluster_rounds ::
  "optim_params \<Rightarrow> node_ptr \<Rightarrow> int \<Rightarrow> node_ptr \<Rightarrow> nat list \<Rightarrow> optim \<Rightarrow> optim option result" where
  "cluster_rounds P Root mx a [] s = Inr (Some s)"
| "cluster_rounds P Root mx a (prio # ps) s =
     (if nredges s \<le> mx then Inr (Some s)
      else res_bind (cluster_pass P Root mx (int prio) a [0..<nr_nodes (Opt_nodes s)] s) (\<lambda>r.
        case r of None \<Rightarrow> Inr None | Some s1 \<Rightarrow> cluster_rounds P Root mx a ps s1))"

text \<open>Assignment to \<open>nrPerLevel[l][name]\<close>; the inner map exists for the levels 0 to 2 only.\<close>

definition set_level :: "int \<Rightarrow> string \<Rightarrow> bool \<Rightarrow> (int, (string, bool) gomap) gomap \<Rightarrow> (int, (string, bool) gomap) gomap result" where
  "set_level l nm v m =
     (case map_of m l of None \<Rightarrow> Inl NilMapWrite | Some lv \<Rightarrow> Inr (map_set m l (map_set lv nm v)))"

definition mark_removed :: "int \<Rightarrow> string \<Rightarrow> optim \<Rightarrow> optim result" where
  "mark_removed l nm s = res_bind (set_level l nm False (nrPerLevel s)) (\<lambda>m. Inr (s\<lparr>nrPerLevel := m\<rparr>))"

text \<open>One pass over the bunch of \<open>a\<close>, which ends with the first link dropped.\<close>

fun bunch_pass :: "optim_params \<Rightarrow> node_ptr \<Rightarrow> node_ptr \<Rightarrow> node_ptr list \<Rightarrow> optim \<Rightarrow> optim option result" where
  "bunch_pass P Root a [] s = Inr (Some s)"
| "bunch_pass P Root a (x # xs) s =
     (let all = Opt_nodes s; na = node_at all a; nm = Name (node_at all x)
      in if has (OptimalBunch na) nm
         then res_bind (GetByName all nm) (\<lambda>node_b.
           case node_b of
             None \<Rightarrow> Inl NilDereference
           | Some b \<Rightarrow>
               let lb = Level (node_at all b); nb = Name (node_at all b)
               in if nm \<in> set (PDist na) \<or> b = a \<or> bridge (Opt_bridges s) a b
                  then res_bind (mark_removed lb nb s) (bunch_pass P Root a xs)
                  else let s1 = (if MapLen2 (map_get [] (nrPerLevel s) (PriorityLevel s)) = 0
                                 then s\<lparr>PriorityLevel := PriorityLevel s - 1\<rparr> else s)
                       in if lb \<noteq> PriorityLevel s1 then bunch_pass P Root a xs s1
                          else res_bind (mark_removed lb nb s1) (drop_link P Root a b))
         else bunch_pass P Root a xs s)"

fun bunch_rounds :: "optim_params \<Rightarrow> node_ptr \<Rightarrow> int \<Rightarrow> node_ptr \<Rightarrow> nat \<Rightarrow> optim \<Rightarrow> optim option result" where
  "bunch_rounds P Root mx a n s =
     (if nredges s \<le> mx then Inr (Some s)
      else case n of
             0 \<Rightarrow> Inr None
           | Suc k \<Rightarrow> res_bind (bunch_pass P Root a [0..<nr_nodes (Opt_nodes s)] s) (\<lambda>r.
               case r of None \<Rightarrow> Inr None | Some s1 \<Rightarrow> bunch_rounds P Root mx a k s1))"

declare bunch_rounds.simps [simp del]

definition count_edges :: "LocalityNodes \<Rightarrow> int \<Rightarrow> node_ptr \<Rightarrow> int" where
  "count_edges all OptType a =
     (if OptType = 1 then int (nodes_to_visit all a) else MapLen2 (OptimalBunch (node_at all a)))"

definition count_levels :: "LocalityNodes \<Rightarrow> node_ptr \<Rightarrow> (int, (string, bool) gomap) gomap result" where
  "count_levels all a =
     (let m = OptimalBunch (node_at all a)
      in res_fold (\<lambda>nm lv.
           if has m nm then res_bind (GetByName all nm) (\<lambda>p.
             case p of None \<Rightarrow> Inl NilDereference | Some q \<Rightarrow> set_level (Level (node_at all q)) nm True lv)
           else Inr lv) (map_keys m) [(0, []), (1, []), (2, [])])"

definition optimise_node ::
  "optim_params \<Rightarrow> node_ptr \<Rightarrow> int \<Rightarrow> int \<Rightarrow> nat \<Rightarrow> node_ptr \<Rightarrow> optim \<Rightarrow> optim option result" where
  "optimise_node P Root mx OptType fuel a s =
     (let all = Opt_nodes s; levels = length (PDist (node_at all 0))
      in res_bind (count_levels all a) (\<lambda>lv.
         let s0 = s\<lparr>nredges := count_edges all OptType a, nrPerLevel := lv, PriorityLevel := int levels\<rparr>
         in res_bind (if OptType = 1 then cluster_rounds P Root mx a [0..<levels + 2] s0 else Inr (Some s0)) (\<lambda>r1.
            case r1 of
              None \<Rightarrow> Inr None
            | Some s1 \<Rightarrow> res_bind (bunch_rounds P Root mx a fuel s1) (\<lambda>r2.
                case r2 of
                  None \<Rightarrow> Inr None
                | Some s2 \<Rightarrow> res_bind (UpdateDistance (Op_table P a) (Opt_nodes s2) a) (\<lambda>r3.
                    Inr (map_option (\<lambda>all'. s2\<lparr>Opt_nodes := all'\<rparr>) r3))))))"

fun optimise_nodes ::
  "optim_params \<Rightarrow> node_ptr \<Rightarrow> int \<Rightarrow> int \<Rightarrow> nat \<Rightarrow> node_ptr list \<Rightarrow> optim \<Rightarrow> optim option result" where
  "optimise_nodes P Root mx OptType fuel [] s = Inr (Some s)"
| "optimise_nodes P Root mx OptType fuel (a # as) s =
     res_bind (optimise_node P Root mx OptType fuel a s) (\<lambda>r.
       case r of None \<Rightarrow> Inr None | Some s1 \<Rightarrow> optimise_nodes P Root mx OptType fuel as s1)"

definition RemoveLinks ::
  "optim_params \<Rightarrow> LocalityNodes \<Rightarrow> node_ptr \<Rightarrow> int \<Rightarrow> int \<Rightarrow> nat \<Rightarrow> LocalityNodes option result" where
  "RemoveLinks P all Root mx OptType fuel =
     res_bind (GetBridges (Op_children P 0) all Root) (\<lambda>r.
       case r of
         None \<Rightarrow> Inr None
       | Some B \<Rightarrow> res_bind (optimise_nodes P Root mx OptType fuel [0..<nr_nodes all]
             \<lparr>Opt_nodes = all, Opt_bridges = B, Opt_searches = 1, nredges = 0, PriorityLevel = 0, nrPerLevel = []\<rparr>)
           (\<lambda>s. Inr (map_option Opt_nodes s)))"

definition OptimizeGraph ::
  "optim_params \<Rightarrow> LocalityNodes \<Rightarrow> string \<Rightarrow> int \<Rightarrow> int \<Rightarrow> nat \<Rightarrow> LocalityNodes option result" where
  "OptimizeGraph P all rootName Optimization OptType fuel =
     res_bind (GetByName all rootName) (\<lambda>root.
       case root of None \<Rightarrow> Inl NilDereference | Some r \<Rightarrow> RemoveLinks P all r Optimization OptType fuel)"


subsection \<open>What the optimisation keeps\<close>

definition stripped :: "LocalityNode \<Rightarrow> LocalityNode" where
  "stripped n = n\<lparr>OptimalBunch := [], OptimalCluster := []\<rparr>"

lemma stripped_simps [simp]:
  "Name (stripped n) = Name n" "X (stripped n) = X n" "Y (stripped n) = Y n" "Level (stripped n) = Level n"
  "PDist (stripped n) = PDist n" "ADist (stripped n) = ADist n" "Bunch (stripped n) = Bunch n" "Cluster (stripped n) = Cluster n"
  "NodeIdentity (stripped n) = NodeIdentity n"
  "stripped (n\<lparr>OptimalBunch := b\<rparr>) = stripped n" "stripped (n\<lparr>OptimalCluster := b\<rparr>) = stripped n"
  by (simp_all add: stripped_def)

text \<open>\<open>g\<close> is \<open>g0\<close> with links dropped and distances changed.\<close>

definition opt_inv :: "LocalityNodes \<Rightarrow> LocalityNodes \<Rightarrow> bool" where
  "opt_inv g0 g \<longleftrightarrow> map stripped (All_nodes g) = map stripped (All_nodes g0)
     \<and> (\<forall>a < nr_nodes g0. \<forall>b < nr_nodes g0. has (OptimalCluster (node_at g b)) (Name (node_at g0 a)) = has (OptimalBunch (node_at g a)) (Name (node_at g0 b)))
     \<and> (\<forall>a < nr_nodes g0. map_ok (OptimalBunch (node_at g a))
          \<and> (\<forall>k. (has (OptimalBunch (node_at g a)) k \<longrightarrow> has (OptimalBunch (node_at g0 a)) k)
               \<and> (has (OptimalCluster (node_at g a)) k \<longrightarrow> has (OptimalCluster (node_at g0 a)) k)
               \<and> (k \<in> set (PDist (node_at g0 a)) \<and> has (OptimalBunch (node_at g0 a)) k \<longrightarrow> has (OptimalBunch (node_at g a)) k)))
     \<and> (\<forall>a < nr_nodes g0. ClusterBunchDistances g a a = 0
          \<and> (\<forall>b < nr_nodes g0. ClusterBunchDistances g a b = ClusterBunchDistances g b a \<and> node_dist g0 a b \<le> ClusterBunchDistances g a b))"

lemma opt_invD:
  assumes "opt_inv g0 g"
  shows "nr_nodes g = nr_nodes g0"
    and "p < nr_nodes g0 \<Longrightarrow> stripped (node_at g p) = stripped (node_at g0 p)"
    and "a < nr_nodes g0 \<Longrightarrow> b < nr_nodes g0 \<Longrightarrow>
      has (OptimalCluster (node_at g b)) (Name (node_at g0 a)) = has (OptimalBunch (node_at g a)) (Name (node_at g0 b))"
    and "a < nr_nodes g0 \<Longrightarrow> map_ok (OptimalBunch (node_at g a))"
    and "a < nr_nodes g0 \<Longrightarrow> has (OptimalBunch (node_at g a)) k \<Longrightarrow> has (OptimalBunch (node_at g0 a)) k"
    and "a < nr_nodes g0 \<Longrightarrow> has (OptimalCluster (node_at g a)) k \<Longrightarrow> has (OptimalCluster (node_at g0 a)) k"
    and "a < nr_nodes g0 \<Longrightarrow> k \<in> set (PDist (node_at g0 a)) \<Longrightarrow> has (OptimalBunch (node_at g0 a)) k \<Longrightarrow> has (OptimalBunch (node_at g a)) k"
    and "a < nr_nodes g0 \<Longrightarrow> ClusterBunchDistances g a a = 0"
    and "a < nr_nodes g0 \<Longrightarrow> b < nr_nodes g0 \<Longrightarrow> ClusterBunchDistances g a b = ClusterBunchDistances g b a"
    and "a < nr_nodes g0 \<Longrightarrow> b < nr_nodes g0 \<Longrightarrow> node_dist g0 a b \<le> ClusterBunchDistances g a b"
proof -
  note I = assms[unfolded opt_inv_def]
  show n: "nr_nodes g = nr_nodes g0" using I map_eq_imp_length_eq by blast
  show "p < nr_nodes g0 \<Longrightarrow> stripped (node_at g p) = stripped (node_at g0 p)" using I n by (metis nth_map)
qed (use assms in \<open>auto simp: opt_inv_def\<close>)

lemma stripped_eqD:
  assumes "stripped a = stripped b"
  shows "Name a = Name b" "X a = X b" "Y a = Y b" "Level a = Level b" "PDist a = PDist b" "ADist a = ADist b"
    "Bunch a = Bunch b" "Cluster a = Cluster b" "NodeIdentity a = NodeIdentity b"
  using assms by (metis stripped_simps)+

lemmas opt_inv_node = stripped_eqD[OF opt_invD(2)]

lemma opt_inv_dist:
  "opt_inv g0 g \<Longrightarrow> a < nr_nodes g0 \<Longrightarrow> b < nr_nodes g0 \<Longrightarrow> node_dist g a b = node_dist g0 a b"
  by (intro ComputeDist_cong opt_inv_node)

text \<open>A change of the table that keeps it symmetric and above the distances.\<close>

lemma opt_inv_table:
  assumes "opt_inv g0 g" "a \<noteq> b" "node_dist g0 a b \<le> d"
  shows "opt_inv g0 (set_both a b d g)"
  using assms unfolding opt_inv_def by (auto simp: dist.d_sym)

lemma opt_inv_Links: "opt_inv g0 (g\<lparr>Links := l\<rparr>) = opt_inv g0 g"
  by (simp add: opt_inv_def)

text \<open>Dropping a link that is not to a nearest node.\<close>

lemma unlink_inv:
  assumes "opt_inv g0 g" "indexed (All_nodes g0)" "x < nr_nodes g0" "y < nr_nodes g0" "x \<noteq> y"
    and "Name (node_at g0 y) \<notin> set (PDist (node_at g0 x))" "node_dist g0 x y \<le> max_float64"
  shows "opt_inv g0 (unlink x y g)"
proof -
  let ?h = "update_node y (\<lambda>n. n\<lparr>OptimalCluster := map_set (OptimalCluster n) (Name (node_at g0 x)) False\<rparr>)
             (update_node x (\<lambda>n. n\<lparr>OptimalBunch := map_set (OptimalBunch n) (Name (node_at g0 y)) False\<rparr>) g)"
  note n = opt_invD(1)[OF assms(1)]
  have h: "OptimalBunch (node_at ?h p) = (if p = x then map_set (OptimalBunch (node_at g x)) (Name (node_at g0 y)) False else OptimalBunch (node_at g p))"
    "OptimalCluster (node_at ?h p) = (if p = y then map_set (OptimalCluster (node_at g y)) (Name (node_at g0 x)) False else OptimalCluster (node_at g p))"
    "stripped (node_at ?h p) = stripped (node_at g p)" if "p < nr_nodes g0" for p
    using that n by (auto simp: node_at_update)
  have inj: "Name (node_at g0 a) = Name (node_at g0 b) \<longleftrightarrow> a = b" if "a < nr_nodes g0" "b < nr_nodes g0" for a b
    using indexed_inj[OF assms(2)] that by simp
  have "map stripped (All_nodes ?h) = map stripped (All_nodes g0)"
    by (rule nth_equalityI) (use n h(3) opt_invD(2)[OF assms(1)] in auto)
  moreover have "has (OptimalCluster (node_at ?h b)) (Name (node_at g0 a)) = has (OptimalBunch (node_at ?h a)) (Name (node_at g0 b))"
    if "a < nr_nodes g0" "b < nr_nodes g0" for a b
    using opt_invD(3)[OF assms(1) that] inj assms(3,4) that by (auto simp: h)
  moreover have "map_ok (OptimalBunch (node_at ?h a))" if "a < nr_nodes g0" for a
    using opt_invD(4)[OF assms(1) that] by (auto simp: h that)
  moreover have "has (OptimalBunch (node_at ?h a)) k \<Longrightarrow> has (OptimalBunch (node_at g a)) k"
    "has (OptimalCluster (node_at ?h a)) k \<Longrightarrow> has (OptimalCluster (node_at g a)) k"
    "k \<in> set (PDist (node_at g0 a)) \<Longrightarrow> has (OptimalBunch (node_at g a)) k \<Longrightarrow> has (OptimalBunch (node_at ?h a)) k"
    if "a < nr_nodes g0" for a k
    using assms(6) by (auto simp: h that split: if_splits)
  ultimately have "opt_inv g0 ?h"
    unfolding opt_inv_def using opt_invD(5-)[OF assms(1)] by simp
  moreover have "unlink x y g = set_both x y max_float64 ?h"
    using opt_inv_node(1)[OF assms(1)] assms(3,4) by (simp add: unlink_def Let_def)
  ultimately show ?thesis using opt_inv_table assms(5,7) by simp
qed

subsection \<open>UpdateDistance keeps the contract\<close>

lemma opt_inv_nonneg:
  "opt_inv g0 g \<Longrightarrow> a < nr_nodes g0 \<Longrightarrow> b < nr_nodes g0 \<Longrightarrow> 0 \<le> ClusterBunchDistances g a b"
  using opt_invD(10)[of g0 g a b] dist.d_nonneg[of "node_at g0 a" "node_at g0 b"] by linarith

lemma add_link_simps [simp]:
  "All_nodes (add_link a b v g) = All_nodes g" "ClusterBunchDistances (add_link a b v g) = ClusterBunchDistances g"
  "opt_inv g0 (add_link a b v g) = opt_inv g0 g"
  by (simp_all add: add_link_def opt_inv_Links)

lemma relax_entry_nodes [simp]: "All_nodes (relax_entry s c d x g) = All_nodes g"
  by (simp add: relax_entry_def Let_def)

lemma relax_entry_inv:
  assumes "opt_inv g0 g" "s < nr_nodes g0" "c < nr_nodes g0" "x < nr_nodes g0" "node_dist g0 s c \<le> d"
  shows "opt_inv g0 (relax_entry s c d x g)"
proof (cases "x = s")
  case True
  have "0 \<le> d" using dist.d_nonneg[of "node_at g0 s" "node_at g0 c"] assms(5) by linarith
  then show ?thesis
    using opt_inv_nonneg[OF assms(1,3,4)] opt_invD(8)[OF assms(1,2)] assms(1) True by (simp add: relax_entry_def Let_def)
next
  case False
  have "node_dist g0 s x \<le> d + ClusterBunchDistances g c x"
    using dist.d_triangle[of "node_at g0 s" "node_at g0 x" "node_at g0 c"] opt_invD(10)[OF assms(1,3,4)] assms(5) by linarith
  then show ?thesis using opt_inv_table[OF assms(1)] False assms(1) by (auto simp: relax_entry_def Let_def)
qed

text \<open>No distance grows.\<close>

definition table_le :: "LocalityNodes \<Rightarrow> LocalityNodes \<Rightarrow> bool" where
  "table_le g h \<longleftrightarrow> (\<forall>a < nr_nodes g. \<forall>b < nr_nodes g. ClusterBunchDistances g a b \<le> ClusterBunchDistances h a b)"

lemma table_le_refl [simp]: "table_le g g"
  by (simp add: table_le_def)

lemma table_le_trans: "nr_nodes f = nr_nodes g \<Longrightarrow> table_le f g \<Longrightarrow> table_le g h \<Longrightarrow> table_le f h"
  unfolding table_le_def by (metis order_trans)

lemma relax_entry_le:
  assumes "opt_inv g0 g" "s < nr_nodes g0" "x < nr_nodes g0"
  shows "table_le (relax_entry s c d x g) g"
  using opt_invD(9)[OF assms] by (auto simp: table_le_def relax_entry_def Let_def)

lemma relax_row_inv:
  assumes "opt_inv g0 g" "s < nr_nodes g0" "c < nr_nodes g0" "node_dist g0 s c \<le> d" "set ps \<subseteq> {..<nr_nodes g0}"
  shows "opt_inv g0 (fold (relax_entry s c d) ps g) \<and> table_le (fold (relax_entry s c d) ps g) g"
proof -
  have "opt_inv g0 (relax_entry s c d x h) \<and> table_le (relax_entry s c d x h) g"
    if "x \<in> set ps" "opt_inv g0 h \<and> table_le h g" for x h
    using relax_entry_inv[of g0 h s c x d] relax_entry_le[of g0 h s x c d] that assms(2-5) table_le_trans[of "relax_entry s c d x h" h g] by auto
  then show ?thesis by (intro fold_invariant_set[where P = "\<lambda>h. opt_inv g0 h \<and> table_le h g"]) (use assms(1) in simp_all)
qed

lemma relax_row_nodes [simp]: "All_nodes (fold (relax_entry s c d) ps g) = All_nodes g"
  by (induction ps arbitrary: g) simp_all

lemma relax_row_le:
  "ClusterBunchDistances (fold (relax_entry s c d) ps g) s x \<le> ClusterBunchDistances g s x"
proof (induction ps arbitrary: g)
  case (Cons p ps)
  have "ClusterBunchDistances (relax_entry s c d p g) s x \<le> ClusterBunchDistances g s x"
    by (auto simp: relax_entry_def Let_def)
  with Cons[of "relax_entry s c d p g"] show ?case by simp
qed simp

text \<open>The node chosen is one of the candidates with the smallest entry.\<close>

lemma next_node_cases:
  defines "cand g s visited p \<equiv> \<not> has visited (Name (node_at g p)) \<and> ClusterBunchDistances g s p < max_float64"
  shows "case next_node g s visited ps of
      (None, d) \<Rightarrow> d = max_float64 \<and> (\<forall>p \<in> set ps. \<not> cand g s visited p)
    | (Some q, d) \<Rightarrow> q \<in> set ps \<and> d = ClusterBunchDistances g s q \<and> cand g s visited q
        \<and> (\<forall>p \<in> set ps. cand g s visited p \<longrightarrow> d \<le> ClusterBunchDistances g s p)"
proof (induction ps rule: rev_induct)
  case (snoc x xs)
  then show ?case by (auto simp: next_node_def cand_def split: option.splits prod.splits) force
qed (simp add: next_node_def)

lemma update_loop_inv:
  assumes "\<And>k. range_order (rng k)"
  shows "update_loop rng s target n c d visited k g = Inr (Some g') \<Longrightarrow> opt_inv g0 g \<Longrightarrow> s < nr_nodes g0 \<Longrightarrow> c < nr_nodes g0 \<Longrightarrow>
    node_dist g0 s c \<le> d \<Longrightarrow> opt_inv g0 g' \<and> All_nodes g' = All_nodes g \<and> table_le g' g"
proof (induction n arbitrary: c d visited k g)
  case 0
  then show ?case by (subst (asm) update_loop.simps) (auto split: if_splits)
next
  case (Suc n)
  let ?g = "fold (relax_entry s c d) [0..<nr_nodes g] g"
  have "set [0..<nr_nodes g] \<subseteq> {..<nr_nodes g0}" using opt_invD(1)[OF Suc.prems(2)] by auto
  then have I: "opt_inv g0 ?g" "table_le ?g g" using relax_row_inv[OF Suc.prems(2-5)] by simp_all
  show ?case
  proof (cases "target \<le> k")
    case False
    obtain q e where q: "next_node ?g s visited (rng n [0..<nr_nodes g]) = (Some q, e)"
      using Suc.prems(1) False by (subst (asm) update_loop.simps) (auto simp: Let_def split: prod.splits option.splits)
    have "q < nr_nodes g0" "e = ClusterBunchDistances ?g s q"
      using next_node_cases[where g = ?g and s = s and visited = visited and ps = "rng n [0..<nr_nodes g]"] q opt_invD(1)[OF Suc.prems(2)] by (auto simp: range_order_set[OF assms])
    moreover from this have "node_dist g0 s q \<le> e" using opt_invD(10)[OF I(1) Suc.prems(3)] by simp
    moreover have "\<exists>visited' k'. update_loop rng s target n q e visited' k' ?g = Inr (Some g')"
      using Suc.prems(1) False q by (subst (asm) update_loop.simps) (auto simp: Let_def)
    ultimately show ?thesis
      using Suc.IH[OF _ I(1) Suc.prems(3)] I(2) table_le_trans[of g' ?g g] by auto
  qed (use Suc.prems in \<open>auto simp: update_loop.simps[of rng s target "Suc n"]\<close>)
qed

lemma UpdateDistance_inv:
  assumes "UpdateDistance rng g s = Inr (Some g')" "\<And>k. range_order (rng k)" "opt_inv g0 g" "s < nr_nodes g0"
  shows "opt_inv g0 g'" "All_nodes g' = All_nodes g" "table_le g' g"
  using assms update_loop_inv[where rng = rng and s = s and c = s and d = 0, OF assms(2) _ assms(3,4,4)]
  by (auto simp: UpdateDistance_def Let_def split: if_splits)

subsection \<open>RemoveLinks keeps the contract\<close>

definition optimisable :: "LocalityNodes \<Rightarrow> bool" where
  "optimisable g0 \<longleftrightarrow> indexed (All_nodes g0) \<and> (\<forall>a < nr_nodes g0. \<forall>b < nr_nodes g0. node_dist g0 a b \<le> max_float64)"

lemma MapLen2_card: "map_ok m \<Longrightarrow> MapLen2 m = int (card {k. has m k})"
proof -
  assume m: "map_ok m"
  have "set (filter (has m) (map_keys m)) = {k. has m k}" using has_key[of m] by auto
  then show ?thesis using m distinct_card[of "filter (has m) (map_keys m)"] by (simp add: MapLen2_def map_ok_def map_keys_def)
qed

lemma finite_has: "finite {k. has m k}"
  using finite_subset[of "{k. has m k}" "set (map_keys m)"] has_key[of m] by auto

lemma MapLen2_remove:
  assumes "map_ok m" "has m k"
  shows "MapLen2 (map_set m k False) = MapLen2 m - 1"
proof -
  have "{j. has (map_set m k False) j} = {j. has m j} - {k}" by auto
  moreover have "0 < card {j. has m j}" using assms(2) finite_has[of m] by (auto simp: card_gt_0_iff)
  ultimately show ?thesis
    using assms card_Diff_singleton[of k "{j. has m j}"] by (simp add: MapLen2_card of_nat_diff)
qed

lemma unlink_bunch:
  assumes "x \<noteq> y" "p < nr_nodes g"
  shows "OptimalBunch (node_at (unlink x y g) p) =
    (if p = x then map_set (OptimalBunch (node_at g x)) (Name (node_at g y)) False else OptimalBunch (node_at g p))"
  using assms by (auto simp: unlink_def Let_def node_at_update)

lemma drop_link_nodes:
  "drop_link P R x y s = Inr (Some s') \<Longrightarrow> Opt_nodes s' = unlink x y (Opt_nodes s) \<and> nredges s' = nredges s - 1"
  by (auto simp: drop_link_def Let_def res_bind_Inr_iff)

lemma drop_link_inv:
  assumes "optimisable g0" "opt_inv g0 (Opt_nodes s)" "x < nr_nodes g0" "y < nr_nodes g0" "x \<noteq> y"
    and "Name (node_at (Opt_nodes s) y) \<notin> set (PDist (node_at (Opt_nodes s) x))"
    and "drop_link P R x y s = Inr (Some s')"
  shows "opt_inv g0 (Opt_nodes s')"
  using unlink_inv[OF assms(2) _ assms(3-5)] assms(1,3,4,6) drop_link_nodes[OF assms(7)]
    opt_inv_node(1)[OF assms(2,4)] opt_inv_node(5)[OF assms(2,3)]
  by (simp add: optimisable_def)

lemma cluster_pass_inv:
  assumes "optimisable g0" "a < nr_nodes g0"
  shows "cluster_pass P R mx prio a cs s = Inr (Some s') \<Longrightarrow> opt_inv g0 (Opt_nodes s) \<Longrightarrow> set cs \<subseteq> {..<nr_nodes g0} \<Longrightarrow>
    opt_inv g0 (Opt_nodes s')"
proof (induction cs arbitrary: s)
  case (Cons c cs)
  have c: "c < nr_nodes g0" using Cons.prems(3) by simp
  have "opt_inv g0 (Opt_nodes s1)" if "drop_link P R c a s = Inr (Some s1)" "c \<noteq> a"
    "Name (node_at (Opt_nodes s) a) \<notin> set (PDist (node_at (Opt_nodes s) c))" for s1
    using drop_link_inv[OF assms(1) Cons.prems(2) c assms(2) that(2,3,1)] .
  then show ?case
    using Cons by (auto simp: Let_def res_bind_Inr_iff split: if_splits option.splits)
qed simp

lemma cluster_rounds_inv:
  assumes "optimisable g0" "a < nr_nodes g0"
  shows "cluster_rounds P R mx a ps s = Inr (Some s') \<Longrightarrow> opt_inv g0 (Opt_nodes s) \<Longrightarrow> opt_inv g0 (Opt_nodes s')"
proof (induction ps arbitrary: s)
  case (Cons p ps)
  have "set [0..<nr_nodes (Opt_nodes s)] \<subseteq> {..<nr_nodes g0}" using opt_invD(1)[OF Cons.prems(2)] by auto
  with Cons cluster_pass_inv[OF assms _ Cons.prems(2) this] show ?case
    by (auto simp: res_bind_Inr_iff split: if_splits option.splits)
qed simp

text \<open>A pass over the bunch of \<open>a\<close> touches no other bunch, and the counter follows the number of
  links.\<close>

definition bunch_frame :: "node_ptr \<Rightarrow> optim \<Rightarrow> optim \<Rightarrow> bool" where
  "bunch_frame a s s' \<longleftrightarrow> nr_nodes (Opt_nodes s') = nr_nodes (Opt_nodes s)
     \<and> (\<forall>p < nr_nodes (Opt_nodes s). p \<noteq> a \<longrightarrow> OptimalBunch (node_at (Opt_nodes s') p) = OptimalBunch (node_at (Opt_nodes s) p))
     \<and> nredges s' - MapLen2 (OptimalBunch (node_at (Opt_nodes s') a)) = nredges s - MapLen2 (OptimalBunch (node_at (Opt_nodes s) a))"

lemma bunch_frame_refl [simp]: "bunch_frame a s s"
  by (simp add: bunch_frame_def)

lemma bunch_frame_trans: "bunch_frame a s t \<Longrightarrow> bunch_frame a t u \<Longrightarrow> bunch_frame a s u"
  by (auto simp: bunch_frame_def)

lemma drop_link_frame:
  assumes "opt_inv g0 (Opt_nodes s)" "a < nr_nodes g0" "a \<noteq> b"
    and "has (OptimalBunch (node_at (Opt_nodes s) a)) (Name (node_at (Opt_nodes s) b))"
    and "drop_link P R a b s = Inr (Some s')"
  shows "bunch_frame a s s'"
  using drop_link_nodes[OF assms(5)] assms(2,3) opt_invD(1)[OF assms(1)] MapLen2_remove[OF opt_invD(4)[OF assms(1,2)] assms(4)]
  by (auto simp: bunch_frame_def unlink_bunch) (simp add: unlink_def Let_def)

lemma mark_removed_nodes:
  "mark_removed l nm s = Inr s' \<Longrightarrow> Opt_nodes s' = Opt_nodes s \<and> nredges s' = nredges s \<and> bunch_frame a s s'"
  by (auto simp: mark_removed_def res_bind_Inr_iff bunch_frame_def)

lemma opt_inv_lookup:
  assumes "optimisable g0" "opt_inv g0 g" "x < nr_nodes g0"
  shows "GetByName g (Name (node_at g x)) = Inr (Some x)"
proof -
  have "indexed (All_nodes g)"
    using assms(1) indexed_cong[of "All_nodes g" "All_nodes g0"] opt_invD(1)[OF assms(2)] opt_inv_node(1)[OF assms(2)]
    by (simp add: optimisable_def)
  then show ?thesis using assms(3) opt_invD(1)[OF assms(2)] by simp
qed

lemma bunch_pass_free:
  assumes "has (OptimalBunch (node_at (Opt_nodes s) a)) (Name (node_at (Opt_nodes s) x))"
    and "GetByName (Opt_nodes s) (Name (node_at (Opt_nodes s) x)) = Inr (Some x)"
    and "\<not> (Name (node_at (Opt_nodes s) x) \<in> set (PDist (node_at (Opt_nodes s) a)) \<or> x = a \<or> bridge (Opt_bridges s) a x)"
  shows "\<exists>s1. Opt_nodes s1 = Opt_nodes s \<and> bunch_frame a s s1
    \<and> (bunch_pass P R a (x # xs) s = bunch_pass P R a xs s1
       \<or> bunch_pass P R a (x # xs) s = res_bind (mark_removed (Level (node_at (Opt_nodes s) x)) (Name (node_at (Opt_nodes s) x)) s1) (drop_link P R a x))"
proof -
  define s1 where "s1 = (if MapLen2 (map_get [] (nrPerLevel s) (PriorityLevel s)) = 0
    then s\<lparr>PriorityLevel := PriorityLevel s - 1\<rparr> else s)"
  have "Opt_nodes s1 = Opt_nodes s" "bunch_frame a s s1" by (simp_all add: s1_def bunch_frame_def)
  moreover have "bunch_pass P R a (x # xs) s = (if Level (node_at (Opt_nodes s) x) \<noteq> PriorityLevel s1 then bunch_pass P R a xs s1
      else res_bind (mark_removed (Level (node_at (Opt_nodes s) x)) (Name (node_at (Opt_nodes s) x)) s1) (drop_link P R a x))"
    using assms by (simp add: Let_def s1_def)
  ultimately show ?thesis by (metis (full_types))
qed

lemma bunch_pass_inv:
  assumes "optimisable g0" "a < nr_nodes g0"
  shows "bunch_pass P R a xs s = Inr (Some s') \<Longrightarrow> opt_inv g0 (Opt_nodes s) \<Longrightarrow> set xs \<subseteq> {..<nr_nodes g0} \<Longrightarrow>
    opt_inv g0 (Opt_nodes s') \<and> bunch_frame a s s'"
proof (induction xs arbitrary: s)
  case (Cons x xs)
  let ?g = "Opt_nodes s"
  have x: "x < nr_nodes g0" using Cons.prems(3) by simp
  have IH: "opt_inv g0 (Opt_nodes s') \<and> bunch_frame a s s'"
    if "bunch_pass P R a xs s1 = Inr (Some s')" "Opt_nodes s1 = Opt_nodes s" "bunch_frame a s s1" for s1
    using Cons.IH[OF that(1)] Cons.prems(2,3) that(2,3) bunch_frame_trans by auto
  have D: "opt_inv g0 (Opt_nodes s') \<and> bunch_frame a s s'"
    if "drop_link P R a x s1 = Inr (Some s')" "Opt_nodes s1 = Opt_nodes s" "bunch_frame a s s1" "a \<noteq> x"
      "has (OptimalBunch (node_at ?g a)) (Name (node_at ?g x))" "Name (node_at ?g x) \<notin> set (PDist (node_at ?g a))" for s1
    using that drop_link_inv[OF assms(1) _ assms(2) x that(4) _ that(1)] drop_link_frame[OF _ assms(2) that(4) _ that(1)]
      Cons.prems(2) bunch_frame_trans by auto
  have M: "Opt_nodes s2 = Opt_nodes s1 \<and> bunch_frame a s1 s2" if "mark_removed l nm s1 = Inr s2" for s1 s2 l nm
    using mark_removed_nodes[OF that] by blast
  show ?case
  proof (cases "has (OptimalBunch (node_at ?g a)) (Name (node_at ?g x))")
    case False
    then show ?thesis using Cons.prems(1) IH[of s] by (simp add: Let_def)
  next
    case True
    note G = opt_inv_lookup[OF assms(1) Cons.prems(2) x]
    show ?thesis
    proof (cases "Name (node_at ?g x) \<in> set (PDist (node_at ?g a)) \<or> x = a \<or> bridge (Opt_bridges s) a x")
      case prot: True
      then show ?thesis using Cons.prems(1) True G IH M by (auto simp: Let_def res_bind_Inr_iff)
    next
      case False
      from bunch_pass_free[OF True G False, of P R xs] obtain s1 where s1: "Opt_nodes s1 = Opt_nodes s" "bunch_frame a s s1"
          "bunch_pass P R a (x # xs) s = bunch_pass P R a xs s1
           \<or> bunch_pass P R a (x # xs) s = res_bind (mark_removed (Level (node_at ?g x)) (Name (node_at ?g x)) s1) (drop_link P R a x)"
        by blast
      from s1(3) Cons.prems(1) have "bunch_pass P R a xs s1 = Inr (Some s')
          \<or> res_bind (mark_removed (Level (node_at ?g x)) (Name (node_at ?g x)) s1) (drop_link P R a x) = Inr (Some s')"
        by argo
      then consider "bunch_pass P R a xs s1 = Inr (Some s')"
        | s2 where "mark_removed (Level (node_at ?g x)) (Name (node_at ?g x)) s1 = Inr s2" "drop_link P R a x s2 = Inr (Some s')"
        by (auto simp: res_bind_Inr_iff)
      then show ?thesis
      proof cases
        case 2
        then have "Opt_nodes s2 = Opt_nodes s" "bunch_frame a s s2"
          using M[OF 2(1)] s1(1,2) bunch_frame_trans[of a s s1 s2] by simp_all
        then show ?thesis by (rule D[OF 2(2)]) (use True False in auto)
      qed (rule IH[OF _ s1(1,2)])
    qed
  qed
qed simp

lemma bunch_rounds_inv:
  assumes "optimisable g0" "a < nr_nodes g0"
  shows "bunch_rounds P R mx a n s = Inr (Some s') \<Longrightarrow> opt_inv g0 (Opt_nodes s) \<Longrightarrow>
    opt_inv g0 (Opt_nodes s') \<and> bunch_frame a s s' \<and> nredges s' \<le> mx"
proof (induction n arbitrary: s)
  case 0
  then show ?case by (subst (asm) bunch_rounds.simps) (auto split: if_splits)
next
  case (Suc n)
  have xs: "set [0..<nr_nodes (Opt_nodes s)] \<subseteq> {..<nr_nodes g0}" using opt_invD(1)[OF Suc.prems(2)] by auto
  show ?case
  proof (cases "nredges s \<le> mx")
    case False
    with Suc.prems(1) obtain s1 where s1: "bunch_pass P R a [0..<nr_nodes (Opt_nodes s)] s = Inr (Some s1)"
        "bunch_rounds P R mx a n s1 = Inr (Some s')"
      by (subst (asm) bunch_rounds.simps) (auto simp: res_bind_Inr_iff split: option.splits)
    with Suc.IH[OF s1(2)] bunch_pass_inv[OF assms s1(1) Suc.prems(2) xs] show ?thesis using bunch_frame_trans by blast
  qed (use Suc.prems in \<open>auto simp: bunch_rounds.simps[of P R mx a "Suc n"]\<close>)
qed

lemma optimise_node_inv:
  assumes "optimisable g0" "\<And>k. range_order (Op_table P a k)" "a < nr_nodes g0" "opt_inv g0 (Opt_nodes s)"
    and "optimise_node P R mx t fuel a s = Inr (Some s')"
  shows "opt_inv g0 (Opt_nodes s')"
    and "t \<noteq> 1 \<Longrightarrow> MapLen2 (OptimalBunch (node_at (Opt_nodes s') a)) \<le> mx"
    and "t \<noteq> 1 \<Longrightarrow> p < nr_nodes g0 \<Longrightarrow> p \<noteq> a \<Longrightarrow> OptimalBunch (node_at (Opt_nodes s') p) = OptimalBunch (node_at (Opt_nodes s) p)"
proof -
  obtain lv s1 s2 g' where E: "(if t = 1 then cluster_rounds P R mx a [0..<length (PDist (node_at (Opt_nodes s) 0)) + 2]
        (s\<lparr>nredges := count_edges (Opt_nodes s) t a, nrPerLevel := lv, PriorityLevel := int (length (PDist (node_at (Opt_nodes s) 0)))\<rparr>)
      else Inr (Some (s\<lparr>nredges := count_edges (Opt_nodes s) t a, nrPerLevel := lv, PriorityLevel := int (length (PDist (node_at (Opt_nodes s) 0)))\<rparr>)))
      = Inr (Some s1)"
    "bunch_rounds P R mx a fuel s1 = Inr (Some s2)" "UpdateDistance (Op_table P a) (Opt_nodes s2) a = Inr (Some g')" "s' = s2\<lparr>Opt_nodes := g'\<rparr>"
    using assms(5) by (auto simp: optimise_node_def Let_def res_bind_Inr_iff split: option.splits)
  have s1: "opt_inv g0 (Opt_nodes s1)" using E(1) cluster_rounds_inv[OF assms(1,3)] assms(4) by (auto split: if_splits)
  have s2: "opt_inv g0 (Opt_nodes s2)" "bunch_frame a s1 s2" "nredges s2 \<le> mx" using bunch_rounds_inv[OF assms(1,3) E(2) s1] by auto
  note u = UpdateDistance_inv[OF E(3) assms(2) s2(1) assms(3)]
  show "opt_inv g0 (Opt_nodes s')" using u(1) E(4) by simp
  have f: "Opt_nodes s1 = Opt_nodes s" "nredges s1 = MapLen2 (OptimalBunch (node_at (Opt_nodes s) a))" if "t \<noteq> 1"
    using E(1) that by (auto simp: count_edges_def)
  show "MapLen2 (OptimalBunch (node_at (Opt_nodes s') a)) \<le> mx" if "t \<noteq> 1"
    using f[OF that] s2(2,3) E(4) u(2) by (auto simp: bunch_frame_def)
  show "OptimalBunch (node_at (Opt_nodes s') p) = OptimalBunch (node_at (Opt_nodes s) p)" if "t \<noteq> 1" "p < nr_nodes g0" "p \<noteq> a"
    using f[OF that(1)] that(2,3) s2(2) E(4) u(2) opt_invD(1)[OF assms(4)] by (simp add: bunch_frame_def)
qed

lemma optimise_nodes_inv:
  assumes "optimisable g0" "\<And>a k. range_order (Op_table P a k)"
  shows "optimise_nodes P R mx t fuel as s = Inr (Some s') \<Longrightarrow> opt_inv g0 (Opt_nodes s) \<Longrightarrow> set as \<subseteq> {..<nr_nodes g0} \<Longrightarrow> distinct as \<Longrightarrow>
    opt_inv g0 (Opt_nodes s') \<and> (t \<noteq> 1 \<longrightarrow> (\<forall>p < nr_nodes g0.
      if p \<in> set as then MapLen2 (OptimalBunch (node_at (Opt_nodes s') p)) \<le> mx
      else OptimalBunch (node_at (Opt_nodes s') p) = OptimalBunch (node_at (Opt_nodes s) p)))"
proof (induction as arbitrary: s)
  case (Cons a as)
  then obtain s1 where s1: "optimise_node P R mx t fuel a s = Inr (Some s1)" "optimise_nodes P R mx t fuel as s1 = Inr (Some s')"
    by (auto simp: res_bind_Inr_iff split: option.splits)
  have a: "a < nr_nodes g0" using Cons.prems(3) by simp
  note i = optimise_node_inv[OF assms a Cons.prems(2) s1(1)]
  note j = Cons.IH[OF s1(2) i(1)]
  show ?case using i(2,3) j Cons.prems(3,4) a by auto
qed simp

lemma RemoveLinks_inv:
  assumes "optimisable g0" "\<And>a k. range_order (Op_table P a k)" "opt_inv g0 g0" "RemoveLinks P g0 R mx t fuel = Inr (Some g)"
  shows "opt_inv g0 g" "t \<noteq> 1 \<Longrightarrow> p < nr_nodes g0 \<Longrightarrow> MapLen2 (OptimalBunch (node_at g p)) \<le> mx"
proof -
  obtain B s where s: "optimise_nodes P R mx t fuel [0..<nr_nodes g0]
      \<lparr>Opt_nodes = g0, Opt_bridges = B, Opt_searches = 1, nredges = 0, PriorityLevel = 0, nrPerLevel = []\<rparr> = Inr (Some s)" "g = Opt_nodes s"
    using assms(4) by (auto simp: RemoveLinks_def res_bind_Inr_iff split: option.splits)
  have "set [0..<nr_nodes g0] \<subseteq> {..<nr_nodes g0}" by auto
  note i = optimise_nodes_inv[OF assms(1,2) s(1) _ this]
  show "opt_inv g0 g" using i assms(3) s(2) by auto
  show "MapLen2 (OptimalBunch (node_at g p)) \<le> mx" if "t \<noteq> 1" "p < nr_nodes g0"
    using i assms(3) s(2) that by auto
qed

text \<open>The graph as it is built is a start for the optimisation.\<close>

lemma opt_start:
  assumes "locality_graph levels g" "levels_ok levels g"
  shows "optimisable g" "opt_inv g g"
proof -
  have b: "node_dist g a b \<le> max_float64" if "a < nr_nodes g" "b < nr_nodes g" for a b
    using assms(2) that unfolding levels_ok_def by (meson less_imp_le)
  have i: "indexed (All_nodes g)" using assms(1) by (simp add: locality_graph_def)
  then show "optimisable g" using b by (simp add: optimisable_def)
  have o: "OptimalBunch (node_at g p) = Bunch (node_at g p)" "OptimalCluster (node_at g p) = Cluster (node_at g p)"
    "map_ok (Bunch (node_at g p))" if "p < nr_nodes g" for p
    using assms(1) that by (auto simp: locality_graph_def key_set_def)
  have "cluster_rel g = (bunch_rel g)\<inverse>" "table_ok g" using assms(1) by (simp_all add: locality_graph_def)
  then have "has (Cluster (node_at g b)) (Name (node_at g a)) = has (Bunch (node_at g a)) (Name (node_at g b))"
      "ClusterBunchDistances g a b = ClusterBunchDistances g b a" "node_dist g a b \<le> ClusterBunchDistances g a b"
      "ClusterBunchDistances g a a = 0" if "a < nr_nodes g" "b < nr_nodes g" for a b
    using that b[of a b] by (auto simp: cluster_rel_def bunch_rel_def table_ok_def set_eq_iff dist.d_sym)
  then show "opt_inv g g" unfolding opt_inv_def using o by simp
qed

subsection \<open>UpdateDistance ends\<close>

definition visit_set :: "LocalityNodes \<Rightarrow> (string, bool) gomap \<Rightarrow> node_ptr set" where
  "visit_set g visited = {p. p < nr_nodes g \<and> has visited (Name (node_at g p))}"

definition to_visit :: "LocalityNodes \<Rightarrow> node_ptr \<Rightarrow> node_ptr set" where
  "to_visit g s = {p. p < nr_nodes g \<and> (has (Cluster (node_at g s)) (Name (node_at g p)) \<or> has (Bunch (node_at g s)) (Name (node_at g p)))}"

lemma nodes_to_visit_card: "nodes_to_visit g s = card (to_visit g s)"
  by (simp add: nodes_to_visit_def to_visit_def length_filter_conv_card)

lemma finite_visit [simp]: "finite (visit_set g visited)" "finite (to_visit g s)"
  by (simp_all add: visit_set_def to_visit_def)

lemma visit_set_insert:
  assumes "indexed (All_nodes g)" "q < nr_nodes g"
  shows "visit_set g (map_set visited (Name (node_at g q)) True) = insert q (visit_set g visited)"
  using assms indexed_inj[OF assms(1)] by (auto simp: visit_set_def)

lemma visit_cong: "All_nodes h = All_nodes g \<Longrightarrow> visit_set h v = visit_set g v" "All_nodes h = All_nodes g \<Longrightarrow> to_visit h s = to_visit g s"
  by (simp_all add: visit_set_def to_visit_def)

lemma next_node_exists:
  assumes "range_order (rng k)" "p < nr_nodes g" "p \<notin> visit_set g visited" "ClusterBunchDistances g s p < max_float64"
  obtains q d where "next_node (fold (relax_entry s c d0) ps g) s visited (rng k [0..<nr_nodes g]) = (Some q, d)"
proof -
  let ?h = "fold (relax_entry s c d0) ps g"
  have "\<not> has visited (Name (node_at ?h p))" using assms(2,3) by (simp add: visit_set_def)
  moreover have "ClusterBunchDistances ?h s p < max_float64" using assms(4) relax_row_le[of s c d0 ps g p] by linarith
  ultimately show ?thesis
    using that next_node_cases[where g = ?h and s = s and visited = visited and ps = "rng k [0..<nr_nodes g]"] assms(2)
    by (cases "next_node ?h s visited (rng k [0..<nr_nodes g])")
      (auto simp: range_order_set[OF assms(1)] split: option.splits)
qed

text \<open>With fuel for every node not visited yet the loop does not run out of it, and when all nodes
  to visit are at a known distance it does not fail either.\<close>

lemma update_loop_total:
  assumes "\<And>k. range_order (rng k)"
  shows "indexed (All_nodes g) \<Longrightarrow> k = card (visit_set g visited \<inter> to_visit g s) \<Longrightarrow> card ({..<nr_nodes g} - visit_set g visited) \<le> n \<Longrightarrow>
    update_loop rng s (card (to_visit g s)) n c d visited k g \<noteq> Inr None
    \<and> ((\<forall>p \<in> to_visit g s. ClusterBunchDistances g s p < max_float64) \<longrightarrow>
        (\<exists>g'. update_loop rng s (card (to_visit g s)) n c d visited k g = Inr (Some g')))"
proof (induction n arbitrary: c d visited k g)
  case 0
  then have "{..<nr_nodes g} \<subseteq> visit_set g visited" by (simp add: card_eq_0_iff)
  then have "visit_set g visited \<inter> to_visit g s = to_visit g s" by (auto simp: to_visit_def)
  with 0 show ?case by (simp add: update_loop.simps)
next
  case (Suc n)
  let ?T = "to_visit g s" and ?h = "fold (relax_entry s c d) [0..<nr_nodes g] g"
  have h: "All_nodes ?h = All_nodes g" by simp
  note cg = visit_cong[OF h]
  note nx = next_node_cases[where g = ?h and s = s and visited = visited and ps = "rng n [0..<nr_nodes g]"]
  consider "card ?T \<le> k"
    | d' where "k < card ?T" "next_node ?h s visited (rng n [0..<nr_nodes g]) = (None, d')"
    | q d' where "k < card ?T" "next_node ?h s visited (rng n [0..<nr_nodes g]) = (Some q, d')"
    by (metis linorder_not_le option.exhaust surj_pair)
  then show ?case
  proof cases
    case 2
    then obtain p where "p \<in> ?T" "p \<notin> visit_set g visited"
      using Suc.prems(2) by (metis inf.absorb2 less_irrefl subsetI)
    then have "\<not> ClusterBunchDistances g s p < max_float64"
      using next_node_exists[of rng n p g visited s c d "[0..<nr_nodes g]", OF assms] 2(2) by (auto simp: to_visit_def)
    then show ?thesis using 2 \<open>p \<in> ?T\<close> by (auto simp: update_loop.simps Let_def)
  next
    case 3
    let ?nm = "Name (node_at g q)"
    have q: "q < nr_nodes g" "q \<notin> visit_set g visited"
      using nx 3(2) by (auto simp: range_order_set[OF assms] visit_set_def)
    have V: "visit_set g (map_set visited ?nm True) = insert q (visit_set g visited)" using visit_set_insert[OF Suc.prems(1) q(1)] .
    let ?k = "if has (Bunch (node_at g s)) ?nm \<or> has (Cluster (node_at g s)) ?nm then k + 1 else k"
    have k: "?k = card (visit_set g (map_set visited ?nm True) \<inter> ?T)"
      using Suc.prems(2) q by (auto simp: V to_visit_def)
    have "{..<nr_nodes g} - visit_set g (map_set visited ?nm True) = ({..<nr_nodes g} - visit_set g visited) - {q}" using V by auto
    then have n: "card ({..<nr_nodes g} - visit_set g (map_set visited ?nm True)) \<le> n" using q Suc.prems(3) by (simp add: card_Diff_singleton)
    have E: "update_loop rng s (card ?T) (Suc n) c d visited k g = update_loop rng s (card ?T) n q d' (map_set visited ?nm True) ?k ?h"
      using 3 by (subst update_loop.simps) (simp add: Let_def)
    have "ClusterBunchDistances ?h s p < max_float64" if "ClusterBunchDistances g s p < max_float64" for p
      using that relax_row_le[of s c d "[0..<nr_nodes g]" g p] by linarith
    then show ?thesis
      using Suc.IH[of ?h ?k "map_set visited ?nm True" q d'] Suc.prems(1) k n unfolding E cg by (simp only: h cg) blast
  qed (simp add: update_loop.simps)
qed

lemma UpdateDistance_total:
  assumes "\<And>k. range_order (rng k)" "indexed (All_nodes g)"
  shows "UpdateDistance rng g s \<noteq> Inr None"
    and "(\<And>p. p \<in> to_visit g s \<Longrightarrow> ClusterBunchDistances g s p < max_float64) \<Longrightarrow> \<exists>g'. UpdateDistance rng g s = Inr (Some g')"
proof -
  have "visit_set g [] = {}" by (simp add: visit_set_def)
  then have "update_loop rng s (card (to_visit g s)) (nr_nodes g) s 0 [] 0 g \<noteq> Inr None
      \<and> ((\<forall>p \<in> to_visit g s. ClusterBunchDistances g s p < max_float64) \<longrightarrow>
        (\<exists>g'. update_loop rng s (card (to_visit g s)) (nr_nodes g) s 0 [] 0 g = Inr (Some g')))"
    by (intro update_loop_total[OF assms(1,2)]) simp_all
  then show "UpdateDistance rng g s \<noteq> Inr None"
    and "(\<And>p. p \<in> to_visit g s \<Longrightarrow> ClusterBunchDistances g s p < max_float64) \<Longrightarrow> \<exists>g'. UpdateDistance rng g s = Inr (Some g')"
    by (auto simp: UpdateDistance_def Let_def nodes_to_visit_card)
qed

end
