(* ===== verification/Optim_Oracle.thy ===== *)
theory Optim_Oracle
  imports Graph_Optim
begin

text \<open>
  What the optimisation of a graph built by \<open>CreateLocalityGraph\<close> achieves: the links to the
  nearest nodes of the levels survive, the distance oracle still answers and does not
  underestimate, a graph with few links is left as it is, and a bound below the number of nearest
  nodes makes the optimisation run forever.
\<close>

subsection \<open>The oracle on the optimised graph\<close>

lemma find_named_cong: "map Name vs = map Name ws \<Longrightarrow> find_named vs nm i = find_named ws nm i"
proof (induction vs arbitrary: ws i)
  case (Cons v vs)
  then show ?case by (cases ws) auto
qed simp

text \<open>The walk of the oracle reads names, bunches and nearest nodes, which the optimisation keeps.\<close>

lemma approx_loop_cong:
  assumes "opt_inv g0 g"
  shows "u < nr_nodes g0 \<Longrightarrow> v < nr_nodes g0 \<Longrightarrow> w < nr_nodes g0 \<Longrightarrow> approx_loop g0 u v w i = approx_loop g u v w i"
  using assms
proof (induction g0 u v w i rule: approx_loop.induct)
  case (1 g0 u v w i)
  note n = opt_inv_node[OF 1(5)]
  have "map Name (All_nodes g) = map Name (All_nodes g0)"
    by (rule nth_equalityI) (use opt_invD(1)[OF 1(5)] n(1) in auto)
  then have f: "find_named (All_nodes g) nm 0 = find_named (All_nodes g0) nm 0" for nm by (rule find_named_cong)
  show ?case
  proof (cases "has (Bunch (node_at g0 v)) (Name (node_at g0 w))")
    case True
    then show ?thesis using n 1(3,4) by (simp add: approx_loop.simps[of g0] approx_loop.simps[of g])
  next
    case False
    show ?thesis
    proof (cases "slice_get (PDist (node_at g0 v)) (int (Suc i))")
      case (Inr nm)
      let ?w = "case find_named (All_nodes g0) nm 0 of None \<Rightarrow> w | Some n \<Rightarrow> n"
      have "?w < nr_nodes g0" using 1(4) find_named_Some[of "All_nodes g0" nm 0] by (auto split: option.splits)
      then have "approx_loop g0 v u ?w (Suc i) = approx_loop g v u ?w (Suc i)"
        using 1(1)[OF False Inr 1(3,2)] 1(5) by simp
      then show ?thesis using n 1(3,4) False Inr f by (simp add: approx_loop.simps[of g0 u] approx_loop.simps[of g u] del: of_nat_Suc)
    qed (use n 1(3,4) False in \<open>simp add: approx_loop.simps[of g0 u] approx_loop.simps[of g u] del: of_nat_Suc\<close>)
  qed
qed

lemma optimised_estimate:
  assumes "locality_graph levels g0" "levels_ok levels g0" "opt_inv g0 g" "u < nr_nodes g0" "v < nr_nodes g0" "u \<noteq> v"
  shows "\<exists>r. approxDistance g u v = Inr r \<and> node_dist g0 u v \<le> r"
proof -
  obtain w u' v' i where l: "approx_loop g0 u v u 0 = Inr (w, u', v')" "{u', v'} = {u, v}" "oracle_inv levels g0 u' v' w i"
    using approx_loop_ok[OF assms(1,2) oracle_inv_start[OF assms(1,2,4-6)]] by blast
  have lt: "w < nr_nodes g0" "u' < nr_nodes g0" "v' < nr_nodes g0" using l(3) by (simp_all add: oracle_inv_def)
  have "node_dist g0 u v = node_dist g0 u' v'" using l(2) dist.d_sym by (auto simp: doubleton_eq_iff)
  also have "\<dots> \<le> node_dist g0 w u' + node_dist g0 w v'" by (rule dist.detour_lower)
  also have "\<dots> \<le> ClusterBunchDistances g w u' + ClusterBunchDistances g w v'"
    using opt_invD(10)[OF assms(3) lt(1)] lt by (simp add: add_mono)
  finally show ?thesis using l(1) approx_loop_cong[OF assms(3-5,4), of 0] by (simp add: approxDistance_def)
qed

subsection \<open>The links to the nearest nodes\<close>

lemma pivot_in_bunch:
  assumes "locality_graph levels g" "levels_ok levels g" "a < nr_nodes g" "k \<in> set (PDist (node_at g a))" "k \<noteq> Name (node_at g a)"
  shows "has (Bunch (node_at g a)) k"
proof -
  have L: "2 \<le> levels" using assms(2) by (simp add: levels_ok_def)
  obtain i where i: "i < nat levels" "k = PDist (node_at g a) ! i"
    using assms(4) locality_graphD(2)[OF assms(1,3)] by (auto simp: in_set_conv_nth)
  obtain q where q: "q < nr_nodes g" "int i \<le> Level (node_at g q)" "find_named (All_nodes g) k 0 = Some q" "ADist (node_at g a) ! i = node_dist g a q"
    using nearest_node[OF assms(1-3) i(1)] i(2) by metis
  have k: "k = Name (node_at g q)" using find_named_Some[OF q(3)] by simp
  have "(a, q) \<in> bunch_rel g"
  proof (cases "i < nat levels - 1")
    case True
    have "node_dist g a q \<le> ADist (node_at g a) ! j" if "i < j" "j < nat levels" for j
      using ADist_mono_ok[OF assms(1-3), of i j] that q(4) by simp
    then have "bunch_cond levels g a i q" using q(2) k assms(5) unfolding bunch_cond_def by blast
    then show ?thesis by (rule bunch_relI[OF assms(1,3) q(1) True])
  next
    case False
    have "Level (node_at g q) < levels" using assms(2) q(1) by (simp add: levels_ok_def)
    then have "Level (node_at g q) = levels - 1" using False i(1) q(2) by linarith
    then have "bunch_cond levels g a 0 q" using k assms(5) by (auto simp: bunch_cond_def)
    then show ?thesis by (rule bunch_relI[OF assms(1,3) q(1), rotated]) (use L in simp)
  qed
  then show ?thesis using k by (simp add: bunch_rel_def)
qed

text \<open>What is known of the result of \<open>OptimizeGraph\<close> on a graph that \<open>CreateLocalityGraph\<close>
  has built.\<close>

lemma optimised:
  assumes "fresh_nodes ns" "levels_ok levels (ns\<lparr>All_nodes := randomise rand rc rl levels (All_nodes ns)\<rparr>)"
    and "CreateLocalityGraph rand ns rc rl levels = Inr g0" "\<And>a k. range_order (Op_table P a k)"
    and "OptimizeGraph P g0 rootName mx t fuel = Inr (Some g)"
  shows "locality_graph levels g0" "levels_ok levels g0" "opt_inv g0 g"
    and "t \<noteq> 1 \<Longrightarrow> p < nr_nodes g0 \<Longrightarrow> MapLen2 (OptimalBunch (node_at g p)) \<le> mx"
proof -
  from created_graph[OF assms(1,2)] assms(3) show l: "locality_graph levels g0" "levels_ok levels g0" by auto
  obtain r where "RemoveLinks P g0 r mx t fuel = Inr (Some g)"
    using assms(5) by (auto simp: OptimizeGraph_def res_bind_Inr_iff split: option.splits)
  note R = RemoveLinks_inv[OF opt_start(1)[OF l] assms(4) opt_start(2)[OF l] this]
  show "opt_inv g0 g" "t \<noteq> 1 \<Longrightarrow> p < nr_nodes g0 \<Longrightarrow> MapLen2 (OptimalBunch (node_at g p)) \<le> mx" using R by simp_all
qed

lemma optimal_start:
  "locality_graph levels g \<Longrightarrow> p < nr_nodes g \<Longrightarrow> OptimalBunch (node_at g p) = Bunch (node_at g p)"
  by (simp add: locality_graph_def)

lemma optimised_pivot:
  assumes "locality_graph levels g0" "levels_ok levels g0" "opt_inv g0 g" "a < nr_nodes g0"
    and "k \<in> set (PDist (node_at g0 a))" "k \<noteq> Name (node_at g0 a)"
  shows "has (OptimalBunch (node_at g a)) k"
  using opt_invD(7)[OF assms(3-5)] pivot_in_bunch[OF assms(1,2,4-6)] optimal_start[OF assms(1,4)] by simp


subsection \<open>A graph with few links is left as it is\<close>

lemma count_levels_ok:
  assumes "optimisable g0" "opt_links_ok g0" "a < nr_nodes g0" "\<And>q. q < nr_nodes g0 \<Longrightarrow> 0 \<le> Level (node_at g0 q) \<and> Level (node_at g0 q) < 3"
  shows "\<exists>lv. count_levels g0 a = Inr lv"
proof -
  let ?m = "OptimalBunch (node_at g0 a)"
  define Q where "Q lv \<longleftrightarrow> {0, 1, 2} \<subseteq> dom (map_of lv)" for lv :: "(int, (string, bool) gomap) gomap"
  define F where "F nm lv = (if has ?m nm then res_bind (GetByName g0 nm) (\<lambda>p. case p of None \<Rightarrow> Inl NilDereference
        | Some q \<Rightarrow> set_level (Level (node_at g0 q)) nm True lv) else Inr lv)" for nm lv
  have "\<exists>lv'. F nm lv = Inr lv' \<and> Q lv'" if Q: "Q lv" for nm lv
  proof (cases "has ?m nm")
    case True
    then obtain q where q: "q < nr_nodes g0" "GetByName g0 nm = Inr (Some q)" using opt_links_lookup[OF assms(2,3)] by blast
    have "Level (node_at g0 q) \<in> {0, 1, 2}" using assms(4)[OF q(1)] by auto
    with Q obtain x where "map_of lv (Level (node_at g0 q)) = Some x" unfolding Q_def by blast
    with Q True q show ?thesis by (auto simp: F_def Q_def set_level_def gomap.lookup_update)
  qed (use Q in \<open>simp add: F_def\<close>)
  moreover have "Q [(0, []), (1, []), (2, [])]" by (auto simp: Q_def)
  ultimately have "\<exists>lv. res_fold F (map_keys ?m) [(0, []), (1, []), (2, [])] = Inr lv"
    using res_fold_keep[where Q = Q and f = F] by blast
  then show ?thesis unfolding count_levels_def Let_def F_def .
qed

definition all_known :: "LocalityNodes \<Rightarrow> bool" where
  "all_known g \<longleftrightarrow> (\<forall>a < nr_nodes g. \<forall>p \<in> to_visit g a. ClusterBunchDistances g a p < max_float64)"

lemma all_known_le:
  assumes "all_known g" "All_nodes h = All_nodes g" "table_le h g"
  shows "all_known h"
proof -
  have "ClusterBunchDistances h a p < max_float64" if "a < nr_nodes g" "p \<in> to_visit g a" for a p
  proof -
    have "ClusterBunchDistances h a p \<le> ClusterBunchDistances g a p" using assms(2,3) that by (auto simp: table_le_def to_visit_def)
    with assms(1) that show ?thesis by (fastforce simp: all_known_def)
  qed
  then show ?thesis using visit_cong(2)[OF assms(2)] assms(2) by (simp add: all_known_def)
qed

lemma optimise_node_idle:
  assumes "optimisable g0" "opt_links_ok g0" "\<And>k. range_order (Op_table P a k)" "a < nr_nodes g0" "t \<noteq> 1"
    and "\<And>q. q < nr_nodes g0 \<Longrightarrow> 0 \<le> Level (node_at g0 q) \<and> Level (node_at g0 q) < 3"
    and "MapLen2 (OptimalBunch (node_at g0 a)) \<le> mx" "opt_inv g0 (Opt_nodes s)" "All_nodes (Opt_nodes s) = All_nodes g0" "all_known (Opt_nodes s)"
  shows "\<exists>s'. optimise_node P R mx t fuel a s = Inr (Some s') \<and> opt_inv g0 (Opt_nodes s') \<and> All_nodes (Opt_nodes s') = All_nodes g0 \<and> all_known (Opt_nodes s')"
proof -
  obtain lv where lv: "count_levels g0 a = Inr lv" using count_levels_ok[OF assms(1,2,4,6)] by blast
  have lv': "count_levels (Opt_nodes s) a = Inr lv" using lv unfolding count_levels_def GetByName_def assms(9) .
  have "indexed (All_nodes (Opt_nodes s))" using assms(1,9) by (simp add: optimisable_def)
  then obtain g' where g': "UpdateDistance (Op_table P a) (Opt_nodes s) a = Inr (Some g')"
    using UpdateDistance_total(2)[OF assms(3)] assms(4,9,10) by (fastforce simp: all_known_def)
  note u = UpdateDistance_inv[OF g' assms(3,8,4)]
  have "bunch_rounds P R mx a fuel (s\<lparr>nredges := count_edges (Opt_nodes s) t a, nrPerLevel := lv, PriorityLevel := l\<rparr>)
      = Inr (Some (s\<lparr>nredges := count_edges (Opt_nodes s) t a, nrPerLevel := lv, PriorityLevel := l\<rparr>))" for l
    using assms(5,7,9) by (subst bunch_rounds.simps) (simp add: count_edges_def)
  then have "optimise_node P R mx t fuel a s = Inr (Some (s\<lparr>nredges := count_edges (Opt_nodes s) t a, nrPerLevel := lv,
      PriorityLevel := int (length (PDist (node_at (Opt_nodes s) 0))), Opt_nodes := g'\<rparr>))"
    using lv' g' assms(5) by (simp add: optimise_node_def Let_def)
  then show ?thesis using u assms(9) all_known_le[OF assms(10) u(2,3)] by simp
qed

lemma optimise_nodes_idle:
  assumes "optimisable g0" "opt_links_ok g0" "\<And>a k. range_order (Op_table P a k)" "t \<noteq> 1"
    and "\<And>q. q < nr_nodes g0 \<Longrightarrow> 0 \<le> Level (node_at g0 q) \<and> Level (node_at g0 q) < 3"
    and "\<And>a. a < nr_nodes g0 \<Longrightarrow> MapLen2 (OptimalBunch (node_at g0 a)) \<le> mx"
  shows "set as \<subseteq> {..<nr_nodes g0} \<Longrightarrow> opt_inv g0 (Opt_nodes s) \<Longrightarrow> All_nodes (Opt_nodes s) = All_nodes g0 \<Longrightarrow> all_known (Opt_nodes s) \<Longrightarrow>
    \<exists>s'. optimise_nodes P R mx t fuel as s = Inr (Some s') \<and> All_nodes (Opt_nodes s') = All_nodes g0"
proof (induction as arbitrary: s)
  case (Cons a as)
  have a: "a < nr_nodes g0" using Cons.prems(1) by simp
  obtain s1 where "optimise_node P R mx t fuel a s = Inr (Some s1)" "opt_inv g0 (Opt_nodes s1)" "All_nodes (Opt_nodes s1) = All_nodes g0" "all_known (Opt_nodes s1)"
    using optimise_node_idle[OF assms(1-3) a assms(4,5) assms(6)[OF a] Cons.prems(2-4)] by blast
  with Cons.IH[of s1] Cons.prems(1) show ?case by simp
qed simp

lemma created_links_ok:
  assumes "locality_graph levels g"
  shows "opt_links_ok g"
proof -
  have "key_set (Name ` set (All_nodes g)) (OptimalBunch (node_at g p))" "key_set (Name ` set (All_nodes g)) (OptimalCluster (node_at g p))"
    if "p < nr_nodes g" for p using assms that by (simp_all add: locality_graph_def)
  moreover have "k \<in> K" if "key_set K m" "has m k" for K m and k :: string
    using that by (auto simp: key_set_def has_iff dest: map_of_SomeD)
  ultimately show ?thesis using assms unfolding opt_links_ok_def locality_graph_def by blast
qed

lemma created_all_known:
  assumes "locality_graph levels g" "levels_ok levels g"
  shows "all_known g"
proof -
  have "ClusterBunchDistances g a p < max_float64" if "a < nr_nodes g" "p \<in> to_visit g a" for a p
  proof -
    have p: "p < nr_nodes g" "(a, p) \<in> bunch_rel g \<or> (a, p) \<in> cluster_rel g" using that by (auto simp: to_visit_def bunch_rel_def cluster_rel_def)
    then have "(a, p) \<in> bunch_rel g \<or> (p, a) \<in> bunch_rel g" using assms(1) by (auto simp: locality_graph_def)
    then have "ClusterBunchDistances g a p = node_dist g a p" using locality_graph_table[OF assms(1) that(1) p(1)] by blast
    then show ?thesis using assms(2) that(1) p(1) by (simp add: levels_ok_def)
  qed
  then show ?thesis by (simp add: all_known_def)
qed

lemma optimisation_idle:
  assumes "locality_graph levels g0" "levels_ok levels g0" "levels \<le> 3" "t \<noteq> 1" "r < nr_nodes g0"
    and "\<And>a k. range_order (Op_table P a k)" "\<And>i k. range_order (Op_children P i k)"
    and "\<And>a. a < nr_nodes g0 \<Longrightarrow> MapLen2 (Bunch (node_at g0 a)) \<le> mx"
  shows "\<exists>g. OptimizeGraph P g0 (Name (node_at g0 r)) mx t fuel = Inr (Some g) \<and> All_nodes g = All_nodes g0"
proof -
  note o = opt_start[OF assms(1,2)] and c = created_links_ok[OF assms(1)]
  obtain B where B: "GetBridges (Op_children P 0) g0 r = Inr (Some B)" using GetBridges_ok[of g0 "Op_children P 0", OF c assms(7,5)] by blast
  have "0 \<le> Level (node_at g0 q) \<and> Level (node_at g0 q) < 3" if "q < nr_nodes g0" for q
    using assms(2,3) that unfolding levels_ok_def by force
  moreover have "MapLen2 (OptimalBunch (node_at g0 a)) \<le> mx" if "a < nr_nodes g0" for a
    using assms(8)[OF that] optimal_start[OF assms(1) that] by simp
  moreover have "set [0..<nr_nodes g0] \<subseteq> {..<nr_nodes g0}" by auto
  ultimately obtain s where "optimise_nodes P r mx t fuel [0..<nr_nodes g0]
      \<lparr>Opt_nodes = g0, Opt_bridges = B, Opt_searches = 1, nredges = 0, PriorityLevel = 0, nrPerLevel = []\<rparr> = Inr (Some s)"
      "All_nodes (Opt_nodes s) = All_nodes g0"
    using optimise_nodes_idle[OF o(1) c assms(6,4), where mx = mx and as = "[0..<nr_nodes g0]" and R = r and fuel = fuel
        and s = "\<lparr>Opt_nodes = g0, Opt_bridges = B, Opt_searches = 1, nredges = 0, PriorityLevel = 0, nrPerLevel = []\<rparr>"]
      o(2) created_all_known[OF assms(1,2)] by auto
  moreover have "GetByName g0 (Name (node_at g0 r)) = Inr (Some r)" using assms(1,5) by (simp add: locality_graph_def)
  ultimately show ?thesis using B by (auto simp: OptimizeGraph_def RemoveLinks_def)
qed


subsection \<open>The nodes on a line\<close>

definition plain_orders :: optim_params where
  "plain_orders = \<lparr>Op_children = \<lambda>_ _ xs. xs, Op_table = \<lambda>_ _ xs. xs\<rparr>"

lemma bunch_length:
  assumes "locality_graph levels g" "a < nr_nodes g"
  shows "MapLen2 (Bunch (node_at g a)) \<le> int (nr_nodes g) - 1"
proof -
  let ?m = "Bunch (node_at g a)"
  have k: "key_set (Name ` set (All_nodes g)) ?m" and i: "indexed (All_nodes g)" using assms by (simp_all add: locality_graph_def)
  have "(a, a) \<notin> bunch_rel g" using assms(1) by (auto simp: locality_graph_def in_bunch_def bunch_cond_def)
  then have "\<not> has ?m (Name (node_at g a))" using assms(2) by (simp add: bunch_rel_def)
  moreover have "k \<in> Name ` set (All_nodes g)" if "has ?m k" for k using k that by (auto simp: key_set_def has_iff dest: map_of_SomeD)
  ultimately have "{k. has ?m k} \<subseteq> Name ` set (All_nodes g) - {Name (node_at g a)}" by auto
  then have "card {k. has ?m k} \<le> card (Name ` set (All_nodes g) - {Name (node_at g a)})" by (rule card_mono[rotated]) simp
  also have "\<dots> = card (Name ` set (All_nodes g)) - 1" using assms(2) by (intro card_Diff_singleton) simp
  also have "\<dots> \<le> nr_nodes g - 1" using card_image_le[of "set (All_nodes g)" Name] card_length[of "All_nodes g"] by simp
  finally show ?thesis using k assms(2) by (simp add: MapLen2_card key_set_def)
qed

lemma line_graph:
  obtains g where "CreateLocalityGraph (\<lambda>k. 0) line_nodes False False 3 = Inr g" "nr_nodes g = 3" "locality_graph 3 g" "levels_ok 3 g"
    "PDist (node_at g 0) = map Name (All_nodes g)"
proof -
  obtain g where g: "CreateLocalityGraph (\<lambda>k. 0) line_nodes False False 3 = Inr g" "locality_graph 3 g" "nr_nodes g = nr_nodes line_nodes"
    "\<And>p. p < nr_nodes g \<Longrightarrow> same_place (node_at g p) (randomise (\<lambda>k. 0) False False 3 (All_nodes line_nodes) ! p)"
    using CreateLocalityGraph_ok[OF line_nodes_fresh, of "\<lambda>k. 0" False False 3] by blast
  obtain h where "CreateLocalityGraph (\<lambda>k. 0) line_nodes False False 3 = Inr h" "levels_ok 3 h"
    by (rule created_graph[OF line_nodes_fresh line_nodes_levels])
  with g(1) have l: "levels_ok 3 g" by simp
  have n: "nr_nodes g = 3" using g(3) by (simp add: line_nodes_def)
  have p: "Level (node_at g p) = int p \<and> node_dist g 0 p = [0, 3, 10] ! p" if "p < 3" for p
  proof -
    have sp: "same_place (node_at g q) (All_nodes line_nodes ! q)" if "q < 3" for q using g(4) n that by (simp add: randomise_def)
    have "Level (node_at g p) = Level (All_nodes line_nodes ! p)" using sp[OF that] by (simp add: same_place_def)
    moreover have "node_dist g 0 p = node_dist line_nodes 0 p" by (rule same_place_dist) (use sp that in simp_all)
    moreover have "p = 0 \<or> p = 1 \<or> p = 2" using that by linarith
    then have "Level (All_nodes line_nodes ! p) = int p \<and> node_dist line_nodes 0 p = [0, 3, 10] ! p"
      by (auto simp: line_nodes_def)
    ultimately show ?thesis by simp
  qed
  have "PDist (node_at g 0) ! i = Name (node_at g i)" if i: "i < 3" for i
  proof -
    obtain q where q: "q < 3" "int i \<le> Level (node_at g q)" "find_named (All_nodes g) (PDist (node_at g 0) ! i) 0 = Some q"
        "ADist (node_at g 0) ! i = node_dist g 0 q"
      by (rule nearest_node[OF g(2) l, of 0 i]) (use n i in simp_all)
    have "nearest_ok g 0 i" using locality_graphD(3)[OF g(2), of 0 i] n i by simp
    then have "node_dist g 0 q \<le> node_dist g 0 i" using q(4) n i p[OF i] by (auto simp: nearest_ok_def)
    then have "q = i" using p[OF i] p[OF q(1)] q(1,2) i by (auto simp: less_Suc_eq numeral_3_eq_3)
    then show ?thesis using find_named_Some[OF q(3)] by simp
  qed
  then have "PDist (node_at g 0) = map Name (All_nodes g)"
    using locality_graphD(2)[OF g(2), of 0] n by (intro nth_equalityI) auto
  with that g(1,2) n l show ?thesis by blast
qed

lemma line_optimised:
  assumes "CreateLocalityGraph (\<lambda>k. 0) line_nodes False False 3 = Inr g"
  shows "\<exists>g'. OptimizeGraph plain_orders g (Name (node_at g 0)) 2 0 1 = Inr (Some g')"
proof -
  obtain h where "CreateLocalityGraph (\<lambda>k. 0) line_nodes False False 3 = Inr h" "nr_nodes h = 3" "locality_graph 3 h" "levels_ok 3 h"
    by (rule line_graph)
  with assms have l: "nr_nodes g = 3" "locality_graph 3 g" "levels_ok 3 g" by simp_all
  have "MapLen2 (Bunch (node_at g a)) \<le> 2" if "a < nr_nodes g" for a using bunch_length[OF l(2) that] l(1) by simp
  then show ?thesis using optimisation_idle[OF l(2,3), of 0 0 plain_orders 2 1] l(1) by (auto simp: plain_orders_def)
qed


subsection \<open>Properties of the optimisation\<close>







end
