(* ===== verification/Ring_Tree.thy ===== *)
theory Ring_Tree
  imports Locality_Nodes
begin

text \<open>
  The spanning trees of the rings (gentree.go: \<open>dijkstra\<close>, \<open>dfsBuildTree\<close>): a search that
  visits allowed nodes in the order of their distance from the root, hangs unvisited
  neighbours below the node it visits and moves a node to a better parent. The maps
  \<open>visited\<close>, \<open>distances\<close>, \<open>nodesInTree\<close> and \<open>depth\<close> are one state record;
  a pointer to a tree node is the key under which \<open>nodesInTree\<close> holds it, the name of the
  node. The order in which Go ranges over a map is a parameter, new for every round of the loop.
\<close>

subsection \<open>Tree nodes\<close>

text \<open>\<open>onet.TreeNode\<close>, as far as the search uses it.\<close>

record tree_cell =
  Tc_index :: int
  Tc_identity :: "ServerIdentity option"
  Tc_children :: "string list"
  Tc_parent :: "string option"

type_synonym cells = "(string, tree_cell option) gomap"

abbreviation cell :: "cells \<Rightarrow> string \<Rightarrow> tree_cell option" where
  "cell t k \<equiv> map_get None t k"

text \<open>\<open>onet.NewTreeNode\<close> is a parameter, documented to return a node with the given index and
  identity, without children and without a parent.\<close>

type_synonym new_node = "int \<Rightarrow> ServerIdentity option \<Rightarrow> tree_cell"

definition new_node_ok :: "new_node \<Rightarrow> bool" where
  "new_node_ok new \<longleftrightarrow> (\<forall>i sid. Tc_index (new i sid) = i \<and> Tc_identity (new i sid) = sid
     \<and> Tc_children (new i sid) = [] \<and> Tc_parent (new i sid) = None)"

definition make_node :: "new_node \<Rightarrow> LocalityNodes \<Rightarrow> string \<Rightarrow> cells \<Rightarrow> cells result" where
  "make_node new all name t =
     (if cell t name = None
      then res_bind (NameToServerIdentity all name) (\<lambda>sid.
           res_bind (NodeNameToInt name) (\<lambda>i. Inr (map_set t name (Some (new i sid)))))
      else Inr t)"

definition identity_name :: "LocalityNodes \<Rightarrow> tree_cell \<Rightarrow> string result" where
  "identity_name all c =
     (case Tc_identity c of None \<Rightarrow> Inl NilDereference | Some sid \<Rightarrow> Inr (GetServerIdentityToName all sid))"

text \<open>The first child with the given name.\<close>

fun find_child :: "LocalityNodes \<Rightarrow> cells \<Rightarrow> string \<Rightarrow> string list \<Rightarrow> nat \<Rightarrow> nat option result" where
  "find_child all t name [] i = Inr None"
| "find_child all t name (n # ns) i =
     (case cell t n of
        None \<Rightarrow> Inl NilDereference
      | Some c \<Rightarrow> res_bind (identity_name all c) (\<lambda>x.
          if x = name then Inr (Some i) else find_child all t name ns (Suc i)))"

text \<open>The child is cut out of the children of its parent; without it the slice expression
  \<open>[:idx]\<close> is out of range.\<close>

definition remove_child :: "LocalityNodes \<Rightarrow> string \<Rightarrow> string \<Rightarrow> cells \<Rightarrow> cells result" where
  "remove_child all parent name t =
     (case cell t parent of
        None \<Rightarrow> Inl NilDereference
      | Some pc \<Rightarrow> res_bind (find_child all t name (Tc_children pc) 0) (\<lambda>idx.
          case idx of
            None \<Rightarrow> Inl IndexOutOfRange
          | Some i \<Rightarrow> Inr (map_set t parent
              (Some (pc\<lparr>Tc_children := take i (Tc_children pc) @ drop (Suc i) (Tc_children pc)\<rparr>)))))"

definition detach :: "LocalityNodes \<Rightarrow> string \<Rightarrow> cells \<Rightarrow> cells result" where
  "detach all name t =
     (case cell t name of
        None \<Rightarrow> Inl NilDereference
      | Some c \<Rightarrow>
          (case Tc_parent c of
             None \<Rightarrow> Inr t
           | Some p \<Rightarrow>
               (case cell t p of
                  None \<Rightarrow> Inl NilDereference
                | Some pc \<Rightarrow> res_bind (identity_name all pc) (\<lambda>parent. remove_child all parent name t))))"

subsection \<open>The search\<close>

text \<open>The parameters of \<open>dijkstra\<close>, and the maps it updates.\<close>

record search_args =
  Sa_NewTreeNode :: new_node
  Sa_all :: LocalityNodes
  Sa_root :: string
  Sa_neighbors :: "(string, (string, bool) gomap) gomap"
  Sa_allowedNodes :: "(string, bool) gomap"
  Sa_allowedLeafs :: "(string, bool) gomap"
  Sa_buildAllowedLeafs :: bool
  Sa_radius :: real
  Sa_failedMode :: bool

record search =
  Se_visited :: "(string, bool) gomap"
  Se_distances :: "(string, real) gomap"
  Se_tree :: cells
  Se_depth :: "(string, int) gomap"

text \<open>\<open>ComputeDist(all.GetByName(a), all.GetByName(b))\<close>.\<close>

definition dist_by_name :: "LocalityNodes \<Rightarrow> string \<Rightarrow> string \<Rightarrow> real result" where
  "dist_by_name all a b =
     res_bind (GetByName all a) (\<lambda>p.
     res_bind (GetByName all b) (\<lambda>q.
       case (p, q) of
         (Some p, Some q) \<Rightarrow> Inr (ComputeDist (node_at all p) (node_at all q))
       | _ \<Rightarrow> Inl NilDereference))"

text \<open>One iteration of the selection of the nearest node, on the least distance \<open>min\<close>, \<open>minNodeName\<close>,
  \<open>localVisited\<close> and \<open>repeat\<close>.\<close>

definition pick_step ::
  "search_args \<Rightarrow> search \<Rightarrow> string \<Rightarrow> real \<times> string \<times> (string, bool) gomap \<times> bool
    \<Rightarrow> real \<times> string \<times> (string, bool) gomap \<times> bool" where
  "pick_step A s nodeName acc =
     (case acc of (least, minNodeName, localVisited, repeat) \<Rightarrow>
        let dist = map_get 0 (Se_distances s) nodeName;
            open_node = has (Sa_allowedNodes A) nodeName \<and> \<not> has localVisited nodeName;
            repeat' = (repeat \<or> dist < 60000 \<and> open_node)
        in if dist < least \<and> open_node
           then if \<not> Sa_buildAllowedLeafs A \<and> has (Sa_allowedLeafs A) nodeName
                then (least, minNodeName, map_set localVisited nodeName True, repeat)
                else (dist, nodeName, localVisited, repeat')
           else (least, minNodeName, localVisited, repeat'))"

definition pick_node ::
  "(string list \<Rightarrow> string list) \<Rightarrow> search_args \<Rightarrow> search \<Rightarrow> (string, bool) gomap
    \<Rightarrow> real \<times> string \<times> (string, bool) gomap \<times> bool" where
  "pick_node rng A s localVisited =
     fold (pick_step A s) (rng (map_keys (Se_distances s))) (60000, Sa_root A, localVisited, False)"

text \<open>The condition under which the visited node becomes the parent of a neighbour at distance
  \<open>d\<close>.\<close>

definition should_relax :: "search_args \<Rightarrow> search \<Rightarrow> string \<Rightarrow> string \<Rightarrow> real \<Rightarrow> bool" where
  "should_relax A s minNode neighbor d \<longleftrightarrow>
     (let new = map_get 0 (Se_distances s) minNode + d;
          dep = map_get 0 (Se_depth s) minNode
      in (map_get 0 (Se_distances s) neighbor > new
            \<and> (\<not> Sa_failedMode A \<and> dep < 2 \<or> Sa_failedMode A \<and> dep < 3))
         \<or> (new \<le> Sa_radius A
            \<and> ((Sa_buildAllowedLeafs A \<or> \<not> Sa_buildAllowedLeafs A \<and> has (Sa_allowedLeafs A) neighbor) \<and> dep < 2
               \<or> Sa_failedMode A \<and> dep < 3)))"

definition relax :: "search_args \<Rightarrow> string \<Rightarrow> string \<Rightarrow> real \<Rightarrow> search \<Rightarrow> search result" where
  "relax A minNode neighbor d s =
     res_bind (make_node (Sa_NewTreeNode A) (Sa_all A) neighbor (Se_tree s)) (\<lambda>t1.
       case cell t1 minNode of
         None \<Rightarrow> Inl NilDereference
       | Some mc \<Rightarrow>
           res_bind (detach (Sa_all A) neighbor
               (map_set t1 minNode (Some (mc\<lparr>Tc_children := Tc_children mc @ [neighbor]\<rparr>)))) (\<lambda>t2.
             case cell t2 neighbor of
               None \<Rightarrow> Inl NilDereference
             | Some c \<Rightarrow> Inr (s\<lparr>
                 Se_distances := map_set (Se_distances s) neighbor (map_get 0 (Se_distances s) minNode + d),
                 Se_tree := map_set t2 neighbor (Some (c\<lparr>Tc_parent := Some minNode\<rparr>)),
                 Se_depth := map_set (Se_depth s) neighbor (map_get 0 (Se_depth s) minNode + 1)\<rparr>)))"

text \<open>The log statement at the start of the loop body computes the distance in every case.\<close>

definition try_neighbor :: "search_args \<Rightarrow> string \<Rightarrow> string \<Rightarrow> search \<Rightarrow> search result" where
  "try_neighbor A minNode neighbor s =
     res_bind (dist_by_name (Sa_all A) minNode neighbor) (\<lambda>d.
       if has (map_get [] (Sa_neighbors A) minNode) neighbor \<and> \<not> has (Se_visited s) neighbor
          \<and> has (Sa_allowedNodes A) neighbor
       then case cell (Se_tree s) minNode of
              None \<Rightarrow> Inl NilDereference
            | Some mc \<Rightarrow>
                if length (Tc_children mc) < 10 \<and> should_relax A s minNode neighbor d
                then relax A minNode neighbor d s
                else Inr s
       else Inr s)"

text \<open>A round of the loop: its outcome is \<open>repeat\<close>, \<open>localVisited\<close> and the maps.\<close>

definition visit_node ::
  "(string list \<Rightarrow> string list) \<Rightarrow> search_args \<Rightarrow> string \<Rightarrow> search \<Rightarrow> search result" where
  "visit_node rng A minNode s =
     res_bind (make_node (Sa_NewTreeNode A) (Sa_all A) minNode (Se_tree s)) (\<lambda>t.
       res_fold (try_neighbor A minNode) (rng (map_keys (map_get [] (Sa_neighbors A) minNode)))
         (s\<lparr>Se_visited := map_set (Se_visited s) minNode True, Se_tree := t\<rparr>))"

definition search_round ::
  "(string list \<Rightarrow> string list) \<Rightarrow> (string list \<Rightarrow> string list) \<Rightarrow> search_args \<Rightarrow> (string, bool) gomap \<times> search
    \<Rightarrow> (bool \<times> (string, bool) gomap \<times> search) result" where
  "search_round rng1 rng2 A ls =
     (case pick_node rng1 A (snd ls) (fst ls) of
        (_, minNode, localVisited, repeat) \<Rightarrow>
          res_bind (visit_node rng2 A minNode (snd ls)) (\<lambda>s.
            Inr (repeat, map_set localVisited minNode True, s)))"

text \<open>The loop, with fuel; \<open>None\<close> when the fuel is used up.\<close>

fun search_loop ::
  "(nat \<Rightarrow> string list \<Rightarrow> string list) \<Rightarrow> search_args \<Rightarrow> nat \<Rightarrow> (string, bool) gomap \<times> search \<Rightarrow> search option result" where
  "search_loop rng A 0 ls = Inr None"
| "search_loop rng A (Suc n) ls =
     res_bind (search_round (rng (2 * n)) (rng (2 * n + 1)) A ls) (\<lambda>(repeat, ls').
       if repeat then search_loop rng A n ls' else Inr (Some (snd ls')))"

text \<open>The checks after the loop.\<close>

definition search_failed :: "search_args \<Rightarrow> search \<Rightarrow> bool" where
  "search_failed A s \<longleftrightarrow>
     (\<exists>n \<in> set (map_keys (Se_distances s)). has (Sa_allowedNodes A) n
        \<and> (60000 \<le> map_get 0 (Se_distances s) n \<or> 2 < map_get 0 (Se_depth s) n \<and> \<not> Sa_failedMode A))
     \<or> (\<exists>n \<in> set (map_keys (Se_tree s)). \<exists>c. cell (Se_tree s) n = Some c
        \<and> \<not> Sa_failedMode A \<and> 10 < length (Tc_children c))"

definition dijkstra ::
  "(nat \<Rightarrow> string list \<Rightarrow> string list) \<Rightarrow> nat \<Rightarrow> search_args \<Rightarrow> search \<Rightarrow> (bool \<times> search) option result" where
  "dijkstra rng fuel A s =
     res_bind (search_loop rng A fuel (map (\<lambda>n. (Name n, False)) (All_nodes (Sa_all A)), s)) (\<lambda>r.
       Inr (map_option (\<lambda>s'. (\<not> search_failed A s', s')) r))"

text \<open>The names of the nodes with children, and whether the tree was built.\<close>

definition dfsBuildTree ::
  "(nat \<Rightarrow> string list \<Rightarrow> string list) \<Rightarrow> nat \<Rightarrow> search_args \<Rightarrow> search
    \<Rightarrow> ((string, bool) gomap \<times> bool \<times> search) option result" where
  "dfsBuildTree rng fuel A s =
     res_bind (dijkstra rng fuel A s) (\<lambda>r.
       Inr (map_option (\<lambda>(succeeded, s').
         (if succeeded
          then map (\<lambda>n. (n, True)) (filter (\<lambda>n. \<exists>c. cell (Se_tree s') n = Some c \<and> Tc_children c \<noteq> [])
                 (rng (2 * fuel) (map_keys (Se_tree s'))))
          else [], succeeded, s')) r))"

text \<open>The maps with which \<open>CreateOnetRings\<close> starts a search.\<close>

definition fresh_search :: "LocalityNodes \<Rightarrow> string \<Rightarrow> search" where
  "fresh_search all rootName = \<lparr>
     Se_visited = map (\<lambda>n. (Name n, False)) (All_nodes all),
     Se_distances = map_set (map (\<lambda>n. (Name n, 66000)) (All_nodes all)) rootName 0,
     Se_tree = map (\<lambda>n. (Name n, None)) (All_nodes all),
     Se_depth = map_set (map (\<lambda>n. (Name n, 66000)) (All_nodes all)) rootName 0\<rparr>"

subsection \<open>Names\<close>

text \<open>The collection is ordered by the indices of the names, and names and identities
  correspond.\<close>

definition names :: "LocalityNodes \<Rightarrow> string set" where
  "names all = Name ` set (All_nodes all)"

definition names_ok :: "LocalityNodes \<Rightarrow> bool" where
  "names_ok all \<longleftrightarrow> indexed (All_nodes all) \<and> (\<forall>p < nr_nodes all. \<exists>sid. NodeIdentity (node_at all p) = Some sid
     \<and> GetServerIdentityToName all sid = Name (node_at all p))"

lemma names_cases:
  assumes "names_ok all" "k \<in> names all"
  obtains p sid where "p < nr_nodes all" "Name (node_at all p) = k" "GetByName all k = Inr (Some p)"
    "NodeNameToInt k = Inr (int p)" "NameToServerIdentity all k = Inr (Some sid)" "GetServerIdentityToName all sid = k"
proof -
  obtain p where p: "p < nr_nodes all" "Name (node_at all p) = k" using assms(2) by (auto simp: names_def in_set_conv_nth)
  then obtain sid where "NodeIdentity (node_at all p) = Some sid" "GetServerIdentityToName all sid = k"
    using assms(1) unfolding names_ok_def by blast
  moreover have i: "indexed (All_nodes all)" using assms(1) by (simp add: names_ok_def)
  ultimately show thesis
    using that[OF p] GetByName_indexed[OF i p(1)] indexedD[OF i p(1)] p(2) by (simp add: NameToServerIdentity_def)
qed

definition node_dist :: "LocalityNodes \<Rightarrow> string \<Rightarrow> string \<Rightarrow> real" where
  "node_dist all a b = projr (dist_by_name all a b)"

lemma dist_by_name_ok:
  assumes "names_ok all" "a \<in> names all" "b \<in> names all"
  shows "dist_by_name all a b = Inr (node_dist all a b)" "0 \<le> node_dist all a b"
proof -
  obtain p q where "GetByName all a = Inr (Some p)" "GetByName all b = Inr (Some q)"
    using names_cases[OF assms(1,2)] names_cases[OF assms(1,3)] by metis
  then have "dist_by_name all a b = Inr (ComputeDist (node_at all p) (node_at all q))" by (simp add: dist_by_name_def)
  then show "dist_by_name all a b = Inr (node_dist all a b)" "0 \<le> node_dist all a b" by (simp_all add: node_dist_def)
qed

text \<open>A tree node has the identity of its name.\<close>

definition cell_ok :: "LocalityNodes \<Rightarrow> string \<Rightarrow> tree_cell \<Rightarrow> bool" where
  "cell_ok all k c \<longleftrightarrow> k \<in> names all \<and> NameToServerIdentity all k = Inr (Tc_identity c) \<and> identity_name all c = Inr k
     \<and> NodeNameToInt k = Inr (Tc_index c)"

lemma cell_ok_updates [simp]:
  "cell_ok all k (c\<lparr>Tc_children := ns\<rparr>) = cell_ok all k c" "cell_ok all k (c\<lparr>Tc_parent := p\<rparr>) = cell_ok all k c"
  by (simp_all add: cell_ok_def identity_name_def)

lemma make_node_ok:
  assumes "names_ok all" "k \<in> names all" "new_node_ok new"
  shows "\<exists>c. make_node new all k t = Inr (if cell t k = None then map_set t k (Some c) else t)
    \<and> cell_ok all k c \<and> Tc_children c = [] \<and> Tc_parent c = None"
proof -
  obtain p sid where "NodeNameToInt k = Inr (int p)" "NameToServerIdentity all k = Inr (Some sid)"
    "GetServerIdentityToName all sid = k" using names_cases[OF assms(1,2)] .
  then show ?thesis
    using assms(2,3) by (intro exI[of _ "new (int p) (Some sid)"])
      (simp add: make_node_def new_node_ok_def cell_ok_def identity_name_def)
qed

lemma find_child_ok:
  assumes "\<And>n. n \<in> set ns \<Longrightarrow> \<exists>c. cell t n = Some c \<and> cell_ok all n c" "k \<in> set ns"
  shows "\<exists>j. find_child all t k ns i = Inr (Some (i + j)) \<and> take j ns @ drop (Suc j) ns = remove1 k ns"
  using assms
proof (induction ns arbitrary: i)
  case (Cons n ns)
  obtain c where c: "cell t n = Some c" "identity_name all c = Inr n" using Cons.prems(1)[of n] by (auto simp: cell_ok_def)
  show ?case
  proof (cases "n = k")
    case True
    then show ?thesis using c by (intro exI[of _ 0]) simp
  next
    case False
    then obtain j where "find_child all t k ns (Suc i) = Inr (Some (Suc i + j))" "take j ns @ drop (Suc j) ns = remove1 k ns"
      using Cons.IH[of "Suc i"] Cons.prems by auto
    then show ?thesis using c False by (intro exI[of _ "Suc j"]) simp
  qed
qed simp

subsection \<open>The invariant of the search\<close>

abbreviation tree_at :: "search \<Rightarrow> string \<Rightarrow> tree_cell option" where
  "tree_at s k \<equiv> cell (Se_tree s) k"

abbreviation dist_at :: "search \<Rightarrow> string \<Rightarrow> real" where
  "dist_at s k \<equiv> map_get 0 (Se_distances s) k"

abbreviation depth_at :: "search \<Rightarrow> string \<Rightarrow> int" where
  "depth_at s k \<equiv> map_get 0 (Se_depth s) k"

abbreviation seen :: "search \<Rightarrow> string \<Rightarrow> bool" where
  "seen s k \<equiv> has (Se_visited s) k"

abbreviation linked :: "search_args \<Rightarrow> string \<Rightarrow> string \<Rightarrow> bool" where
  "linked A a b \<equiv> has (map_get [] (Sa_neighbors A) a) b"

text \<open>What the search relies on: the root and the neighbours are nodes of the collection.\<close>

definition args_ok :: "search_args \<Rightarrow> bool" where
  "args_ok A \<longleftrightarrow> names_ok (Sa_all A) \<and> new_node_ok (Sa_NewTreeNode A) \<and> Sa_root A \<in> names (Sa_all A)
     \<and> (\<forall>a. set (map_keys (map_get [] (Sa_neighbors A) a)) \<subseteq> names (Sa_all A))"

text \<open>Children and parents agree, only visited nodes have children, and a child is one deeper and
  one link further away than its parent.\<close>

definition child_inv :: "search_args \<Rightarrow> search \<Rightarrow> bool" where
  "child_inv A s \<longleftrightarrow> (\<forall>k c. tree_at s k = Some c \<longrightarrow>
     cell_ok (Sa_all A) k c \<and> distinct (Tc_children c) \<and> length (Tc_children c) \<le> 10
     \<and> (Tc_children c \<noteq> [] \<longrightarrow> seen s k)
     \<and> (\<forall>n \<in> set (Tc_children c). \<exists>cn. tree_at s n = Some cn \<and> Tc_parent cn = Some k)
     \<and> (Tc_parent c = None \<longleftrightarrow> k = Sa_root A) \<and> 0 \<le> depth_at s k)"

definition parent_inv :: "search_args \<Rightarrow> int \<Rightarrow> search \<Rightarrow> bool" where
  "parent_inv A D s \<longleftrightarrow> (\<forall>k c p. tree_at s k = Some c \<and> Tc_parent c = Some p \<longrightarrow>
     (\<exists>cp. tree_at s p = Some cp \<and> k \<in> set (Tc_children cp)) \<and> linked A p k
     \<and> depth_at s k = depth_at s p + 1 \<and> dist_at s k = dist_at s p + node_dist (Sa_all A) p k \<and> depth_at s k \<le> D)"

definition root_inv :: "search_args \<Rightarrow> search \<Rightarrow> bool" where
  "root_inv A s \<longleftrightarrow> depth_at s (Sa_root A) = 0 \<and> dist_at s (Sa_root A) = 0
     \<and> set (map_keys (Se_distances s)) = names (Sa_all A)
     \<and> (\<forall>k \<in> names (Sa_all A). tree_at s k = None \<and> k \<noteq> Sa_root A \<longrightarrow> 60000 \<le> dist_at s k)
     \<and> (tree_at s (Sa_root A) = None \<longrightarrow> (\<forall>k. tree_at s k = None))
     \<and> (tree_at s (Sa_root A) \<noteq> None \<longrightarrow> seen s (Sa_root A))"

definition tree_inv :: "search_args \<Rightarrow> int \<Rightarrow> search \<Rightarrow> bool" where
  "tree_inv A D s \<longleftrightarrow> child_inv A s \<and> parent_inv A D s \<and> root_inv A s"

lemma child_invD:
  assumes "child_inv A s" "tree_at s k = Some c"
  shows "cell_ok (Sa_all A) k c" "distinct (Tc_children c)" "length (Tc_children c) \<le> 10"
    "Tc_children c \<noteq> [] \<Longrightarrow> seen s k" "n \<in> set (Tc_children c) \<Longrightarrow> \<exists>cn. tree_at s n = Some cn \<and> Tc_parent cn = Some k"
    "Tc_parent c = None \<longleftrightarrow> k = Sa_root A" "0 \<le> depth_at s k"
  using assms unfolding child_inv_def by blast+

lemma parent_invD:
  assumes "parent_inv A D s" "tree_at s k = Some c" "Tc_parent c = Some p"
  shows "\<exists>cp. tree_at s p = Some cp \<and> k \<in> set (Tc_children cp)" "linked A p k"
    "depth_at s k = depth_at s p + 1" "dist_at s k = dist_at s p + node_dist (Sa_all A) p k" "depth_at s k \<le> D"
  using assms unfolding parent_inv_def by blast+

lemma root_invD:
  assumes "root_inv A s"
  shows "depth_at s (Sa_root A) = 0" "dist_at s (Sa_root A) = 0" "set (map_keys (Se_distances s)) = names (Sa_all A)"
    "k \<in> names (Sa_all A) \<Longrightarrow> tree_at s k = None \<Longrightarrow> k \<noteq> Sa_root A \<Longrightarrow> 60000 \<le> dist_at s k"
    "tree_at s (Sa_root A) = None \<Longrightarrow> tree_at s k = None" "tree_at s (Sa_root A) \<noteq> None \<Longrightarrow> seen s (Sa_root A)"
  using assms unfolding root_inv_def by blast+

lemma args_okD:
  assumes "args_ok A"
  shows "names_ok (Sa_all A)" "Sa_root A \<in> names (Sa_all A)"
    "b \<in> set (map_keys (map_get [] (Sa_neighbors A) a)) \<Longrightarrow> b \<in> names (Sa_all A)"
    "new_node_ok (Sa_NewTreeNode A)"
  using assms unfolding args_ok_def by blast+

subsection \<open>Moving a node below the visited one\<close>

text \<open>Taking a node out of the children of all nodes changes only its parent.\<close>

definition without :: "string \<Rightarrow> tree_cell option \<Rightarrow> tree_cell option" where
  "without nb = map_option (\<lambda>c. c\<lparr>Tc_children := remove1 nb (Tc_children c)\<rparr>)"

definition moved :: "string \<Rightarrow> string \<Rightarrow> tree_cell \<Rightarrow> tree_cell \<Rightarrow> (string \<Rightarrow> tree_cell option) \<Rightarrow> string \<Rightarrow> tree_cell option" where
  "moved m nb mc c T k =
     (if k = nb then Some (c\<lparr>Tc_parent := Some m\<rparr>)
      else if k = m then Some (mc\<lparr>Tc_children := remove1 nb (Tc_children mc) @ [nb]\<rparr>)
      else without nb (T k))"

lemma detach_child:
  assumes c: "cell t nb = Some c" "Tc_parent c = Some p" and p: "cell t p = Some pc" "cell_ok all p pc"
    and nb: "nb \<in> set (Tc_children pc)"
    and kids: "\<And>n. n \<in> set (Tc_children pc) \<Longrightarrow> \<exists>c. cell t n = Some c \<and> cell_ok all n c"
  shows "detach all nb t = Inr (map_set t p (Some (pc\<lparr>Tc_children := remove1 nb (Tc_children pc)\<rparr>)))"
proof -
  have "identity_name all pc = Inr p" using p(2) by (simp add: cell_ok_def)
  moreover obtain j where "find_child all t nb (Tc_children pc) 0 = Inr (Some j)"
    "take j (Tc_children pc) @ drop (Suc j) (Tc_children pc) = remove1 nb (Tc_children pc)"
    using find_child_ok[where ns = "Tc_children pc" and t = t and i = 0, OF kids nb] by auto
  ultimately show ?thesis using c p by (simp add: detach_def remove_child_def)
qed

lemma make_moved:
  assumes "args_ok A" "child_inv A s" "nb \<in> names (Sa_all A)" "\<not> seen s nb"
  obtains c t where "make_node (Sa_NewTreeNode A) (Sa_all A) nb (Se_tree s) = Inr t" "\<And>k. cell t k = (if k = nb then Some c else tree_at s k)"
    "cell_ok (Sa_all A) nb c" "Tc_children c = []" "tree_at s nb = None \<Longrightarrow> Tc_parent c = None"
    "tree_at s nb \<noteq> None \<Longrightarrow> tree_at s nb = Some c"
proof (cases "tree_at s nb")
  case None
  obtain c where c: "make_node (Sa_NewTreeNode A) (Sa_all A) nb (Se_tree s) = Inr (map_set (Se_tree s) nb (Some c))"
    "cell_ok (Sa_all A) nb c" "Tc_children c = []" "Tc_parent c = None"
    using make_node_ok[OF args_okD(1)[OF assms(1)] assms(3) args_okD(4)[OF assms(1)], of "Se_tree s"] None by auto
  show thesis by (rule that[OF c(1) _ c(2,3,4)]) (use None in simp_all)
next
  case (Some c)
  have "Tc_children c = []" using child_invD(4)[OF assms(2) Some] assms(4) by blast
  then show thesis
    by (intro that[of "Se_tree s" c]) (use Some child_invD(1)[OF assms(2) Some] in \<open>simp_all add: make_node_def\<close>)
qed

lemma without_other:
  assumes "child_inv A s" "\<And>c. tree_at s nb = Some c \<Longrightarrow> Tc_parent c \<noteq> Some k"
  shows "without nb (tree_at s k) = tree_at s k" "tree_at s k = Some x \<Longrightarrow> remove1 nb (Tc_children x) = Tc_children x"
proof -
  have "remove1 nb (Tc_children x) = Tc_children x" if x: "tree_at s k = Some x" for x
  proof (rule remove1_idem)
    show "nb \<notin> set (Tc_children x)" using child_invD(5)[OF assms(1) x, of nb] assms(2) by auto
  qed
  then show "without nb (tree_at s k) = tree_at s k" "tree_at s k = Some x \<Longrightarrow> remove1 nb (Tc_children x) = Tc_children x"
    by (cases "tree_at s k"; simp add: without_def)+
qed

lemma detach_moved:
  assumes C: "child_inv A s" and P: "parent_inv A D s" and m: "tree_at s m = Some mc" "nb \<noteq> m" "\<not> seen s nb"
    and c: "cell_ok (Sa_all A) nb c" "tree_at s nb = None \<Longrightarrow> Tc_parent c = None" "tree_at s nb \<noteq> None \<Longrightarrow> tree_at s nb = Some c"
    and t: "\<And>k. cell t k = (if k = nb then Some c
      else if k = m then Some (mc\<lparr>Tc_children := Tc_children mc @ [nb]\<rparr>) else tree_at s k)"
  shows "\<exists>t'. detach (Sa_all A) nb t = Inr t' \<and> (\<forall>k. cell t' k = (if k = nb then Some c
      else if k = m then Some (mc\<lparr>Tc_children := remove1 nb (Tc_children mc) @ [nb]\<rparr>) else without nb (tree_at s k)))"
proof (cases "Tc_parent c")
  case None
  then have par: "tree_at s nb = Some c' \<Longrightarrow> Tc_parent c' \<noteq> Some k" for c' k using c(3) by auto
  note without_other[OF C par]
  then show ?thesis using None t m(1) by (intro exI[of _ t]) (simp add: detach_def)
next
  case (Some p)
  let ?all = "Sa_all A" and ?mc = "mc\<lparr>Tc_children := Tc_children mc @ [nb]\<rparr>"
  have nbt: "tree_at s nb = Some c" using Some c(2,3) by (cases "tree_at s nb") auto
  obtain cp where cp: "tree_at s p = Some cp" "nb \<in> set (Tc_children cp)" using parent_invD(1)[OF P nbt Some] by blast
  define pc where "pc = (if p = m then ?mc else cp)"
  have "Tc_children cp \<noteq> []" using cp(2) by auto
  then have pnb: "p \<noteq> nb" using child_invD(4)[OF C cp(1)] m(3) by blast
  have pc: "cell t p = Some pc" "cell_ok ?all p pc" "nb \<in> set (Tc_children pc)"
    using t[of p] cp child_invD(1)[OF C cp(1)] pnb m(1) by (auto simp: pc_def)
  have kids: "\<exists>c. cell t n = Some c \<and> cell_ok ?all n c" if "n \<in> set (Tc_children pc)" for n
  proof -
    have "n = nb \<or> (\<exists>cn. tree_at s n = Some cn)"
      using that child_invD(5)[OF C cp(1)] child_invD(5)[OF C m(1)] by (auto simp: pc_def split: if_splits)
    then show ?thesis using t[of n] c(1) child_invD(1)[OF C] child_invD(1)[OF C m(1)] by auto
  qed
  have "cell t nb = Some c" using t by simp
  note d = detach_child[OF this Some pc kids]
  have rest: "without nb (tree_at s k) = tree_at s k" "tree_at s k = Some x \<Longrightarrow> remove1 nb (Tc_children x) = Tc_children x"
    if "k \<noteq> p" for k x using without_other(1)[OF C, of nb k] without_other(2)[OF C, of nb k x] nbt Some that by auto
  have "p = m \<Longrightarrow> remove1 nb (Tc_children mc @ [nb]) = remove1 nb (Tc_children mc) @ [nb]"
    using cp m(1) by (simp add: remove1_append)
  then have "cell (map_set t p (Some (pc\<lparr>Tc_children := remove1 nb (Tc_children pc)\<rparr>))) k = (if k = nb then Some c
      else if k = m then Some (mc\<lparr>Tc_children := remove1 nb (Tc_children mc) @ [nb]\<rparr>) else without nb (tree_at s k))" for k
    using t rest(1)[of k] rest(2)[OF _ m(1)] cp pnb m(1) by (auto simp: pc_def without_def)
  with d show ?thesis by blast
qed

lemma relax_tree:
  assumes A: "args_ok A" and I: "tree_inv A D s" and m: "tree_at s m = Some mc" "seen s m"
    and nb: "nb \<in> names (Sa_all A)" "\<not> seen s nb"
  shows "\<exists>s' c. relax A m nb d s = Inr s' \<and> tree_at s' = moved m nb mc c (tree_at s)
    \<and> cell_ok (Sa_all A) nb c \<and> Tc_children c = [] \<and> Se_visited s' = Se_visited s
    \<and> Se_distances s' = map_set (Se_distances s) nb (dist_at s m + d)
    \<and> Se_depth s' = map_set (Se_depth s) nb (depth_at s m + 1)"
proof -
  have C: "child_inv A s" and P: "parent_inv A D s" using I by (simp_all add: tree_inv_def)
  have diff: "nb \<noteq> m" using m(2) nb(2) by blast
  obtain t1 c where mk: "make_node (Sa_NewTreeNode A) (Sa_all A) nb (Se_tree s) = Inr t1" "\<And>k. cell t1 k = (if k = nb then Some c else tree_at s k)"
    and c: "cell_ok (Sa_all A) nb c" "Tc_children c = []" "tree_at s nb = None \<Longrightarrow> Tc_parent c = None"
      "tree_at s nb \<noteq> None \<Longrightarrow> tree_at s nb = Some c"
    by (rule make_moved[OF A C nb]) (rule that; assumption)
  define t2 where "t2 = map_set t1 m (Some (mc\<lparr>Tc_children := Tc_children mc @ [nb]\<rparr>))"
  have t2: "cell t2 k = (if k = nb then Some c else if k = m then Some (mc\<lparr>Tc_children := Tc_children mc @ [nb]\<rparr>)
      else tree_at s k)" for k using mk(2) diff by (simp add: t2_def)
  obtain t3 where t3: "detach (Sa_all A) nb t2 = Inr t3" "\<And>k. cell t3 k = (if k = nb then Some c
      else if k = m then Some (mc\<lparr>Tc_children := remove1 nb (Tc_children mc) @ [nb]\<rparr>) else without nb (tree_at s k))"
    using detach_moved[OF C P m(1) diff nb(2) c(1,3,4) t2] by blast
  let ?s = "s\<lparr>Se_distances := map_set (Se_distances s) nb (dist_at s m + d),
    Se_tree := map_set t3 nb (Some (c\<lparr>Tc_parent := Some m\<rparr>)), Se_depth := map_set (Se_depth s) nb (depth_at s m + 1)\<rparr>"
  have "cell t1 m = Some mc" using mk(2) m(1) diff by simp
  then have "relax A m nb d s = Inr ?s" using mk(1) t3 by (simp add: relax_def t2_def)
  moreover have "tree_at ?s = moved m nb mc c (tree_at s)" using t3(2) by (simp add: fun_eq_iff moved_def)
  ultimately show ?thesis using c by (intro exI[of _ ?s] exI[of _ c]) simp
qed

lemma map_keys_set: "set (map_keys (map_set m k v)) = insert k (set (map_keys m))"
  by (rule gomap.keys_update)

lemma moved_kept:
  assumes "T n = Some cn" "n \<noteq> nb" "T m = Some mc"
  obtains cn' where "moved m nb mc c T n = Some cn'" "Tc_parent cn' = Tc_parent cn"
    "set (Tc_children cn) - {nb} \<subseteq> set (Tc_children cn')"
proof -
  have "set (Tc_children x) - {nb} \<subseteq> set (remove1 nb (Tc_children x))" for x by (metis DiffE in_set_remove1 singletonI subsetI)
  with assms show thesis using that by (cases "n = m") (force simp: moved_def without_def)+
qed

lemma moved_back:
  assumes "moved m nb mc c T k = Some c'" "k \<noteq> nb" "k \<noteq> m"
  obtains c0 where "T k = Some c0" "c' = c0\<lparr>Tc_children := remove1 nb (Tc_children c0)\<rparr>"
  using assms by (auto simp: moved_def without_def)

lemma relax_child_inv:
  assumes A: "args_ok A" and C: "child_inv A s" and m: "tree_at s m = Some mc" "seen s m" "length (Tc_children mc) < 10"
    and nb: "nb \<noteq> m" "nb \<noteq> Sa_root A" and c: "cell_ok (Sa_all A) nb c" "Tc_children c = []"
    and s': "tree_at s' = moved m nb mc c (tree_at s)" "Se_visited s' = Se_visited s"
      "Se_depth s' = map_set (Se_depth s) nb (depth_at s m + 1)"
  shows "child_inv A s'"
  unfolding child_inv_def
proof (intro allI impI)
  fix k x assume x: "tree_at s' k = Some x"
  note mc = child_invD[OF C m(1)]
  have kids: "\<exists>cn. tree_at s' n = Some cn \<and> Tc_parent cn = Some k"
    if kc: "tree_at s k = Some c0" "n \<in> set (Tc_children c0)" "n \<noteq> nb" for k c0 n
  proof -
    obtain cn where "tree_at s n = Some cn" "Tc_parent cn = Some k" using child_invD(5)[OF C kc(1,2)] by blast
    then show ?thesis using moved_kept[of "tree_at s" n cn nb m mc c] kc(3) m(1) s'(1) by metis
  qed
  consider (nb) "k = nb" | (m) "k = m" | (other) "k \<noteq> nb" "k \<noteq> m" by blast
  then show "cell_ok (Sa_all A) k x \<and> distinct (Tc_children x) \<and> length (Tc_children x) \<le> 10
     \<and> (Tc_children x \<noteq> [] \<longrightarrow> seen s' k) \<and> (\<forall>n \<in> set (Tc_children x). \<exists>cn. tree_at s' n = Some cn \<and> Tc_parent cn = Some k)
     \<and> (Tc_parent x = None \<longleftrightarrow> k = Sa_root A) \<and> 0 \<le> depth_at s' k"
  proof cases
    case nb
    then have "x = c\<lparr>Tc_parent := Some m\<rparr>" using x s'(1) by (simp add: moved_def)
    then show ?thesis using nb c assms(7) mc(7) s'(3) by simp
  next
    case m
    then have X: "x = mc\<lparr>Tc_children := remove1 nb (Tc_children mc) @ [nb]\<rparr>" using x s'(1) assms(6) by (simp add: moved_def)
    have "\<exists>cn. tree_at s' n = Some cn \<and> Tc_parent cn = Some m" if "n \<in> set (Tc_children x)" for n
      using that kids[OF assms(3)] s'(1) mc(2) unfolding X by (cases "n = nb") (auto simp: moved_def)
    moreover have "length (remove1 nb (Tc_children mc)) \<le> length (Tc_children mc)" by (simp add: length_remove1)
    ultimately show ?thesis
      using X m mc(1,2,6,7) assms(4,5,6) s'(2,3) by auto
  next
    case other
    obtain c0 where c0: "tree_at s k = Some c0" "x = c0\<lparr>Tc_children := remove1 nb (Tc_children c0)\<rparr>"
      using moved_back[of m nb mc c "tree_at s" k x] x s'(1) other by metis
    note d = child_invD[OF C c0(1)]
    have "\<exists>cn. tree_at s' n = Some cn \<and> Tc_parent cn = Some k" if "n \<in> set (Tc_children x)" for n
      using that kids[OF c0(1), of n] d(2) c0(2) by auto
    moreover have "length (remove1 nb (Tc_children c0)) \<le> 10" using d(3) length_remove1[of nb "Tc_children c0"] by auto
    moreover have "Tc_children x \<noteq> [] \<Longrightarrow> seen s' k" using d(4) s'(2) c0(2) by (cases "Tc_children c0") auto
    ultimately show ?thesis using c0(2) d(1,2,6,7) other s'(3) by auto
  qed
qed

lemma relax_parent_inv:
  assumes C: "child_inv A s" and P: "parent_inv A D s" and m: "tree_at s m = Some mc"
    and nb: "nb \<noteq> m" "\<not> seen s nb" "linked A m nb" "depth_at s m + 1 \<le> D"
    and s': "tree_at s' = moved m nb mc c (tree_at s)" "Se_depth s' = map_set (Se_depth s) nb (depth_at s m + 1)"
      "Se_distances s' = map_set (Se_distances s) nb (dist_at s m + node_dist (Sa_all A) m nb)"
  shows "parent_inv A D s'"
  unfolding parent_inv_def
proof (intro allI impI, elim conjE)
  fix k x p assume x: "tree_at s' k = Some x" "Tc_parent x = Some p"
  show "(\<exists>cp. tree_at s' p = Some cp \<and> k \<in> set (Tc_children cp)) \<and> linked A p k
     \<and> depth_at s' k = depth_at s' p + 1 \<and> dist_at s' k = dist_at s' p + node_dist (Sa_all A) p k \<and> depth_at s' k \<le> D"
  proof (cases "k = nb")
    case True
    then have "p = m" using x s'(1) by (auto simp: moved_def)
    then show ?thesis using True nb s' by (simp add: moved_def)
  next
    case False
    then obtain c0 where c0: "tree_at s k = Some c0" "Tc_parent c0 = Some p"
      using x s'(1) m by (cases "k = m") (auto simp: moved_def without_def)
    note d = parent_invD[OF P c0]
    obtain cp where cp: "tree_at s p = Some cp" "k \<in> set (Tc_children cp)" using d(1) by blast
    then have "Tc_children cp \<noteq> []" by auto
    then have pnb: "p \<noteq> nb" using child_invD(4)[OF C cp(1)] nb(2) by blast
    obtain cp' where "tree_at s' p = Some cp'" "set (Tc_children cp) - {nb} \<subseteq> set (Tc_children cp')"
      using moved_kept[of "tree_at s" p cp nb m mc c] cp(1) pnb m s'(1) by metis
    then have "\<exists>cp. tree_at s' p = Some cp \<and> k \<in> set (Tc_children cp)" using cp(2) False by auto
    then show ?thesis using d False pnb s'(2,3) by simp
  qed
qed

lemma relax_root_inv:
  assumes R: "root_inv A s" and nb: "nb \<noteq> Sa_root A" "nb \<in> names (Sa_all A)" and m: "tree_at s m = Some mc"
    and s': "tree_at s' = moved m nb mc c (tree_at s)" "Se_visited s' = Se_visited s"
      "Se_depth s' = map_set (Se_depth s) nb e" "Se_distances s' = map_set (Se_distances s) nb d"
  shows "root_inv A s'"
proof -
  have "moved m nb mc c (tree_at s) k = None \<longleftrightarrow> k \<noteq> nb \<and> tree_at s k = None" for k
    using m by (auto simp: moved_def without_def)
  moreover have "tree_at s (Sa_root A) \<noteq> None" using root_invD(5)[OF R, of m] m by auto
  ultimately show ?thesis
    using root_invD(1-4,6)[OF R] nb s' by (auto simp: root_inv_def map_keys_set)
qed

lemma relax_inv:
  assumes A: "args_ok A" and I: "tree_inv A D s" and m: "tree_at s m = Some mc" "seen s m" "length (Tc_children mc) < 10"
    and nb: "nb \<in> names (Sa_all A)" "\<not> seen s nb" "linked A m nb" "depth_at s m + 1 \<le> D"
  shows "\<exists>s'. relax A m nb (node_dist (Sa_all A) m nb) s = Inr s' \<and> tree_inv A D s' \<and> Se_visited s' = Se_visited s
    \<and> tree_at s' m \<noteq> None"
proof -
  have C: "child_inv A s" and P: "parent_inv A D s" and R: "root_inv A s" using I by (simp_all add: tree_inv_def)
  have diff: "nb \<noteq> m" using m(2) nb(2) by blast
  have "tree_at s (Sa_root A) \<noteq> None" using root_invD(5)[OF R, of m] m(1) by auto
  then have root: "nb \<noteq> Sa_root A" using root_invD(6)[OF R] nb(2) by auto
  obtain s' c where s': "relax A m nb (node_dist (Sa_all A) m nb) s = Inr s'" "tree_at s' = moved m nb mc c (tree_at s)"
    "cell_ok (Sa_all A) nb c" "Tc_children c = []" "Se_visited s' = Se_visited s"
    "Se_distances s' = map_set (Se_distances s) nb (dist_at s m + node_dist (Sa_all A) m nb)"
    "Se_depth s' = map_set (Se_depth s) nb (depth_at s m + 1)"
    using relax_tree[OF A I m(1,2) nb(1,2)] by blast
  have "tree_inv A D s'"
    using relax_child_inv[OF A C m diff root s'(3,4,2,5,7)] relax_parent_inv[OF C P m(1) diff nb(2,3,4) s'(2,7,6)]
      relax_root_inv[OF R root nb(1) m(1) s'(2,5,7,6)] by (simp add: tree_inv_def)
  moreover have "tree_at s' m \<noteq> None" using s'(2) diff by (simp add: moved_def)
  ultimately show ?thesis using s'(1,5) by blast
qed

subsection \<open>A round of the search\<close>

text \<open>How deep a tree may get.\<close>

definition depth_limit :: "search_args \<Rightarrow> int" where
  "depth_limit A = (if Sa_failedMode A then 3 else 2)"

lemma should_relax_depth: "should_relax A s m nb d \<Longrightarrow> depth_at s m + 1 \<le> depth_limit A"
  by (auto simp: should_relax_def depth_limit_def Let_def split: if_splits)

lemma try_neighbor_inv:
  assumes A: "args_ok A" and I: "tree_inv A D s" and m: "tree_at s m \<noteq> None" "seen s m"
    and nb: "nb \<in> names (Sa_all A)" and D: "depth_limit A \<le> D"
  shows "\<exists>s'. try_neighbor A m nb s = Inr s' \<and> tree_inv A D s' \<and> Se_visited s' = Se_visited s \<and> tree_at s' m \<noteq> None"
proof -
  obtain mc where mc: "tree_at s m = Some mc" using m(1) by auto
  have "m \<in> names (Sa_all A)" using child_invD(1)[of A s m mc] I mc by (simp add: tree_inv_def cell_ok_def)
  note d = dist_by_name_ok(1)[OF args_okD(1)[OF A] this nb]
  show ?thesis
  proof (cases "linked A m nb \<and> \<not> seen s nb \<and> has (Sa_allowedNodes A) nb \<and> length (Tc_children mc) < 10
      \<and> should_relax A s m nb (node_dist (Sa_all A) m nb)")
    case True
    then have "depth_at s m + 1 \<le> D" using should_relax_depth[of A s m nb] D by fastforce
    then obtain s' where "relax A m nb (node_dist (Sa_all A) m nb) s = Inr s'" "tree_inv A D s'" "Se_visited s' = Se_visited s"
      "tree_at s' m \<noteq> None" using relax_inv[OF A I mc m(2) _ nb] True by blast
    then show ?thesis using d mc True by (simp add: try_neighbor_def)
  next
    case False
    then have "try_neighbor A m nb s = Inr s" using d mc by (auto simp: try_neighbor_def)
    then show ?thesis using I m(1) by blast
  qed
qed

lemma neighbors_inv:
  assumes A: "args_ok A" and D: "depth_limit A \<le> D" and n: "set ns \<subseteq> names (Sa_all A)"
  shows "tree_inv A D s \<Longrightarrow> tree_at s m \<noteq> None \<Longrightarrow> seen s m \<Longrightarrow>
    \<exists>s'. res_fold (try_neighbor A m) ns s = Inr s' \<and> tree_inv A D s' \<and> tree_at s' m \<noteq> None"
  using n
proof (induction ns arbitrary: s)
  case (Cons nb ns)
  have nb: "nb \<in> names (Sa_all A)" using Cons.prems(4) by simp
  obtain s1 where s1: "try_neighbor A m nb s = Inr s1" "tree_inv A D s1" "Se_visited s1 = Se_visited s" "tree_at s1 m \<noteq> None"
    using try_neighbor_inv[OF A Cons.prems(1-3) nb D] by blast
  then show ?case using Cons.IH[OF s1(2,4)] Cons.prems(3,4) by simp
qed simp

lemma seen_inv:
  assumes "tree_inv A D s" "tree_at s m \<noteq> None"
  shows "tree_inv A D (s\<lparr>Se_visited := map_set (Se_visited s) m True\<rparr>)"
proof -
  let ?s = "s\<lparr>Se_visited := map_set (Se_visited s) m True\<rparr>"
  have C: "child_inv A s" and P: "parent_inv A D s" and R: "root_inv A s" using assms by (simp_all add: tree_inv_def)
  have "child_inv A ?s" using child_invD[OF C] unfolding child_inv_def by simp
  moreover have "parent_inv A D ?s" using P unfolding parent_inv_def by simp
  moreover have "root_inv A ?s" using R unfolding root_inv_def by simp
  ultimately show ?thesis by (simp add: tree_inv_def)
qed

lemma root_node_inv:
  assumes A: "args_ok A" and I: "tree_inv A D s" and r: "tree_at s (Sa_root A) = None"
    and c: "cell_ok (Sa_all A) (Sa_root A) c" "Tc_children c = []" "Tc_parent c = None"
  shows "tree_inv A D (s\<lparr>Se_visited := map_set (Se_visited s) (Sa_root A) True,
    Se_tree := map_set (Se_tree s) (Sa_root A) (Some c)\<rparr>)"
proof -
  have R: "root_inv A s" using I by (simp add: tree_inv_def)
  have "tree_at s k = None" for k by (rule root_invD(5)[OF R r])
  then show ?thesis
    using root_invD(1-4)[OF R] c by (auto simp: tree_inv_def child_inv_def parent_inv_def root_inv_def)
qed

lemma visit_node_inv:
  assumes A: "args_ok A" and I: "tree_inv A D s" and m: "tree_at s m \<noteq> None \<or> m = Sa_root A"
    and D: "depth_limit A \<le> D" and rng: "range_order rng"
  shows "\<exists>s'. visit_node rng A m s = Inr s' \<and> tree_inv A D s' \<and> tree_at s' m \<noteq> None"
proof -
  obtain t where t: "make_node (Sa_NewTreeNode A) (Sa_all A) m (Se_tree s) = Inr t" "cell t m \<noteq> None"
    "tree_inv A D (s\<lparr>Se_visited := map_set (Se_visited s) m True, Se_tree := t\<rparr>)"
  proof (cases "tree_at s m")
    case None
    then have r: "m = Sa_root A" using m by simp
    from make_node_ok[OF args_okD(1,2,4)[OF A], of "Se_tree s"] None r obtain c where
      c: "make_node (Sa_NewTreeNode A) (Sa_all A) m (Se_tree s) = Inr (map_set (Se_tree s) m (Some c))" "cell_ok (Sa_all A) m c"
      "Tc_children c = []" "Tc_parent c = None" by auto
    show thesis by (rule that[OF c(1)]) (use root_node_inv[OF A I] None r c in simp_all)
  next
    case (Some c)
    have "s\<lparr>Se_visited := map_set (Se_visited s) m True, Se_tree := Se_tree s\<rparr> = s\<lparr>Se_visited := map_set (Se_visited s) m True\<rparr>"
      by simp
    then show thesis by (intro that[of "Se_tree s"]) (use seen_inv[OF I, of m] Some in \<open>simp_all add: make_node_def\<close>)
  qed
  have "set (rng (map_keys (map_get [] (Sa_neighbors A) m))) \<subseteq> names (Sa_all A)"
    using args_okD(3)[OF A] range_order_set[OF rng] by auto
  from neighbors_inv[OF A D this t(3)] t(1,2) show ?thesis by (simp add: visit_node_def)
qed

text \<open>The selection: while there is an allowed node left to visit it is found, and it is in the
  tree.\<close>

definition picked :: "search_args \<Rightarrow> search \<Rightarrow> real \<times> string \<times> (string, bool) gomap \<times> bool \<Rightarrow> bool" where
  "picked A s acc = (case acc of (least, m, lv, rep) \<Rightarrow>
     if rep then least < 60000 \<and> least = dist_at s m \<and> \<not> has lv m \<and> m \<in> set (map_keys (Se_distances s))
     else least = 60000 \<and> m = Sa_root A)"

lemma pick_step_picked:
  assumes "picked A s acc" "n \<in> set (map_keys (Se_distances s))"
  shows "picked A s (pick_step A s n acc)"
proof -
  obtain least m lv rep where acc: "acc = (least, m, lv, rep)" by (cases acc)
  show ?thesis
    using assms unfolding acc by (cases rep) (auto simp: picked_def pick_step_def Let_def)
qed

lemma pick_step_visited:
  "has (fst (snd (snd acc))) k \<Longrightarrow> has (fst (snd (snd (pick_step A s n acc)))) k"
  by (auto simp: pick_step_def Let_def split: prod.splits)

lemma pick_node_picked:
  assumes "range_order rng" "pick_node rng A s lv = (least, m, lv', rep)"
  shows "picked A s (least, m, lv', rep)" "has lv k \<Longrightarrow> has lv' k"
proof -
  have "picked A s (fold (pick_step A s) ns acc)" if "set ns \<subseteq> set (map_keys (Se_distances s))" "picked A s acc" for ns acc
    using that
  proof (induction ns arbitrary: acc)
    case (Cons n ns)
    then show ?case using pick_step_picked[of A s acc n] by simp
  qed simp
  from this[of "rng (map_keys (Se_distances s))" "(60000, Sa_root A, lv, False)"]
  show "picked A s (least, m, lv', rep)"
    using assms(2) range_order_set[OF assms(1)] unfolding pick_node_def by (simp add: picked_def[of A s "(60000, _)"])
  have "has (fst (snd (snd acc))) k \<Longrightarrow> has (fst (snd (snd (fold (pick_step A s) ns acc)))) k" for ns acc
    by (induction ns arbitrary: acc) (simp_all add: pick_step_visited)
  then show "has lv k \<Longrightarrow> has lv' k"
    using assms(2) unfolding pick_node_def by (metis fst_conv snd_conv)
qed

subsection \<open>The loop\<close>

definition unvisited :: "search_args \<Rightarrow> (string, bool) gomap \<Rightarrow> nat" where
  "unvisited A lv = card {k \<in> names (Sa_all A). \<not> has lv k}"

lemma names_finite [simp]: "finite (names all)"
  by (simp add: names_def)

lemma search_round_inv:
  assumes A: "args_ok A" and I: "tree_inv A D s" and D: "depth_limit A \<le> D"
    and rng: "range_order rng1" "range_order rng2"
  shows "\<exists>rep lv' s'. search_round rng1 rng2 A (lv, s) = Inr (rep, lv', s') \<and> tree_inv A D s' \<and> tree_at s' (Sa_root A) \<noteq> None
    \<and> (rep \<longrightarrow> unvisited A lv' < unvisited A lv)"
proof -
  have R: "root_inv A s" using I by (simp add: tree_inv_def)
  obtain least m lv' rep where p: "pick_node rng1 A s lv = (least, m, lv', rep)" by (cases "pick_node rng1 A s lv")
  note P = pick_node_picked[OF rng(1) p]
  have m: "tree_at s m \<noteq> None \<or> m = Sa_root A"
    using P(1) root_invD(3)[OF R] root_invD(4)[OF R, of m] by (fastforce simp: picked_def split: if_splits)
  obtain s' where s': "visit_node rng2 A m s = Inr s'" "tree_inv A D s'" "tree_at s' m \<noteq> None"
    using visit_node_inv[OF A I m D rng(2)] by blast
  have "unvisited A (map_set lv' m True) < unvisited A lv" if rep
  proof -
    have "m \<in> names (Sa_all A)" "\<not> has lv' m" using P(1) that root_invD(3)[OF R] by (auto simp: picked_def)
    moreover have "\<not> has lv k" if "\<not> has (map_set lv' m True) k" for k using that P(2)[of k] by (auto split: if_splits)
    ultimately show ?thesis
      using P(2) unfolding unvisited_def by (intro psubset_card_mono) auto
  qed
  moreover have "tree_at s' (Sa_root A) \<noteq> None" using root_invD(5)[of A s' m] s' by (auto simp: tree_inv_def)
  ultimately show ?thesis using p s' by (simp add: search_round_def)
qed

lemma search_loop_ok:
  assumes A: "args_ok A" and D: "depth_limit A \<le> D" and rng: "\<And>n. range_order (rng n)"
  shows "tree_inv A D s \<Longrightarrow> unvisited A lv < fuel \<Longrightarrow>
    \<exists>s'. search_loop rng A fuel (lv, s) = Inr (Some s') \<and> tree_inv A D s' \<and> tree_at s' (Sa_root A) \<noteq> None"
proof (induction fuel arbitrary: lv s)
  case (Suc n)
  obtain rep lv' s' where s': "search_round (rng (2 * n)) (rng (2 * n + 1)) A (lv, s) = Inr (rep, lv', s')" "tree_inv A D s'"
    "tree_at s' (Sa_root A) \<noteq> None" "rep \<Longrightarrow> unvisited A lv' < unvisited A lv"
    using search_round_inv[OF A Suc.prems(1) D rng rng] by blast
  show ?case
  proof (cases rep)
    case True
    then show ?thesis using Suc.IH[OF s'(2), of lv'] s'(1,4) Suc.prems(2) by simp
  qed (use s' in simp)
qed simp

lemma unvisited_le: "unvisited A lv \<le> nr_nodes (Sa_all A)"
proof -
  have "unvisited A lv \<le> card (names (Sa_all A))" unfolding unvisited_def by (intro card_mono) auto
  also have "\<dots> \<le> nr_nodes (Sa_all A)" unfolding names_def by (metis card_image_le card_length finite_set le_trans)
  finally show ?thesis .
qed

lemma get_const: "map_get d (map (\<lambda>n. (f n, v)) ns) k = (if k \<in> f ` set ns then v else d)"
  by (induction ns) (auto simp: map_get_def)

lemma fresh_inv:
  assumes "Sa_root A \<in> names (Sa_all A)"
  shows "tree_inv A D (fresh_search (Sa_all A) (Sa_root A))"
proof -
  let ?s = "fresh_search (Sa_all A) (Sa_root A)"
  have none: "tree_at ?s k = None" for k by (simp add: fresh_search_def get_const)
  have "set (map_keys (Se_distances ?s)) = names (Sa_all A)"
    using assms by (auto simp: fresh_search_def map_keys_set names_def) (auto simp: map_keys_def)
  then show ?thesis
    using none assms by (auto simp: tree_inv_def child_inv_def parent_inv_def root_inv_def)
      (auto simp: fresh_search_def get_const names_def)
qed

lemma dijkstra_ok:
  assumes "args_ok A" "tree_inv A D s" "depth_limit A \<le> D" "\<And>n. range_order (rng n)" "nr_nodes (Sa_all A) < fuel"
  shows "\<exists>s'. dijkstra rng fuel A s = Inr (Some (\<not> search_failed A s', s')) \<and> tree_inv A D s' \<and> tree_at s' (Sa_root A) \<noteq> None"
proof -
  obtain s' where "search_loop rng A fuel (map (\<lambda>n. (Name n, False)) (All_nodes (Sa_all A)), s) = Inr (Some s')"
    "tree_inv A D s'" "tree_at s' (Sa_root A) \<noteq> None"
    using search_loop_ok[where rng = rng, OF assms(1,3,4,2) le_less_trans[OF unvisited_le assms(5)]] by blast
  then show ?thesis by (simp add: dijkstra_def)
qed

text \<open>In a tree of the search, every node is reached from the root by a path of as many links as
  its depth, whose length is its distance.\<close>

definition tree_link :: "search_args \<Rightarrow> search \<Rightarrow> string \<Rightarrow> string \<Rightarrow> bool" where
  "tree_link A s p k \<longleftrightarrow> linked A p k \<and> (\<exists>c cp. tree_at s k = Some c \<and> Tc_parent c = Some p
     \<and> tree_at s p = Some cp \<and> k \<in> set (Tc_children cp))"

fun path_length :: "LocalityNodes \<Rightarrow> string list \<Rightarrow> real" where
  "path_length all (a # b # ps) = node_dist all a b + path_length all (b # ps)"
| "path_length all _ = 0"

lemma path_length_snoc: "ps \<noteq> [] \<Longrightarrow> path_length all (ps @ [k]) = path_length all ps + node_dist all (last ps) k"
  by (induction ps rule: path_length.induct[of _ all]) auto

lemma tree_path:
  assumes I: "tree_inv A D s" and k: "tree_at s k \<noteq> None"
  shows "\<exists>ps. ps \<noteq> [] \<and> hd ps = Sa_root A \<and> last ps = k \<and> successively (tree_link A s) ps
    \<and> int (length ps) = depth_at s k + 1 \<and> path_length (Sa_all A) ps = dist_at s k"
  using k
proof (induction "nat (depth_at s k)" arbitrary: k rule: less_induct)
  case less
  have C: "child_inv A s" and P: "parent_inv A D s" and R: "root_inv A s" using I by (simp_all add: tree_inv_def)
  obtain c where c: "tree_at s k = Some c" using less.prems by blast
  show ?case
  proof (cases "Tc_parent c")
    case None
    then have "k = Sa_root A" using child_invD(6)[OF C c] by simp
    then show ?thesis using root_invD(1,2)[OF R] by (intro exI[of _ "[k]"]) simp
  next
    case (Some p)
    note d = parent_invD[OF P c Some]
    obtain cp where cp: "tree_at s p = Some cp" "k \<in> set (Tc_children cp)" using d(1) by blast
    then obtain ps where ps: "ps \<noteq> []" "hd ps = Sa_root A" "last ps = p" "successively (tree_link A s) ps"
      "int (length ps) = depth_at s p + 1" "path_length (Sa_all A) ps = dist_at s p"
      using less.hyps[of p] d(3) child_invD(7)[OF C cp(1)] by auto
    have "tree_link A s p k" using c Some cp d(2) by (simp add: tree_link_def)
    then show ?thesis
      using ps d(3,4) by (intro exI[of _ "ps @ [k]"]) (simp add: successively_append_iff path_length_snoc)
  qed
qed

subsection \<open>Trees only grow\<close>

definition grows :: "cells \<Rightarrow> cells \<Rightarrow> bool" where
  "grows t t' \<longleftrightarrow> (\<forall>k. cell t k \<noteq> None \<longrightarrow> cell t' k \<noteq> None) \<and> (map_ok t \<longrightarrow> map_ok t')"

lemma grows_refl [simp]: "grows t t"
  by (simp add: grows_def)

lemma grows_trans: "grows t u \<Longrightarrow> grows u v \<Longrightarrow> grows t v"
  by (simp add: grows_def)

lemma grows_set [simp]: "grows t (map_set t k (Some c))"
  by (simp add: grows_def)

lemma make_node_grows: "make_node new all k t = Inr t' \<Longrightarrow> grows t t'"
  by (auto simp: make_node_def res_bind_Inr_iff split: if_splits)

lemma detach_grows: "detach all k t = Inr t' \<Longrightarrow> grows t t'"
  by (auto simp: detach_def remove_child_def res_bind_Inr_iff split: option.splits)

lemma relax_grows:
  assumes "relax A m nb d s = Inr s'"
  shows "grows (Se_tree s) (Se_tree s')"
proof -
  obtain t1 mc t2 c where t: "make_node (Sa_NewTreeNode A) (Sa_all A) nb (Se_tree s) = Inr t1"
    "detach (Sa_all A) nb (map_set t1 m (Some (mc\<lparr>Tc_children := Tc_children mc @ [nb]\<rparr>))) = Inr t2"
    "Se_tree s' = map_set t2 nb (Some c)"
    using assms by (auto simp: relax_def res_bind_Inr_iff split: option.splits)
  have "grows t1 t2" using grows_trans[OF grows_set detach_grows[OF t(2)]] .
  with make_node_grows[OF t(1)] show ?thesis unfolding t(3) by (blast intro: grows_trans grows_set)
qed

lemma try_neighbor_grows: "try_neighbor A m nb s = Inr s' \<Longrightarrow> grows (Se_tree s) (Se_tree s')"
  by (auto simp: try_neighbor_def res_bind_Inr_iff split: if_splits option.splits dest: relax_grows)

lemma visit_node_grows:
  assumes "visit_node rng A m s = Inr s'"
  shows "grows (Se_tree s) (Se_tree s')"
proof -
  have "grows (Se_tree s) (Se_tree s')" if "res_fold (try_neighbor A m) ns s = Inr s'" for ns s
    using that by (induction ns arbitrary: s) (auto simp: res_bind_Inr_iff intro: grows_trans dest: try_neighbor_grows)
  with assms show ?thesis
    by (fastforce simp: visit_node_def res_bind_Inr_iff intro: grows_trans dest: make_node_grows)
qed

lemma search_loop_grows: "search_loop rng A fuel ls = Inr (Some s') \<Longrightarrow> grows (Se_tree (snd ls)) (Se_tree s')"
proof (induction fuel arbitrary: ls)
  case (Suc n)
  obtain least m lv rep where p: "pick_node (rng (2 * n)) A (snd ls) (fst ls) = (least, m, lv, rep)" by (metis prod_cases4)
  with Suc.prems obtain s1 where s1: "visit_node (rng (2 * n + 1)) A m (snd ls) = Inr s1"
    "(if rep then search_loop rng A n (map_set lv m True, s1) else Inr (Some s1)) = Inr (Some s')"
    by (cases rep) (auto simp: search_round_def res_bind_Inr_iff)
  then show ?case using Suc.IH visit_node_grows[OF s1(1)] by (fastforce split: if_splits intro: grows_trans)
qed simp

lemma dijkstra_grows: "dijkstra rng fuel A s = Inr (Some (b, s')) \<Longrightarrow> grows (Se_tree s) (Se_tree s')"
  by (auto simp: dijkstra_def res_bind_Inr_iff dest!: search_loop_grows)

subsection \<open>Properties of the search\<close>

text \<open>C28: On a collection as \<open>Setup\<close> leaves it, the search for a tree ends and does not panic,
  whatever the order in which Go ranges over the maps: at most one round more than there are
  nodes.\<close>

theorem dijkstra_total:
  assumes "args_ok A" "\<And>n. range_order (rng n)" "nr_nodes (Sa_all A) < fuel"
  shows "\<exists>succeeded s. dijkstra rng fuel A (fresh_search (Sa_all A) (Sa_root A)) = Inr (Some (succeeded, s))"
  using dijkstra_ok[where rng = rng, OF assms(1) fresh_inv[OF args_okD(2)[OF assms(1)]] order_refl assms(2,3)] by blast

lemma success_path:
  assumes I: "tree_inv A D s" and s: "tree_at s (Sa_root A) \<noteq> None" "\<not> search_failed A s" and D: "0 \<le> D"
    and k: "k \<in> names (Sa_all A)" "has (Sa_allowedNodes A) k"
  shows "\<exists>ps. ps \<noteq> [] \<and> hd ps = Sa_root A \<and> last ps = k \<and> successively (tree_link A s) ps
    \<and> int (length ps) \<le> D + 1 \<and> path_length (Sa_all A) ps = dist_at s k"
proof -
  have R: "root_inv A s" and P: "parent_inv A D s" and C: "child_inv A s" using I by (simp_all add: tree_inv_def)
  have "dist_at s k < 60000" using s(2) k root_invD(3)[OF R] by (auto simp: search_failed_def)
  then have t: "tree_at s k \<noteq> None" using root_invD(4)[OF R k(1)] s(1) by fastforce
  then obtain c where c: "tree_at s k = Some c" by blast
  have "depth_at s k \<le> D"
    using parent_invD(5)[OF P c] child_invD(6)[OF C c] root_invD(1)[OF R] D by (cases "Tc_parent c") auto
  with tree_path[OF I t] show ?thesis by fastforce
qed



subsection \<open>A graph of two nodes\<close>

definition duo_node :: "nat \<Rightarrow> LocalityNode" where
  "duo_node i = \<lparr>Name = (if i = 0 then ''node_0'' else ''node_1''), IP = [], X = 3 * real i, Y = 0, Level = 0, ADist = [], PDist = [],
     Cluster = [], Bunch = [], OptimalCluster = [], OptimalBunch = [], Rings = [], NrOwnRings = 0,
     NodeIdentity = Some \<lparr>SI_ID = i, SI_String = replicate i CHR ''b'', SI_Host = [], SI_Public = []\<rparr>\<rparr>"

definition duo_nodes :: LocalityNodes where
  "duo_nodes = \<lparr>All_nodes = [duo_node 0, duo_node 1], ServerIdentityToName = [(0, ''node_0''), (1, ''node_1'')],
     ClusterBunchDistances = (\<lambda>a b. 0), Links = (\<lambda>a b. [])\<rparr>"

definition duo_args :: search_args where
  "duo_args = \<lparr>Sa_NewTreeNode = (\<lambda>i sid. \<lparr>Tc_index = i, Tc_identity = sid, Tc_children = [], Tc_parent = None\<rparr>), Sa_all = duo_nodes, Sa_root = ''node_0'', Sa_neighbors = [(''node_0'', [(''node_1'', True)]), (''node_1'', [(''node_0'', True)])],
     Sa_allowedNodes = [(''node_0'', True), (''node_1'', True)], Sa_allowedLeafs = [], Sa_buildAllowedLeafs = True,
     Sa_radius = 10, Sa_failedMode = False\<rparr>"

lemma duo_name_ints: "NodeNameToInt ''node_0'' = Inr 0" "NodeNameToInt ''node_1'' = Inr 1"
  by code_simp+

lemma duo_lookups:
  "GetByName duo_nodes ''node_0'' = Inr (Some 0)" "GetByName duo_nodes ''node_1'' = Inr (Some 1)"
  "dist_by_name duo_nodes ''node_0'' ''node_1'' = Inr 3" "dist_by_name duo_nodes ''node_1'' ''node_0'' = Inr 3"
  by (simp_all add: GetByName_def dist_by_name_def duo_name_ints duo_nodes_def duo_node_def slice_get_def ComputeDist_def)

lemma duo_args_ok: "args_ok duo_args"
proof -
  have "indexed (All_nodes duo_nodes)"
    using duo_name_ints by (simp add: indexed_def duo_nodes_def duo_node_def nth_Cons split: nat.splits)
  moreover have "\<exists>sid. NodeIdentity (node_at duo_nodes p) = Some sid \<and> GetServerIdentityToName duo_nodes sid = Name (node_at duo_nodes p)"
    if "p < nr_nodes duo_nodes" for p
    using that by (intro exI[of _ "\<lparr>SI_ID = p, SI_String = replicate p CHR ''b'', SI_Host = [], SI_Public = []\<rparr>"])
      (auto simp: duo_nodes_def duo_node_def GetServerIdentityToName_def map_get_def less_Suc_eq)
  moreover have "names duo_nodes = {''node_0'', ''node_1''}" by (simp add: names_def duo_nodes_def duo_node_def)
  ultimately show ?thesis by (auto simp: args_ok_def names_ok_def new_node_ok_def duo_args_def map_get_def map_keys_def)
qed

lemma duo_nodes_made:
  "NameToServerIdentity duo_nodes ''node_0'' = Inr (NodeIdentity (duo_node 0))"
  "NameToServerIdentity duo_nodes ''node_1'' = Inr (NodeIdentity (duo_node 1))"
  by (simp_all add: NameToServerIdentity_def duo_lookups) (simp_all add: duo_nodes_def)

lemma duo_fresh: "fresh_search duo_nodes ''node_0'' = \<lparr>Se_visited = [(''node_0'', False), (''node_1'', False)],
    Se_distances = [(''node_0'', 0), (''node_1'', 66000)], Se_tree = [(''node_0'', None), (''node_1'', None)],
    Se_depth = [(''node_0'', 0), (''node_1'', 66000)]\<rparr>"
  by (simp add: fresh_search_def duo_nodes_def duo_node_def map_set_def)

lemma duo_search: "\<exists>s. dijkstra (\<lambda>n xs. xs) 3 duo_args (fresh_search duo_nodes ''node_0'') = Inr (Some (True, s))"
proof -
  let ?c = "\<lambda>i ns p. \<lparr>Tc_index = i, Tc_identity = NodeIdentity (duo_node (nat i)), Tc_children = ns, Tc_parent = p\<rparr>"
  let ?lv = "\<lambda>a b. [(''node_0'', a), (''node_1'', b)]"
  let ?s0 = "fresh_search duo_nodes ''node_0''"
  let ?s1 = "\<lambda>v. \<lparr>Se_visited = [(''node_0'', True), (''node_1'', v)], Se_distances = [(''node_0'', 0), (''node_1'', 3)],
    Se_tree = [(''node_0'', Some (?c 0 [''node_1''] None)), (''node_1'', Some (?c 1 [] (Some ''node_0'')))],
    Se_depth = [(''node_0'', 0), (''node_1'', 1)]\<rparr>"
  note defs = search_round_def pick_node_def pick_step_def visit_node_def make_node_def try_neighbor_def should_relax_def
    relax_def detach_def duo_lookups duo_nodes_made duo_name_ints duo_args_def map_get_def map_set_def map_keys_def
  have r1: "search_round (\<lambda>xs. xs) (\<lambda>xs. xs) duo_args (?lv False False, ?s0) = Inr (True, ?lv True False, ?s1 False)"
    by (simp add: defs duo_fresh)
  have r2: "search_round (\<lambda>xs. xs) (\<lambda>xs. xs) duo_args (?lv True False, ?s1 False) = Inr (True, ?lv True True, ?s1 True)"
    by (simp add: defs)
  have r3: "search_round (\<lambda>xs. xs) (\<lambda>xs. xs) duo_args (?lv True True, ?s1 True) = Inr (False, ?lv True True, ?s1 True)"
    by (simp add: defs)
  have "search_loop (\<lambda>n xs. xs) duo_args 3 (?lv False False, ?s0) = Inr (Some (?s1 True))"
    using r1 r2 r3 by (simp add: eval_nat_numeral)
  moreover have "\<not> search_failed duo_args (?s1 True)" by (auto simp: search_failed_def duo_args_def map_get_def map_keys_def)
  ultimately show ?thesis by (simp add: dijkstra_def) (simp add: duo_args_def duo_nodes_def duo_node_def)
qed

theorem dijkstra_total_witness:
  "\<exists>succeeded s. dijkstra (\<lambda>n. rev) 3 duo_args (fresh_search duo_nodes ''node_0'') = Inr (Some (succeeded, s))"
  using dijkstra_total[of duo_args "\<lambda>n. rev" 3] duo_args_ok by (simp add: duo_args_def duo_nodes_def)



end
