(* ===== verification/Ring_Build.thy ===== *)
theory Ring_Build
  imports Ring_Tree "HOL-Library.Char_ord" "HOL-Library.List_Lexorder"
begin

text \<open>
  What \<open>CreateOnetRings\<close> (gentree.go) does with the search of \<open>Ring_Tree\<close>: the roster of a
  tree (\<open>buildOnetTree\<close>), the copies of the maps from one radius to the next, the nodes a ring
  may contain, and the loop that repeats the search until it succeeds.
\<close>

subsection \<open>The roster of a tree\<close>

text \<open>\<open>sort.Sort\<close> with \<open>ByServerIdentityAlphabetical\<close>: some permutation that is ordered by the
  string form of the identities; it is not stable.\<close>

definition sorter_ok :: "(ServerIdentity list \<Rightarrow> ServerIdentity list) \<Rightarrow> bool" where
  "sorter_ok sorter \<longleftrightarrow> (\<forall>ids. mset (sorter ids) = mset ids \<and> sorted (map SI_String (sorter ids)))"

text \<open>One node of the range over \<open>inTree\<close>: the roster so far, and where the root is in it.\<close>

definition roster_step ::
  "string \<Rightarrow> cells \<Rightarrow> string \<Rightarrow> ServerIdentity option list \<times> nat \<Rightarrow> ServerIdentity option list \<times> nat" where
  "roster_step rootName inTree name acc =
     (case cell inTree name of
        None \<Rightarrow> acc
      | Some node \<Rightarrow> (fst acc @ [Tc_identity node], if name = rootName then length (fst acc) else snd acc))"

text \<open>\<open>buildOnetTree\<close> up to the call of \<open>onet.NewRoster\<close>. An identity that is \<open>nil\<close> is
  dereferenced when the keys are hashed.\<close>

definition tree_roster ::
  "(ServerIdentity list \<Rightarrow> ServerIdentity list) \<Rightarrow> (string list \<Rightarrow> string list) \<Rightarrow> LocalityNodes \<Rightarrow> string \<Rightarrow> cells
    \<Rightarrow> ServerIdentity list result" where
  "tree_roster sorter rng all rootName inTree =
     (case fold (roster_step rootName inTree) (rng (map_keys inTree)) ([], 0) of (roster, rootIdx) \<Rightarrow>
        res_bind (slice_get roster 0) (\<lambda>replacement.
        res_bind (NameToServerIdentity all rootName) (\<lambda>rootId.
        res_bind (slice_set (roster[0 := rootId]) (int rootIdx) replacement) (\<lambda>roster'.
          if None \<in> set roster' then Inl NilDereference
          else let ids = map the roster'
               in Inr (if length ids > 1 then hd ids # sorter (tl ids) else ids)))))"

text \<open>The nodes of the tree as the roster has them: the root first, then the others in the order of
  their strings.\<close>

definition identity_of :: "LocalityNodes \<Rightarrow> string \<Rightarrow> ServerIdentity" where
  "identity_of all name = the (projr (NameToServerIdentity all name))"

definition canonical_roster :: "LocalityNodes \<Rightarrow> string \<Rightarrow> cells \<Rightarrow> ServerIdentity list" where
  "canonical_roster all rootName inTree =
     identity_of all rootName # sort_key SI_String (map (identity_of all)
       (filter (\<lambda>n. n \<noteq> rootName \<and> cell inTree n \<noteq> None) (map Name (All_nodes all))))"

text \<open>A tree whose nodes have the identities the collection gives their names.\<close>

definition tree_ids_ok :: "LocalityNodes \<Rightarrow> cells \<Rightarrow> bool" where
  "tree_ids_ok all t \<longleftrightarrow> map_ok t \<and> (\<forall>k c. cell t k = Some c \<longrightarrow> k \<in> names all \<and> Tc_identity c = Some (identity_of all k))"

lemma cell_keys: "cell t n \<noteq> None \<Longrightarrow> n \<in> set (map_keys t)"
  by (force simp: map_get_def map_keys_def split: option.splits dest: map_of_SomeD)

lemma roster_fold:
  assumes "tree_ids_ok all t" "distinct ns"
  shows "fold (roster_step r t) ns (xs, i) =
    (xs @ map (Some \<circ> identity_of all) (filter (\<lambda>n. cell t n \<noteq> None) ns),
     if r \<in> set ns \<and> cell t r \<noteq> None
     then length xs + length (filter (\<lambda>n. cell t n \<noteq> None) (takeWhile (\<lambda>n. n \<noteq> r) ns)) else i)"
  using assms(2)
proof (induction ns arbitrary: xs i)
  case (Cons n ns)
  show ?case
  proof (cases "cell t n")
    case None
    then show ?thesis using Cons by (auto simp: roster_step_def)
  next
    case (Some c)
    then have "Tc_identity c = Some (identity_of all n)" using assms(1) by (simp add: tree_ids_ok_def)
    then show ?thesis using Cons Some by (auto simp: roster_step_def)
  qed
qed simp

lemma sorted_unique:
  assumes "sorter_ok sorter" "mset ys = mset zs" "inj_on SI_String (set zs)"
  shows "sorter ys = sort_key SI_String zs"
proof -
  have m: "mset (sorter ys) = mset (sort_key SI_String zs)" using assms(1,2) by (simp add: sorter_ok_def)
  have "sort (map SI_String (sorter ys)) = map SI_String (sorter ys)"
    using assms(1) by (intro sorted_sort_id) (simp add: sorter_ok_def)
  moreover have "sort (map SI_String (sorter ys)) = map SI_String (sort_key SI_String zs)"
    using m by (intro properties_for_sort) (simp_all add: mset_map)
  ultimately have eq: "map SI_String (sorter ys) = map SI_String (sort_key SI_String zs)" by simp
  have "set (sorter ys) = set zs" using m by (metis mset_sort set_mset_mset)
  then have "inj_on SI_String (set (sorter ys) \<union> set (sort_key SI_String zs))" using assms(3) by simp
  then show ?thesis by (rule map_inj_on[OF eq])
qed

text \<open>The swap brings the root to the front.\<close>

lemma slice_set_nat: "n < length xs \<Longrightarrow> slice_set xs (int n) v = Inr (xs[n := v])"
  by (simp add: slice_set_def)

lemma swap_front:
  assumes "xs = us @ x # vs"
  shows "\<exists>ws. slice_set (xs[0 := x]) (int (length us)) (xs ! 0) = Inr (x # ws) \<and> mset ws = mset us + mset vs"
proof (cases us)
  case Nil
  then show ?thesis using assms slice_set_nat[of 0 xs] by simp
next
  case (Cons u us')
  then have "xs[0 := x] = x # us' @ x # vs" "xs ! 0 = u" using assms by simp_all
  moreover have "(x # us' @ x # vs)[Suc (length us') := u] = x # us' @ u # vs" by (simp add: list_update_append)
  ultimately have "slice_set (xs[0 := x]) (int (length us)) (xs ! 0) = Inr (x # us' @ u # vs)"
    using slice_set_nat[of "length us" "xs[0 := x]" u] Cons by simp
  then show ?thesis using Cons by (intro exI[of _ "us' @ u # vs"]) simp
qed

lemma identity_of_ok:
  assumes "names_ok all" "k \<in> names all"
  shows "NameToServerIdentity all k = Inr (Some (identity_of all k))" "GetServerIdentityToName all (identity_of all k) = k"
proof -
  obtain p sid where "NameToServerIdentity all k = Inr (Some sid)" "GetServerIdentityToName all sid = k"
    using names_cases[OF assms] .
  then show "NameToServerIdentity all k = Inr (Some (identity_of all k))" "GetServerIdentityToName all (identity_of all k) = k"
    by (simp_all add: identity_of_def)
qed

lemma distinct_names: "names_ok all \<Longrightarrow> distinct (map Name (All_nodes all))"
  using indexed_inj[of "All_nodes all"] by (auto simp: names_ok_def distinct_conv_nth)

lemma tree_names_mset:
  assumes "names_ok all" "tree_ids_ok all t" "distinct ns" "\<And>n. cell t n \<noteq> None \<Longrightarrow> n \<in> set ns" "ns = as @ r # bs"
  shows "mset (filter (\<lambda>n. cell t n \<noteq> None) as @ filter (\<lambda>n. cell t n \<noteq> None) bs)
    = mset (filter (\<lambda>n. n \<noteq> r \<and> cell t n \<noteq> None) (map Name (All_nodes all)))"
proof -
  let ?us = "filter (\<lambda>n. cell t n \<noteq> None) as @ filter (\<lambda>n. cell t n \<noteq> None) bs"
    and ?vs = "filter (\<lambda>n. n \<noteq> r \<and> cell t n \<noteq> None) (map Name (All_nodes all))"
  have d1: "distinct ?vs" using distinct_names[OF assms(1)] by (rule distinct_filter)
  have d2: "distinct ?us" using assms(3,5) by auto
  have "set (filter (\<lambda>n. cell t n \<noteq> None) as @ filter (\<lambda>n. cell t n \<noteq> None) bs) = {n. n \<noteq> r \<and> cell t n \<noteq> None}"
    using assms(3-5) by auto
  moreover have "set (filter (\<lambda>n. n \<noteq> r \<and> cell t n \<noteq> None) (map Name (All_nodes all))) = {n. n \<noteq> r \<and> cell t n \<noteq> None}"
    using assms(2) by (auto simp: tree_ids_ok_def names_def)
  ultimately have "set ?us = set ?vs" by (rule trans[OF _ sym])
  then show ?thesis using set_eq_iff_mset_eq_distinct[OF d2 d1] by (rule iffD1[rotated])
qed

lemma roster_order:
  assumes "names_ok all" "tree_ids_ok all t" "cell t rootName \<noteq> None" "sorter_ok sorter" "range_order rng"
    and "inj_on (\<lambda>n. SI_String (identity_of all n)) (names all)"
  shows "tree_roster sorter rng all rootName t = Inr (canonical_roster all rootName t)"
proof -
  define ns where "ns = rng (map_keys t)"
  let ?in = "\<lambda>n. cell t n \<noteq> None" and ?id = "identity_of all"
  have dist: "distinct ns" using assms(2,5) by (simp add: ns_def tree_ids_ok_def map_ok_def map_keys_def range_order_distinct)
  have keys: "?in n \<Longrightarrow> n \<in> set ns" for n
    using range_order_set[OF assms(5), of "map_keys t"] cell_keys[of t n] by (simp add: ns_def)
  obtain as bs where split: "ns = as @ rootName # bs" "rootName \<notin> set as" using keys[OF assms(3)] by (metis split_list_first)
  define us vs where "us = filter ?in as" and "vs = filter ?in bs"
  have root: "rootName \<in> names all" using assms(2,3) by (auto simp: tree_ids_ok_def)
  have F: "filter ?in ns = us @ rootName # vs" using split assms(3) by (simp add: us_def vs_def)
  have "takeWhile (\<lambda>n. n \<noteq> rootName) ns = as" using split by (simp add: takeWhile_tail) (metis takeWhile_eq_all_conv)
  then have fold: "fold (roster_step rootName t) ns ([], 0) = (map (Some \<circ> ?id) (us @ rootName # vs), length us)"
    using roster_fold[OF assms(2) dist, of rootName "[]" 0] split F assms(3) by (simp add: us_def)
  let ?xs = "map (Some \<circ> ?id) (us @ rootName # vs)"
  obtain ws where ws: "slice_set (?xs[0 := Some (?id rootName)]) (int (length us)) (?xs ! 0) = Inr (Some (?id rootName) # ws)"
    "mset ws = mset (map (Some \<circ> ?id) us) + mset (map (Some \<circ> ?id) vs)"
    using swap_front[of ?xs "map (Some \<circ> ?id) us" "Some (?id rootName)" "map (Some \<circ> ?id) vs"] by auto
  have none: "None \<notin> set ws" using ws(2) by (metis (no_types, lifting) Un_iff comp_apply image_iff list.set_map option.distinct(1) set_mset_mset set_mset_union)
  have "mset (map the ws) = mset (map ?id (us @ vs))"
    using arg_cong[OF ws(2), of "image_mset the"] by (simp add: comp_def flip: mset_map)
  also have "mset (us @ vs) = mset (filter (\<lambda>n. n \<noteq> rootName \<and> ?in n) (map Name (All_nodes all)))"
    unfolding us_def vs_def by (rule tree_names_mset[OF assms(1,2) dist keys split(1)])
  then have "mset (map ?id (us @ vs)) = mset (map ?id (filter (\<lambda>n. n \<noteq> rootName \<and> ?in n) (map Name (All_nodes all))))"
    by (simp only: mset_map)
  finally have m: "mset (map the ws) = mset (map ?id (filter (\<lambda>n. n \<noteq> rootName \<and> ?in n) (map Name (All_nodes all))))" .
  have "inj_on SI_String (?id ` names all)" using assms(6) by (intro inj_on_imageI) (simp add: comp_def)
  moreover have "set (map ?id (filter (\<lambda>n. n \<noteq> rootName \<and> ?in n) (map Name (All_nodes all)))) \<subseteq> ?id ` names all"
    by (auto simp: names_def)
  ultimately have inj: "inj_on SI_String (set (map ?id (filter (\<lambda>n. n \<noteq> rootName \<and> ?in n) (map Name (All_nodes all)))))"
    by (rule inj_on_subset)
  have s: "sorter (map the ws) = sort_key SI_String (map ?id (filter (\<lambda>n. n \<noteq> rootName \<and> ?in n) (map Name (All_nodes all))))"
    by (rule sorted_unique[OF assms(4) m inj])
  have "slice_get ?xs 0 = Inr (?xs ! 0)" by (simp add: slice_get_def)
  moreover have "sorter [] = []" using assms(4) unfolding sorter_ok_def by (metis mset_zero_iff mset.simps(1))
  then have "ws = [] \<Longrightarrow> sort_key SI_String (map ?id (filter (\<lambda>n. n \<noteq> rootName \<and> ?in n) (map Name (All_nodes all)))) = []"
    using s by simp
  ultimately show ?thesis
    using fold ws(1) none s identity_of_ok(1)[OF assms(1) root]
    by (simp add: tree_roster_def ns_def[symmetric] canonical_roster_def Let_def)
qed

text \<open>C30: The roster of a tree does not depend on the order in which Go ranges over \<open>inTree\<close>: it is
  the root followed by the other nodes of the tree in the order of their strings.\<close>

theorem roster_canonical:
  assumes "names_ok all" "tree_ids_ok all t" "cell t rootName \<noteq> None" "sorter_ok sorter" "range_order rng"
    and "inj_on (\<lambda>n. SI_String (identity_of all n)) (names all)"
  shows "tree_roster sorter rng all rootName t = Inr (canonical_roster all rootName t)"
  by (rule roster_order[OF assms])

definition duo_cells :: cells where
  "duo_cells = [(''node_0'', Some \<lparr>Tc_index = 0, Tc_identity = NodeIdentity (duo_node 0), Tc_children = [''node_1''], Tc_parent = None\<rparr>),
     (''node_1'', Some \<lparr>Tc_index = 1, Tc_identity = NodeIdentity (duo_node 1), Tc_children = [], Tc_parent = Some ''node_0''\<rparr>)]"

lemma duo_ids: "identity_of duo_nodes ''node_0'' = the (NodeIdentity (duo_node 0))" "identity_of duo_nodes ''node_1'' = the (NodeIdentity (duo_node 1))"
  by (simp_all add: identity_of_def duo_nodes_made)

theorem roster_canonical_witness:
  "tree_roster (sort_key SI_String) rev duo_nodes ''node_0'' duo_cells = Inr (canonical_roster duo_nodes ''node_0'' duo_cells)"
proof (rule roster_canonical)
  have names: "names duo_nodes = {''node_0'', ''node_1''}" by (simp add: names_def duo_nodes_def duo_node_def)
  show "names_ok duo_nodes" using duo_args_ok by (simp add: args_ok_def duo_args_def)
  show "tree_ids_ok duo_nodes duo_cells" unfolding tree_ids_ok_def names
    by (auto simp: duo_cells_def map_ok_def map_get_def duo_ids duo_node_def split: if_splits)
  show "inj_on (\<lambda>n. SI_String (identity_of duo_nodes n)) (names duo_nodes)"
    unfolding names by (simp add: duo_ids duo_node_def)
qed (simp_all add: duo_cells_def map_get_def sorter_ok_def)

subsection \<open>Copies of a tree\<close>

text \<open>\<open>onet.TreeNode.AddChild\<close> is a parameter, documented to append the child to the parent's
  children and to set the child's parent.\<close>

type_synonym add_child = "string \<Rightarrow> string \<Rightarrow> cells \<Rightarrow> cells"

definition add_child_ok :: "add_child \<Rightarrow> bool" where
  "add_child_ok add \<longleftrightarrow> (\<forall>p k t pc kc. p \<noteq> k \<and> cell t p = Some pc \<and> cell t k = Some kc \<longrightarrow>
     (\<forall>n. cell (add p k t) n = (if n = p then Some (pc\<lparr>Tc_children := Tc_children pc @ [k]\<rparr>)
        else if n = k then Some (kc\<lparr>Tc_parent := Some p\<rparr>) else cell t n))
     \<and> (map_ok t \<longrightarrow> map_ok (add p k t)))"

lemma add_child_okD:
  assumes "add_child_ok add" "p \<noteq> k" "cell t p = Some pc" "cell t k = Some kc"
  shows "cell (add p k t) n = (if n = p then Some (pc\<lparr>Tc_children := Tc_children pc @ [k]\<rparr>)
        else if n = k then Some (kc\<lparr>Tc_parent := Some p\<rparr>) else cell t n)"
    "map_ok t \<Longrightarrow> map_ok (add p k t)"
  using assms(1)[unfolded add_child_ok_def, rule_format, OF conjI[OF assms(2) conjI[OF assms(3,4)]]] by simp_all

definition copy_node :: "new_node \<Rightarrow> LocalityNodes \<Rightarrow> cells \<Rightarrow> string \<Rightarrow> cells \<Rightarrow> cells result" where
  "copy_node new all t k acc =
     (case cell t k of
        None \<Rightarrow> Inr (map_set acc k None)
      | Some _ \<Rightarrow> res_bind (NameToServerIdentity all k) (\<lambda>sid.
          res_bind (NodeNameToInt k) (\<lambda>i. Inr (map_set acc k (Some (new i sid))))))"

definition copy_child :: "add_child \<Rightarrow> LocalityNodes \<Rightarrow> cells \<Rightarrow> string \<Rightarrow> string \<Rightarrow> cells \<Rightarrow> cells result" where
  "copy_child add all t k c acc =
     (case cell t c of
        None \<Rightarrow> Inl NilDereference
      | Some cc \<Rightarrow> res_bind (identity_name all cc) (\<lambda>childName.
          if cell acc k = None \<or> cell acc childName = None then Inl NilDereference
          else Inr (add k childName acc)))"

definition copy_children :: "add_child \<Rightarrow> LocalityNodes \<Rightarrow> cells \<Rightarrow> string \<Rightarrow> cells \<Rightarrow> cells result" where
  "copy_children add all t k acc =
     (case cell t k of
        None \<Rightarrow> Inr acc
      | Some v \<Rightarrow> res_fold (copy_child add all t k) (Tc_children v) acc)"

definition copy_tree ::
  "new_node \<Rightarrow> add_child \<Rightarrow> (string list \<Rightarrow> string list) \<Rightarrow> LocalityNodes \<Rightarrow> cells \<Rightarrow> cells result" where
  "copy_tree new add rng all t =
     res_bind (res_fold (copy_node new all t) (rng (map_keys t)) [])
       (res_fold (copy_children add all t) (rng (map_keys t)))"

lemma copy_nodes_ok:
  assumes "names_ok all" "new_node_ok new" "\<And>k c. cell t k = Some c \<Longrightarrow> cell_ok all k c" "map_ok acc"
  shows "\<exists>u. res_fold (copy_node new all t) ns acc = Inr u \<and> map_ok u
    \<and> (\<forall>k. cell u k = (if k \<in> set ns then map_option (\<lambda>c. c\<lparr>Tc_children := [], Tc_parent := None\<rparr>) (cell t k) else cell acc k))"
  using assms(4)
proof (induction ns arbitrary: acc)
  case (Cons n ns)
  obtain v where v: "copy_node new all t n acc = Inr (map_set acc n v)"
    "v = map_option (\<lambda>c. c\<lparr>Tc_children := [], Tc_parent := None\<rparr>) (cell t n)"
  proof (cases "cell t n")
    case (Some c)
    have "new (Tc_index c) (Tc_identity c) = c\<lparr>Tc_children := [], Tc_parent := None\<rparr>"
      using assms(2) by (intro tree_cell.equality) (simp_all add: new_node_ok_def)
    then show thesis using that[of "Some (new (Tc_index c) (Tc_identity c))"] assms(3)[OF Some] Some
      by (simp add: copy_node_def cell_ok_def)
  qed (use that[of None] in \<open>simp add: copy_node_def\<close>)
  obtain u where "res_fold (copy_node new all t) ns (map_set acc n v) = Inr u" "map_ok u"
    "\<And>k. cell u k = (if k \<in> set ns then map_option (\<lambda>c. c\<lparr>Tc_children := [], Tc_parent := None\<rparr>) (cell t k)
      else cell (map_set acc n v) k)"
    using Cons.IH[of "map_set acc n v"] Cons.prems by auto
  then show ?case using v by (intro exI[of _ u]) simp
qed simp

text \<open>What the copy of a tree must satisfy; a tree of the search does.\<close>

definition copyable :: "LocalityNodes \<Rightarrow> cells \<Rightarrow> bool" where
  "copyable all t \<longleftrightarrow> map_ok t \<and> (\<forall>k c. cell t k = Some c \<longrightarrow> cell_ok all k c \<and> distinct (Tc_children c)
       \<and> (\<forall>n \<in> set (Tc_children c). n \<noteq> k \<and> (\<exists>cn. cell t n = Some cn \<and> Tc_parent cn = Some k))
       \<and> (\<forall>p. Tc_parent c = Some p \<longrightarrow> (\<exists>cp. cell t p = Some cp \<and> k \<in> set (Tc_children cp))))"

lemma copyableD:
  assumes "copyable all t" "cell t k = Some c"
  shows "cell_ok all k c" "distinct (Tc_children c)" "n \<in> set (Tc_children c) \<Longrightarrow> n \<noteq> k"
    "n \<in> set (Tc_children c) \<Longrightarrow> \<exists>cn. cell t n = Some cn \<and> Tc_parent cn = Some k"
    "Tc_parent c = Some p \<Longrightarrow> \<exists>cp. cell t p = Some cp \<and> k \<in> set (Tc_children cp)"
  using assms unfolding copyable_def by blast+

lemma tree_inv_copyable:
  assumes "tree_inv A D s" "map_ok (Se_tree s)"
  shows "copyable (Sa_all A) (Se_tree s)"
proof -
  have C: "child_inv A s" and P: "parent_inv A D s" using assms(1) by (simp_all add: tree_inv_def)
  have "n \<noteq> k" if "tree_at s k = Some c" "n \<in> set (Tc_children c)" for k c n
    using child_invD(5)[OF C that] parent_invD(3)[OF P] by fastforce
  then show ?thesis
    using assms(2) child_invD(1,2,5)[OF C] parent_invD(1)[OF P] unfolding copyable_def by blast
qed

text \<open>The tree with the children of the nodes of \<open>K\<close> and the first children of \<open>k\<close> attached.\<close>

definition partial :: "cells \<Rightarrow> string set \<Rightarrow> string \<Rightarrow> string list \<Rightarrow> string \<Rightarrow> tree_cell option" where
  "partial t K k cs n = map_option (\<lambda>c. c\<lparr>
     Tc_children := (if n \<in> K then Tc_children c else if n = k then cs else []),
     Tc_parent := (case Tc_parent c of None \<Rightarrow> None
       | Some p \<Rightarrow> if p \<in> K \<or> p = k \<and> n \<in> set cs then Some p else None)\<rparr>) (cell t n)"

lemma copy_child_ok:
  assumes T: "copyable all t" and add: "add_child_ok add" and k: "cell t k = Some v" "k \<notin> K"
    and cs: "Tc_children v = cs @ n # ds" and acc: "cell acc = partial t K k cs" "map_ok acc"
  shows "\<exists>u. copy_child add all t k n acc = Inr u \<and> cell u = partial t K k (cs @ [n]) \<and> map_ok u"
proof -
  have n: "n \<in> set (Tc_children v)" "n \<notin> set cs" using cs copyableD(2)[OF T k(1)] by auto
  obtain cn where cn: "cell t n = Some cn" "Tc_parent cn = Some k" using copyableD(4)[OF T k(1) n(1)] by blast
  have nk: "n \<noteq> k" by (rule copyableD(3)[OF T k(1) n(1)])
  have id: "identity_name all cn = Inr n" using copyableD(1)[OF T cn(1)] by (simp add: cell_ok_def)
  obtain pc kc where pk: "cell acc k = Some pc" "cell acc n = Some kc" using acc(1) k(1) cn(1) by (simp add: partial_def)
  have u: "copy_child add all t k n acc = Inr (add k n acc)" using cn(1) id pk by (simp add: copy_child_def)
  have set: "cell (add k n acc) x = (if x = k then Some (pc\<lparr>Tc_children := Tc_children pc @ [n]\<rparr>)
        else if x = n then Some (kc\<lparr>Tc_parent := Some k\<rparr>) else cell acc x)" for x
    by (rule add_child_okD(1)[OF add nk[symmetric] pk])
  have pc: "pc = v\<lparr>Tc_children := cs, Tc_parent := Tc_parent pc\<rparr>" "kc = cn\<lparr>Tc_children := Tc_children kc, Tc_parent := None\<rparr>"
    using pk k cn n(2) nk unfolding acc(1) by (auto simp: partial_def)
  have "cell (add k n acc) x = partial t K k (cs @ [n]) x" for x
  proof -
    consider "x = k" | "x = n" | "x \<noteq> k" "x \<noteq> n" by blast
    then show ?thesis
    proof cases
      assume "x = k"
      then show ?thesis using set[of x] pk(1) k nk copyableD(3)[OF T k(1)] cs unfolding acc(1)
        by (auto simp: partial_def split: option.splits)
    next
      assume "x = n"
      then show ?thesis using set[of x] pk(2) k cn nk unfolding acc(1) by (auto simp: partial_def)
    next
      assume "x \<noteq> k" "x \<noteq> n"
      then show ?thesis using set[of x] unfolding acc(1) by (simp add: partial_def cong: option.case_cong)
    qed
  qed
  then show ?thesis using u add_child_okD(2)[OF add nk[symmetric] pk acc(2)] by (auto simp: fun_eq_iff)
qed

lemma copy_children_ok:
  assumes T: "copyable all t" and add: "add_child_ok add" and k: "k \<notin> K" and acc: "cell acc = partial t K k []" "map_ok acc"
  shows "\<exists>u. copy_children add all t k acc = Inr u \<and> cell u = partial t (insert k K) k [] \<and> map_ok u"
proof (cases "cell t k")
  case None
  have "partial t K k [] n = partial t (insert k K) k [] n" for n
    using None copyableD(5)[OF T, of n] by (cases "cell t n") (fastforce simp: partial_def split: option.splits)+
  then show ?thesis using None acc by (auto simp: copy_children_def fun_eq_iff)
next
  case (Some v)
  have "\<exists>u. res_fold (copy_child add all t k) ds acc = Inr u \<and> cell u = partial t K k (cs @ ds) \<and> map_ok u"
    if "Tc_children v = cs @ ds" "cell acc = partial t K k cs" "map_ok acc" for cs ds acc
    using that
  proof (induction ds arbitrary: cs acc)
    case (Cons n ds)
    obtain u where "copy_child add all t k n acc = Inr u" "cell u = partial t K k (cs @ [n])" "map_ok u"
      using copy_child_ok[OF T add Some k Cons.prems(1-3)] by blast
    with Cons.IH[of "cs @ [n]" u] Cons.prems(1) show ?case by auto
  qed simp
  from this[of "[]" "Tc_children v", OF _ acc] obtain u where u: "copy_children add all t k acc = Inr u"
    "cell u = partial t K k (Tc_children v)" "map_ok u" using Some by (auto simp: copy_children_def)
  have "partial t K k (Tc_children v) n = partial t (insert k K) k [] n" for n
    using Some copyableD(5)[OF T, of n] by (cases "cell t n") (fastforce simp: partial_def split: option.splits)+
  then show ?thesis using u by (auto simp: fun_eq_iff)
qed

lemma partial_next: "partial t K k [] = partial t K k' []"
proof
  fix n
  show "partial t K k [] n = partial t K k' [] n" by (cases "cell t n") (simp_all add: partial_def cong: option.case_cong)
qed

lemma copied:
  assumes "names_ok all" "new_node_ok new" "add_child_ok add" "range_order rng" "copyable all t"
  shows "\<exists>u. copy_tree new add rng all t = Inr u \<and> cell u = cell t \<and> map_ok u"
proof -
  let ?ns = "rng (map_keys t)"
  have keys: "cell t n = None" if "n \<notin> set ?ns" for n
    using that range_order_set[OF assms(4), of "map_keys t"] cell_keys[of t n] by blast
  have dist: "distinct ?ns"
    using assms(4,5) by (simp add: copyable_def map_ok_def map_keys_def range_order_distinct)
  obtain u where u: "res_fold (copy_node new all t) ?ns [] = Inr u" "map_ok u"
    "\<And>k. cell u k = (if k \<in> set ?ns then map_option (\<lambda>c. c\<lparr>Tc_children := [], Tc_parent := None\<rparr>) (cell t k) else None)"
    using copy_nodes_ok[where t = t and acc = "[]" and ns = ?ns, OF assms(1,2) copyableD(1)[OF assms(5)]] by auto
  have "cell u n = partial t {} [] [] n" for n
    using u(3)[of n] keys[of n] by (cases "cell t n") (auto simp: partial_def split: option.splits)
  then have start: "cell u = partial t {} [] []" by blast
  have "\<exists>w. res_fold (copy_children add all t) ns u = Inr w \<and> cell w = partial t (K \<union> set ns) [] [] \<and> map_ok w"
    if "distinct ns" "K \<inter> set ns = {}" "cell u = partial t K [] []" "map_ok u" for ns K u
    using that
  proof (induction ns arbitrary: K u)
    case (Cons n ns)
    have "cell u = partial t K n []" using Cons.prems(3) partial_next by metis
    then obtain w where w: "copy_children add all t n u = Inr w" "cell w = partial t (insert n K) n []" "map_ok w"
      using copy_children_ok[OF assms(5,3), of n K u] Cons.prems by auto
    have "cell w = partial t (insert n K) [] []" using w(2) partial_next by metis
    with Cons.IH[of "insert n K" w] Cons.prems w(1,3) show ?case by auto
  qed simp
  from this[OF dist _ start u(2)] obtain w where w: "res_fold (copy_children add all t) ?ns u = Inr w"
    "cell w = partial t (set ?ns) [] []" "map_ok w" by auto
  have "partial t (set ?ns) [] [] n = cell t n" for n
    using keys copyableD(5)[OF assms(5), of n] by (cases "cell t n") (fastforce simp: partial_def split: option.splits)+
  then show ?thesis using u(1) w by (auto simp: copy_tree_def)
qed

text \<open>The copies that \<open>CreateOnetRings\<close> makes of a tree are faithful: copying the tree of a
  search, in whatever order, gives for every name the same node, with the same children in the
  same order and the same parent.\<close>

theorem copy_tree_same:
  assumes "names_ok all" "new_node_ok new" "add_child_ok add" "range_order rng" "copyable all t"
  shows "\<exists>u. copy_tree new add rng all t = Inr u \<and> cell u = cell t"
  using copied[OF assms] by blast

definition plain_node :: new_node where
  "plain_node i sid = \<lparr>Tc_index = i, Tc_identity = sid, Tc_children = [], Tc_parent = None\<rparr>"

definition plain_add :: add_child where
  "plain_add p k t = (case (cell t p, cell t k) of
     (Some pc, Some kc) \<Rightarrow> map_set (map_set t k (Some (kc\<lparr>Tc_parent := Some p\<rparr>))) p (Some (pc\<lparr>Tc_children := Tc_children pc @ [k]\<rparr>))
   | _ \<Rightarrow> t)"

lemma plain_ok: "new_node_ok plain_node" "add_child_ok plain_add"
  by (simp_all add: new_node_ok_def plain_node_def add_child_ok_def plain_add_def)

lemma duo_names_ok: "names_ok duo_nodes"
  using duo_args_ok by (simp add: args_ok_def duo_args_def)

lemma duo_copyable: "copyable duo_nodes duo_cells"
proof -
  have "identity_name duo_nodes \<lparr>Tc_index = int i, Tc_identity = NodeIdentity (duo_node i), Tc_children = ns, Tc_parent = p\<rparr>
      = Inr (if i = 0 then ''node_0'' else ''node_1'')" if "i < 2" for i ns p
    using that by (auto simp: identity_name_def duo_node_def GetServerIdentityToName_def duo_nodes_def map_get_def)
  from this[of 0] this[of 1] have "cell_ok duo_nodes k c" if "cell duo_cells k = Some c" for k c
    using that duo_name_ints duo_nodes_made
    by (auto simp: duo_cells_def map_get_def cell_ok_def names_def duo_nodes_def duo_node_def split: if_splits)
  then show ?thesis
    unfolding copyable_def by (auto simp: duo_cells_def map_ok_def map_get_def split: if_splits)
qed

theorem copy_tree_same_witness:
  "\<exists>u. copy_tree plain_node plain_add rev duo_nodes duo_cells = Inr u \<and> cell u ''node_1'' = cell duo_cells ''node_1''"
  using copy_tree_same[OF duo_names_ok plain_ok range_order_rev duo_copyable] by (auto simp: fun_eq_iff)

end
