(* ===== verification/Graph_Trees.thy ===== *)
theory Graph_Trees
  imports Ring_Build Locality_Graph
begin

text \<open>
  Graphs as trees with cycles (gentree.go): \<open>CreateAndSetChildren\<close> hangs the neighbours of a node
  below it, \<open>buildRootedLocalityGraph\<close> and \<open>CreateOnetLPTree\<close> do so for the nodes found from a
  root, and \<open>dfsBuildGraph\<close> reads the links back into a map of neighbours. A pointer to a tree
  node is the string of its identity, the key under which \<open>nodesInTree\<close> holds it.
\<close>

subsection \<open>Nodes and children\<close>

text \<open>\<open>onet.NewTreeNode\<close>, and the choices of the runtime: the orders of the \<open>range\<close> loops, and which of
  the keys that are added to a map while it is ranged over are met.\<close>

record graph_params =
  Gp_NewTreeNode :: new_node
  Gp_names :: "nat \<Rightarrow> nat \<Rightarrow> string list \<Rightarrow> string list"
  Gp_late :: "nat \<Rightarrow> string \<Rightarrow> bool"
  Gp_ptrs :: "nat \<Rightarrow> nat \<Rightarrow> nat \<Rightarrow> node_ptr option list \<Rightarrow> node_ptr option list"

text \<open>The tree nodes by their pointers, and \<open>parents\<close>.\<close>

record graph_state =
  Gs_nodes :: "(string, tree_cell) gomap"
  Gs_parents :: "(string, string list) gomap"

definition identity_key :: "LocalityNodes \<Rightarrow> string \<Rightarrow> string result" where
  "identity_key all name =
     res_bind (NameToServerIdentity all name) (\<lambda>sid.
       case sid of None \<Rightarrow> Inl NilDereference | Some s \<Rightarrow> Inr (SI_String s))"

text \<open>A new tree node, with its pointer.\<close>

definition new_tree_node :: "new_node \<Rightarrow> LocalityNodes \<Rightarrow> string \<Rightarrow> (string \<times> tree_cell) result" where
  "new_tree_node new all name =
     res_bind (NameToServerIdentity all name) (\<lambda>sid.
     res_bind (NodeNameToInt name) (\<lambda>i.
       case Tc_identity (new i sid) of None \<Rightarrow> Inl NilDereference | Some s \<Rightarrow> Inr (SI_String s, new i sid)))"

definition neighbor_node :: "new_node \<Rightarrow> LocalityNodes \<Rightarrow> string \<Rightarrow> string \<Rightarrow> graph_state \<Rightarrow> (string \<times> graph_state) result" where
  "neighbor_node new all treeNode name st =
     res_bind (identity_key all name) (\<lambda>k.
       case map_of (Gs_nodes st) k of
         Some _ \<Rightarrow> Inr (k, st)
       | None \<Rightarrow> res_bind (new_tree_node new all name) (\<lambda>(k', c).
           Inr (k', st\<lparr>Gs_nodes := map_set (Gs_nodes st) k' (c\<lparr>Tc_parent := Some treeNode\<rparr>)\<rparr>)))"

definition roster_index :: "graph_state \<Rightarrow> string \<Rightarrow> int option" where
  "roster_index st k = map_option Tc_index (map_of (Gs_nodes st) k)"

definition children_of :: "graph_state \<Rightarrow> string \<Rightarrow> string list" where
  "children_of st k = (case map_of (Gs_nodes st) k of None \<Rightarrow> [] | Some c \<Rightarrow> Tc_children c)"

text \<open>A child is added unless there is one with its roster index.\<close>

definition append_child :: "string \<Rightarrow> string \<Rightarrow> graph_state \<Rightarrow> graph_state result" where
  "append_child treeNode k st =
     (case map_of (Gs_nodes st) treeNode of
        None \<Rightarrow> Inl NilDereference
      | Some c \<Rightarrow>
          Inr (if \<exists>x \<in> set (Tc_children c). roster_index st x = roster_index st k then st
               else st\<lparr>Gs_nodes := map_set (Gs_nodes st) treeNode (c\<lparr>Tc_children := Tc_children c @ [k]\<rparr>)\<rparr>))"

text \<open>The iterations of the two loops of \<open>CreateAndSetChildren\<close>.\<close>

definition cluster_child ::
  "new_node \<Rightarrow> bool \<Rightarrow> (string, bool) gomap \<Rightarrow> LocalityNodes \<Rightarrow> string \<Rightarrow> (string, bool) gomap \<Rightarrow> string \<Rightarrow> graph_state \<Rightarrow> graph_state result" where
  "cluster_child new rings AllowedNodes all treeNode cluster name st =
     (if rings \<and> \<not> has AllowedNodes name \<or> \<not> has cluster name then Inr st
      else res_bind (neighbor_node new all treeNode name st) (\<lambda>(k, st1). append_child treeNode k st1))"

definition bunch_child ::
  "new_node \<Rightarrow> bool \<Rightarrow> (string, bool) gomap \<Rightarrow> LocalityNodes \<Rightarrow> string \<Rightarrow> (string, bool) gomap \<Rightarrow> string \<Rightarrow> graph_state \<Rightarrow> graph_state result" where
  "bunch_child new rings AllowedNodes all treeNode bunch name st =
     (if rings \<and> \<not> has AllowedNodes name \<or> \<not> has bunch name then Inr st
      else res_bind (neighbor_node new all treeNode name st) (\<lambda>(k, st1).
        append_child treeNode k
          (st1\<lparr>Gs_parents := map_set (Gs_parents st1) treeNode (map_get [] (Gs_parents st1) treeNode @ [k])\<rparr>)))"

text \<open>The call with number \<open>n\<close>.\<close>

definition CreateAndSetChildren ::
  "graph_params \<Rightarrow> nat \<Rightarrow> bool \<Rightarrow> (string, bool) gomap \<Rightarrow> LocalityNodes \<Rightarrow> string \<Rightarrow> graph_state \<Rightarrow> graph_state result" where
  "CreateAndSetChildren P n rings AllowedNodes all treeNode st =
     (case map_of (Gs_nodes st) treeNode of
        None \<Rightarrow> Inl NilDereference
      | Some c \<Rightarrow>
          res_bind (slice_get (All_nodes all) (Tc_index c)) (\<lambda>node.
          res_bind (res_fold (cluster_child (Gp_NewTreeNode P) rings AllowedNodes all treeNode (OptimalCluster node))
            (Gp_names P n 0 (map_keys (OptimalCluster node))) st) (\<lambda>st1.
          res_fold (bunch_child (Gp_NewTreeNode P) rings AllowedNodes all treeNode (OptimalBunch node))
            (Gp_names P n 1 (map_keys (OptimalBunch node))) st1)))"

subsection \<open>The graph from a root\<close>

text \<open>\<open>nrProcessedNodes\<close>, the nodes, and \<open>nextLevelNodesAux\<close>.\<close>

type_synonym growth = "nat \<times> graph_state \<times> (string, bool) gomap"

definition process_node :: "graph_params \<Rightarrow> bool \<Rightarrow> (string, bool) gomap \<Rightarrow> LocalityNodes \<Rightarrow> string \<Rightarrow> growth \<Rightarrow> growth result" where
  "process_node P rings AllowedNodes all k g =
     (case g of (n, st, nextLevel) \<Rightarrow>
        res_bind (CreateAndSetChildren P n rings AllowedNodes all k st) (\<lambda>st1.
          Inr (Suc n, st1, fold (\<lambda>c m. map_set m c True) (children_of st1 k) nextLevel)))"

text \<open>The loop over \<open>nextLevelNodes\<close>, which is the map \<open>nextLevelNodesAux\<close> it adds to: \<open>ks\<close> are the keys
  it is still to meet.\<close>

fun level_range ::
  "graph_params \<Rightarrow> bool \<Rightarrow> (string, bool) gomap \<Rightarrow> LocalityNodes \<Rightarrow> nat \<Rightarrow> string list \<Rightarrow> growth \<Rightarrow> growth option result" where
  "level_range P rings AllowedNodes all fuel [] g = Inr (Some g)"
| "level_range P rings AllowedNodes all 0 (k # ks) g = Inr None"
| "level_range P rings AllowedNodes all (Suc fuel) (k # ks) g =
     res_bind (process_node P rings AllowedNodes all k g) (\<lambda>g1.
       level_range P rings AllowedNodes all fuel
         (Gp_names P (fst g1) 2 (ks @ filter (\<lambda>c. \<not> has (snd (snd g)) c \<and> Gp_late P (fst g1) c) (map_keys (snd (snd g1))))) g1)"

fun level_loop ::
  "graph_params \<Rightarrow> bool \<Rightarrow> (string, bool) gomap \<Rightarrow> LocalityNodes \<Rightarrow> nat \<Rightarrow> nat \<Rightarrow> string \<Rightarrow> growth \<Rightarrow> graph_state option result" where
  "level_loop P rings AllowedNodes all m 0 rootNode g = Inr None"
| "level_loop P rings AllowedNodes all m (Suc fuel) rootNode (n, st, nextLevel) =
     (if n \<le> nr_nodes all \<and> children_of st rootNode \<noteq> []
      then res_bind (level_range P rings AllowedNodes all m (Gp_names P n 3 (map_keys nextLevel)) (n, st, nextLevel)) (\<lambda>r.
        case r of None \<Rightarrow> Inr None | Some g \<Rightarrow> level_loop P rings AllowedNodes all m fuel rootNode g)
      else Inr (Some st))"

text \<open>What \<open>buildRootedLocalityGraph\<close> and \<open>CreateOnetLPTree\<close> have in common: the root, its children, and
  then the levels.\<close>

definition grow_graph ::
  "graph_params \<Rightarrow> bool \<Rightarrow> (string, bool) gomap \<Rightarrow> LocalityNodes \<Rightarrow> string \<Rightarrow> nat \<Rightarrow> (string \<times> graph_state) option result" where
  "grow_graph P rings AllowedNodes all rootName fuel =
     res_bind (new_tree_node (Gp_NewTreeNode P) all rootName) (\<lambda>(rootNode, c).
     res_bind (CreateAndSetChildren P 0 rings AllowedNodes all rootNode \<lparr>Gs_nodes = [(rootNode, c)], Gs_parents = []\<rparr>) (\<lambda>st.
     res_bind (res_fold (process_node P rings AllowedNodes all) (children_of st rootNode) (1, st, [])) (\<lambda>g.
     res_bind (level_loop P rings AllowedNodes all fuel fuel rootNode g) (\<lambda>r.
       Inr (map_option (Pair rootNode) r)))))"

subsection \<open>What a call adds\<close>

abbreviation key :: "LocalityNodes \<Rightarrow> string \<Rightarrow> string" where
  "key all a \<equiv> SI_String (identity_of all a)"

definition node_of :: "LocalityNodes \<Rightarrow> string \<Rightarrow> LocalityNode" where
  "node_of all a = node_at all (the (projr (GetByName all a)))"

text \<open>The neighbours of a node that become its children.\<close>

definition tree_links :: "bool \<Rightarrow> (string, bool) gomap \<Rightarrow> LocalityNodes \<Rightarrow> string \<Rightarrow> string set" where
  "tree_links rings A all a =
     {b. (has (OptimalCluster (node_of all a)) b \<or> has (OptimalBunch (node_of all a)) b) \<and> (rings \<longrightarrow> has A b)}"

definition graph_ok :: "graph_params \<Rightarrow> LocalityNodes \<Rightarrow> bool" where
  "graph_ok P all \<longleftrightarrow> names_ok all \<and> inj_on (key all) (names all) \<and> new_node_ok (Gp_NewTreeNode P)
     \<and> (\<forall>n c. range_order (Gp_names P n c))
     \<and> (\<forall>v \<in> set (All_nodes all). key_set (names all) (OptimalCluster v) \<and> key_set (names all) (OptimalBunch v))"

lemma graph_okD:
  assumes "graph_ok P all"
  shows "names_ok all" "inj_on (key all) (names all)" "new_node_ok (Gp_NewTreeNode P)" "range_order (Gp_names P n c)"
    "v \<in> set (All_nodes all) \<Longrightarrow> key_set (names all) (OptimalCluster v)" "v \<in> set (All_nodes all) \<Longrightarrow> key_set (names all) (OptimalBunch v)"
  using assms by (simp_all add: graph_ok_def)

lemma name_facts:
  assumes "names_ok all" "a \<in> names all"
  obtains p where "p < nr_nodes all" "Name (node_at all p) = a" "NodeNameToInt a = Inr (int p)" "node_of all a = node_at all p"
    "NameToServerIdentity all a = Inr (Some (identity_of all a))" "GetServerIdentityToName all (identity_of all a) = a"
proof -
  obtain p where "p < nr_nodes all" "Name (node_at all p) = a" "GetByName all a = Inr (Some p)" "NodeNameToInt a = Inr (int p)"
    using names_cases[OF assms] by metis
  then show thesis using that identity_of_ok[OF assms] by (simp add: node_of_def)
qed

definition index_of :: "string \<Rightarrow> int" where
  "index_of a = projr (NodeNameToInt a)"

lemma index_of_inj: "names_ok all \<Longrightarrow> inj_on index_of (names all)"
  by (rule inj_onI) (metis index_of_def name_facts of_nat_eq_iff sum.sel(2))

lemma links_names:
  assumes "graph_ok P all" "a \<in> names all"
  shows "tree_links rings A all a \<subseteq> names all"
proof
  fix b assume b: "b \<in> tree_links rings A all a"
  obtain p where "p < nr_nodes all" "node_of all a = node_at all p" using name_facts[OF graph_okD(1)[OF assms(1)] assms(2)] by metis
  then have "key_set (names all) (OptimalCluster (node_of all a))" "key_set (names all) (OptimalBunch (node_of all a))"
    using graph_okD(5,6)[OF assms(1)] by simp_all
  then show "b \<in> names all" using b by (auto simp: tree_links_def has_iff key_set_def dest!: map_of_SomeD)
qed

text \<open>A tree node has the index and the identity of its name, and children that are neighbours.\<close>

definition graph_cell :: "bool \<Rightarrow> (string, bool) gomap \<Rightarrow> LocalityNodes \<Rightarrow> graph_state \<Rightarrow> string \<Rightarrow> tree_cell \<Rightarrow> bool" where
  "graph_cell rings A all st a c \<longleftrightarrow> Tc_index c = index_of a \<and> Tc_identity c = Some (identity_of all a) \<and> distinct (Tc_children c)
     \<and> set (Tc_children c) \<subseteq> key all ` tree_links rings A all a \<and> set (Tc_children c) \<subseteq> dom (map_of (Gs_nodes st))"

definition graph_inv :: "bool \<Rightarrow> (string, bool) gomap \<Rightarrow> LocalityNodes \<Rightarrow> graph_state \<Rightarrow> bool" where
  "graph_inv rings A all st \<longleftrightarrow> map_ok (Gs_nodes st)
     \<and> (\<forall>k c. map_of (Gs_nodes st) k = Some c \<longrightarrow> (\<exists>a \<in> names all. k = key all a \<and> graph_cell rings A all st a c))"

lemma graph_invD:
  assumes "graph_inv rings A all st" "graph_ok P all" "a \<in> names all" "map_of (Gs_nodes st) (key all a) = Some c"
  shows "graph_cell rings A all st a c"
proof -
  obtain b where "b \<in> names all" "key all a = key all b" "graph_cell rings A all st b c" using assms(1,4) unfolding graph_inv_def by blast
  then show ?thesis using graph_okD(2)[OF assms(2)] assms(3) by (metis inj_onD)
qed

definition linked_up :: "bool \<Rightarrow> (string, bool) gomap \<Rightarrow> LocalityNodes \<Rightarrow> string \<Rightarrow> string set \<Rightarrow> graph_state \<Rightarrow> graph_state \<Rightarrow> bool" where
  "linked_up rings A all a B st st' \<longleftrightarrow> graph_inv rings A all st' \<and> dom (map_of (Gs_nodes st')) = dom (map_of (Gs_nodes st)) \<union> key all ` B
     \<and> set (children_of st' (key all a)) = set (children_of st (key all a)) \<union> key all ` B
     \<and> (\<forall>k. k \<noteq> key all a \<longrightarrow> children_of st' k = children_of st k)"

lemma linked_up_refl: "graph_inv rings A all st \<Longrightarrow> linked_up rings A all a {} st st"
  by (simp add: linked_up_def)

lemma linked_up_trans:
  "linked_up rings A all a B st st1 \<Longrightarrow> linked_up rings A all a C st1 st2 \<Longrightarrow> linked_up rings A all a (B \<union> C) st st2"
  by (auto simp: linked_up_def)

lemma new_tree_node_ok:
  assumes "graph_ok P all" "b \<in> names all"
  shows "\<exists>c. new_tree_node (Gp_NewTreeNode P) all b = Inr (key all b, c) \<and> Tc_index c = index_of b \<and> Tc_identity c = Some (identity_of all b)
    \<and> Tc_children c = [] \<and> Tc_parent c = None"
proof -
  obtain p where "NodeNameToInt b = Inr (int p)" "NameToServerIdentity all b = Inr (Some (identity_of all b))"
    using name_facts[OF graph_okD(1)[OF assms(1)] assms(2)] by metis
  then show ?thesis using graph_okD(3)[OF assms(1)] by (simp add: new_tree_node_def new_node_ok_def index_of_def)
qed

lemma parents_irrelevant [simp]:
  "graph_inv rings A all (st\<lparr>Gs_parents := x\<rparr>) = graph_inv rings A all st" "children_of (st\<lparr>Gs_parents := x\<rparr>) = children_of st"
  by (simp_all add: graph_inv_def graph_cell_def children_of_def fun_eq_iff)

lemma graph_inv_set:
  assumes "graph_inv rings A all st" "a \<in> names all"
    and "graph_cell rings A all (st\<lparr>Gs_nodes := map_set (Gs_nodes st) (key all a) c\<rparr>) a c"
  shows "graph_inv rings A all (st\<lparr>Gs_nodes := map_set (Gs_nodes st) (key all a) c\<rparr>)"
proof -
  let ?st = "st\<lparr>Gs_nodes := map_set (Gs_nodes st) (key all a) c\<rparr>"
  have old: "graph_cell rings A all st x d \<Longrightarrow> graph_cell rings A all ?st x d" for x d
    by (auto simp: graph_cell_def gomap.lookup_update)
  have "\<exists>x \<in> names all. k = key all x \<and> graph_cell rings A all ?st x d" if "map_of (Gs_nodes ?st) k = Some d" for k d
  proof (cases "k = key all a")
    case False
    then have "map_of (Gs_nodes st) k = Some d" using that by (simp add: gomap.lookup_update)
    then show ?thesis using assms(1) old unfolding graph_inv_def by blast
  qed (use that assms(2,3) in \<open>auto simp: gomap.lookup_update\<close>)
  then show ?thesis using assms(1) by (simp add: graph_inv_def)
qed

lemma neighbor_node_ok:
  assumes G: "graph_ok P all" and I: "graph_inv rings A all st" and b: "b \<in> names all"
  shows "\<exists>st1. neighbor_node (Gp_NewTreeNode P) all t b st = Inr (key all b, st1) \<and> linked_up rings A all b {} st1 st1
    \<and> dom (map_of (Gs_nodes st1)) = insert (key all b) (dom (map_of (Gs_nodes st))) \<and> children_of st1 = children_of st"
proof -
  have k: "identity_key all b = Inr (key all b)" using identity_of_ok[OF graph_okD(1)[OF G] b] by (simp add: identity_key_def)
  show ?thesis
  proof (cases "map_of (Gs_nodes st) (key all b)")
    case None
    obtain c where c: "new_tree_node (Gp_NewTreeNode P) all b = Inr (key all b, c)" "Tc_index c = index_of b"
      "Tc_identity c = Some (identity_of all b)" "Tc_children c = []" using new_tree_node_ok[OF G b] by blast
    let ?st = "st\<lparr>Gs_nodes := map_set (Gs_nodes st) (key all b) (c\<lparr>Tc_parent := Some t\<rparr>)\<rparr>"
    have new: "graph_cell rings A all ?st b (c\<lparr>Tc_parent := Some t\<rparr>)" using c by (simp add: graph_cell_def)
    note inv = graph_inv_set[OF I b new]
    have "children_of ?st = children_of st" using None c(4) by (auto simp: children_of_def gomap.lookup_update fun_eq_iff)
    then show ?thesis using inv None k c(1) by (simp add: neighbor_node_def linked_up_refl gomap.lookup_update)
  qed (use k I in \<open>auto simp: neighbor_node_def linked_up_refl\<close>)
qed

lemma roster_index_inv:
  assumes "graph_ok P all" "graph_inv rings A all st" "a \<in> names all" "key all a \<in> dom (map_of (Gs_nodes st))"
  shows "roster_index st (key all a) = Some (index_of a)"
  using graph_invD[OF assms(2,1,3)] assms(4) by (auto simp: roster_index_def graph_cell_def)

lemma append_child_ok:
  assumes G: "graph_ok P all" and I: "graph_inv rings A all st" and a: "a \<in> names all" "key all a \<in> dom (map_of (Gs_nodes st))"
    and b: "b \<in> tree_links rings A all a" "key all b \<in> dom (map_of (Gs_nodes st))"
  shows "\<exists>st'. append_child (key all a) (key all b) st = Inr st' \<and> linked_up rings A all a {b} st st'"
proof -
  obtain c where c: "map_of (Gs_nodes st) (key all a) = Some c" using a(2) by blast
  note C = graph_invD[OF I G a(1) c] and bn = subsetD[OF links_names[OF G a(1)] b(1)]
  have idx: "roster_index st x = roster_index st (key all b) \<longleftrightarrow> x = key all b" if "x \<in> set (Tc_children c)" for x
  proof -
    have "x \<in> key all ` tree_links rings A all a" and d: "x \<in> dom (map_of (Gs_nodes st))" using that C unfolding graph_cell_def by blast+
    then obtain y where y: "y \<in> names all" "x = key all y" using links_names[OF G a(1), of rings A] by blast
    have "roster_index st x = Some (index_of y)" "roster_index st (key all b) = Some (index_of b)"
      using roster_index_inv[OF G I y(1)] roster_index_inv[OF G I bn b(2)] y d by simp_all
    then show ?thesis using index_of_inj[OF graph_okD(1)[OF G]] y(1,2) bn by (auto dest: inj_onD)
  qed
  show ?thesis
  proof (cases "key all b \<in> set (Tc_children c)")
    case True
    have "children_of st (key all a) = Tc_children c" by (simp add: children_of_def c)
    then have "linked_up rings A all a {b} st st" using I True b(2) by (simp add: linked_up_def insert_absorb)
    then show ?thesis using True c by (auto simp: append_child_def)
  next
    case False
    let ?c = "c\<lparr>Tc_children := Tc_children c @ [key all b]\<rparr>"
    let ?st = "st\<lparr>Gs_nodes := map_set (Gs_nodes st) (key all a) ?c\<rparr>"
    have dom: "dom (map_of (Gs_nodes ?st)) = dom (map_of (Gs_nodes st))" using a(2) by (auto simp: gomap.lookup_update)
    have "graph_cell rings A all ?st a ?c" using C False b dom by (auto simp: graph_cell_def)
    then have "graph_inv rings A all ?st" by (rule graph_inv_set[OF I a(1)])
    then have "linked_up rings A all a {b} st ?st" using dom b(2) c by (auto simp: linked_up_def children_of_def gomap.lookup_update)
    then show ?thesis using False c idx by (auto simp: append_child_def)
  qed
qed

lemma child_ok:
  assumes G: "graph_ok P all" and I: "graph_inv rings A all st" and a: "a \<in> names all" "key all a \<in> dom (map_of (Gs_nodes st))"
    and v: "v = node_of all a"
  shows "\<exists>st'. cluster_child (Gp_NewTreeNode P) rings A all (key all a) (OptimalCluster v) b st = Inr st'
      \<and> linked_up rings A all a ({b} \<inter> {b. has (OptimalCluster v) b \<and> (rings \<longrightarrow> has A b)}) st st'"
    "\<exists>st'. bunch_child (Gp_NewTreeNode P) rings A all (key all a) (OptimalBunch v) b st = Inr st'
      \<and> linked_up rings A all a ({b} \<inter> {b. has (OptimalBunch v) b \<and> (rings \<longrightarrow> has A b)}) st st'"
proof -
  have link: "\<exists>st1 st'. neighbor_node (Gp_NewTreeNode P) all (key all a) b st = Inr (key all b, st1)
      \<and> append_child (key all a) (key all b) (st1\<lparr>Gs_parents := x st1\<rparr>) = Inr st' \<and> linked_up rings A all a {b} st st'"
    if b: "b \<in> tree_links rings A all a" for x
  proof -
    obtain st1 where s: "neighbor_node (Gp_NewTreeNode P) all (key all a) b st = Inr (key all b, st1)" "graph_inv rings A all st1"
      "dom (map_of (Gs_nodes st1)) = insert (key all b) (dom (map_of (Gs_nodes st)))" "children_of st1 = children_of st"
      using neighbor_node_ok[OF G I subsetD[OF links_names[OF G a(1)] b], of "key all a"] by (auto simp: linked_up_def)
    obtain st' where "append_child (key all a) (key all b) (st1\<lparr>Gs_parents := x st1\<rparr>) = Inr st'" "linked_up rings A all a {b} (st1\<lparr>Gs_parents := x st1\<rparr>) st'"
      using append_child_ok[OF G, of rings A "st1\<lparr>Gs_parents := x st1\<rparr>" a b] a b s by auto
    then show ?thesis using s by (auto simp: linked_up_def)
  qed
  have same: "st1\<lparr>Gs_parents := Gs_parents st1\<rparr> = st1" for st1 :: graph_state by simp
  show "\<exists>st'. cluster_child (Gp_NewTreeNode P) rings A all (key all a) (OptimalCluster v) b st = Inr st'
      \<and> linked_up rings A all a ({b} \<inter> {b. has (OptimalCluster v) b \<and> (rings \<longrightarrow> has A b)}) st st'"
  proof (cases "has (OptimalCluster v) b \<and> (rings \<longrightarrow> has A b)")
    case True
    then have "b \<in> tree_links rings A all a" using v by (simp add: tree_links_def)
    from link[OF this, of Gs_parents] show ?thesis using True unfolding same by (auto simp: cluster_child_def)
  qed (use linked_up_refl[OF I] in \<open>auto simp: cluster_child_def\<close>)
  show "\<exists>st'. bunch_child (Gp_NewTreeNode P) rings A all (key all a) (OptimalBunch v) b st = Inr st'
      \<and> linked_up rings A all a ({b} \<inter> {b. has (OptimalBunch v) b \<and> (rings \<longrightarrow> has A b)}) st st'"
  proof (cases "has (OptimalBunch v) b \<and> (rings \<longrightarrow> has A b)")
    case True
    then have "b \<in> tree_links rings A all a" using v by (simp add: tree_links_def)
    from link[OF this, of "\<lambda>st1. map_set (Gs_parents st1) (key all a) (map_get [] (Gs_parents st1) (key all a) @ [key all b])"]
    show ?thesis using True by (auto simp: bunch_child_def)
  qed (use linked_up_refl[OF I] in \<open>auto simp: bunch_child_def\<close>)
qed

text \<open>A loop of such iterations.\<close>

lemma linked_up_fold:
  assumes "graph_inv rings A all st" "key all a \<in> dom (map_of (Gs_nodes st))"
    and "\<And>b st. graph_inv rings A all st \<Longrightarrow> key all a \<in> dom (map_of (Gs_nodes st)) \<Longrightarrow>
      \<exists>st'. f b st = Inr st' \<and> linked_up rings A all a ({b} \<inter> L) st st'"
  shows "\<exists>st'. res_fold f bs st = Inr st' \<and> linked_up rings A all a (set bs \<inter> L) st st'"
  using assms(1,2)
proof (induction bs arbitrary: st)
  case (Cons b bs)
  obtain st1 where s1: "f b st = Inr st1" "linked_up rings A all a ({b} \<inter> L) st st1" using assms(3)[OF Cons.prems] by blast
  then have "graph_inv rings A all st1" "key all a \<in> dom (map_of (Gs_nodes st1))" using Cons.prems(2) by (auto simp: linked_up_def)
  from Cons.IH[OF this] obtain st2 where s2: "res_fold f bs st1 = Inr st2" "linked_up rings A all a (set bs \<inter> L) st1 st2" by blast
  have "{b} \<inter> L \<union> set bs \<inter> L = set (b # bs) \<inter> L" by auto
  then show ?case using s1 s2 linked_up_trans[OF s1(2) s2(2)] by simp
qed (simp add: linked_up_refl)

lemma CreateAndSetChildren_ok:
  assumes G: "graph_ok P all" and I: "graph_inv rings A all st" and a: "a \<in> names all" "key all a \<in> dom (map_of (Gs_nodes st))"
  shows "\<exists>st'. CreateAndSetChildren P n rings A all (key all a) st = Inr st' \<and> linked_up rings A all a (tree_links rings A all a) st st'"
proof -
  obtain p where p: "p < nr_nodes all" "NodeNameToInt a = Inr (int p)" "node_of all a = node_at all p"
    using name_facts[OF graph_okD(1)[OF G] a(1)] by metis
  obtain c where c: "map_of (Gs_nodes st) (key all a) = Some c" using a(2) by blast
  have idx: "Tc_index c = int p" using graph_invD[OF I G a(1) c] p(2) by (simp add: graph_cell_def index_of_def)
  let ?v = "node_at all p" and ?new = "Gp_NewTreeNode P"
  note child = child_ok[OF G _ a(1) _ p(3)[symmetric]]
  obtain st1 where s1: "res_fold (cluster_child ?new rings A all (key all a) (OptimalCluster ?v)) (Gp_names P n 0 (map_keys (OptimalCluster ?v))) st = Inr st1"
      "linked_up rings A all a (set (Gp_names P n 0 (map_keys (OptimalCluster ?v))) \<inter> {b. has (OptimalCluster ?v) b \<and> (rings \<longrightarrow> has A b)}) st st1"
    using linked_up_fold[OF I a(2) child(1)] by blast
  then have i1: "graph_inv rings A all st1" "key all a \<in> dom (map_of (Gs_nodes st1))" using a(2) by (auto simp: linked_up_def)
  obtain st2 where s2: "res_fold (bunch_child ?new rings A all (key all a) (OptimalBunch ?v)) (Gp_names P n 1 (map_keys (OptimalBunch ?v))) st1 = Inr st2"
      "linked_up rings A all a (set (Gp_names P n 1 (map_keys (OptimalBunch ?v))) \<inter> {b. has (OptimalBunch ?v) b \<and> (rings \<longrightarrow> has A b)}) st1 st2"
    using linked_up_fold[OF i1 child(2)] by blast
  have "has m b \<Longrightarrow> b \<in> set (map_keys m)" for m :: "(string, bool) gomap" and b by (auto simp: gomap.keys_dom has_iff)
  then have "set (Gp_names P n 0 (map_keys (OptimalCluster ?v))) \<inter> {b. has (OptimalCluster ?v) b \<and> (rings \<longrightarrow> has A b)}
      \<union> set (Gp_names P n 1 (map_keys (OptimalBunch ?v))) \<inter> {b. has (OptimalBunch ?v) b \<and> (rings \<longrightarrow> has A b)} = tree_links rings A all a"
    by (auto simp: range_order_set[OF graph_okD(4)[OF G]] tree_links_def p(3))
  then show ?thesis using linked_up_trans[OF s1(2) s2(2)] s1(1) s2(1) c idx p(1) by (simp add: CreateAndSetChildren_def)
qed

subsection \<open>The levels\<close>

definition known :: "graph_state \<Rightarrow> string set" where
  "known st = dom (map_of (Gs_nodes st))"

lemmas known_facts = CreateAndSetChildren_ok[folded known_def] linked_up_def[folded known_def]

definition has_all :: "bool \<Rightarrow> (string, bool) gomap \<Rightarrow> LocalityNodes \<Rightarrow> graph_state \<Rightarrow> string \<Rightarrow> bool" where
  "has_all rings A all st a \<longleftrightarrow> key all a \<in> known st \<and> set (children_of st (key all a)) = key all ` tree_links rings A all a"

lemma has_all_linked_up:
  assumes "graph_ok P all" "graph_inv rings A all st" "a \<in> names all" "key all a \<in> known st"
    and "linked_up rings A all a (tree_links rings A all a) st st'"
  shows "has_all rings A all st' a" "has_all rings A all st b \<Longrightarrow> b \<in> names all \<Longrightarrow> has_all rings A all st' b"
proof -
  have "set (children_of st (key all a)) \<subseteq> key all ` tree_links rings A all a"
    using graph_invD[OF assms(2,1,3)] assms(4) by (auto simp: children_of_def graph_cell_def known_def)
  then show a: "has_all rings A all st' a" using assms(4,5) by (auto simp: has_all_def known_facts(2))
  assume b: "has_all rings A all st b" "b \<in> names all"
  show "has_all rings A all st' b"
  proof (cases "b = a")
    case False
    then have "key all b \<noteq> key all a" using graph_okD(2)[OF assms(1)] assms(3) b(2) by (auto dest: inj_onD)
    then show ?thesis using b(1) assms(5) by (auto simp: has_all_def known_facts(2))
  qed (use a in simp)
qed

text \<open>The nodes \<open>D\<close> have been processed; \<open>R\<close> contains what can be reached.\<close>

definition growth_inv :: "bool \<Rightarrow> (string, bool) gomap \<Rightarrow> LocalityNodes \<Rightarrow> string set \<Rightarrow> string set \<Rightarrow> growth \<Rightarrow> bool" where
  "growth_inv rings A all R D g \<longleftrightarrow> (case g of (n, st, nextLevel) \<Rightarrow>
     graph_inv rings A all st \<and> R \<subseteq> names all \<and> (\<forall>a \<in> R. tree_links rings A all a \<subseteq> R) \<and> D \<subseteq> R \<and> known st \<subseteq> key all ` R
     \<and> (\<forall>a \<in> D. has_all rings A all st a) \<and> key_set (known st) nextLevel)"

abbreviation level_keys :: "growth \<Rightarrow> string list" where
  "level_keys g \<equiv> map_keys (snd (snd g))"

lemma key_set_mono: "key_set K m \<Longrightarrow> K \<subseteq> L \<Longrightarrow> key_set L m"
  by (auto simp: key_set_def)

lemma key_set_fold: "key_set K m \<Longrightarrow> set ks \<subseteq> K \<Longrightarrow> key_set K (fold (\<lambda>c m. map_set m c True) ks m)"
  by (induction ks arbitrary: m) (auto intro: key_set_insert)

lemma keys_fold: "set (map_keys (fold (\<lambda>c m. map_set m c True) ks m)) = set (map_keys m) \<union> set ks"
  by (auto simp: gomap.keys_dom gomap.lookup_update_all split: if_splits)

lemma process_node_ok:
  assumes G: "graph_ok P all" and I: "growth_inv rings A all R D g" and a: "a \<in> R" "key all a \<in> known (fst (snd g))"
  shows "\<exists>g'. process_node P rings A all (key all a) g = Inr g' \<and> growth_inv rings A all R (insert a D) g'
    \<and> fst g' = Suc (fst g) \<and> set (level_keys g') = set (level_keys g) \<union> key all ` tree_links rings A all a
    \<and> known (fst (snd g)) \<subseteq> known (fst (snd g'))"
proof -
  obtain n st nextLevel where g: "g = (n, st, nextLevel)" by (cases g)
  note I' = I[unfolded growth_inv_def g prod.case]
  have an: "a \<in> names all" and k: "key all a \<in> known st" using a I' g by auto
  obtain st' where s: "CreateAndSetChildren P n rings A all (key all a) st = Inr st'" "linked_up rings A all a (tree_links rings A all a) st st'"
    using known_facts(1)[OF G _ an k] I' by blast
  note cl = has_all_linked_up[OF G _ an k s(2)]
  let ?l = "fold (\<lambda>c m. map_set m c True) (children_of st' (key all a)) nextLevel"
  have c: "has_all rings A all st' a" using cl(1) I' by blast
  have D: "known st' = known st \<union> key all ` tree_links rings A all a" "graph_inv rings A all st'"
    using s(2) by (auto simp: known_facts(2))
  have "\<forall>b \<in> insert a D. has_all rings A all st' b" using c cl(2) I' by blast
  moreover have "key_set (known st') ?l"
  proof (rule key_set_fold)
    show "key_set (known st') nextLevel" by (rule key_set_mono[of "known st"]) (use I' D(1) in blast)+
    show "set (children_of st' (key all a)) \<subseteq> known st'" using c D(1) by (simp add: has_all_def)
  qed
  moreover have "known st' \<subseteq> key all ` R" using I' D(1) a(1) by blast
  ultimately have "growth_inv rings A all R (insert a D) (Suc n, st', ?l)" using I' D(2) a(1) by (simp add: growth_inv_def)
  then show ?thesis using s(1) g c D(1) by (simp add: process_node_def keys_fold has_all_def)
qed

text \<open>The loop over the children of the root.\<close>

lemma process_all:
  assumes G: "graph_ok P all" and I: "growth_inv rings A all R D g" and ks: "set as \<subseteq> R" "key all ` set as \<subseteq> known (fst (snd g))"
  shows "\<exists>g'. res_fold (process_node P rings A all) (map (key all) as) g = Inr g' \<and> growth_inv rings A all R (D \<union> set as) g'
    \<and> fst g' = fst g + length as \<and> set (level_keys g') = set (level_keys g) \<union> key all ` (\<Union>a \<in> set as. tree_links rings A all a)"
  using I ks
proof (induction as arbitrary: D g)
  case (Cons a as)
  obtain g1 where g1: "process_node P rings A all (key all a) g = Inr g1" "growth_inv rings A all R (insert a D) g1"
    "fst g1 = Suc (fst g)" "set (level_keys g1) = set (level_keys g) \<union> key all ` tree_links rings A all a"
    "known (fst (snd g)) \<subseteq> known (fst (snd g1))"
    using process_node_ok[OF G Cons.prems(1), of a] Cons.prems(2,3) by auto
  have "set as \<subseteq> R" "key all ` set as \<subseteq> known (fst (snd g1))" using Cons.prems(2,3) g1(5) by auto
  from Cons.IH[OF g1(2) this] g1 show ?case by (auto simp: image_Un)
qed simp

lemma range_order_length: "range_order rng \<Longrightarrow> length (rng xs) = length xs"
  by (metis range_order_def size_mset)

lemma level_keysD:
  assumes "growth_inv rings A all R D g" "finite R"
  shows "distinct (level_keys g)" "has (snd (snd g)) k \<longleftrightarrow> k \<in> set (level_keys g)" "set (level_keys g) \<subseteq> known (fst (snd g))"
    "known (fst (snd g)) \<subseteq> key all ` R" "length (level_keys g) \<le> card R"
proof -
  obtain n st l where g: "g = (n, st, l)" by (cases g)
  have K: "key_set (known st) l" "known st \<subseteq> key all ` R" using assms(1) by (simp_all add: growth_inv_def g)
  show d: "distinct (level_keys g)" and "has (snd (snd g)) k \<longleftrightarrow> k \<in> set (level_keys g)"
    using K(1) by (auto simp: g key_set_def map_ok_def map_keys_def has_iff map_of_eq_Some_iff image_iff) force+
  show s: "set (level_keys g) \<subseteq> known (fst (snd g))" "known (fst (snd g)) \<subseteq> key all ` R"
    using K by (auto simp: g key_set_def map_keys_def)
  have "card (set (level_keys g)) \<le> card R" using s assms(2) surj_card_le by (meson order_trans)
  then show "length (level_keys g) \<le> card R" using d distinct_card by metis
qed

text \<open>The keys that come during the loop are bounded by the growth of the map.\<close>

lemma late_keys:
  assumes "distinct xs" "distinct ys" "set xs \<subseteq> set ys"
  shows "length (filter (\<lambda>c. c \<notin> set xs \<and> p c) ys) + length xs \<le> length ys"
proof -
  have "length (filter (\<lambda>c. c \<notin> set xs \<and> p c) ys) = card {c \<in> set ys. c \<notin> set xs \<and> p c}"
    using assms(2) by (metis distinct_card distinct_filter set_filter)
  also have "\<dots> \<le> card (set ys - set xs)" by (intro card_mono) auto
  also have "\<dots> + card (set xs) = card (set ys)" using assms(3) by (metis List.finite_set add.commute card_Diff_subset card_mono le_add_diff_inverse)
  finally show ?thesis using assms(1,2) by (simp add: distinct_card)
qed

lemma level_range_ok:
  assumes "graph_ok P all" "growth_inv rings A all R D g" "finite R" "set ks \<subseteq> set (level_keys g)"
    and "length ks + (card R - length (level_keys g)) \<le> fuel"
  shows "\<exists>g' D'. level_range P rings A all fuel ks g = Inr (Some g') \<and> growth_inv rings A all R D' g' \<and> D \<subseteq> D' \<and> {a \<in> R. key all a \<in> set ks} \<subseteq> D'
    \<and> fst g + length ks \<le> fst g' \<and> set (level_keys g) \<subseteq> set (level_keys g')"
  using assms(2,4,5)
proof (induction fuel arbitrary: ks g D)
  case (Suc fuel)
  show ?case
  proof (cases ks)
    case (Cons k ks')
    note L = level_keysD[OF Suc.prems(1) assms(3)]
    obtain a where a: "a \<in> R" "k = key all a" "k \<in> known (fst (snd g))" using L(3,4) Suc.prems(2) Cons by fastforce
    obtain g1 where g1: "process_node P rings A all k g = Inr g1" "growth_inv rings A all R (insert a D) g1"
      "fst g1 = Suc (fst g)" "set (level_keys g) \<subseteq> set (level_keys g1)"
      using process_node_ok[OF assms(1) Suc.prems(1) a(1)] a(2,3) by auto
    note L1 = level_keysD[OF g1(2) assms(3)]
    let ?new = "filter (\<lambda>c. \<not> has (snd (snd g)) c \<and> Gp_late P (fst g1) c) (level_keys g1)"
    let ?ks = "Gp_names P (fst g1) 2 (ks' @ ?new)"
    have set_ks: "set ?ks = set ks' \<union> set ?new" and len: "length ?ks = length ks' + length ?new"
      using range_order_set[OF graph_okD(4)[OF assms(1)], of "fst g1" 2] range_order_length[OF graph_okD(4)[OF assms(1)], of "fst g1" 2] by simp_all
    have "length ?new + length (level_keys g) \<le> length (level_keys g1)"
      unfolding L(2) by (rule late_keys[OF L(1) L1(1) g1(4)])
    then have b: "length ?ks + (card R - length (level_keys g1)) \<le> fuel" using Suc.prems(3) Cons len L1(5) by simp
    have c: "set ?ks \<subseteq> set (level_keys g1)" using set_ks Suc.prems(2) Cons g1(4) by auto
    from Suc.IH[OF g1(2) c b] obtain g' D' where r: "level_range P rings A all fuel ?ks g1 = Inr (Some g')" "growth_inv rings A all R D' g'" "insert a D \<subseteq> D'"
      "{a \<in> R. key all a \<in> set ?ks} \<subseteq> D'" "fst g1 + length ?ks \<le> fst g'" "set (level_keys g1) \<subseteq> set (level_keys g')"
      by blast
    have "b = a" if "b \<in> R" "key all b = k" for b
      using that a(1,2) graph_okD(2)[OF assms(1)] Suc.prems(1) by (auto simp: growth_inv_def dest: inj_onD)
    then have "{a \<in> R. key all a \<in> set ks} \<subseteq> D'" using r(3,4) set_ks Cons by auto
    then show ?thesis using r g1(1,3,4) Cons len by (intro exI[of _ g'] exI[of _ D']) auto
  qed (use Suc.prems in auto)
qed (use assms(1) in auto)

lemma level_loop_ok:
  assumes G: "graph_ok P all" "finite R" "card R \<le> m" and I: "growth_inv rings A all R D g"
    and f: "Suc (nr_nodes all) < fuel + fst g" "children_of (fst (snd g)) rt \<noteq> [] \<longrightarrow> level_keys g \<noteq> []" "0 < fuel"
  shows "\<exists>st D' n l. level_loop P rings A all m fuel rt g = Inr (Some st) \<and> growth_inv rings A all R D' (n, st, l) \<and> D \<subseteq> D'
    \<and> (fst g \<le> nr_nodes all \<and> children_of (fst (snd g)) rt \<noteq> [] \<longrightarrow> {a \<in> R. key all a \<in> set (level_keys g)} \<subseteq> D')"
  using I f
proof (induction fuel arbitrary: g D)
  case (Suc fuel)
  obtain n st l where g: "g = (n, st, l)" by (cases g)
  show ?case
  proof (cases "n \<le> nr_nodes all \<and> children_of st rt \<noteq> []")
    case True
    let ?ks = "Gp_names P n 3 (map_keys l)"
    have ks: "set ?ks = set (level_keys g)" "length ?ks = length (level_keys g)"
      using range_order_set[OF graph_okD(4)[OF G(1)]] range_order_length[OF graph_okD(4)[OF G(1)]] by (simp_all add: g)
    have "length ?ks + (card R - length (level_keys g)) \<le> m" using ks(2) level_keysD(5)[OF Suc.prems(1) G(2)] G(3) by simp
    from level_range_ok[OF G(1) Suc.prems(1) G(2) equalityD1[OF ks(1)] this] obtain g' D' where r: "level_range P rings A all m ?ks g = Inr (Some g')"
      "growth_inv rings A all R D' g'" "D \<subseteq> D'" "{a \<in> R. key all a \<in> set (level_keys g)} \<subseteq> D'" "n + length ?ks \<le> fst g'" "set (level_keys g) \<subseteq> set (level_keys g')"
      unfolding ks(1) by (auto simp: g)
    have "0 < length ?ks" using Suc.prems(3) True ks(2) by (simp add: g)
    then have "n < fst g'" using r(5) by linarith
    then have "Suc (nr_nodes all) < fuel + fst g'" "0 < fuel" "level_keys g' \<noteq> []" using Suc.prems(2,3) True r(6) by (auto simp: g)
    from Suc.IH[OF r(2) this(1) _ this(2)] this(3) obtain st' D'' n' l' where
      "level_loop P rings A all m fuel rt g' = Inr (Some st')" "growth_inv rings A all R D'' (n', st', l')" "D' \<subseteq> D''" by blast
    then show ?thesis using True r(1,3,4) by (intro exI[of _ st'] exI[of _ D''] exI[of _ n'] exI[of _ l']) (auto simp: g)
  next
    case False
    then show ?thesis using Suc.prems(1) by (intro exI[of _ st] exI[of _ D] exI[of _ n] exI[of _ l]) (auto simp: g)
  qed
qed simp

lemma children_distinct:
  assumes "graph_ok P all" "graph_inv rings A all st" "a \<in> names all"
  shows "distinct (children_of st (key all a))"
  using graph_invD[OF assms(2,1,3)] by (auto simp: children_of_def graph_cell_def split: option.splits)

lemma children_known: "graph_inv rings A all st \<Longrightarrow> set (children_of st k) \<subseteq> known st"
  unfolding children_of_def known_def graph_inv_def graph_cell_def by (cases "map_of (Gs_nodes st) k"; simp) blast

lemma finite_names [simp]: "finite (names all)" and card_names: "card (names all) \<le> nr_nodes all"
  using card_image_le[of "set (All_nodes all)" Name] card_length[of "All_nodes all"] by (simp_all add: names_def)

text \<open>The root and its children.\<close>

lemma root_ok:
  assumes G: "graph_ok P all" and r: "r \<in> R" "R \<subseteq> names all" "\<forall>a \<in> R. tree_links rings A all a \<subseteq> R"
  shows "\<exists>c st. new_tree_node (Gp_NewTreeNode P) all r = Inr (key all r, c)
    \<and> CreateAndSetChildren P 0 rings A all (key all r) \<lparr>Gs_nodes = [(key all r, c)], Gs_parents = []\<rparr> = Inr st
    \<and> growth_inv rings A all R {r} (1, st, [])"
proof -
  have rn: "r \<in> names all" using r by blast
  obtain c where c: "new_tree_node (Gp_NewTreeNode P) all r = Inr (key all r, c)" "Tc_index c = index_of r"
    "Tc_identity c = Some (identity_of all r)" "Tc_children c = []" using new_tree_node_ok[OF G rn] by blast
  let ?s = "\<lparr>Gs_nodes = [(key all r, c)], Gs_parents = []\<rparr>"
  have "graph_cell rings A all ?s r c" using c by (simp add: graph_cell_def)
  then have "graph_inv rings A all ?s" using rn by (auto simp: graph_inv_def map_ok_def)
  then have "growth_inv rings A all R {} (0, ?s, [])" using r by (simp add: growth_inv_def known_def)
  from process_node_ok[OF G this r(1)] obtain g where g: "process_node P rings A all (key all r) (0, ?s, []) = Inr g" "growth_inv rings A all R {r} g"
    by (auto simp: known_def)
  then obtain st where "CreateAndSetChildren P 0 rings A all (key all r) ?s = Inr st" "fst (snd g) = st"
    by (auto simp: process_node_def res_bind_Inr_iff)
  moreover have "growth_inv rings A all R {r} (1, st, [])" if "fst (snd g) = st" for st
    using g(2) that by (auto simp: growth_inv_def)
  ultimately show ?thesis using c(1) by blast
qed

lemma image_list:
  assumes "set ks = f ` A" "inj_on f A"
  shows "\<exists>as. ks = map f as \<and> set as = A"
proof (intro exI conjI)
  show "ks = map f (map (inv_into A f) ks)" unfolding map_map by (rule map_idI[symmetric]) (use assms(1) in \<open>simp add: f_inv_into_f\<close>)
  show "set (map (inv_into A f) ks) = A" unfolding set_map assms(1) using assms(2) by simp
qed

lemma children_as_names:
  assumes G: "graph_ok P all" and I: "growth_inv rings A all R D g" and a: "a \<in> D"
  shows "\<exists>as. children_of (fst (snd g)) (key all a) = map (key all) as \<and> set as = tree_links rings A all a \<and> distinct as"
proof -
  obtain n st l where g: "g = (n, st, l)" by (cases g)
  note I' = I[unfolded growth_inv_def g prod.case]
  let ?ks = "children_of st (key all a)" and ?L = "tree_links rings A all a"
  have L: "?L \<subseteq> names all" and s: "set ?ks = key all ` ?L" and an: "a \<in> names all"
    using I' a by (auto simp: has_all_def)
  have inj: "inj_on (key all) ?L" using graph_okD(2)[OF G] L by (rule inj_on_subset)
  obtain as where as: "?ks = map (key all) as" "set as = ?L" using image_list[OF s inj] by blast
  moreover have "distinct as" using as(1) children_distinct[OF G _ an, of rings A st] I' by (metis distinct_map)
  ultimately show ?thesis by (auto simp: g)
qed

lemma grow_graph_ok:
  assumes G: "graph_ok P all" and R: "r \<in> R" "R \<subseteq> names all" "\<forall>a \<in> R. tree_links rings A all a \<subseteq> R"
    and r: "r \<notin> tree_links rings A all r" "tree_links rings A all r \<noteq> {} \<Longrightarrow> \<exists>b \<in> tree_links rings A all r. tree_links rings A all b \<noteq> {}"
    and near: "\<And>a. a \<in> R \<Longrightarrow> a = r \<or> (\<exists>b \<in> insert r (tree_links rings A all r). a \<in> tree_links rings A all b)"
    and fuel: "nr_nodes all < fuel"
  shows "\<exists>st. grow_graph P rings A all r fuel = Inr (Some (key all r, st)) \<and> graph_inv rings A all st \<and> known st = key all ` R
    \<and> (\<forall>a \<in> R. has_all rings A all st a)"
proof -
  let ?L = "tree_links rings A all"
  obtain c st where s: "new_tree_node (Gp_NewTreeNode P) all r = Inr (key all r, c)"
    "CreateAndSetChildren P 0 rings A all (key all r) \<lparr>Gs_nodes = [(key all r, c)], Gs_parents = []\<rparr> = Inr st"
    "growth_inv rings A all R {r} (1, st, [])" using root_ok[OF G R] by blast
  obtain as where as: "children_of st (key all r) = map (key all) as" "set as = ?L r" "distinct as"
    using children_as_names[OF G s(3), of r] by auto
  have "set (children_of st (key all r)) \<subseteq> known st" by (rule children_known[of rings A all]) (use s(3) in \<open>simp add: growth_inv_def\<close>)
  then have k: "set as \<subseteq> R" "key all ` set as \<subseteq> known (fst (snd (1, st, [])))" using as R by auto
  from process_all[OF G s(3) k] obtain g where g: "res_fold (process_node P rings A all) (map (key all) as) (1, st, []) = Inr g"
    "growth_inv rings A all R ({r} \<union> ?L r) g" "fst g = 1 + length as" "set (level_keys g) = key all ` (\<Union>a \<in> ?L r. ?L a)"
    by (auto simp: map_keys_def as(2))
  have ch: "children_of (fst (snd g)) (key all r) \<noteq> [] \<longleftrightarrow> ?L r \<noteq> {}"
    using children_as_names[OF G g(2), of r] by auto
  then have lv: "children_of (fst (snd g)) (key all r) \<noteq> [] \<longrightarrow> level_keys g \<noteq> []" using r(2) g(4) by (metis (no_types, lifting) UN_I image_is_empty all_not_in_conv list.set(1))
  have fin: "finite R" "card R \<le> fuel" using finite_subset[OF R(2) finite_names] card_mono[OF finite_names R(2)] card_names[of all] fuel by auto
  have "Suc (nr_nodes all) < fuel + fst g" "0 < fuel" using fuel g(3) by simp_all
  from level_loop_ok[OF G fin g(2) this(1) lv this(2)] obtain st' D' n l where l: "level_loop P rings A all fuel fuel (key all r) g = Inr (Some st')"
    "growth_inv rings A all R D' (n, st', l)" "{r} \<union> ?L r \<subseteq> D'"
    "fst g \<le> nr_nodes all \<and> children_of (fst (snd g)) (key all r) \<noteq> [] \<longrightarrow> {a \<in> R. key all a \<in> set (level_keys g)} \<subseteq> D'" by blast
  have "insert r (?L r) \<subseteq> names all" using R by blast
  then have "card (insert r (?L r)) \<le> nr_nodes all" using card_names[of all] card_mono[OF finite_names] by (meson le_trans)
  then have "fst g \<le> nr_nodes all" using g(3) as r(1) by (metis List.finite_set card_insert_disjoint distinct_card plus_1_eq_Suc)
  then have "a \<in> D'" if "a \<in> R" for a
    using near[OF that] l(3,4) g(4) ch that by blast
  then have all: "\<forall>a \<in> R. has_all rings A all st' a" and inv: "graph_inv rings A all st'" "known st' \<subseteq> key all ` R"
    using l(2) by (auto simp: growth_inv_def)
  then have "known st' = key all ` R" by (auto simp: has_all_def)
  then show ?thesis using all inv s(1,2) as(1) g(1) l(1) by (simp add: grow_graph_def)
qed

end
