(* ===== verification/Graph_Links.thy ===== *)
theory Graph_Links
  imports Graph_Trees
begin

text \<open>
  \<open>visitBuildGraph\<close> and \<open>dfsBuildGraph\<close> (gentree.go): the links of a graph that is given as a tree with
  cycles, read into a map of neighbours by a depth-first search.
\<close>

subsection \<open>The search\<close>

type_synonym neighbor_map = "(string, (string, bool) gomap) gomap"

text \<open>\<open>(*neighbors)[a][b] = true\<close>.\<close>

definition set_neighbor :: "string \<Rightarrow> string \<Rightarrow> neighbor_map \<Rightarrow> neighbor_map result" where
  "set_neighbor a b nb = (case map_of nb a of None \<Rightarrow> Inl NilMapWrite | Some m \<Rightarrow> Inr (map_set nb a (map_set m b True)))"

text \<open>The loop of \<open>visitBuildGraph\<close> over the children of the node with the name \<open>parent\<close>.\<close>

fun visit_children ::
  "LocalityNodes \<Rightarrow> graph_state \<Rightarrow> nat \<Rightarrow> string \<Rightarrow> string list \<Rightarrow> neighbor_map \<times> (string, bool) gomap
    \<Rightarrow> (neighbor_map \<times> (string, bool) gomap) option result" where
  "visit_children all st fuel parent [] s = Inr (Some s)"
| "visit_children all st fuel parent (c # cs) (nb, visited) =
     (case map_of (Gs_nodes st) c of
        None \<Rightarrow> Inl NilDereference
      | Some node \<Rightarrow>
          res_bind (identity_name all node) (\<lambda>child.
          res_bind (set_neighbor parent child nb) (\<lambda>nb1.
          res_bind (set_neighbor child parent nb1) (\<lambda>nb2.
            if has visited child then visit_children all st fuel parent cs (nb2, visited)
            else (case fuel of
                    0 \<Rightarrow> Inr None
                  | Suc f \<Rightarrow>
                      res_bind (visit_children all st f child (Tc_children node) (nb2, map_set visited child True)) (\<lambda>r.
                        case r of None \<Rightarrow> Inr None | Some s \<Rightarrow> visit_children all st fuel parent cs s))))))"

definition visitBuildGraph ::
  "LocalityNodes \<Rightarrow> graph_state \<Rightarrow> nat \<Rightarrow> string \<Rightarrow> neighbor_map \<times> (string, bool) gomap
    \<Rightarrow> (neighbor_map \<times> (string, bool) gomap) option result" where
  "visitBuildGraph all st fuel crtNode s =
     (case map_of (Gs_nodes st) crtNode of
        None \<Rightarrow> Inl NilDereference
      | Some node \<Rightarrow> res_bind (identity_name all node) (\<lambda>parent. visit_children all st fuel parent (Tc_children node) s))"

definition dfsBuildGraph :: "LocalityNodes \<Rightarrow> graph_state \<Rightarrow> nat \<Rightarrow> string \<Rightarrow> neighbor_map option result" where
  "dfsBuildGraph all st fuel rootNode =
     (case map_of (Gs_nodes st) rootNode of
        None \<Rightarrow> Inl NilDereference
      | Some node \<Rightarrow>
          res_bind (identity_name all node) (\<lambda>rootName.
          res_bind (visitBuildGraph all st fuel rootNode
            (map (\<lambda>n. (Name n, [])) (All_nodes all), map_set (map (\<lambda>n. (Name n, False)) (All_nodes all)) rootName True)) (\<lambda>r.
            Inr (map_option fst r))))"

subsection \<open>Its invariant\<close>

text \<open>The nodes \<open>R\<close> of a graph with the links \<open>L\<close>.\<close>

definition graph_of :: "LocalityNodes \<Rightarrow> graph_state \<Rightarrow> string set \<Rightarrow> (string \<Rightarrow> string set) \<Rightarrow> bool" where
  "graph_of all st R L \<longleftrightarrow> R \<subseteq> names all \<and> (\<forall>a \<in> R. L a \<subseteq> R \<and> (\<exists>c as. map_of (Gs_nodes st) (key all a) = Some c
     \<and> identity_name all c = Inr a \<and> Tc_children c = map (key all) as \<and> set as = L a))"

abbreviation joined :: "neighbor_map \<Rightarrow> string \<Rightarrow> string \<Rightarrow> bool" where
  "joined nb a b \<equiv> has (map_get [] nb a) b"

definition both_ways :: "neighbor_map \<times> (string, bool) gomap \<Rightarrow> string \<Rightarrow> string \<Rightarrow> bool" where
  "both_ways s a b \<longleftrightarrow> joined (fst s) a b \<and> joined (fst s) b a \<and> has (snd s) b"

text \<open>Every visited node outside the stack \<open>S\<close> of the recursion has all its links recorded.\<close>

definition dfs_inv :: "LocalityNodes \<Rightarrow> string set \<Rightarrow> (string \<Rightarrow> string set) \<Rightarrow> string set \<Rightarrow> neighbor_map \<times> (string, bool) gomap \<Rightarrow> bool" where
  "dfs_inv all R L S s \<longleftrightarrow> (\<forall>a \<in> names all. map_of (fst s) a \<noteq> None)
     \<and> (\<forall>a b. joined (fst s) a b \<longrightarrow> a \<in> R \<and> b \<in> R \<and> (b \<in> L a \<or> a \<in> L b)) \<and> (\<forall>a. has (snd s) a \<longrightarrow> a \<in> R)
     \<and> (\<forall>a. has (snd s) a \<longrightarrow> a \<in> S \<or> (\<forall>b \<in> L a. both_ways s a b))"

definition dfs_grows :: "neighbor_map \<times> (string, bool) gomap \<Rightarrow> neighbor_map \<times> (string, bool) gomap \<Rightarrow> bool" where
  "dfs_grows s s' \<longleftrightarrow> (\<forall>a b. joined (fst s) a b \<longrightarrow> joined (fst s') a b) \<and> (\<forall>a. has (snd s) a \<longrightarrow> has (snd s') a)"

lemma dfs_grows_both: "dfs_grows s s' \<Longrightarrow> both_ways s a b \<Longrightarrow> both_ways s' a b"
  by (auto simp: dfs_grows_def both_ways_def)

lemma dfs_grows_trans: "dfs_grows s s1 \<Longrightarrow> dfs_grows s1 s2 \<Longrightarrow> dfs_grows s s2"
  by (auto simp: dfs_grows_def)

lemma set_neighbor_ok:
  assumes "map_of nb a \<noteq> None"
  shows "\<exists>nb'. set_neighbor a b nb = Inr nb' \<and> (\<forall>x y. joined nb' x y \<longleftrightarrow> joined nb x y \<or> x = a \<and> y = b)
    \<and> (\<forall>x. map_of nb x \<noteq> None \<longrightarrow> map_of nb' x \<noteq> None)"
  using assms by (auto simp: set_neighbor_def map_get_def[of "[]"] gomap.lookup_update)

lemma join_ok:
  assumes I: "dfs_inv all R L S (nb, visited)" and R: "R \<subseteq> names all" "p \<in> R" "b \<in> R" "b \<in> L p"
  shows "\<exists>nb1 nb2. set_neighbor p b nb = Inr nb1 \<and> set_neighbor b p nb1 = Inr nb2 \<and> dfs_inv all R L S (nb2, visited)
    \<and> dfs_grows (nb, visited) (nb2, visited) \<and> joined nb2 p b \<and> joined nb2 b p"
proof -
  have n: "map_of nb a \<noteq> None" if "a \<in> names all" for a using I that by (simp add: dfs_inv_def)
  obtain nb1 where 1: "set_neighbor p b nb = Inr nb1" "\<And>x y. joined nb1 x y \<longleftrightarrow> joined nb x y \<or> x = p \<and> y = b"
    "\<And>x. map_of nb x \<noteq> None \<Longrightarrow> map_of nb1 x \<noteq> None" using set_neighbor_ok[OF n, of p b] R by blast
  obtain nb2 where 2: "set_neighbor b p nb1 = Inr nb2" "\<And>x y. joined nb2 x y \<longleftrightarrow> joined nb1 x y \<or> x = b \<and> y = p"
    "\<And>x. map_of nb1 x \<noteq> None \<Longrightarrow> map_of nb2 x \<noteq> None" using set_neighbor_ok[OF 1(3)[OF n], of b p] R by blast
  have g: "dfs_grows (nb, visited) (nb2, visited)" by (simp add: dfs_grows_def 1(2) 2(2))
  then have "both_ways (nb2, visited) x y" if "both_ways (nb, visited) x y" for x y using that by (rule dfs_grows_both)
  then have "dfs_inv all R L S (nb2, visited)"
    using I n 1(3) 2(3) R unfolding dfs_inv_def fst_conv snd_conv 1(2) 2(2) by blast
  then show ?thesis using 1(1,2) 2(1,2) g by blast
qed

definition unvisited :: "string set \<Rightarrow> neighbor_map \<times> (string, bool) gomap \<Rightarrow> string set" where
  "unvisited R s = {a \<in> R. \<not> has (snd s) a}"

lemma unvisited_grows: "dfs_grows s s' \<Longrightarrow> unvisited R s' \<subseteq> unvisited R s"
  by (auto simp: unvisited_def dfs_grows_def)

lemma visit_ok:
  assumes G: "graph_of all st R L" "finite R"
  shows "dfs_inv all R L S s \<Longrightarrow> p \<in> S \<Longrightarrow> p \<in> R \<Longrightarrow> set as \<subseteq> L p \<Longrightarrow> card (unvisited R s) \<le> fuel \<Longrightarrow>
    \<exists>s'. visit_children all st fuel p (map (key all) as) s = Inr (Some s') \<and> dfs_inv all R L S s' \<and> dfs_grows s s' \<and> (\<forall>b \<in> set as. both_ways s' p b)"
proof (induction fuel arbitrary: p S s as rule: less_induct)
  case (less fuel)
  from less.prems show ?case
  proof (induction as arbitrary: s)
    case (Cons b as)
    have Rn: "R \<subseteq> names all" and b: "b \<in> R" "b \<in> L p" using G(1) Cons.prems(3,4) by (auto simp: graph_of_def)
    obtain c cs where c: "map_of (Gs_nodes st) (key all b) = Some c" "identity_name all c = Inr b" "Tc_children c = map (key all) cs" "set cs = L b"
      using G(1) b(1) unfolding graph_of_def by blast
    obtain nb visited where s: "s = (nb, visited)" by (cases s)
    obtain nb1 nb2 where j: "set_neighbor p b nb = Inr nb1" "set_neighbor b p nb1 = Inr nb2" "dfs_inv all R L S (nb2, visited)"
      "dfs_grows (nb, visited) (nb2, visited)" "joined nb2 p b" "joined nb2 b p"
      using join_ok[OF Cons.prems(1)[unfolded s] Rn Cons.prems(3) b] by blast
    have "\<exists>s2. visit_children all st fuel p (map (key all) (b # as)) s = visit_children all st fuel p (map (key all) as) s2
        \<and> dfs_inv all R L S s2 \<and> dfs_grows s s2 \<and> both_ways s2 p b"
    proof (cases "has visited b")
      case True
      then show ?thesis using c j s by (intro exI[of _ "(nb2, visited)"]) (simp add: both_ways_def)
    next
      case False
      let ?s = "(nb2, map_set visited b True)"
      have "unvisited R s = insert b (unvisited R ?s)" "b \<notin> unvisited R ?s" using False b(1) s by (auto simp: unvisited_def)
      then have card: "card (unvisited R s) = Suc (card (unvisited R ?s))" using G(2) by (simp add: unvisited_def)
      then obtain f where f: "fuel = Suc f" "card (unvisited R ?s) \<le> f" using Cons.prems(5) by (cases fuel) auto
      have g: "dfs_grows (nb2, visited) ?s" by (simp add: dfs_grows_def)
      have "dfs_inv all R L (insert b S) ?s"
        using j(3) dfs_grows_both[OF g] b(1) unfolding dfs_inv_def by auto
      from less.IH[of f, OF _ this _ b(1) equalityD1[OF c(4)] f(2)] f(1) obtain s2 where
        s2: "visit_children all st f b (map (key all) cs) ?s = Inr (Some s2)" "dfs_inv all R L (insert b S) s2" "dfs_grows ?s s2"
          "\<forall>x \<in> L b. both_ways s2 b x" by (auto simp: c(4))
      have "both_ways ?s p b" using j(5,6) by (simp add: both_ways_def)
      then have "both_ways s2 p b" by (rule dfs_grows_both[OF s2(3)])
      moreover have "dfs_inv all R L S s2" using s2(2,4) unfolding dfs_inv_def by blast
      moreover have "dfs_grows s s2" using j(4) g s2(3) s dfs_grows_trans by metis
      ultimately show ?thesis using False c j(1,2) s f(1) s2(1) by (intro exI[of _ s2]) simp
    qed
    then obtain s2 where s2: "visit_children all st fuel p (map (key all) (b # as)) s = visit_children all st fuel p (map (key all) as) s2"
      "dfs_inv all R L S s2" "dfs_grows s s2" "both_ways s2 p b" by blast
    have "card (unvisited R s2) \<le> fuel" using card_mono[OF _ unvisited_grows[OF s2(3)], of R] G(2) Cons.prems(5) by (simp add: unvisited_def)
    then obtain s' where "visit_children all st fuel p (map (key all) as) s2 = Inr (Some s')" "dfs_inv all R L S s'" "dfs_grows s2 s'"
      "\<forall>b \<in> set as. both_ways s' p b" using Cons.IH[OF s2(2) Cons.prems(2,3)] Cons.prems(4) by auto
    then show ?case using s2 dfs_grows_trans[OF s2(3)] dfs_grows_both by (metis (no_types, lifting) set_ConsD)
  qed (simp add: dfs_grows_def)
qed

text \<open>From a root from which all nodes can be reached, exactly the links are found.\<close>

lemma dfsBuildGraph_ok:
  assumes G: "graph_of all st R L" and r: "r \<in> R" and near: "\<And>a. a \<in> R \<Longrightarrow> (r, a) \<in> {(a, b). b \<in> L a}\<^sup>*" and fuel: "nr_nodes all \<le> fuel"
  shows "\<exists>nb. dfsBuildGraph all st fuel (key all r) = Inr (Some nb) \<and> (\<forall>a b. joined nb a b \<longleftrightarrow> a \<in> R \<and> b \<in> R \<and> (b \<in> L a \<or> a \<in> L b))"
proof -
  have Rn: "R \<subseteq> names all" using G by (simp add: graph_of_def)
  obtain c cs where c: "map_of (Gs_nodes st) (key all r) = Some c" "identity_name all c = Inr r" "Tc_children c = map (key all) cs" "set cs = L r"
    using G r unfolding graph_of_def by blast
  have fin: "finite R" "card R \<le> fuel" using finite_subset[OF Rn finite_names] card_mono[OF finite_names Rn] card_names[of all] fuel by auto
  let ?s = "(map (\<lambda>n. (Name n, [])) (All_nodes all), map_set (map (\<lambda>n. (Name n, False)) (All_nodes all)) r True) :: neighbor_map \<times> (string, bool) gomap"
  have none: "map_get d (map (\<lambda>n. (Name n, d)) ns) a = d" for d :: 'b and ns a by (induction ns) (auto simp: map_get_def)
  have m: "map_of (map (\<lambda>n. (Name n, [] :: (string, bool) gomap)) (All_nodes all)) a \<noteq> None" if "a \<in> names all" for a
    using that by (auto simp: names_def map_of_eq_None_iff image_image)
  have "dfs_inv all R L {r} ?s" using m r by (auto simp: dfs_inv_def none)
  moreover have "card (unvisited R ?s) \<le> fuel" using fin card_mono[of R "unvisited R ?s"] by (auto simp: unvisited_def)
  ultimately obtain nb visited where s: "visit_children all st fuel r (map (key all) cs) ?s = Inr (Some (nb, visited))" "dfs_inv all R L {r} (nb, visited)"
      "dfs_grows ?s (nb, visited)" "\<forall>b \<in> L r. both_ways (nb, visited) r b"
    using visit_ok[OF G fin(1), of "{r}" ?s r cs fuel] r c(4) by fastforce
  have vis: "has visited a" if "a \<in> R" for a
    using near[OF that]
  proof (induction rule: rtrancl_induct)
    case base
    show ?case using s(3) by (simp add: dfs_grows_def)
  next
    case (step a b)
    then show ?case using s(2,4) by (auto simp: dfs_inv_def both_ways_def)
  qed
  have "joined nb a b \<and> joined nb b a" if "a \<in> R" "b \<in> L a" for a b
    using vis[OF that(1)] that(2) s(2,4) by (auto simp: dfs_inv_def both_ways_def)
  moreover have "a \<in> R \<and> b \<in> R \<and> (b \<in> L a \<or> a \<in> L b)" if "joined nb a b" for a b using s(2) that by (simp add: dfs_inv_def)
  ultimately have "joined nb a b \<longleftrightarrow> a \<in> R \<and> b \<in> R \<and> (b \<in> L a \<or> a \<in> L b)" for a b by meson
  then show ?thesis using c s(1) by (simp add: dfsBuildGraph_def visitBuildGraph_def)
qed

end
