(* ===== verification/Ring_Filter.thy ===== *)
theory Ring_Filter
  imports Graph_Links
begin

text \<open>
  \<open>Filter\<close> (gentree.go): the nodes of a ring, found from the cluster of the root and the links that
  replace removed edges. A pointer to a node may be nil.
\<close>

subsection \<open>Definitions\<close>

text \<open>\<open>ChildrenInRange\<close>, \<open>StartPointEndPoint\<close>, \<open>CopyStartPointEndPoint\<close>, \<open>MiddlePoint\<close>, \<open>i\<close> and \<open>j\<close>.\<close>

record filter_state =
  ChildrenInRange :: "(node_ptr option, bool) gomap"
  StartPointEndPoint :: "(node_ptr option, node_ptr option list) gomap"
  CopyStartPointEndPoint :: "(node_ptr option, node_ptr option list) gomap"
  MiddlePoint :: "(node_ptr option, (node_ptr option, node_ptr option) gomap) gomap"
  Fs_i :: nat
  Fs_j :: nat

definition links_between :: "LocalityNodes \<Rightarrow> node_ptr option \<Rightarrow> node_ptr option \<Rightarrow> node_ptr option list" where
  "links_between all a b = (case (a, b) of (Some x, Some y) \<Rightarrow> map Some (map_keys (Links all x y)) | _ \<Rightarrow> [])"

definition distance_between :: "(node_ptr \<Rightarrow> node_ptr \<Rightarrow> real) \<Rightarrow> node_ptr option \<Rightarrow> node_ptr option \<Rightarrow> real" where
  "distance_between distances a b = (case (a, b) of (Some x, Some y) \<Rightarrow> distances x y | _ \<Rightarrow> 0)"

definition middle :: "filter_state \<Rightarrow> node_ptr option \<Rightarrow> node_ptr option \<Rightarrow> node_ptr option" where
  "middle s a b = map_get None (map_get [] (MiddlePoint s) a) b"

definition set_middle :: "node_ptr option \<Rightarrow> node_ptr option \<Rightarrow> node_ptr option \<Rightarrow> filter_state \<Rightarrow> filter_state result" where
  "set_middle a b v s =
     (case map_of (MiddlePoint s) a of
        None \<Rightarrow> Inl NilMapWrite
      | Some m \<Rightarrow> Inr (s\<lparr>MiddlePoint := map_set (MiddlePoint s) a (map_set m b v)\<rparr>))"

definition in_range :: "node_ptr option \<Rightarrow> filter_state \<Rightarrow> filter_state" where
  "in_range a s = s\<lparr>ChildrenInRange := map_set (ChildrenInRange s) a True\<rparr>"

text \<open>The loop over the cluster of the root, for the \<open>i\<close>-th name.\<close>

definition root_link :: "node_ptr option \<Rightarrow> node_ptr option \<Rightarrow> node_ptr option \<Rightarrow> filter_state \<Rightarrow> filter_state result" where
  "root_link rt n k s =
     (let s1 = in_range k s
      in set_middle rt n k
           (s1\<lparr>StartPointEndPoint := map_set (StartPointEndPoint s1) rt (map_get [] (StartPointEndPoint s1) rt @ [n])\<rparr>))"

definition cluster_node ::
  "graph_params \<Rightarrow> LocalityNodes \<Rightarrow> node_ptr option \<Rightarrow> real \<Rightarrow> (node_ptr \<Rightarrow> node_ptr \<Rightarrow> real) \<Rightarrow> nat \<times> string \<Rightarrow> filter_state \<Rightarrow> filter_state result" where
  "cluster_node P all rt radius distances iname s =
     res_bind (GetByName all (snd iname)) (\<lambda>n.
       if distance_between distances rt n \<le> radius
       then res_fold (root_link rt n) (Gp_ptrs P 0 (fst iname) 0 (links_between all rt n)) (in_range n s)
       else Inr s)"

text \<open>One end point: the links between the start and the middle, then those between the middle and
  the end.\<close>

definition start_link :: "node_ptr option \<Rightarrow> node_ptr option \<Rightarrow> node_ptr option \<Rightarrow> node_ptr option \<Rightarrow> filter_state \<Rightarrow> filter_state result" where
  "start_link rt start endp a s =
     (let s1 = in_range a s; m = middle s rt endp
      in set_middle start m a
           (s1\<lparr>CopyStartPointEndPoint := map_set (CopyStartPointEndPoint s1) start (map_get [] (CopyStartPointEndPoint s1) start @ [m])\<rparr>))"

definition end_link :: "node_ptr option \<Rightarrow> node_ptr option \<Rightarrow> node_ptr option \<Rightarrow> filter_state \<Rightarrow> filter_state result" where
  "end_link rt endp a s =
     (let s1 = in_range a s; m = middle s rt endp
      in set_middle m endp a
           (s1\<lparr>CopyStartPointEndPoint := map_set (CopyStartPointEndPoint s1) m (map_get [] (CopyStartPointEndPoint s1) m @ [endp])\<rparr>))"

definition end_point ::
  "graph_params \<Rightarrow> nat \<Rightarrow> LocalityNodes \<Rightarrow> node_ptr option \<Rightarrow> node_ptr option \<Rightarrow> node_ptr option \<Rightarrow> filter_state \<Rightarrow> filter_state result" where
  "end_point P n all rt start endp s =
     (let j = Suc (Fs_j s); ls = links_between all start (middle s rt endp)
      in res_bind (res_fold (start_link rt start endp) (Gp_ptrs P n j 1 ls) (s\<lparr>Fs_j := j, Fs_i := Fs_i s + (if ls = [] then 1 else 0)\<rparr>)) (\<lambda>s1.
           let ls2 = links_between all (middle s1 rt endp) endp
           in res_fold (end_link rt endp) (Gp_ptrs P n j 2 ls2) (s1\<lparr>Fs_i := Fs_i s1 + (if ls2 = [] then 1 else 0)\<rparr>)))"

text \<open>The loop that follows the links; a round ends it when all of them were empty.\<close>

definition filter_round :: "graph_params \<Rightarrow> nat \<Rightarrow> LocalityNodes \<Rightarrow> node_ptr option \<Rightarrow> filter_state \<Rightarrow> filter_state result" where
  "filter_round P n all rt s =
     res_fold (\<lambda>start. res_fold (end_point P n all rt start) (map_get [] (StartPointEndPoint s) start))
       (Gp_ptrs P n 0 3 (map_keys (StartPointEndPoint s))) (s\<lparr>CopyStartPointEndPoint := [], Fs_i := 0, Fs_j := 0\<rparr>)"

fun filter_loop :: "graph_params \<Rightarrow> LocalityNodes \<Rightarrow> node_ptr option \<Rightarrow> nat \<Rightarrow> nat \<Rightarrow> filter_state \<Rightarrow> filter_state option result" where
  "filter_loop P all rt 0 n s = Inr None"
| "filter_loop P all rt (Suc fuel) n s =
     res_bind (filter_round P n all rt s) (\<lambda>s1.
       if Fs_i s1 = Fs_j s1 * 2 then Inr (Some s1)
       else filter_loop P all rt fuel (Suc n) (s1\<lparr>StartPointEndPoint := CopyStartPointEndPoint s1, MiddlePoint := [(rt, [])]\<rparr>))"

definition Filter ::
  "graph_params \<Rightarrow> LocalityNodes \<Rightarrow> node_ptr option \<Rightarrow> real \<Rightarrow> (node_ptr \<Rightarrow> node_ptr \<Rightarrow> real) \<Rightarrow> nat \<Rightarrow> node_ptr option list option result" where
  "Filter P all rt radius distances fuel =
     (case rt of
        None \<Rightarrow> Inl NilDereference
      | Some r \<Rightarrow>
          let names = Gp_names P 0 4 (map_keys (Cluster (node_at all r)));
              s0 = \<lparr>ChildrenInRange = [], StartPointEndPoint = [], CopyStartPointEndPoint = [],
                    MiddlePoint = map (\<lambda>p. (Some p, [])) [0..<nr_nodes all], Fs_i = 0, Fs_j = 0\<rparr>
          in res_bind (res_fold (cluster_node P all rt radius distances) (enumerate 0 names) s0) (\<lambda>s.
             res_bind (filter_loop P all rt fuel 1 s) (\<lambda>r.
               Inr (map_option (\<lambda>s1. Gp_ptrs P 0 0 4 (map_keys (map_set (ChildrenInRange s1) rt True))) r))))"

subsection \<open>The first round\<close>

definition filter_ok :: "graph_params \<Rightarrow> LocalityNodes \<Rightarrow> bool" where
  "filter_ok P all \<longleftrightarrow> indexed (All_nodes all) \<and> (\<forall>n c. range_order (Gp_names P n c)) \<and> (\<forall>n i c. range_order (Gp_ptrs P n i c))
     \<and> (\<forall>v \<in> set (All_nodes all). key_set (names all) (Cluster v))
     \<and> (\<forall>a < nr_nodes all. \<forall>b < nr_nodes all. set (map_keys (Links all a b)) \<subseteq> {..<nr_nodes all})"

abbreviation ptrs :: "LocalityNodes \<Rightarrow> node_ptr option set" where
  "ptrs all \<equiv> Some ` {..<nr_nodes all}"

lemma filter_okD:
  assumes "filter_ok P all"
  shows "indexed (All_nodes all)" "set (Gp_names P n c xs) = set xs" "set (Gp_ptrs P n i c ys) = set ys" "Gp_ptrs P n i c [] = []"
    "v \<in> set (All_nodes all) \<Longrightarrow> key_set (names all) (Cluster v)"
    "a \<in> insert None (ptrs all) \<Longrightarrow> b \<in> insert None (ptrs all) \<Longrightarrow> set (links_between all a b) \<subseteq> ptrs all"
proof -
  show "Gp_ptrs P n i c [] = []" using assms by (metis filter_ok_def range_order_set set_empty)
  show "set (links_between all a b) \<subseteq> ptrs all" if "a \<in> insert None (ptrs all)" "b \<in> insert None (ptrs all)"
    using that assms by (fastforce simp: filter_ok_def links_between_def split: option.splits)
qed (use assms in \<open>auto simp: filter_ok_def range_order_set\<close>)

text \<open>The middle points of the root are nodes, and every node has a map of middle points.\<close>

definition filter_inv :: "LocalityNodes \<Rightarrow> node_ptr \<Rightarrow> filter_state \<Rightarrow> bool" where
  "filter_inv all r s \<longleftrightarrow> (\<forall>a \<in> ptrs all. map_of (MiddlePoint s) a \<noteq> None) \<and> (\<forall>e. middle s (Some r) e \<in> insert None (ptrs all))
     \<and> key_set (ptrs all) (ChildrenInRange s)"

definition filter_grows :: "LocalityNodes \<Rightarrow> node_ptr \<Rightarrow> filter_state \<Rightarrow> filter_state \<Rightarrow> bool" where
  "filter_grows all r s s' \<longleftrightarrow> filter_inv all r s' \<and> set (map_keys (ChildrenInRange s)) \<subseteq> set (map_keys (ChildrenInRange s'))
     \<and> (\<forall>e. middle s (Some r) e \<noteq> None \<longrightarrow> middle s' (Some r) e \<noteq> None)"

lemma filter_grows_refl: "filter_inv all r s \<Longrightarrow> filter_grows all r s s"
  by (simp add: filter_grows_def)

lemma filter_grows_trans: "filter_grows all r s s1 \<Longrightarrow> filter_grows all r s1 s2 \<Longrightarrow> filter_grows all r s s2"
  by (auto simp: filter_grows_def)

lemma middle_frame [simp]:
  "middle (s\<lparr>StartPointEndPoint := x\<rparr>) = middle s" "middle (s\<lparr>CopyStartPointEndPoint := x\<rparr>) = middle s" "middle (s\<lparr>Fs_i := n\<rparr>) = middle s"
  "middle (s\<lparr>Fs_j := n\<rparr>) = middle s" "middle (in_range a s) = middle s"
  by (simp_all add: middle_def in_range_def fun_eq_iff)

lemma filter_inv_frame [simp]:
  "filter_inv all r (s\<lparr>StartPointEndPoint := x\<rparr>) = filter_inv all r s" "filter_inv all r (s\<lparr>CopyStartPointEndPoint := x\<rparr>) = filter_inv all r s"
  "filter_inv all r (s\<lparr>Fs_i := n\<rparr>) = filter_inv all r s" "filter_inv all r (s\<lparr>Fs_j := n\<rparr>) = filter_inv all r s"
  by (simp_all add: filter_inv_def)

lemma set_middle_ok:
  assumes "filter_inv all r s" "a \<in> ptrs all" "v \<in> ptrs all"
  shows "\<exists>s'. set_middle a b v (in_range v s) = Inr s' \<and> filter_grows all r s s' \<and> StartPointEndPoint s' = StartPointEndPoint s"
proof -
  obtain m where m: "map_of (MiddlePoint s) a = Some m" using assms(1,2) unfolding filter_inv_def by blast
  let ?s = "(in_range v s)\<lparr>MiddlePoint := map_set (MiddlePoint s) a (map_set m b v)\<rparr>"
  have mid: "middle ?s x y = (if x = a \<and> y = b then v else middle s x y)" for x y
    using m by (simp add: middle_def map_get_def[of "[]"] gomap.lookup_update)
  have "filter_inv all r ?s"
    using assms unfolding filter_inv_def mid by (auto simp: gomap.lookup_update in_range_def intro: key_set_insert)
  then have "filter_grows all r s ?s" using assms(3) unfolding filter_grows_def mid by (auto simp: in_range_def gomap.keys_update)
  then show ?thesis using m by (simp add: set_middle_def in_range_def)
qed

lemma filter_fold:
  assumes "filter_inv all r s" "Q s" "\<And>x s. x \<in> set xs \<Longrightarrow> filter_inv all r s \<Longrightarrow> Q s \<Longrightarrow> \<exists>s'. f x s = Inr s' \<and> filter_grows all r s s' \<and> Q s'"
  shows "\<exists>s'. res_fold f xs s = Inr s' \<and> filter_grows all r s s' \<and> Q s'"
  using assms
proof (induction xs arbitrary: s)
  case (Cons x xs)
  obtain s1 where s1: "f x s = Inr s1" "filter_grows all r s s1" "Q s1" using Cons.prems(3)[of x s] Cons.prems(1,2) by auto
  then have "filter_inv all r s1" by (simp add: filter_grows_def)
  from Cons.IH[OF this s1(3)] Cons.prems(3) obtain s2 where "res_fold f xs s1 = Inr s2" "filter_grows all r s1 s2" "Q s2" by (metis list.set_intros(2))
  then show ?case using s1 filter_grows_trans by (metis res_bind_simps(2) res_fold.simps(2))
qed (simp add: filter_grows_refl)

lemma in_range_commute:
  "in_range a (s\<lparr>StartPointEndPoint := x\<rparr>) = (in_range a s)\<lparr>StartPointEndPoint := x\<rparr>"
  "in_range a (s\<lparr>CopyStartPointEndPoint := x\<rparr>) = (in_range a s)\<lparr>CopyStartPointEndPoint := x\<rparr>"
  "StartPointEndPoint (in_range a s) = StartPointEndPoint s" "CopyStartPointEndPoint (in_range a s) = CopyStartPointEndPoint s"
  by (cases s; simp add: in_range_def)+

text \<open>After the loop over the cluster only the root has end points, and they are nodes.\<close>

definition root_pairs :: "LocalityNodes \<Rightarrow> node_ptr \<Rightarrow> filter_state \<Rightarrow> bool" where
  "root_pairs all r s \<longleftrightarrow> set (map_keys (StartPointEndPoint s)) \<subseteq> {Some r} \<and> set (map_get [] (StartPointEndPoint s) (Some r)) \<subseteq> ptrs all"

lemma root_link_ok:
  assumes "filter_inv all r s" "root_pairs all r s" "r < nr_nodes all" "n \<in> ptrs all" "k \<in> ptrs all"
  shows "\<exists>s'. root_link (Some r) n k s = Inr s' \<and> filter_grows all r s s' \<and> root_pairs all r s'"
proof -
  let ?s = "s\<lparr>StartPointEndPoint := map_set (StartPointEndPoint s) (Some r) (map_get [] (StartPointEndPoint s) (Some r) @ [n])\<rparr>"
  have "filter_inv all r ?s" "Some r \<in> ptrs all" using assms(1,3) by simp_all
  from set_middle_ok[OF this assms(5), of n] obtain s' where s': "set_middle (Some r) n k (in_range k ?s) = Inr s'" "filter_grows all r ?s s'"
    "StartPointEndPoint s' = StartPointEndPoint ?s" by blast
  moreover have "root_link (Some r) n k s = set_middle (Some r) n k (in_range k ?s)" by (simp add: root_link_def Let_def in_range_commute)
  moreover have "filter_grows all r s s'" using s'(2) by (simp add: filter_grows_def)
  moreover have "root_pairs all r s'" using assms(2,4) s'(3) by (auto simp: root_pairs_def gomap.keys_update)
  ultimately show ?thesis by simp
qed

lemma in_range_grows: "filter_inv all r s \<Longrightarrow> n \<in> ptrs all \<Longrightarrow> filter_grows all r s (in_range n s)"
  unfolding filter_grows_def filter_inv_def by (auto simp: in_range_def gomap.keys_update middle_def intro: key_set_insert)

lemma cluster_node_ok:
  assumes F: "filter_ok P all" and I: "filter_inv all r s" "root_pairs all r s" and r: "r < nr_nodes all" "p < nr_nodes all"
  shows "\<exists>s'. cluster_node P all (Some r) radius distances (i, Name (node_at all p)) s = Inr s' \<and> filter_grows all r s s' \<and> root_pairs all r s'
    \<and> (distances r p \<le> radius \<longrightarrow> Some p \<in> set (map_keys (ChildrenInRange s')))"
proof (cases "distances r p \<le> radius")
  case True
  have p: "Some p \<in> ptrs all" using r by simp
  note g = in_range_grows[OF I(1) p]
  let ?ls = "Gp_ptrs P 0 i 0 (links_between all (Some r) (Some p))"
  have ls: "set ?ls \<subseteq> ptrs all" using filter_okD(3,6)[OF F] r by simp
  have "\<exists>s'. res_fold (root_link (Some r) (Some p)) ?ls (in_range (Some p) s) = Inr s' \<and> filter_grows all r (in_range (Some p) s) s' \<and> root_pairs all r s'"
  proof (rule filter_fold)
    show "filter_inv all r (in_range (Some p) s)" "root_pairs all r (in_range (Some p) s)"
      using g I(2) by (simp_all add: filter_grows_def root_pairs_def in_range_commute)
  qed (use root_link_ok[OF _ _ r(1) p] ls in blast)
  then obtain s' where s': "res_fold (root_link (Some r) (Some p)) ?ls (in_range (Some p) s) = Inr s'" "filter_grows all r (in_range (Some p) s) s'"
    "root_pairs all r s'" by blast
  moreover have "Some p \<in> set (map_keys (ChildrenInRange s'))" using s'(2) by (auto simp: filter_grows_def in_range_def gomap.keys_update)
  ultimately show ?thesis
    using True g filter_grows_trans GetByName_indexed[OF filter_okD(1)[OF F] r(2)] by (auto simp: cluster_node_def distance_between_def)
next
  case False
  then show ?thesis using I filter_grows_refl GetByName_indexed[OF filter_okD(1)[OF F] r(2)] by (simp add: cluster_node_def distance_between_def)
qed

lemma end_point_ok:
  assumes F: "filter_ok P all" and I: "filter_inv all r s" and r: "r < nr_nodes all" "e \<in> ptrs all"
  shows "\<exists>s'. end_point P n all (Some r) (Some r) e s = Inr s' \<and> filter_grows all r s s'"
proof -
  have rp: "Some r \<in> ptrs all" using r(1) by simp
  let ?s = "s\<lparr>Fs_j := Suc (Fs_j s), Fs_i := Fs_i s + (if links_between all (Some r) (middle s (Some r) e) = [] then 1 else 0)\<rparr>"
  let ?ls = "Gp_ptrs P n (Suc (Fs_j s)) 1 (links_between all (Some r) (middle s (Some r) e))"
  have mid: "middle t (Some r) e \<in> insert None (ptrs all)" if "filter_inv all r t" for t using that unfolding filter_inv_def by blast
  have ls: "set ?ls \<subseteq> ptrs all" unfolding filter_okD(3)[OF F] by (rule filter_okD(6)[OF F]) (use rp mid[OF I] in simp_all)
  have start: "\<exists>t'. start_link (Some r) (Some r) e a t = Inr t' \<and> filter_grows all r t t' \<and> True" if "filter_inv all r t" "a \<in> ptrs all" for a t
  proof -
    let ?t = "t\<lparr>CopyStartPointEndPoint := map_set (CopyStartPointEndPoint t) (Some r)
      (map_get [] (CopyStartPointEndPoint t) (Some r) @ [middle t (Some r) e])\<rparr>"
    have "start_link (Some r) (Some r) e a t = set_middle (Some r) (middle t (Some r) e) a (in_range a ?t)" by (simp add: start_link_def Let_def in_range_commute)
    then show ?thesis using set_middle_ok[of all r ?t "Some r" a "middle t (Some r) e"] that rp by (auto simp: filter_grows_def)
  qed
  have "\<exists>s1. res_fold (start_link (Some r) (Some r) e) ?ls ?s = Inr s1 \<and> filter_grows all r ?s s1 \<and> True"
    by (rule filter_fold) (use I start ls in \<open>simp, simp, blast\<close>)
  then obtain s1 where s1: "res_fold (start_link (Some r) (Some r) e) ?ls ?s = Inr s1" "filter_grows all r ?s s1" by blast
  have i1: "filter_inv all r s1" using s1(2) by (simp add: filter_grows_def)
  let ?s1 = "s1\<lparr>Fs_i := Fs_i s1 + (if links_between all (middle s1 (Some r) e) e = [] then 1 else 0)\<rparr>"
  let ?ls2 = "Gp_ptrs P n (Suc (Fs_j s)) 2 (links_between all (middle s1 (Some r) e) e)"
  have ls2: "set ?ls2 \<subseteq> ptrs all" unfolding filter_okD(3)[OF F] by (rule filter_okD(6)[OF F]) (use mid[OF i1] r(2) in simp_all)
  have fin: "\<exists>t'. end_link (Some r) e a t = Inr t' \<and> filter_grows all r t t' \<and> middle t' (Some r) e \<noteq> None"
    if "filter_inv all r t" "a \<in> ptrs all" "middle t (Some r) e \<noteq> None" for a t
  proof -
    let ?m = "middle t (Some r) e"
    let ?t = "t\<lparr>CopyStartPointEndPoint := map_set (CopyStartPointEndPoint t) ?m (map_get [] (CopyStartPointEndPoint t) ?m @ [e])\<rparr>"
    have "end_link (Some r) e a t = set_middle ?m e a (in_range a ?t)" by (simp add: end_link_def Let_def in_range_commute)
    then show ?thesis using set_middle_ok[of all r ?t ?m a e] that mid[OF that(1)] by (auto simp: filter_grows_def)
  qed
  have "\<exists>s2. res_fold (end_link (Some r) e) ?ls2 ?s1 = Inr s2 \<and> filter_grows all r ?s1 s2"
  proof (cases "middle s1 (Some r) e")
    case None
    then have "?ls2 = []" by (simp add: links_between_def filter_okD(4)[OF F])
    then show ?thesis using i1 by (simp add: filter_grows_refl)
  next
    case (Some m)
    have "\<exists>s2. res_fold (end_link (Some r) e) ?ls2 ?s1 = Inr s2 \<and> filter_grows all r ?s1 s2 \<and> middle s2 (Some r) e \<noteq> None"
      by (rule filter_fold) (use Some i1 fin ls2 in \<open>simp, simp, blast\<close>)
    then show ?thesis by blast
  qed
  then obtain s2 where s2: "res_fold (end_link (Some r) e) ?ls2 ?s1 = Inr s2" "filter_grows all r ?s1 s2" by blast
  have "filter_grows all r s s2" using s1(2) s2(2) by (auto simp: filter_grows_def)
  then show ?thesis using s1(1) s2(1) by (simp add: end_point_def Let_def)
qed

lemma first_round_ok:
  assumes F: "filter_ok P all" and I: "filter_inv all r s" "root_pairs all r s" and r: "r < nr_nodes all"
  shows "\<exists>s1. filter_round P n all (Some r) s = Inr s1 \<and> filter_grows all r s s1"
proof -
  let ?s = "s\<lparr>CopyStartPointEndPoint := [], Fs_i := 0, Fs_j := 0\<rparr>"
  have ends: "\<exists>t'. res_fold (end_point P n all (Some r) (Some r)) (map_get [] (StartPointEndPoint s) (Some r)) t = Inr t' \<and> filter_grows all r t t' \<and> True"
    if "filter_inv all r t" for t
    by (rule filter_fold) (use that I(2) end_point_ok[OF F _ r] in \<open>auto simp: root_pairs_def\<close>)
  have "\<exists>s1. filter_round P n all (Some r) s = Inr s1 \<and> filter_grows all r ?s s1 \<and> True"
    unfolding filter_round_def
  proof (rule filter_fold)
    show "filter_inv all r ?s" using I(1) by simp
    show "\<exists>t'. res_fold (end_point P n all (Some r) start) (map_get [] (StartPointEndPoint s) start) t = Inr t' \<and> filter_grows all r t t' \<and> True"
      if "start \<in> set (Gp_ptrs P n 0 3 (map_keys (StartPointEndPoint s)))" "filter_inv all r t" for start t
      using that ends I(2) unfolding filter_okD(3)[OF F] by (auto simp: root_pairs_def)
  qed simp
  then show ?thesis by (auto simp: filter_grows_def)
qed

subsection \<open>The second round\<close>

text \<open>The map of middle points has been replaced by an empty one: no links are found.\<close>

definition no_middle :: "node_ptr option \<Rightarrow> filter_state \<Rightarrow> filter_state \<Rightarrow> bool" where
  "no_middle rt s s1 \<longleftrightarrow> (\<forall>e. middle s1 rt e = None) \<and> Fs_i s1 = Fs_j s1 * 2 \<and> ChildrenInRange s1 = ChildrenInRange s"

lemma end_point_no_middle:
  assumes "filter_ok P all" "no_middle rt s s1"
  shows "\<exists>s2. end_point P n all rt start e s1 = Inr s2 \<and> no_middle rt s s2"
proof -
  have "links_between all a None = []" "links_between all None a = []" for a by (simp_all add: links_between_def split: option.splits)
  then show ?thesis using assms filter_okD(4)[OF assms(1)] by (simp add: end_point_def no_middle_def Let_def)
qed

lemma later_round_ok:
  assumes "filter_ok P all" "\<forall>e. middle s rt e = None"
  shows "\<exists>s1. filter_round P n all rt s = Inr s1 \<and> no_middle rt s s1"
  unfolding filter_round_def
proof (rule res_fold_keep)
  show "no_middle rt s (s\<lparr>CopyStartPointEndPoint := [], Fs_i := 0, Fs_j := 0\<rparr>)" using assms(2) by (simp add: no_middle_def)
  show "\<exists>s2. res_fold (end_point P n all rt start) xs s1 = Inr s2 \<and> no_middle rt s s2" if "no_middle rt s s1" for start xs s1
    using that by (rule res_fold_keep) (rule end_point_no_middle[OF assms(1)])
qed

lemma filter_loop_ok:
  assumes F: "filter_ok P all" and I: "filter_inv all r s" "root_pairs all r s" and r: "r < nr_nodes all" and fuel: "2 \<le> fuel"
  shows "\<exists>s1. filter_loop P all (Some r) fuel n s = Inr (Some s1) \<and> key_set (ptrs all) (ChildrenInRange s1)
    \<and> set (map_keys (ChildrenInRange s)) \<subseteq> set (map_keys (ChildrenInRange s1))"
proof -
  obtain f where f: "fuel = Suc (Suc f)" using fuel by (metis Suc_le_D numeral_2_eq_2 Suc_le_mono)
  obtain s1 where s1: "filter_round P n all (Some r) s = Inr s1" "filter_grows all r s s1" using first_round_ok[OF F I r] by blast
  let ?t = "s1\<lparr>StartPointEndPoint := CopyStartPointEndPoint s1, MiddlePoint := [(Some r, [])]\<rparr>"
  have "\<forall>e. middle ?t (Some r) e = None" by (simp add: middle_def map_get_def)
  from later_round_ok[OF F this, of "Suc n"] obtain s2 where "filter_round P (Suc n) all (Some r) ?t = Inr s2" "Fs_i s2 = Fs_j s2 * 2" "ChildrenInRange s2 = ChildrenInRange s1"
    by (auto simp: no_middle_def)
  then show ?thesis using s1 f by (auto simp: filter_grows_def filter_inv_def)
qed

subsection \<open>The nodes in range\<close>

text \<open>The cluster nodes within the radius.\<close>

definition near_cluster :: "LocalityNodes \<Rightarrow> node_ptr \<Rightarrow> real \<Rightarrow> (node_ptr \<Rightarrow> node_ptr \<Rightarrow> real) \<Rightarrow> node_ptr set" where
  "near_cluster all r radius distances = {p. p < nr_nodes all \<and> has (Cluster (node_at all r)) (Name (node_at all p)) \<and> distances r p \<le> radius}"

lemma cluster_names:
  assumes "filter_ok P all" "r < nr_nodes all" "x \<in> set (enumerate 0 (Gp_names P 0 4 (map_keys (Cluster (node_at all r)))))"
  obtains i p where "x = (i, Name (node_at all p))" "p < nr_nodes all" "has (Cluster (node_at all r)) (Name (node_at all p))"
proof -
  have "snd x \<in> set (map_keys (Cluster (node_at all r)))" using assms(3) filter_okD(2)[OF assms(1)] by (metis in_set_zip enumerate_eq_zip nth_mem)
  moreover have "key_set (names all) (Cluster (node_at all r))" using filter_okD(5)[OF assms(1)] assms(2) by simp
  ultimately have "snd x \<in> names all" "has (Cluster (node_at all r)) (snd x)"
    by (auto simp: key_set_def map_keys_def has_iff map_ok_def map_of_eq_Some_iff)
  then obtain p where "p < nr_nodes all" "snd x = Name (node_at all p)" by (auto simp: names_def in_set_conv_nth)
  then show thesis using that[of "fst x" p] \<open>has (Cluster (node_at all r)) (snd x)\<close> by (metis prod.collapse)
qed

lemma cluster_loop_ok:
  assumes F: "filter_ok P all" and I: "filter_inv all r s" "root_pairs all r s" and r: "r < nr_nodes all"
    and xs: "\<And>x. x \<in> set xs \<Longrightarrow> \<exists>i p. x = (i, Name (node_at all p)) \<and> p < nr_nodes all"
  shows "\<exists>s'. res_fold (cluster_node P all (Some r) radius distances) xs s = Inr s' \<and> filter_grows all r s s' \<and> root_pairs all r s'
    \<and> (\<forall>i p. (i, Name (node_at all p)) \<in> set xs \<and> p < nr_nodes all \<and> distances r p \<le> radius \<longrightarrow> Some p \<in> set (map_keys (ChildrenInRange s')))"
  using I xs
proof (induction xs arbitrary: s)
  case (Cons x xs)
  obtain i p where x: "x = (i, Name (node_at all p))" "p < nr_nodes all" using Cons.prems(3)[of x] by auto
  obtain s1 where s1: "cluster_node P all (Some r) radius distances x s = Inr s1" "filter_grows all r s s1" "root_pairs all r s1"
    "distances r p \<le> radius \<longrightarrow> Some p \<in> set (map_keys (ChildrenInRange s1))"
    using cluster_node_ok[OF F Cons.prems(1,2) r x(2), of radius distances i] x(1) by blast
  have "filter_inv all r s1" using s1(2) by (simp add: filter_grows_def)
  from Cons.IH[OF this s1(3)] Cons.prems(3) obtain s2 where s2: "res_fold (cluster_node P all (Some r) radius distances) xs s1 = Inr s2"
    "filter_grows all r s1 s2" "root_pairs all r s2"
    "\<forall>i p. (i, Name (node_at all p)) \<in> set xs \<and> p < nr_nodes all \<and> distances r p \<le> radius \<longrightarrow> Some p \<in> set (map_keys (ChildrenInRange s2))" by auto
  have "q = p" if "(j, Name (node_at all q)) = x" "q < nr_nodes all" for j q
    using that x indexed_inj[OF filter_okD(1)[OF F]] by simp
  then have "\<forall>i p. (i, Name (node_at all p)) \<in> set (x # xs) \<and> p < nr_nodes all \<and> distances r p \<le> radius \<longrightarrow> Some p \<in> set (map_keys (ChildrenInRange s2))"
    using s1(4) s2(2,4) by (auto simp: filter_grows_def)
  then show ?case using s1(1) s2(1,3) filter_grows_trans[OF s1(2) s2(2)] by simp
qed (simp add: filter_grows_refl)

text \<open>Without links the loops add nothing to the cluster nodes.\<close>

lemma plain_cluster_loop:
  assumes F: "filter_ok P all" and L: "\<And>a b. Links all a b = []" and s: "StartPointEndPoint s = []"
    and xs: "\<And>x. x \<in> set xs \<Longrightarrow> \<exists>i p. x = (i, Name (node_at all p)) \<and> p < nr_nodes all"
  shows "\<exists>s'. res_fold (cluster_node P all (Some r) radius distances) xs s = Inr s' \<and> StartPointEndPoint s' = []
    \<and> set (map_keys (ChildrenInRange s')) = set (map_keys (ChildrenInRange s))
      \<union> (\<Union>x \<in> set xs. {Some p | p. snd x = Name (node_at all p) \<and> p < nr_nodes all \<and> distances r p \<le> radius})"
proof (rule res_fold_collect[where P = "\<lambda>s. StartPointEndPoint s = []" and rel = "\<lambda>s. set (map_keys (ChildrenInRange s))", OF s])
  fix x and s :: filter_state assume x: "x \<in> set xs" and s: "StartPointEndPoint s = []"
  obtain i p where p: "x = (i, Name (node_at all p))" "p < nr_nodes all" using xs[OF x] by blast
  have "links_between all a b = []" for a b by (simp add: links_between_def L map_keys_def split: option.splits)
  then have "cluster_node P all (Some r) radius distances x s = Inr (if distances r p \<le> radius then in_range (Some p) s else s)"
    using GetByName_indexed[OF filter_okD(1)[OF F] p(2)] filter_okD(4)[OF F] p(1) by (simp add: cluster_node_def distance_between_def)
  moreover have "{Some q | q. snd x = Name (node_at all q) \<and> q < nr_nodes all \<and> distances r q \<le> radius} = (if distances r p \<le> radius then {Some p} else {})"
    using p indexed_inj[OF filter_okD(1)[OF F]] by auto
  ultimately show "\<exists>s'. cluster_node P all (Some r) radius distances x s = Inr s' \<and> StartPointEndPoint s' = []
    \<and> set (map_keys (ChildrenInRange s')) = set (map_keys (ChildrenInRange s)) \<union> {Some p | p. snd x = Name (node_at all p) \<and> p < nr_nodes all \<and> distances r p \<le> radius}"
    using s by (auto simp: in_range_commute) (auto simp: in_range_def gomap.keys_update)
qed

abbreviation filter_start :: "LocalityNodes \<Rightarrow> filter_state" where
  "filter_start all \<equiv> \<lparr>ChildrenInRange = [], StartPointEndPoint = [], CopyStartPointEndPoint = [],
     MiddlePoint = map (\<lambda>p. (Some p, [])) [0..<nr_nodes all], Fs_i = 0, Fs_j = 0\<rparr>"

lemma filter_start_ok: "filter_inv all r (filter_start all)" "root_pairs all r (filter_start all)"
proof -
  have "map_of (map (\<lambda>p. (Some p, [] :: (node_ptr option, node_ptr option) gomap)) ps) a = (if a \<in> Some ` set ps then Some [] else None)" for ps :: "nat list" and a
    by (induction ps) auto
  then show "filter_inv all r (filter_start all)" by (auto simp: filter_inv_def middle_def map_get_def)
qed (simp add: root_pairs_def map_keys_def)

lemma Filter_ok:
  assumes F: "filter_ok P all" and r: "r < nr_nodes all" and fuel: "2 \<le> fuel"
  shows "\<exists>ns. Filter P all (Some r) radius distances fuel = Inr (Some ns) \<and> Some ` insert r (near_cluster all r radius distances) \<subseteq> set ns
    \<and> set ns \<subseteq> ptrs all \<and> ((\<forall>a b. Links all a b = []) \<longrightarrow> set ns = Some ` insert r (near_cluster all r radius distances))"
proof -
  let ?xs = "enumerate 0 (Gp_names P 0 4 (map_keys (Cluster (node_at all r))))"
  have xs: "\<exists>i p. x = (i, Name (node_at all p)) \<and> p < nr_nodes all" if "x \<in> set ?xs" for x using cluster_names[OF F r that] by metis
  have in_xs: "\<exists>i. (i, Name (node_at all p)) \<in> set ?xs" if "has (Cluster (node_at all r)) (Name (node_at all p))" for p
  proof -
    have "Name (node_at all p) \<in> set (Gp_names P 0 4 (map_keys (Cluster (node_at all r))))"
      using that unfolding filter_okD(2)[OF F] gomap.keys_dom by (auto simp: has_iff)
    then show ?thesis by (metis (no_types, lifting) enumerate_eq_zip in_set_impl_in_set_zip2 length_upt add_diff_cancel_left')
  qed
  obtain s where s: "res_fold (cluster_node P all (Some r) radius distances) ?xs (filter_start all) = Inr s" "filter_grows all r (filter_start all) s"
      "root_pairs all r s" "\<forall>i p. (i, Name (node_at all p)) \<in> set ?xs \<and> p < nr_nodes all \<and> distances r p \<le> radius \<longrightarrow> Some p \<in> set (map_keys (ChildrenInRange s))"
    using cluster_loop_ok[OF F filter_start_ok r xs, where radius = radius and distances = distances] by blast
  have i: "filter_inv all r s" using s(2) by (simp add: filter_grows_def)
  obtain s1 where s1: "filter_loop P all (Some r) fuel 1 s = Inr (Some s1)" "key_set (ptrs all) (ChildrenInRange s1)"
      "set (map_keys (ChildrenInRange s)) \<subseteq> set (map_keys (ChildrenInRange s1))"
    using filter_loop_ok[OF F i s(3) r fuel] by blast
  let ?ns = "Gp_ptrs P 0 0 4 (map_keys (map_set (ChildrenInRange s1) (Some r) True))"
  have ns: "Filter P all (Some r) radius distances fuel = Inr (Some ?ns)" using s(1) s1(1) by (simp add: Filter_def Let_def)
  have set_ns: "set ?ns = insert (Some r) (set (map_keys (ChildrenInRange s1)))" by (simp add: filter_okD(3)[OF F] gomap.keys_update)
  have low: "Some ` insert r (near_cluster all r radius distances) \<subseteq> set ?ns"
    using s(4) s1(3) in_xs unfolding set_ns near_cluster_def by blast
  have up: "set ?ns \<subseteq> ptrs all" using s1(2) r unfolding set_ns by (auto simp: key_set_def map_keys_def)
  have "set ?ns = Some ` insert r (near_cluster all r radius distances)" if L: "\<forall>a b. Links all a b = []"
  proof -
    obtain t where t: "res_fold (cluster_node P all (Some r) radius distances) ?xs (filter_start all) = Inr t" "StartPointEndPoint t = []"
      "set (map_keys (ChildrenInRange t)) = (\<Union>x \<in> set ?xs. {Some p | p. snd x = Name (node_at all p) \<and> p < nr_nodes all \<and> distances r p \<le> radius})"
      using plain_cluster_loop[OF F, of "filter_start all" ?xs r radius distances] L xs by (auto simp: map_keys_def)
    have st: "s = t" using s(1) t(1) by simp
    have "filter_round P 1 all (Some r) s = Inr (s\<lparr>CopyStartPointEndPoint := [], Fs_i := 0, Fs_j := 0\<rparr>)"
      unfolding filter_round_def st t(2) by (simp add: map_keys_def filter_okD(4)[OF F])
    moreover obtain f where "fuel = Suc f" using fuel by (cases fuel) auto
    ultimately have "s1 = s\<lparr>CopyStartPointEndPoint := [], Fs_i := 0, Fs_j := 0\<rparr>" using s1(1) by simp
    then have "set ?ns = insert (Some r) (set (map_keys (ChildrenInRange t)))" using set_ns st by simp
    also have "\<dots> \<subseteq> Some ` insert r (near_cluster all r radius distances)"
    proof -
      have "p \<in> near_cluster all r radius distances"
        if x: "x \<in> set ?xs" and p: "snd x = Name (node_at all p)" "p < nr_nodes all" "distances r p \<le> radius" for x p
      proof -
        obtain q where "snd x = Name (node_at all q)" "has (Cluster (node_at all r)) (Name (node_at all q))" using cluster_names[OF F r x] by (metis snd_conv)
        then show ?thesis using p by (simp add: near_cluster_def)
      qed
      then show ?thesis unfolding t(3) by blast
    qed
    finally show ?thesis using low by blast
  qed
  then show ?thesis using ns low up by blast
qed

end
