(* ===== verification/Node_Rings.thy ===== *)
theory Node_Rings
  imports Locality_Graph
begin

text \<open>
  The rings of a node (\<open>gentree.GenerateRings\<close> and the functions it calls, and the ring
  lookups of Save.go): the radius loop with its termination, the twelve rings each node owns and
  the rings of its bunch it joins.
\<close>

subsection \<open>Radiuses\<close>

text \<open>
  The endless \<open>for\<close> of \<open>generateRadius\<close> leaves when the radius of this step and of the
  one before exceed \<open>maxDist\<close>; powers of the square root of 3 are unbounded.
\<close>

lemma radius_unbounded: "\<exists>n. maxDist < 20 * sqrt 3 ^ n"
proof -
  have "1 < sqrt (3 :: real)" by simp
  then obtain n where "maxDist / 20 < sqrt 3 ^ n" using real_arch_pow by blast
  then show ?thesis by (intro exI[of _ n]) simp
qed

definition radius_steps :: "real \<Rightarrow> nat" where
  "radius_steps maxDist = (LEAST n. maxDist < 20 * sqrt 3 ^ n)"

lemma radius_steps_le:
  assumes "0 < i" "radius_steps maxDist < i"
  shows "maxDist < 20 * sqrt 3 ^ (i - 1)"
proof -
  have "maxDist < 20 * sqrt 3 ^ radius_steps maxDist"
    unfolding radius_steps_def using radius_unbounded by (rule LeastI_ex)
  also have "\<dots> \<le> 20 * sqrt 3 ^ (i - 1)"
    using assms by (intro mult_left_mono power_increasing) auto
  finally show ?thesis .
qed

function radius_loop :: "real \<Rightarrow> nat \<Rightarrow> real list \<Rightarrow> real list" where
  "radius_loop maxDist i radiuses =
     (let crtMaxRadius = 20 * sqrt 3 ^ i;
          prevRadius = (if i \<noteq> 0 then 20 * sqrt 3 ^ (i - 1) else 0)
      in if crtMaxRadius > maxDist \<and> prevRadius > maxDist then radiuses
         else radius_loop maxDist (i + 1) (radiuses @ [crtMaxRadius]))"
  by pat_completeness auto
termination
proof (relation "measure (\<lambda>(m, i, rs). Suc (radius_steps m) - i)")
  fix maxDist i radiuses x xa
  assume x: "x = 20 * sqrt 3 ^ i" and xa: "xa = (if i \<noteq> 0 then 20 * sqrt 3 ^ (i - 1) else 0)"
    and go: "\<not> (x > maxDist \<and> xa > maxDist)"
  have "i \<le> radius_steps maxDist"
  proof (rule ccontr)
    assume "\<not> i \<le> radius_steps maxDist"
    then have i: "0 < i" "maxDist < 20 * sqrt 3 ^ (i - 1)" using radius_steps_le[of i maxDist] by auto
    then have "maxDist < xa" using xa by simp
    moreover have "xa \<le> x"
      unfolding x xa using i(1) by (auto intro!: mult_left_mono power_increasing)
    ultimately show False using go by linarith
  qed
  then show "((maxDist, i + 1, radiuses @ [x]), maxDist, i, radiuses)
      \<in> measure (\<lambda>(m, i, rs). Suc (radius_steps m) - i)" by simp
qed simp

declare radius_loop.simps [simp del]

text \<open>The loop's list is overwritten by a literal before it is returned.\<close>

definition generateRadius :: "real \<Rightarrow> real list" where
  "generateRadius maxDist =
     (let radiuses = radius_loop maxDist 0 [];
          radiuses = [20, 30, 50, 80, 100, 130, 150, 200, 300, 500, 1000, 10000]
      in radiuses)"

definition generateRingID :: "string \<Rightarrow> int \<Rightarrow> string" where
  "generateRingID node ringNumber = node @ ''_'' @ itoa ringNumber"

definition getRingIDFromDistance :: "real \<Rightarrow> int" where
  "getRingIDFromDistance distance = int (length (generateRadius distance)) - 1"

subsection \<open>Generating the rings\<close>

text \<open>\<open>GetByName\<close> followed by a dereference of its result.\<close>

definition deref_name :: "LocalityNodes \<Rightarrow> string \<Rightarrow> node_ptr result" where
  "deref_name ns name =
     res_bind (GetByName ns name) (\<lambda>q. case q of None \<Rightarrow> Inl NilDereference | Some p \<Rightarrow> Inr p)"

definition CoumputeMaxDist ::
  "(string list \<Rightarrow> string list) \<Rightarrow> LocalityNodes \<Rightarrow> node_ptr \<Rightarrow> real result" where
  "CoumputeMaxDist rng ns node =
     res_fold (\<lambda>clusterNode maxDist.
         res_bind (deref_name ns clusterNode) (\<lambda>q.
           let crtDist = ComputeDist (node_at ns node) (node_at ns q)
           in Inr (if crtDist > maxDist then crtDist else maxDist)))
       (rng (map_keys (Cluster (node_at ns node)))) 0"

definition GenerateClusterRings ::
  "(string list \<Rightarrow> string list) \<Rightarrow> node_ptr \<Rightarrow> LocalityNodes \<Rightarrow> LocalityNodes result" where
  "GenerateClusterRings rng node ns =
     res_bind (CoumputeMaxDist rng ns node) (\<lambda>maxDist.
       let radiuses = generateRadius maxDist
       in Inr (update_node node (\<lambda>n.
            let rs = Rings n @ map (\<lambda>i. generateRingID (Name n) (int i)) [0..<length radiuses]
            in n\<lparr>Rings := rs, NrOwnRings := int (length rs)\<rparr>) ns))"

definition join_rings :: "node_ptr \<Rightarrow> string \<Rightarrow> LocalityNodes \<Rightarrow> LocalityNodes result" where
  "join_rings node bunchNodeName ns =
     res_bind (deref_name ns bunchNodeName) (\<lambda>q.
       let ringID = getRingIDFromDistance (ComputeDist (node_at ns node) (node_at ns q))
       in Inr (update_node node (\<lambda>n. n\<lparr>Rings := Rings n @
            map (generateRingID bunchNodeName) [ringID..NrOwnRings (node_at ns q) - 1]\<rparr>) ns))"

definition GenerateBunchRings ::
  "(string list \<Rightarrow> string list) \<Rightarrow> node_ptr \<Rightarrow> LocalityNodes \<Rightarrow> LocalityNodes result" where
  "GenerateBunchRings rng node ns =
     res_fold (join_rings node) (rng (map_keys (Bunch (node_at ns node)))) ns"

definition GenerateRings :: "(string list \<Rightarrow> string list) \<Rightarrow> LocalityNodes \<Rightarrow> LocalityNodes result" where
  "GenerateRings rng ns =
     res_fold (\<lambda>node ns. res_bind (GenerateClusterRings rng node ns) (GenerateBunchRings rng node))
       [0..<nr_nodes ns] ns"

fun ring_nr :: "real \<Rightarrow> real list \<Rightarrow> int \<Rightarrow> int" where
  "ring_nr Dist [] i = -1"
| "ring_nr Dist (d # ds) i = (if Dist < d then i + 1 else ring_nr Dist ds (i + 1))"

definition GetRingNrBasedOnDist ::
  "(string list \<Rightarrow> string list) \<Rightarrow> LocalityNodes \<Rightarrow> node_ptr \<Rightarrow> real \<Rightarrow> int result" where
  "GetRingNrBasedOnDist rng ns node Dist =
     res_bind (CoumputeMaxDist rng ns node) (\<lambda>m. Inr (ring_nr Dist (generateRadius m) 0))"

subsection \<open>Every radius list is the same\<close>

lemma length_generateRadius [simp]: "length (generateRadius d) = 12"
  by (simp add: generateRadius_def)

lemma getRingIDFromDistance_const [simp]: "getRingIDFromDistance d = 11"
  by (simp add: getRingIDFromDistance_def)

lemma deref_name_ok:
  assumes "indexed (All_nodes ns)" "nm \<in> Name ` set (All_nodes ns)"
  obtains q where "q < nr_nodes ns" "nm = Name (node_at ns q)" "deref_name ns nm = Inr q"
proof -
  from assms(2) obtain q where "q < nr_nodes ns" "nm = Name (node_at ns q)"
    by (auto simp: in_set_conv_nth)
  with assms(1) that show ?thesis by (simp add: deref_name_def)
qed

lemma CoumputeMaxDist_total:
  assumes "indexed (All_nodes ns)" "range_order rng"
    and "set (map_keys (Cluster (node_at ns p))) \<subseteq> Name ` set (All_nodes ns)"
  shows "\<exists>m. CoumputeMaxDist rng ns p = Inr m \<and> 0 \<le> m
    \<and> (\<forall>q < nr_nodes ns. Name (node_at ns q) \<in> set (map_keys (Cluster (node_at ns p))) \<longrightarrow>
         ComputeDist (node_at ns p) (node_at ns q) \<le> m)"
proof -
  let ?f = "\<lambda>clusterNode maxDist. res_bind (deref_name ns clusterNode) (\<lambda>q.
     let crtDist = ComputeDist (node_at ns p) (node_at ns q)
     in Inr (if crtDist > maxDist then crtDist else maxDist))"
  have "\<exists>m. res_fold ?f ks m0 = Inr m \<and> m0 \<le> m
      \<and> (\<forall>q < nr_nodes ns. Name (node_at ns q) \<in> set ks \<longrightarrow> ComputeDist (node_at ns p) (node_at ns q) \<le> m)"
    if "set ks \<subseteq> Name ` set (All_nodes ns)" for ks m0
    using that
  proof (induction ks arbitrary: m0)
    case (Cons k ks)
    obtain q where q: "q < nr_nodes ns" "k = Name (node_at ns q)" "deref_name ns k = Inr q"
      using deref_name_ok[OF assms(1), of k] Cons.prems by auto
    let ?d = "ComputeDist (node_at ns p) (node_at ns q)"
    obtain m where m: "res_fold ?f ks (if ?d > m0 then ?d else m0) = Inr m"
      "(if ?d > m0 then ?d else m0) \<le> m"
      "\<forall>q < nr_nodes ns. Name (node_at ns q) \<in> set ks \<longrightarrow> ComputeDist (node_at ns p) (node_at ns q) \<le> m"
      using Cons.IH[of "if ?d > m0 then ?d else m0"] Cons.prems by auto
    have "m0 \<le> m" "?d \<le> m" using m(2) by (auto split: if_splits)
    with m q show ?case by (auto simp: Let_def indexed_inj[OF assms(1)])
  qed simp
  from this[of "rng (map_keys (Cluster (node_at ns p)))" 0] assms(2,3) show ?thesis
    by (simp add: CoumputeMaxDist_def range_order_set)
qed

subsection \<open>The rings a node ends up with\<close>

text \<open>What the rings of a node read of the graph: every bunch and cluster names existing nodes.\<close>

definition rings_input :: "LocalityNodes \<Rightarrow> bool" where
  "rings_input ns \<longleftrightarrow> indexed (All_nodes ns)
     \<and> (\<forall>p < nr_nodes ns. Rings (node_at ns p) = [] \<and> NrOwnRings (node_at ns p) = 0
          \<and> set (map_keys (Cluster (node_at ns p))) \<subseteq> Name ` set (All_nodes ns)
          \<and> set (map_keys (Bunch (node_at ns p))) \<subseteq> Name ` set (All_nodes ns))"

definition name_index :: "string \<Rightarrow> nat" where
  "name_index nm = (case NodeNameToInt nm of Inl _ \<Rightarrow> 0 | Inr i \<Rightarrow> nat i)"

definition own_rings :: "string \<Rightarrow> string list" where
  "own_rings nm = map (generateRingID nm) [0..11]"

definition joined_rings :: "nat \<Rightarrow> string list \<Rightarrow> string list" where
  "joined_rings k nms = map (\<lambda>nm. generateRingID nm 11) (filter (\<lambda>nm. name_index nm \<le> k) nms)"

lemma upto11: "map (\<lambda>i. f (int i)) [0..<12] = map f [0..11]"
  by (simp add: upto.simps upt_conv_Cons)

text \<open>
  The state of the loop before node \<open>k\<close>: the nodes before it are finished, and the others
  as they were.
\<close>

definition ringed :: "(string list \<Rightarrow> string list) \<Rightarrow> LocalityNodes \<Rightarrow> node_ptr \<Rightarrow> LocalityNode" where
  "ringed rng g p = (node_at g p)\<lparr>NrOwnRings := 12, Rings := own_rings (Name (node_at g p))
       @ joined_rings p (rng (map_keys (Bunch (node_at g p))))\<rparr>"

definition rings_done :: "(string list \<Rightarrow> string list) \<Rightarrow> LocalityNodes \<Rightarrow> nat \<Rightarrow> LocalityNodes" where
  "rings_done rng g k =
     g\<lparr>All_nodes := map (\<lambda>p. if p < k then ringed rng g p else node_at g p) [0..<nr_nodes g]\<rparr>"

lemma rings_done_simps [simp]:
  "length (All_nodes (rings_done rng g k)) = nr_nodes g"
  "p < nr_nodes g \<Longrightarrow> node_at (rings_done rng g k) p = (if p < k then ringed rng g p else node_at g p)"
  by (simp_all add: rings_done_def)

lemma ringed_simps [simp]:
  "Name (ringed rng g p) = Name (node_at g p)" "Bunch (ringed rng g p) = Bunch (node_at g p)"
  "Cluster (ringed rng g p) = Cluster (node_at g p)" "NrOwnRings (ringed rng g p) = 12"
  by (simp_all add: ringed_def)

lemma rings_done_0: "rings_done rng g 0 = g"
  by (simp add: rings_done_def map_nth)

lemma rings_done_Suc:
  assumes "k < nr_nodes g"
  shows "update_node k (\<lambda>_. ringed rng g k) (rings_done rng g k) = rings_done rng g (Suc k)"
proof -
  have "(All_nodes (rings_done rng g k))[k := ringed rng g k] = All_nodes (rings_done rng g (Suc k))"
    using assms by (intro nth_equalityI) (auto simp: nth_list_update less_Suc_eq)
  then show ?thesis by (simp add: update_node_def rings_done_def)
qed

lemma rings_done_names: "Name ` set (All_nodes (rings_done rng g k)) = Name ` set (All_nodes g)"
proof -
  have "map Name (All_nodes (rings_done rng g k)) = map Name (All_nodes g)"
    by (intro nth_equalityI) auto
  then show ?thesis by (metis set_map)
qed

lemma name_index_indexed [simp]:
  "indexed vs \<Longrightarrow> p < length vs \<Longrightarrow> name_index (Name (vs ! p)) = p"
  by (simp add: name_index_def indexedD)

text \<open>Joining the rings of the bunch, once the node's own rings are set.\<close>

lemma join_all:
  assumes "indexed (All_nodes ns)" "k < nr_nodes ns"
    and "set nms \<subseteq> Name ` set (All_nodes ns)"
    and "\<And>q. q < nr_nodes ns \<Longrightarrow> NrOwnRings (node_at ns q) = (if q \<le> k then 12 else 0)"
  shows "res_fold (join_rings k) nms ns
    = Inr (update_node k (\<lambda>n. n\<lparr>Rings := Rings n @ joined_rings k nms\<rparr>) ns)"
  using assms
proof (induction nms arbitrary: ns)
  case Nil
  then show ?case by (simp add: joined_rings_def update_node_def)
next
  case (Cons nm nms)
  obtain q where q: "q < nr_nodes ns" "nm = Name (node_at ns q)" "deref_name ns nm = Inr q"
    using deref_name_ok[OF Cons.prems(1), of nm] Cons.prems(3) by auto
  let ?rs = "joined_rings k [nm]"
  let ?ns = "update_node k (\<lambda>n. n\<lparr>Rings := Rings n @ ?rs\<rparr>) ns"
  have nm: "name_index nm = q" using Cons.prems(1) q by simp
  have at: "node_at ?ns p = (if p = k then (node_at ns k)\<lparr>Rings := Rings (node_at ns k) @ ?rs\<rparr> else node_at ns p)"
    if "p < nr_nodes ns" for p using that by (rule node_at_update)
  have "map (generateRingID nm) [11..NrOwnRings (node_at ns q) - 1] = ?rs"
    using nm Cons.prems(4)[OF q(1)] by (simp add: joined_rings_def)
  then have step: "join_rings k nm ns = Inr ?ns"
    using q(3) by (simp add: join_rings_def Let_def)
  have names: "map Name (All_nodes ?ns) = map Name (All_nodes ns)"
    by (intro nth_equalityI) (simp_all add: at)
  have "res_fold (join_rings k) nms ?ns
      = Inr (update_node k (\<lambda>n. n\<lparr>Rings := Rings n @ joined_rings k nms\<rparr>) ?ns)"
  proof (rule Cons.IH)
    show "indexed (All_nodes ?ns)"
      using Cons.prems(1) at by (subst indexed_cong[where vs = "All_nodes ns"]) simp_all
    have "Name ` set (All_nodes ?ns) = Name ` set (All_nodes ns)"
      using arg_cong[OF names, of set] by (simp only: set_map)
    then show "set nms \<subseteq> Name ` set (All_nodes ?ns)"
      using Cons.prems(3) by simp
    show "NrOwnRings (node_at ?ns p) = (if p \<le> k then 12 else 0)" if "p < nr_nodes ?ns" for p
      using at[of p] Cons.prems(4)[of p] that by (simp split: if_splits)
  qed (use Cons.prems(2) in simp)
  also have "update_node k (\<lambda>n. n\<lparr>Rings := Rings n @ joined_rings k nms\<rparr>) ?ns
      = update_node k (\<lambda>n. n\<lparr>Rings := Rings n @ joined_rings k (nm # nms)\<rparr>) ns"
    using Cons.prems(2) by (simp add: update_node_def joined_rings_def)
  finally show ?case using step by simp
qed

lemma rings_step:
  assumes g: "rings_input g" "range_order rng" and k: "k < nr_nodes g"
  shows "res_bind (GenerateClusterRings rng k (rings_done rng g k)) (GenerateBunchRings rng k)
    = Inr (rings_done rng g (Suc k))"
proof -
  let ?s = "rings_done rng g k" and ?nm = "Name (node_at g k)"
  let ?own = "\<lambda>n. n\<lparr>Rings := own_rings ?nm, NrOwnRings := 12\<rparr>"
  let ?s1 = "update_node k ?own ?s"
  let ?ks = "rng (map_keys (Bunch (node_at g k)))"
  have idx: "indexed (All_nodes ?s)" using g(1)
    by (subst indexed_cong[where vs = "All_nodes g"]) (auto simp: rings_input_def)
  have keys: "set (map_keys (Cluster (node_at g k))) \<subseteq> Name ` set (All_nodes g)"
    "set (map_keys (Bunch (node_at g k))) \<subseteq> Name ` set (All_nodes g)"
    "Rings (node_at g k) = []" "\<And>p. p < nr_nodes g \<Longrightarrow> NrOwnRings (node_at g p) = 0"
    using g(1) k by (auto simp: rings_input_def)
  obtain m where "CoumputeMaxDist rng ?s k = Inr m"
    using CoumputeMaxDist_total[OF idx g(2), of k] keys(1) k by (auto simp: rings_done_names)
  then have cl: "GenerateClusterRings rng k ?s = Inr ?s1"
    using k keys(3) upto11[of "generateRingID ?nm"]
    by (simp add: GenerateClusterRings_def Let_def update_node_def own_rings_def)
  have at: "node_at ?s1 p = (if p = k then ?own (node_at g k) else node_at ?s p)"
    if "p < nr_nodes g" for p
    using that k by (subst node_at_update) auto
  have "res_fold (join_rings k) ?ks ?s1
      = Inr (update_node k (\<lambda>n. n\<lparr>Rings := Rings n @ joined_rings k ?ks\<rparr>) ?s1)"
  proof (rule join_all)
    show "indexed (All_nodes ?s1)"
      using idx at by (subst indexed_cong[where vs = "All_nodes ?s"]) auto
    have "map Name (All_nodes ?s1) = map Name (All_nodes g)"
      by (intro nth_equalityI) (simp_all add: at)
    then show "set ?ks \<subseteq> Name ` set (All_nodes ?s1)"
      using keys(2) range_order_set[OF g(2)] by (metis set_map)
  qed (use k at keys(4) in auto)
  moreover have "update_node k (\<lambda>n. n\<lparr>Rings := Rings n @ joined_rings k ?ks\<rparr>) ?s1
      = update_node k (\<lambda>_. ringed rng g k) ?s"
    using k by (simp add: update_node_def ringed_def)
  ultimately show ?thesis
    using cl rings_done_Suc[OF k] at k by (simp add: GenerateBunchRings_def)
qed

lemma GenerateRings_done:
  assumes "rings_input g" "range_order rng"
  shows "GenerateRings rng g = Inr (rings_done rng g (nr_nodes g))"
proof -
  have "k \<le> nr_nodes g \<Longrightarrow>
    res_fold (\<lambda>node ns. res_bind (GenerateClusterRings rng node ns) (GenerateBunchRings rng node)) [0..<k] g
    = Inr (rings_done rng g k)" for k
    by (induction k) (simp_all add: rings_done_0 res_fold_append rings_step[OF assms])
  then show ?thesis by (simp add: GenerateRings_def)
qed

lemma locality_graph_rings_input:
  assumes "locality_graph levels g"
    and "\<And>p. p < nr_nodes g \<Longrightarrow> Rings (node_at g p) = [] \<and> NrOwnRings (node_at g p) = 0"
  shows "rings_input g"
proof -
  have "set (map_keys m) \<subseteq> K" if "key_set K m" for K :: "string set" and m
    using that by (auto simp: key_set_def map_keys_def)
  with assms show ?thesis by (auto simp: rings_input_def locality_graph_def)
qed

text \<open>A node is not in its own bunch, so joining leaves out the node itself.\<close>

lemma not_in_own_bunch:
  assumes "locality_graph levels g" "p < nr_nodes g"
  shows "Name (node_at g p) \<notin> set (map_keys (Bunch (node_at g p)))"
proof
  assume a: "Name (node_at g p) \<in> set (map_keys (Bunch (node_at g p)))"
  have "key_set (Name ` set (All_nodes g)) (Bunch (node_at g p))"
    using assms by (simp add: locality_graph_def)
  with a have "(Name (node_at g p), True) \<in> set (Bunch (node_at g p))" "map_ok (Bunch (node_at g p))"
    by (auto simp: key_set_def map_keys_def)
  then have "(p, p) \<in> bunch_rel g"
    using assms(2) by (simp add: bunch_rel_def has_iff map_ok_def)
  with assms show False by (auto simp: locality_graph_def in_bunch_def bunch_cond_def)
qed

lemma name_index_le_take:
  assumes "indexed vs" "p < length vs" "nm \<in> Name ` set vs" "nm \<noteq> Name (vs ! p)"
  shows "name_index nm \<le> p \<longleftrightarrow> nm \<in> Name ` set (take p vs)"
proof -
  obtain q where q: "q < length vs" "nm = Name (vs ! q)" using assms(3) by (auto simp: in_set_conv_nth)
  have "nm \<in> Name ` set (take p vs) \<longleftrightarrow> (\<exists>r < p. nm = Name (vs ! r))"
    using assms(2) by (auto simp: in_set_conv_nth image_iff Bex_def)
  also have "\<dots> \<longleftrightarrow> q < p" using q assms(1,2) by (auto simp: indexed_inj)
  finally show ?thesis using assms q by (auto simp: order_le_less)
qed

lemma created_rings_input:
  assumes "fresh_nodes ns" "\<forall>v \<in> set (All_nodes ns). Rings v = [] \<and> NrOwnRings v = 0" "CreateLocalityGraph rand ns rc rl levels = Inr g"
  shows "rings_input g"
proof -
  have g: "locality_graph levels g" "nr_nodes g = nr_nodes ns"
    "\<And>p. p < nr_nodes g \<Longrightarrow> same_place (node_at g p) (randomise rand rc rl levels (All_nodes ns) ! p)"
    using CreateLocalityGraph_ok[OF assms(1), of rand rc rl levels] assms(3) by auto
  have "Rings (node_at g p) = [] \<and> NrOwnRings (node_at g p) = 0" if "p < nr_nodes g" for p
    using g(3)[OF that] assms(2) that g(2) list_all2_nthD2[OF randomise_like[of rand rc rl levels "All_nodes ns"], of p]
    by (simp add: same_place_def placed_like_def)
  then show ?thesis by (rule locality_graph_rings_input[OF g(1)])
qed

text \<open>Generating the rings of a freshly built graph never fails. Every node owns twelve rings, one per
  radius, whatever the distances in its cluster; and of the bunch it joins only the outermost
  ring, number 11, and only of the nodes that stand before it in the list, because the nodes after
  it do not own rings yet when it is processed.\<close>

theorem GenerateRings_result:
  assumes "fresh_nodes ns" "range_order rng"
    and "\<forall>v \<in> set (All_nodes ns). Rings v = [] \<and> NrOwnRings v = 0"
  shows "\<exists>g g'. CreateLocalityGraph rand ns rc rl levels = Inr g \<and> GenerateRings rng g = Inr g'
    \<and> (\<forall>p < nr_nodes ns. NrOwnRings (node_at g' p) = 12
        \<and> Rings (node_at g' p) = map (generateRingID (Name (node_at g p))) [0..11]
            @ map (\<lambda>nm. generateRingID nm 11)
                (filter (\<lambda>nm. nm \<in> Name ` set (take p (All_nodes g)))
                  (rng (map_keys (Bunch (node_at g p))))))"
proof -
  obtain g where g: "CreateLocalityGraph rand ns rc rl levels = Inr g" "locality_graph levels g" "nr_nodes g = nr_nodes ns"
    using CreateLocalityGraph_ok[OF assms(1), of rand rc rl levels] by blast
  have input: "rings_input g" by (rule created_rings_input[OF assms(1,3) g(1)])
  have idx: "indexed (All_nodes g)" using g(2) by (simp add: locality_graph_def)
  have "filter (\<lambda>nm. name_index nm \<le> p) (rng (map_keys (Bunch (node_at g p))))
      = filter (\<lambda>nm. nm \<in> Name ` set (take p (All_nodes g))) (rng (map_keys (Bunch (node_at g p))))"
    if p: "p < nr_nodes g" for p
  proof (rule filter_cong[OF refl])
    fix nm assume "nm \<in> set (rng (map_keys (Bunch (node_at g p))))"
    then have "nm \<in> set (map_keys (Bunch (node_at g p)))" using range_order_set[OF assms(2)] by simp
    then have "nm \<in> Name ` set (All_nodes g)" "nm \<noteq> Name (node_at g p)"
      using input p not_in_own_bunch[OF g(2) p] by (auto simp: rings_input_def)
    then show "(name_index nm \<le> p) = (nm \<in> Name ` set (take p (All_nodes g)))"
      by (rule name_index_le_take[OF idx p])
  qed
  then show ?thesis
    using g GenerateRings_done[OF input assms(2)]
    by (simp add: ringed_def own_rings_def joined_rings_def)
qed

theorem GenerateRings_result_witness:
  "\<exists>g g'. CreateLocalityGraph (\<lambda>k. 0) line_nodes False False 3 = Inr g \<and> GenerateRings rev g = Inr g'
    \<and> Rings (node_at g' 0) = map (generateRingID (Name (node_at g 0))) [0..11]"
proof -
  have "\<forall>v \<in> set (All_nodes line_nodes). Rings v = [] \<and> NrOwnRings v = 0"
    by (simp add: line_nodes_def line_node_def)
  moreover have "0 < nr_nodes line_nodes" by (simp add: line_nodes_def)
  ultimately show ?thesis
    using GenerateRings_result[OF line_nodes_fresh range_order_rev, of "\<lambda>k. 0" False False 3]
    by fastforce
qed

lemma ring_nr_spec:
  "ring_nr Dist ds i = (case find (\<lambda>j. Dist < ds ! j) [0..<length ds] of None \<Rightarrow> -1 | Some j \<Rightarrow> i + int j + 1)"
proof (induction ds arbitrary: i)
  case (Cons d ds)
  have "find P (map Suc xs) = map_option Suc (find (\<lambda>j. P (Suc j)) xs)" for P xs
    by (induction xs) auto
  moreover have "[0..<length (d # ds)] = 0 # map Suc [0..<length ds]"
    by (simp add: upt_conv_Cons map_Suc_upt del: upt_Suc)
  ultimately show ?case using Cons by (auto split: option.splits)
qed simp

text \<open>The ring number of a distance is the position, counted from 1, of the first radius that exceeds it,
  for every node whose cluster names existing nodes; distances of 10000 and more have no ring and
  give -1.\<close>

theorem ring_number_of_distance:
  assumes "indexed (All_nodes ns)" "range_order rng"
    and "set (map_keys (Cluster (node_at ns p))) \<subseteq> Name ` set (All_nodes ns)"
  shows "\<exists>r radiuses. GetRingNrBasedOnDist rng ns p Dist = Inr r \<and> length radiuses = 12
    \<and> generateRadius Dist = radiuses \<and> sorted radiuses
    \<and> (if Dist < 10000
       then \<exists>j < 12. r = int j + 1 \<and> Dist < radiuses ! j \<and> (\<forall>i < j. radiuses ! i \<le> Dist)
       else r = -1)"
proof -
  obtain m where m: "CoumputeMaxDist rng ns p = Inr m" using CoumputeMaxDist_total[OF assms] by blast
  define rs where "rs = generateRadius Dist"
  have rs: "generateRadius d = rs" for d by (simp add: rs_def generateRadius_def)
  have s: "sorted rs" "length rs = 12" "rs ! 11 = 10000"
    by (simp_all add: rs_def generateRadius_def)
  define r where "r = ring_nr Dist rs 0"
  have "if Dist < 10000 then \<exists>j < 12. r = int j + 1 \<and> Dist < rs ! j \<and> (\<forall>i < j. rs ! i \<le> Dist) else r = -1"
  proof (cases "find (\<lambda>j. Dist < rs ! j) [0..<length rs]")
    case None
    then have "\<not> Dist < rs ! 11" using s(2) by (simp add: find_None_iff)
    with None s(3) show ?thesis by (simp add: r_def ring_nr_spec)
  next
    case (Some j)
    then have j: "j < 12" "Dist < rs ! j" "\<forall>i < j. \<not> Dist < rs ! i"
      using s(2) by (auto simp: find_Some_iff)
    have "rs ! j \<le> 10000" using sorted_nth_mono[OF s(1), of j 11] j(1) s(2,3) by simp
    with j Some show ?thesis by (auto simp: r_def ring_nr_spec not_less)
  qed
  then show ?thesis using m s(1,2) rs by (auto simp: GetRingNrBasedOnDist_def r_def)
qed

theorem ring_number_of_distance_witness:
  "\<exists>r. GetRingNrBasedOnDist rev line_nodes 0 42 = Inr r \<and> (\<exists>j < 12. r = int j + 1)"
proof -
  have "indexed (All_nodes line_nodes)" using line_nodes_fresh by (simp add: fresh_nodes_def)
  moreover have "set (map_keys (Cluster (node_at line_nodes 0))) \<subseteq> Name ` set (All_nodes line_nodes)"
    by (simp add: line_nodes_def line_node_def map_keys_def)
  ultimately show ?thesis
    using ring_number_of_distance[OF _ range_order_rev, of line_nodes 0 42] by auto
qed

end
