(* ===== verification/Onet_Rings.thy ===== *)
theory Onet_Rings
  imports Ring_Build Node_Rings
begin

text \<open>
  The loop of \<open>CreateOnetRings\<close> (gentree.go) over the radiuses of the rings of one root: the nodes a
  ring may contain, the attempts to build a tree that spans them, the second tree of a ring, and
  the trees that are kept. The graph of neighbours is an argument.
\<close>

subsection \<open>One ring\<close>

text \<open>The parameters that stand for code outside the repository and for the choices of the runtime:
  \<open>onet.NewTreeNode\<close>, \<open>AddChild\<close>, \<open>sort.Sort\<close>, the order of the \<open>range\<close> loops (by ring,
  attempt and call) and \<open>rand.Intn\<close> (by ring and repetition).\<close>

record ring_params =
  Rp_NewTreeNode :: new_node
  Rp_AddChild :: add_child
  Rp_Sort :: "ServerIdentity list \<Rightarrow> ServerIdentity list"
  Rp_range :: "nat \<Rightarrow> nat \<Rightarrow> nat \<Rightarrow> nat \<Rightarrow> string list \<Rightarrow> string list"
  Rp_Intn :: "nat \<Rightarrow> nat \<Rightarrow> nat \<Rightarrow> nat"

record ring_job =
  Rj_all :: LocalityNodes
  Rj_root :: string
  Rj_dist2 :: "node_ptr \<Rightarrow> node_ptr \<Rightarrow> real"
  Rj_neighbors :: "(string, (string, bool) gomap) gomap"

text \<open>\<open>AllowedNodes\<close>: the ends of all pairs within the radius one end of which is the root.\<close>

definition allow_pair :: "ring_job \<Rightarrow> real \<Rightarrow> node_ptr \<times> node_ptr \<Rightarrow> (string, bool) gomap \<Rightarrow> (string, bool) gomap" where
  "allow_pair J radius pq m =
     (let n1 = Name (node_at (Rj_all J) (fst pq)); n2 = Name (node_at (Rj_all J) (snd pq))
      in if (n1 = Rj_root J \<or> n2 = Rj_root J) \<and> Rj_dist2 J (fst pq) (snd pq) \<le> radius
         then map_set (map_set m n1 True) n2 True else m)"

definition allowed_nodes :: "ring_job \<Rightarrow> real \<Rightarrow> (string, bool) gomap" where
  "allowed_nodes J radius =
     fold (allow_pair J radius) (List.product [0..<nr_nodes (Rj_all J)] [0..<nr_nodes (Rj_all J)]) []"

text \<open>The arguments of the search for the first tree of a ring, and for the second one, whose inner
  nodes are to be leaves of the first.\<close>

definition first_args :: "ring_params \<Rightarrow> ring_job \<Rightarrow> real \<Rightarrow> bool \<Rightarrow> search_args" where
  "first_args P J radius relaxed = \<lparr>Sa_NewTreeNode = Rp_NewTreeNode P, Sa_all = Rj_all J, Sa_root = Rj_root J,
     Sa_neighbors = Rj_neighbors J, Sa_allowedNodes = allowed_nodes J radius, Sa_allowedLeafs = [],
     Sa_buildAllowedLeafs = True, Sa_radius = radius, Sa_failedMode = relaxed\<rparr>"

definition second_args :: "ring_params \<Rightarrow> ring_job \<Rightarrow> real \<Rightarrow> string \<Rightarrow> (string, bool) gomap \<Rightarrow> bool \<Rightarrow> search_args" where
  "second_args P J radius nextRootName innerNodes failed = \<lparr>Sa_NewTreeNode = Rp_NewTreeNode P, Sa_all = Rj_all J,
     Sa_root = nextRootName, Sa_neighbors = Rj_neighbors J, Sa_allowedNodes = allowed_nodes J radius,
     Sa_allowedLeafs = innerNodes, Sa_buildAllowedLeafs = False, Sa_radius = radius, Sa_failedMode = failed\<rparr>"

text \<open>Rounds that suffice for a search.\<close>

definition rounds :: "ring_job \<Rightarrow> nat" where
  "rounds J = Suc (nr_nodes (Rj_all J))"

text \<open>The attempts to build the first tree: each works on a copy of the maps; after the twentieth a
  second search continues in the relaxed mode. \<open>None\<close> when the fuel is used up.\<close>

fun tree_attempts ::
  "ring_params \<Rightarrow> ring_job \<Rightarrow> nat \<Rightarrow> real \<Rightarrow> nat \<Rightarrow> nat \<Rightarrow> bool \<Rightarrow> search \<Rightarrow> ((string, bool) gomap \<times> search) option result" where
  "tree_attempts P J i radius 0 attempt relaxed s = Inr None"
| "tree_attempts P J i radius (Suc n) attempt relaxed s =
     res_bind (copy_tree (Rp_NewTreeNode P) (Rp_AddChild P) (Rp_range P i attempt 0 0) (Rj_all J) (Se_tree s)) (\<lambda>t.
     res_bind (dfsBuildTree (Rp_range P i attempt 1) (rounds J) (first_args P J radius relaxed) (s\<lparr>Se_tree := t\<rparr>)) (\<lambda>r1.
       case r1 of
         None \<Rightarrow> Inr None
       | Some (innerNodes, succeeded, s1) \<Rightarrow>
           if succeeded then Inr (Some (innerNodes, s1))
           else if attempt > 20
           then res_bind (dfsBuildTree (Rp_range P i attempt 2) (rounds J) (first_args P J radius True) s1) (\<lambda>r2.
             case r2 of
               None \<Rightarrow> Inr None
             | Some (innerNodes, succeeded, s2) \<Rightarrow>
                 if succeeded then Inr (Some (innerNodes, s2))
                 else tree_attempts P J i radius n (Suc attempt) True s)
           else tree_attempts P J i radius n (Suc attempt) relaxed s))"

text \<open>What \<open>buildOnetTree\<close> returns, without the identifiers \<open>onet\<close> computes.\<close>

record onet_tree =
  Ot_root :: string
  Ot_roster :: "ServerIdentity list"
  Ot_tree :: cells

definition buildOnetTree :: "ring_params \<Rightarrow> ring_job \<Rightarrow> (string list \<Rightarrow> string list) \<Rightarrow> string \<Rightarrow> cells \<Rightarrow> onet_tree result" where
  "buildOnetTree P J rng rootName inTree =
     res_bind (tree_roster (Rp_Sort P) rng (Rj_all J) rootName inTree) (\<lambda>roster.
       Inr \<lparr>Ot_root = rootName, Ot_roster = roster, Ot_tree = inTree\<rparr>)"

text \<open>The second tree: a random node of the roster that is a leaf of the first tree becomes the
  root; the mode is relaxed after ten repetitions, and after twenty the ring has no second
  tree.\<close>

fun second_tree ::
  "ring_params \<Rightarrow> ring_job \<Rightarrow> nat \<Rightarrow> real \<Rightarrow> (string, bool) gomap \<Rightarrow> ServerIdentity list \<Rightarrow> nat \<Rightarrow> nat \<Rightarrow> bool
    \<Rightarrow> onet_tree list option result" where
  "second_tree P J i radius innerNodes roster 0 repeats failed = Inr None"
| "second_tree P J i radius innerNodes roster (Suc n) repeats failed =
     res_bind (slice_get roster (int (Rp_Intn P i repeats (length roster)))) (\<lambda>sid.
       let nextRootName = GetServerIdentityToName (Rj_all J) sid
       in if nextRootName \<noteq> Rj_root J \<and> \<not> has innerNodes nextRootName
          then let failed' = (failed \<or> repeats > 10)
               in res_bind (dfsBuildTree (Rp_range P i repeats 3) (rounds J)
                    (second_args P J radius nextRootName innerNodes failed') (fresh_search (Rj_all J) nextRootName)) (\<lambda>r.
                  case r of
                    None \<Rightarrow> Inr None
                  | Some (_, succeeded, s2) \<Rightarrow>
                      if succeeded
                      then res_bind (buildOnetTree P J (Rp_range P i repeats 4 0) nextRootName (Se_tree s2)) (\<lambda>t.
                        Inr (Some [t]))
                      else if repeats > 20 then Inr (Some [])
                      else second_tree P J i radius innerNodes roster n (Suc repeats) failed')
          else second_tree P J i radius innerNodes roster n (Suc repeats) failed)"

text \<open>One radius, on the maps, the length of the last kept roster and the trees so far. The maps are
  copied back before the tree is judged.\<close>

definition ring_step ::
  "ring_params \<Rightarrow> ring_job \<Rightarrow> nat \<Rightarrow> nat \<Rightarrow> real \<Rightarrow> search \<times> nat \<times> onet_tree list list
    \<Rightarrow> (search \<times> nat \<times> onet_tree list list) option result" where
  "ring_step P J fuel i radius st =
     (case st of (s, previousRingRosterlen, Trees) \<Rightarrow>
        res_bind (tree_attempts P J i radius fuel 0 False s) (\<lambda>r.
          case r of
            None \<Rightarrow> Inr None
          | Some (innerNodes, s1) \<Rightarrow>
              res_bind (copy_tree (Rp_NewTreeNode P) (Rp_AddChild P) (Rp_range P i 0 5 0) (Rj_all J) (Se_tree s1)) (\<lambda>t.
              res_bind (buildOnetTree P J (Rp_range P i 0 6 0) (Rj_root J) t) (\<lambda>tree1.
                let len = length (Ot_roster tree1); s' = s1\<lparr>Se_tree := t\<rparr>
                in if len = previousRingRosterlen \<or> len < 2 then Inr (Some (s', previousRingRosterlen, Trees @ [[]]))
                   else if len > 2
                   then res_bind (second_tree P J i radius innerNodes (Ot_roster tree1) fuel 0 False) (\<lambda>r2.
                     Inr (map_option (\<lambda>t2. (s', len, Trees @ [tree1 # t2])) r2))
                   else Inr (Some (s', len, Trees @ [[tree1]]))))))"

fun ring_loop ::
  "ring_params \<Rightarrow> ring_job \<Rightarrow> nat \<Rightarrow> nat \<Rightarrow> real list \<Rightarrow> search \<times> nat \<times> onet_tree list list
    \<Rightarrow> (search \<times> nat \<times> onet_tree list list) option result" where
  "ring_loop P J fuel i [] st = Inr (Some st)"
| "ring_loop P J fuel i (radius # rs) st =
     res_bind (ring_step P J fuel i radius st) (\<lambda>r.
       case r of None \<Rightarrow> Inr None | Some st' \<Rightarrow> ring_loop P J fuel (Suc i) rs st')"

text \<open>The trees of all rings of a root, for a graph of neighbours.\<close>

definition onet_rings :: "ring_params \<Rightarrow> ring_job \<Rightarrow> nat \<Rightarrow> onet_tree list list option result" where
  "onet_rings P J fuel =
     res_bind (ring_loop P J fuel 0 (generateRadius 10000) (fresh_search (Rj_all J) (Rj_root J), 0, [])) (\<lambda>r.
       Inr (map_option (\<lambda>(s, len, Trees). Trees) r))"

subsection \<open>The nodes of a ring\<close>

lemma allowed_fold:
  "has (fold (allow_pair J r) pqs m) k \<longleftrightarrow> has m k \<or> (\<exists>(p, q) \<in> set pqs.
     (Name (node_at (Rj_all J) p) = Rj_root J \<or> Name (node_at (Rj_all J) q) = Rj_root J) \<and> Rj_dist2 J p q \<le> r
     \<and> (k = Name (node_at (Rj_all J) p) \<or> k = Name (node_at (Rj_all J) q)))"
  by (induction pqs arbitrary: m) (auto simp: allow_pair_def Let_def)

lemma allowed_nodes_iff:
  "has (allowed_nodes J r) k \<longleftrightarrow> (\<exists>p < nr_nodes (Rj_all J). \<exists>q < nr_nodes (Rj_all J).
     (Name (node_at (Rj_all J) p) = Rj_root J \<or> Name (node_at (Rj_all J) q) = Rj_root J) \<and> Rj_dist2 J p q \<le> r
     \<and> (k = Name (node_at (Rj_all J) p) \<or> k = Name (node_at (Rj_all J) q)))"
  unfolding allowed_nodes_def allowed_fold by (simp add: Bex_def)

subsection \<open>The attempts\<close>

definition job_ok :: "ring_params \<Rightarrow> ring_job \<Rightarrow> bool" where
  "job_ok P J \<longleftrightarrow> names_ok (Rj_all J) \<and> Rj_root J \<in> names (Rj_all J)
     \<and> (\<forall>a. set (map_keys (map_get [] (Rj_neighbors J) a)) \<subseteq> names (Rj_all J))
     \<and> inj_on (\<lambda>n. SI_String (identity_of (Rj_all J) n)) (names (Rj_all J))
     \<and> new_node_ok (Rp_NewTreeNode P) \<and> add_child_ok (Rp_AddChild P) \<and> sorter_ok (Rp_Sort P)
     \<and> (\<forall>i a c n. range_order (Rp_range P i a c n)) \<and> (\<forall>i a n. 0 < n \<longrightarrow> Rp_Intn P i a n < n)"

lemma job_okD:
  assumes "job_ok P J"
  shows "names_ok (Rj_all J)" "Rj_root J \<in> names (Rj_all J)"
    "inj_on (\<lambda>n. SI_String (identity_of (Rj_all J) n)) (names (Rj_all J))"
    "new_node_ok (Rp_NewTreeNode P)" "add_child_ok (Rp_AddChild P)" "sorter_ok (Rp_Sort P)"
    "range_order (Rp_range P i a c n)" "0 < m \<Longrightarrow> Rp_Intn P i a m < m"
    "args_ok (first_args P J r b)" "x \<in> names (Rj_all J) \<Longrightarrow> args_ok (second_args P J r x inner b)"
  using assms by (simp_all add: job_ok_def args_ok_def first_args_def second_args_def)

text \<open>The maps between two radiuses: a tree of a search that is at most three links deep.\<close>

definition base_ok :: "ring_params \<Rightarrow> ring_job \<Rightarrow> search \<Rightarrow> bool" where
  "base_ok P J s \<longleftrightarrow> tree_inv (first_args P J 0 False) 3 s \<and> map_ok (Se_tree s)"

lemma tree_inv_first: "tree_inv (first_args P J r b) D s = tree_inv (first_args P J 0 False) D s"
  by (simp add: tree_inv_def child_inv_def parent_inv_def root_inv_def first_args_def)

lemma tree_inv_tree:
  assumes "cell u = cell (Se_tree s)"
  shows "tree_inv A D (s\<lparr>Se_tree := u\<rparr>) = tree_inv A D s"
  by (simp add: tree_inv_def child_inv_def parent_inv_def root_inv_def assms)

lemma copy_base:
  assumes J: "job_ok P J" and s: "base_ok P J s"
  shows "\<exists>t. copy_tree (Rp_NewTreeNode P) (Rp_AddChild P) (Rp_range P i a c n) (Rj_all J) (Se_tree s) = Inr t
    \<and> cell t = cell (Se_tree s) \<and> base_ok P J (s\<lparr>Se_tree := t\<rparr>)"
proof -
  have "copyable (Rj_all J) (Se_tree s)"
    using tree_inv_copyable[of "first_args P J 0 False" 3 s] s by (simp add: base_ok_def first_args_def)
  from copied[OF job_okD(1,4,5)[OF J] job_okD(7)[OF J, of i a c n] this] obtain t where
    "copy_tree (Rp_NewTreeNode P) (Rp_AddChild P) (Rp_range P i a c n) (Rj_all J) (Se_tree s) = Inr t"
    "cell t = cell (Se_tree s)" "map_ok t" by blast
  then show ?thesis using s by (auto simp: base_ok_def tree_inv_tree)
qed

lemma build_base:
  assumes J: "job_ok P J" and s: "base_ok P J s"
  shows "\<exists>inner ok s'. dfsBuildTree (Rp_range P i a c) (rounds J) (first_args P J r b) s = Inr (Some (inner, ok, s'))
    \<and> base_ok P J s' \<and> grows (Se_tree s) (Se_tree s') \<and> cell (Se_tree s') (Rj_root J) \<noteq> None
    \<and> ok = (\<not> search_failed (first_args P J r b) s')"
proof -
  let ?A = "first_args P J r b"
  have I: "tree_inv ?A 3 s" "map_ok (Se_tree s)" using s tree_inv_first[of P J r b 3 s] by (simp_all add: base_ok_def)
  have "depth_limit ?A \<le> 3" "nr_nodes (Sa_all ?A) < rounds J" by (simp_all add: depth_limit_def rounds_def first_args_def)
  from dijkstra_ok[where rng = "Rp_range P i a c", OF job_okD(9)[OF J] I(1) this(1) job_okD(7)[OF J] this(2)]
  obtain s' where s': "dijkstra (Rp_range P i a c) (rounds J) ?A s = Inr (Some (\<not> search_failed ?A s', s'))"
    "tree_inv ?A 3 s'" "cell (Se_tree s') (Sa_root ?A) \<noteq> None" by blast
  have g: "grows (Se_tree s) (Se_tree s')" by (rule dijkstra_grows[OF s'(1)])
  then have "map_ok (Se_tree s')" using I(2) by (simp add: grows_def)
  then have "base_ok P J s'" using s'(2) tree_inv_first[of P J r b 3 s'] by (simp add: base_ok_def)
  with s' g show ?thesis by (simp add: dfsBuildTree_def first_args_def)
qed

text \<open>A ring that is built contains all nodes it may contain.\<close>

definition covers :: "ring_job \<Rightarrow> real \<Rightarrow> search \<Rightarrow> bool" where
  "covers J r s \<longleftrightarrow> (\<forall>k \<in> names (Rj_all J). has (allowed_nodes J r) k \<longrightarrow> cell (Se_tree s) k \<noteq> None)"

lemma built_covers:
  assumes "base_ok P J s" "\<not> search_failed (first_args P J r b) s" "cell (Se_tree s) (Rj_root J) \<noteq> None"
  shows "covers J r s"
proof -
  let ?A = "first_args P J r b"
  have R: "root_inv ?A s" using assms(1) tree_inv_first[of P J r b 3 s] by (simp add: base_ok_def tree_inv_def)
  have "cell (Se_tree s) k \<noteq> None" if "k \<in> names (Rj_all J)" "has (allowed_nodes J r) k" for k
  proof -
    have "dist_at s k < 60000"
      using assms(2) that root_invD(3)[OF R] by (auto simp: search_failed_def first_args_def)
    then show ?thesis using root_invD(4)[OF R, of k] that(1) assms(3) by (fastforce simp: first_args_def)
  qed
  then show ?thesis by (simp add: covers_def)
qed

lemma attempts_base:
  assumes J: "job_ok P J" and s: "base_ok P J s"
  shows "\<exists>r. tree_attempts P J i radius fuel a relaxed s = Inr r
    \<and> (\<forall>inner s'. r = Some (inner, s') \<longrightarrow> base_ok P J s' \<and> grows (Se_tree s) (Se_tree s')
        \<and> cell (Se_tree s') (Rj_root J) \<noteq> None \<and> covers J radius s')"
proof (induction fuel arbitrary: a relaxed)
  case (Suc n)
  obtain t where t: "copy_tree (Rp_NewTreeNode P) (Rp_AddChild P) (Rp_range P i a 0 0) (Rj_all J) (Se_tree s) = Inr t"
    "cell t = cell (Se_tree s)" "base_ok P J (s\<lparr>Se_tree := t\<rparr>)" using copy_base[OF J s] by blast
  have gt: "grows (Se_tree s) t" using t(2,3) by (simp add: grows_def base_ok_def)
  obtain inner1 ok1 s1 where s1: "dfsBuildTree (Rp_range P i a 1) (rounds J) (first_args P J radius relaxed) (s\<lparr>Se_tree := t\<rparr>)
      = Inr (Some (inner1, ok1, s1))" "base_ok P J s1" "grows t (Se_tree s1)" "cell (Se_tree s1) (Rj_root J) \<noteq> None"
    "ok1 = (\<not> search_failed (first_args P J radius relaxed) s1)" using build_base[OF J t(3)] by fastforce
  obtain inner2 ok2 s2 where s2: "dfsBuildTree (Rp_range P i a 2) (rounds J) (first_args P J radius True) s1
      = Inr (Some (inner2, ok2, s2))" "base_ok P J s2" "grows (Se_tree s1) (Se_tree s2)" "cell (Se_tree s2) (Rj_root J) \<noteq> None"
    "ok2 = (\<not> search_failed (first_args P J radius True) s2)" using build_base[OF J s1(2)] by blast
  have g1: "grows (Se_tree s) (Se_tree s1)" using grows_trans[OF gt s1(3)] .
  have g2: "grows (Se_tree s) (Se_tree s2)" using grows_trans[OF g1 s2(3)] .
  note c1 = built_covers[OF s1(2) _ s1(4)] and c2 = built_covers[OF s2(2) _ s2(4)]
  show ?case
    using Suc.IH[of "Suc a" relaxed] Suc.IH[of "Suc a" True] t(1) s1 s2 g1 g2 c1 c2 by simp
qed simp

subsection \<open>Rosters\<close>

definition tree_names :: "cells \<Rightarrow> string set" where
  "tree_names t = {k. cell t k \<noteq> None}"

lemma tree_inv_ids:
  assumes "args_ok A" "tree_inv A D s" "map_ok (Se_tree s)"
  shows "tree_ids_ok (Sa_all A) (Se_tree s)" "tree_names (Se_tree s) \<subseteq> names (Sa_all A)"
proof -
  have C: "child_inv A s" using assms(2) by (simp add: tree_inv_def)
  have "k \<in> names (Sa_all A) \<and> Tc_identity c = Some (identity_of (Sa_all A) k)" if "cell (Se_tree s) k = Some c" for k c
    using child_invD(1)[OF C that] identity_of_ok(1)[OF args_okD(1)[OF assms(1)], of k] by (simp add: cell_ok_def)
  then show "tree_ids_ok (Sa_all A) (Se_tree s)" "tree_names (Se_tree s) \<subseteq> names (Sa_all A)"
    using assms(3) by (auto simp: tree_ids_ok_def tree_names_def)
qed

lemma canonical_roster_names:
  assumes "names_ok all" "tree_names t \<subseteq> names all" "cell t r \<noteq> None"
  shows "set (canonical_roster all r t) = identity_of all ` tree_names t"
    "length (canonical_roster all r t) = card (tree_names t)"
proof -
  let ?ns = "filter (\<lambda>n. n \<noteq> r \<and> cell t n \<noteq> None) (map Name (All_nodes all))"
  have ns: "insert r (set ?ns) = tree_names t" "r \<notin> set ?ns" using assms(2,3) by (auto simp: tree_names_def names_def)
  show "set (canonical_roster all r t) = identity_of all ` tree_names t"
    unfolding ns(1)[symmetric] by (simp add: canonical_roster_def)
  have "distinct ?ns" using distinct_names[OF assms(1)] by (rule distinct_filter)
  then have "card (set ?ns) = length ?ns" by (rule distinct_card)
  then have "card (insert r (set ?ns)) = Suc (length ?ns)" using card_insert_disjoint[OF finite_set ns(2)] by (rule trans[rotated, OF arg_cong])
  then show "length (canonical_roster all r t) = card (tree_names t)" unfolding ns(1) by (simp add: canonical_roster_def)
qed

lemma identity_of_inj: "names_ok all \<Longrightarrow> inj_on (identity_of all) (names all)"
  using identity_of_ok(2)[of all] by (metis inj_onI)

lemma build_roster:
  assumes J: "job_ok P J" and t: "tree_ids_ok (Rj_all J) t" "tree_names t \<subseteq> names (Rj_all J)" "cell t r \<noteq> None"
  shows "\<exists>tree. buildOnetTree P J (Rp_range P i a c n) r t = Inr tree \<and> set (Ot_roster tree) = identity_of (Rj_all J) ` tree_names t
    \<and> length (Ot_roster tree) = card (tree_names t)"
  using roster_order[OF job_okD(1)[OF J] t(1,3) job_okD(6,7,3)[OF J]] canonical_roster_names[OF job_okD(1)[OF J] t(2,3)]
  by (simp add: buildOnetTree_def)

lemma base_roster:
  assumes J: "job_ok P J" and s: "base_ok P J s" "cell (Se_tree s) (Rj_root J) \<noteq> None"
  shows "\<exists>tree. buildOnetTree P J (Rp_range P i a c n) (Rj_root J) (Se_tree s) = Inr tree
    \<and> set (Ot_roster tree) = identity_of (Rj_all J) ` tree_names (Se_tree s)
    \<and> length (Ot_roster tree) = card (tree_names (Se_tree s)) \<and> tree_names (Se_tree s) \<subseteq> names (Rj_all J)"
proof -
  have "tree_ids_ok (Rj_all J) (Se_tree s)" "tree_names (Se_tree s) \<subseteq> names (Rj_all J)"
    using tree_inv_ids[OF job_okD(9)[OF J, of 0 False], of 3 s] s(1) by (simp_all add: base_ok_def first_args_def)
  with build_roster[OF J this s(2)] show ?thesis by blast
qed

lemma fresh_map_ok: "names_ok all \<Longrightarrow> map_ok (Se_tree (fresh_search all r))"
  using distinct_names[of all] by (simp add: fresh_search_def map_ok_def comp_def)

lemma second_tree_total:
  assumes J: "job_ok P J" and roster: "roster \<noteq> []" "set roster \<subseteq> identity_of (Rj_all J) ` names (Rj_all J)"
  shows "\<exists>r. second_tree P J i radius inner roster fuel a failed = Inr r"
proof (induction fuel arbitrary: a failed)
  case (Suc n)
  let ?k = "Rp_Intn P i a (length roster)"
  have k: "?k < length roster" using job_okD(8)[OF J] roster(1) by simp
  then obtain x where x: "x \<in> names (Rj_all J)" "roster ! ?k = identity_of (Rj_all J) x" using roster(2) nth_mem by blast
  let ?f = "failed \<or> 10 < a" and ?s = "fresh_search (Rj_all J) x"
  let ?A = "second_args P J radius x inner ?f"
  have A: "args_ok ?A" "Sa_all ?A = Rj_all J" "Sa_root ?A = x" "nr_nodes (Sa_all ?A) < rounds J"
    using job_okD(10)[OF J x(1)] by (simp_all add: second_args_def rounds_def)
  have "tree_inv ?A (depth_limit ?A) ?s" using fresh_inv[of ?A] x(1) A(2,3) by simp
  from dijkstra_ok[where rng = "Rp_range P i a 3", OF A(1) this order_refl job_okD(7)[OF J] A(4)]
  obtain s' where s': "dijkstra (Rp_range P i a 3) (rounds J) ?A ?s = Inr (Some (\<not> search_failed ?A s', s'))"
    "tree_inv ?A (depth_limit ?A) s'" "cell (Se_tree s') x \<noteq> None" using A(3) by auto
  have "map_ok (Se_tree s')" using dijkstra_grows[OF s'(1)] fresh_map_ok[OF job_okD(1)[OF J]] by (simp add: grows_def)
  from tree_inv_ids[OF A(1) s'(2) this] obtain tree where "buildOnetTree P J (Rp_range P i a 4 0) x (Se_tree s') = Inr tree"
    using build_roster[OF J _ _ s'(3)] A(2) by metis
  moreover have "GetServerIdentityToName (Rj_all J) (roster ! ?k) = x" using identity_of_ok(2)[OF job_okD(1)[OF J] x(1)] x(2) by simp
  ultimately show ?case using k s'(1) Suc.IH[of "Suc a" failed] Suc.IH[of "Suc a" ?f] by (simp add: dfsBuildTree_def Let_def)
qed simp

subsection \<open>The rings of a root\<close>

text \<open>The kept trees for the radiuses \<open>rs\<close>: the roster of a first tree is a set of nodes of the
  current tree, not larger than the last kept roster; it contains the nodes its ring may contain;
  and the rosters of later rings are larger.\<close>

abbreviation first_roster :: "onet_tree list \<Rightarrow> ServerIdentity set" where
  "first_roster ts \<equiv> set (Ot_roster (hd ts))"

definition rings_inv :: "ring_params \<Rightarrow> ring_job \<Rightarrow> real list \<Rightarrow> search \<times> nat \<times> onet_tree list list \<Rightarrow> bool" where
  "rings_inv P J rs st = (case st of (s, len, Trees) \<Rightarrow>
     base_ok P J s \<and> len \<le> card (tree_names (Se_tree s)) \<and> length Trees = length rs
     \<and> (\<forall>r \<in> set rs. covers J r s)
     \<and> (\<forall>i < length Trees. Trees ! i \<noteq> [] \<longrightarrow>
          (\<exists>D \<subseteq> tree_names (Se_tree s). first_roster (Trees ! i) = identity_of (Rj_all J) ` D \<and> card D \<le> len)
          \<and> (\<forall>k \<in> names (Rj_all J). has (allowed_nodes J (rs ! i)) k \<longrightarrow> identity_of (Rj_all J) k \<in> first_roster (Trees ! i))
          \<and> (\<forall>j < i. Trees ! j \<noteq> [] \<longrightarrow> first_roster (Trees ! j) \<subset> first_roster (Trees ! i))))"

lemma rings_invD:
  assumes "rings_inv P J rs (s, len, Trees)" "i < length Trees" "Trees ! i \<noteq> []"
  shows "\<exists>D \<subseteq> tree_names (Se_tree s). first_roster (Trees ! i) = identity_of (Rj_all J) ` D \<and> card D \<le> len"
    "k \<in> names (Rj_all J) \<Longrightarrow> has (allowed_nodes J (rs ! i)) k \<Longrightarrow> identity_of (Rj_all J) k \<in> first_roster (Trees ! i)"
    "j < i \<Longrightarrow> Trees ! j \<noteq> [] \<Longrightarrow> first_roster (Trees ! j) \<subset> first_roster (Trees ! i)"
  using assms by (simp_all add: rings_inv_def)

lemma covers_grows: "covers J r s \<Longrightarrow> grows (Se_tree s) (Se_tree s') \<Longrightarrow> covers J r s'"
  by (simp add: covers_def grows_def)

lemma rings_covers:
  assumes "rings_inv P J rs (s, len, Trees)" "grows (Se_tree s) (Se_tree s')" "covers J r s'" "q \<in> set (rs @ [r])"
  shows "covers J q s'"
  using assms covers_grows[of J q s s'] by (auto simp: rings_inv_def)

lemma rings_skip:
  assumes "rings_inv P J rs (s, len, Trees)" "base_ok P J s'" "grows (Se_tree s) (Se_tree s')" "finite (tree_names (Se_tree s'))"
    and "covers J r s'"
  shows "rings_inv P J (rs @ [r]) (s', len, Trees @ [[]])"
proof -
  have sub: "tree_names (Se_tree s) \<subseteq> tree_names (Se_tree s')" using assms(3) by (auto simp: grows_def tree_names_def)
  then have "card (tree_names (Se_tree s)) \<le> card (tree_names (Se_tree s'))" by (rule card_mono[OF assms(4)])
  moreover have "\<exists>D \<subseteq> tree_names (Se_tree s'). first_roster (Trees ! i) = identity_of (Rj_all J) ` D \<and> card D \<le> len"
    if "i < length Trees" "Trees ! i \<noteq> []" for i
    using rings_invD(1)[OF assms(1) that] sub by (meson subset_trans)
  ultimately show ?thesis
    using assms(1,2) rings_covers[OF assms(1,3,5)] unfolding rings_inv_def by (simp add: nth_append less_Suc_eq)
qed

lemma rings_keep:
  assumes I: "rings_inv P J rs (s, len, Trees)" and s': "base_ok P J s'" "grows (Se_tree s) (Se_tree s')" "covers J r s'"
    and N: "names_ok (Rj_all J)" "tree_names (Se_tree s') \<subseteq> names (Rj_all J)"
    and t: "set (Ot_roster tree) = identity_of (Rj_all J) ` tree_names (Se_tree s')" "card (tree_names (Se_tree s')) \<noteq> len"
  shows "rings_inv P J (rs @ [r]) (s', card (tree_names (Se_tree s')), Trees @ [tree # ts])"
proof -
  let ?T = "tree_names (Se_tree s')" and ?id = "identity_of (Rj_all J)"
  have fin: "finite ?T" using finite_subset[OF N(2) names_finite] .
  have sub: "tree_names (Se_tree s) \<subseteq> ?T" using s'(2) by (auto simp: grows_def tree_names_def)
  have L: "len < card ?T" using I t(2) card_mono[OF fin sub] by (simp add: rings_inv_def)
  have old: "(\<exists>D \<subseteq> ?T. first_roster (Trees ! i) = ?id ` D \<and> card D \<le> card ?T)
      \<and> first_roster (Trees ! i) \<subset> ?id ` ?T" if i: "i < length Trees" "Trees ! i \<noteq> []" for i
  proof -
    obtain D where D: "D \<subseteq> tree_names (Se_tree s)" "first_roster (Trees ! i) = ?id ` D" "card D \<le> len"
      using rings_invD(1)[OF I i] by blast
    have DT: "D \<subseteq> ?T" using D(1) sub by (rule subset_trans)
    have "D \<noteq> ?T" using D(3) L by auto
    then have "?id ` D \<noteq> ?id ` ?T"
      using inj_on_image_eq_iff[OF identity_of_inj[OF N(1)] subset_trans[OF DT N(2)] N(2)] by simp
    then have "?id ` D \<subset> ?id ` ?T" using image_mono[OF DT] by (rule psubsetI[rotated])
    moreover have "card D \<le> card ?T" using D(3) L by linarith
    ultimately show ?thesis using D(2) DT by blast
  qed
  have "?id k \<in> ?id ` ?T" if "k \<in> names (Rj_all J)" "has (allowed_nodes J r) k" for k
    using s'(3) that by (auto simp: covers_def tree_names_def)
  then have new: "(\<exists>D \<subseteq> ?T. set (Ot_roster tree) = ?id ` D \<and> card D \<le> card ?T)
      \<and> (\<forall>k \<in> names (Rj_all J). has (allowed_nodes J r) k \<longrightarrow> ?id k \<in> set (Ot_roster tree))" using t(1) by auto
  show ?thesis
    unfolding rings_inv_def prod.case
  proof (intro conjI allI impI)
    fix i assume i: "i < length (Trees @ [tree # ts])" "(Trees @ [tree # ts]) ! i \<noteq> []"
    have len: "length Trees = length rs" using I by (simp add: rings_inv_def)
    show "\<exists>D \<subseteq> ?T. first_roster ((Trees @ [tree # ts]) ! i) = ?id ` D \<and> card D \<le> card ?T"
      using i old[of i] new by (cases "i < length Trees") (auto simp: nth_append less_Suc_eq)
    show "\<forall>k \<in> names (Rj_all J). has (allowed_nodes J ((rs @ [r]) ! i)) k \<longrightarrow> ?id k \<in> first_roster ((Trees @ [tree # ts]) ! i)"
      using i rings_invD(2)[OF I, of i] new len by (cases "i < length Trees") (auto simp: nth_append less_Suc_eq)
    fix j assume "j < i" "(Trees @ [tree # ts]) ! j \<noteq> []"
    then show "first_roster ((Trees @ [tree # ts]) ! j) \<subset> first_roster ((Trees @ [tree # ts]) ! i)"
      using i rings_invD(3)[OF I, of i j] old[of j] t(1) by (cases "i < length Trees") (auto simp: nth_append less_Suc_eq)
  next
    show "\<forall>q \<in> set (rs @ [r]). covers J q s'" using rings_covers[OF I s'(2,3)] by blast
  qed (use I s'(1) in \<open>simp_all add: rings_inv_def\<close>)
qed

lemma ring_step_inv:
  assumes J: "job_ok P J" and I: "rings_inv P J rs st" and i: "i = length rs"
  shows "\<exists>x. ring_step P J fuel i r st = Inr x \<and> (\<forall>st'. x = Some st' \<longrightarrow> rings_inv P J (rs @ [r]) st')"
proof -
  obtain s len Trees where st: "st = (s, len, Trees)" by (cases st)
  have s: "base_ok P J s" using I by (simp add: st rings_inv_def)
  obtain x where x: "tree_attempts P J i r fuel 0 False s = Inr x" "\<And>inner s'. x = Some (inner, s') \<Longrightarrow> base_ok P J s'
      \<and> grows (Se_tree s) (Se_tree s') \<and> cell (Se_tree s') (Rj_root J) \<noteq> None \<and> covers J r s'"
    using attempts_base[OF J s] by blast
  show ?thesis
  proof (cases x)
    case (Some y)
    obtain inner s1 where y: "y = (inner, s1)" by (cases y)
    note s1 = x(2)[OF Some[unfolded y]]
    obtain t where t: "copy_tree (Rp_NewTreeNode P) (Rp_AddChild P) (Rp_range P i 0 5 0) (Rj_all J) (Se_tree s1) = Inr t"
      "cell t = cell (Se_tree s1)" "base_ok P J (s1\<lparr>Se_tree := t\<rparr>)" using copy_base[OF J] s1 by blast
    let ?s = "s1\<lparr>Se_tree := t\<rparr>"
    have root: "cell (Se_tree ?s) (Rj_root J) \<noteq> None" using s1 t(2) by simp
    from base_roster[OF J t(3) root] obtain tree where tree: "buildOnetTree P J (Rp_range P i 0 6 0) (Rj_root J) t = Inr tree"
      "set (Ot_roster tree) = identity_of (Rj_all J) ` tree_names t" "length (Ot_roster tree) = card (tree_names t)"
      "tree_names t \<subseteq> names (Rj_all J)" by fastforce
    have g: "grows (Se_tree s) (Se_tree ?s)" "covers J r ?s" using s1 t(2,3) by (auto simp: grows_def covers_def base_ok_def)
    have fin: "finite (tree_names t)" using finite_subset[OF tree(4) names_finite] .
    have keep: "card (tree_names t) \<noteq> len \<Longrightarrow> rings_inv P J (rs @ [r]) (?s, card (tree_names t), Trees @ [tree # ts])" for ts
      using rings_keep[OF I[unfolded st] t(3) g job_okD(1)[OF J]] tree(2,4) by simp
    have skip: "rings_inv P J (rs @ [r]) (?s, len, Trees @ [[]])"
      using rings_skip[OF I[unfolded st] t(3) g(1) _ g(2)] fin by simp
    obtain z where "2 < length (Ot_roster tree) \<Longrightarrow> second_tree P J i r inner (Ot_roster tree) fuel 0 False = Inr z"
      using second_tree_total[OF J, of "Ot_roster tree"] tree(2,4) by fastforce
    then show ?thesis
      using x(1) Some y t(1) tree(1,3) keep skip by (auto simp: ring_step_def st Let_def)
  qed (use x st in \<open>simp add: ring_step_def\<close>)
qed

lemma ring_loop_inv:
  assumes J: "job_ok P J"
  shows "rings_inv P J rs0 st \<Longrightarrow> \<exists>x. ring_loop P J fuel (length rs0) rs st = Inr x
    \<and> (\<forall>st'. x = Some st' \<longrightarrow> rings_inv P J (rs0 @ rs) st')"
proof (induction rs arbitrary: rs0 st)
  case (Cons r rs)
  obtain x where x: "ring_step P J fuel (length rs0) r st = Inr x" "\<And>st'. x = Some st' \<Longrightarrow> rings_inv P J (rs0 @ [r]) st'"
    using ring_step_inv[OF J Cons.prems refl] by blast
  show ?case
  proof (cases x)
    case (Some st')
    then show ?thesis using Cons.IH[OF x(2)[OF Some]] x(1) by simp
  qed (use x(1) in simp)
qed auto

lemma onet_rings_inv:
  assumes J: "job_ok P J"
  shows "\<exists>x. onet_rings P J fuel = Inr x
    \<and> (\<forall>Trees. x = Some Trees \<longrightarrow> (\<exists>s len. rings_inv P J (generateRadius 10000) (s, len, Trees)))"
proof -
  let ?s = "fresh_search (Rj_all J) (Rj_root J)"
  have "tree_inv (first_args P J 0 False) 3 ?s"
    using fresh_inv[of "first_args P J 0 False" 3] job_okD(2)[OF J] by (simp add: first_args_def)
  then have "rings_inv P J [] (?s, 0, [])"
    using fresh_map_ok[OF job_okD(1)[OF J]] by (simp add: rings_inv_def base_ok_def)
  from ring_loop_inv[OF J this, of fuel "generateRadius 10000"] obtain x where
    x: "ring_loop P J fuel 0 (generateRadius 10000) (?s, 0, []) = Inr x"
    "\<And>st. x = Some st \<Longrightarrow> rings_inv P J (generateRadius 10000) st" by auto
  show ?thesis
  proof (cases x)
    case (Some st)
    then show ?thesis using x by (cases st) (auto simp: onet_rings_def)
  qed (use x(1) in \<open>simp add: onet_rings_def\<close>)
qed


text \<open>C31: Building the rings does not panic, but it does not end when a node within one of the
  radiuses cannot be reached from the root over at most three links: the attempts for that ring
  are repeated for ever, whatever the order of the \<open>range\<close> loops.\<close>

theorem rings_diverge:
  assumes "job_ok P J" "r \<in> set (generateRadius 10000)" "k \<in> names (Rj_all J)" "has (allowed_nodes J r) k"
    and "\<And>ps. ps \<noteq> [] \<Longrightarrow> hd ps = Rj_root J \<Longrightarrow> last ps = k \<Longrightarrow> length ps \<le> 4 \<Longrightarrow>
      \<not> successively (\<lambda>a b. has (map_get [] (Rj_neighbors J) a) b) ps"
  shows "onet_rings P J fuel = Inr None"
proof (rule ccontr)
  assume "onet_rings P J fuel \<noteq> Inr None"
  then obtain Trees s len where I: "rings_inv P J (generateRadius 10000) (s, len, Trees)"
    using onet_rings_inv[OF assms(1), of fuel] by (metis option.exhaust)
  let ?A = "first_args P J 0 False"
  have T: "tree_inv ?A 3 s" using I by (simp add: rings_inv_def base_ok_def)
  have "covers J r s" using I assms(2) by (simp add: rings_inv_def)
  then have k: "cell (Se_tree s) k \<noteq> None" using assms(3,4) by (simp add: covers_def)
  then obtain c where c: "cell (Se_tree s) k = Some c" by blast
  have "depth_at s k \<le> 3"
    using parent_invD(5)[of ?A 3 s k c] child_invD(6)[of ?A s k c] root_invD(1)[of ?A s] T c
    by (cases "Tc_parent c") (auto simp: tree_inv_def)
  moreover obtain ps where ps: "ps \<noteq> []" "hd ps = Rj_root J" "last ps = k" "successively (tree_link ?A s) ps"
    "int (length ps) = depth_at s k + 1" using tree_path[OF T k] by (auto simp: first_args_def)
  moreover have "successively (\<lambda>a b. has (map_get [] (Rj_neighbors J) a) b) ps"
    using ps(4) by (rule successively_mono) (simp add: tree_link_def first_args_def)
  ultimately show False using assms(5)[of ps] by auto
qed

subsection \<open>The rings of a graph of two nodes\<close>

definition duo_params :: ring_params where
  "duo_params = \<lparr>Rp_NewTreeNode = plain_node, Rp_AddChild = plain_add, Rp_Sort = sort_key SI_String,
     Rp_range = (\<lambda>i a c n xs. xs), Rp_Intn = (\<lambda>i a n. 0)\<rparr>"

definition duo_job :: "(string, (string, bool) gomap) gomap \<Rightarrow> ring_job" where
  "duo_job nbrs = \<lparr>Rj_all = duo_nodes, Rj_root = ''node_0'', Rj_dist2 = (\<lambda>a b. 3), Rj_neighbors = nbrs\<rparr>"

definition duo_links :: "(string, (string, bool) gomap) gomap" where
  "duo_links = [(''node_0'', [(''node_1'', True)]), (''node_1'', [(''node_0'', True)])]"

lemma duo_names: "names duo_nodes = {''node_0'', ''node_1''}"
  by (simp add: names_def duo_nodes_def duo_node_def)

lemma duo_job_ok: "nbrs = duo_links \<or> nbrs = [] \<Longrightarrow> job_ok duo_params (duo_job nbrs)"
  using duo_names_ok plain_ok unfolding job_ok_def
  by (auto simp: duo_job_def duo_params_def duo_names duo_links_def map_get_def map_keys_def sorter_ok_def duo_ids duo_node_def split: if_splits)

lemma duo_allowed: "3 \<le> r \<Longrightarrow> allowed_nodes (duo_job nbrs) r = [(''node_0'', True), (''node_1'', True)]"
  by (simp add: allowed_nodes_def duo_job_def duo_nodes_def duo_node_def allow_pair_def map_set_def eval_nat_numeral upt_rec Let_def)

theorem rings_diverge_witness: "onet_rings duo_params (duo_job []) 1000 = Inr None"
proof (rule rings_diverge[of _ _ 20 "''node_1''"])
  show "job_ok duo_params (duo_job [])" by (rule duo_job_ok) simp
  show "(20 :: real) \<in> set (generateRadius 10000)" by (simp add: generateRadius_def)
  show "''node_1'' \<in> names (Rj_all (duo_job []))" by (simp add: duo_job_def duo_names)
  show "has (allowed_nodes (duo_job []) 20) ''node_1''" by (simp add: duo_allowed map_get_def)
  fix ps :: "string list"
  assume "ps \<noteq> []" "hd ps = Rj_root (duo_job [])" "last ps = ''node_1''"
  then obtain a b qs where "ps = a # b # qs" by (cases ps rule: remdups_adj.cases) (auto simp: duo_job_def)
  then show "\<not> successively (\<lambda>a b. has (map_get [] (Rj_neighbors (duo_job [])) a) b) ps" by (simp add: duo_job_def)
qed

definition duo_built :: search where
  "duo_built = \<lparr>Se_visited = [(''node_0'', True), (''node_1'', True)], Se_distances = [(''node_0'', 0), (''node_1'', 3)],
    Se_tree = duo_cells, Se_depth = [(''node_0'', 0), (''node_1'', 1)]\<rparr>"

lemmas duo_eval = search_round_def pick_node_def pick_step_def visit_node_def make_node_def try_neighbor_def should_relax_def
  relax_def detach_def duo_lookups duo_nodes_made duo_name_ints map_get_def map_set_def map_keys_def plain_node_def first_args_def
  duo_params_def duo_allowed

lemma duo_job_fields: "Rj_all (duo_job n) = duo_nodes" "Rj_root (duo_job n) = ''node_0''" "Rj_neighbors (duo_job n) = n"
  by (simp_all add: duo_job_def)

lemma duo_first_search:
  assumes "3 \<le> r" "s = fresh_search duo_nodes ''node_0'' \<or> s = duo_built"
  shows "dijkstra (\<lambda>n xs. xs) 3 (first_args duo_params (duo_job duo_links) r False) s = Inr (Some (True, duo_built))"
proof -
  let ?A = "first_args duo_params (duo_job duo_links) r False"
  let ?lv = "\<lambda>a b. [(''node_0'', a), (''node_1'', b)]" and ?half = "duo_built\<lparr>Se_visited := [(''node_0'', True), (''node_1'', False)]\<rparr>"
  note J = duo_job_fields
  have fresh: "search_round (\<lambda>xs. xs) (\<lambda>xs. xs) ?A (?lv False False, fresh_search duo_nodes ''node_0'') = Inr (True, ?lv True False, ?half)"
    using assms(1) by (simp add: duo_eval J duo_fresh duo_built_def duo_cells_def duo_links_def)
  have built1: "search_round (\<lambda>xs. xs) (\<lambda>xs. xs) ?A (?lv False False, duo_built) = Inr (True, ?lv True False, duo_built)"
    using assms(1) by (simp add: duo_eval J duo_built_def duo_cells_def duo_links_def)
  have r2: "search_round (\<lambda>xs. xs) (\<lambda>xs. xs) ?A (?lv True False, x) = Inr (True, ?lv True True, duo_built)" if "x = ?half \<or> x = duo_built" for x
    using assms(1) that by (auto simp: duo_eval J duo_built_def duo_cells_def duo_links_def)
  have r3: "search_round (\<lambda>xs. xs) (\<lambda>xs. xs) ?A (?lv True True, duo_built) = Inr (False, ?lv True True, duo_built)"
    using assms(1) by (simp add: duo_eval J duo_built_def duo_cells_def duo_links_def)
  have "search_loop (\<lambda>n xs. xs) ?A 3 (?lv False False, s) = Inr (Some duo_built)"
    using assms(2) fresh built1 r2[of ?half] r2[of duo_built] r3 by (auto simp: eval_nat_numeral)
  moreover have "\<not> search_failed ?A duo_built" by (auto simp: search_failed_def duo_built_def duo_cells_def map_get_def map_keys_def)
  moreover have "map (\<lambda>n. (Name n, False)) (All_nodes (Sa_all ?A)) = ?lv False False" by (simp add: first_args_def J duo_nodes_def duo_node_def)
  ultimately show ?thesis by (simp add: dijkstra_def)
qed

lemma duo_identity_name:
  "identity_name duo_nodes \<lparr>Tc_index = 1, Tc_identity = NodeIdentity (duo_node 1), Tc_children = cs, Tc_parent = p\<rparr> = Inr ''node_1''"
  by (simp add: identity_name_def duo_node_def GetServerIdentityToName_def duo_nodes_def map_get_def)

lemma duo_copied:
  assumes "s = fresh_search duo_nodes ''node_0'' \<or> s = duo_built"
  shows "copy_tree plain_node plain_add (\<lambda>xs. xs) duo_nodes (Se_tree s) = Inr (Se_tree s)"
  using assms
  by (auto simp: duo_fresh duo_built_def duo_cells_def copy_tree_def copy_node_def copy_children_def copy_child_def map_keys_def
      map_get_def map_set_def duo_nodes_made duo_name_ints plain_node_def plain_add_def duo_identity_name[simplified])

lemma duo_params_fields: "Rp_NewTreeNode duo_params = plain_node" "Rp_AddChild duo_params = plain_add"
  "Rp_range duo_params i a c = (\<lambda>n xs. xs)"
  by (simp_all add: duo_params_def)

lemma duo_attempt:
  assumes "3 \<le> r" "s = fresh_search duo_nodes ''node_0'' \<or> s = duo_built"
  shows "tree_attempts duo_params (duo_job duo_links) i r (Suc n) a False s = Inr (Some ([(''node_0'', True)], duo_built))"
proof -
  have "rounds (duo_job duo_links) = 3" by (simp add: rounds_def duo_job_def duo_nodes_def)
  then have "dfsBuildTree (\<lambda>n xs. xs) (rounds (duo_job duo_links)) (first_args duo_params (duo_job duo_links) r False) s
      = Inr (Some ([(''node_0'', True)], True, duo_built))"
    using duo_first_search[OF assms] by (simp add: dfsBuildTree_def duo_built_def duo_cells_def map_keys_def map_get_def)
  then show ?thesis using duo_copied[OF assms(2)] by (simp add: duo_params_fields duo_job_fields)
qed

definition duo_tree :: onet_tree where
  "duo_tree = \<lparr>Ot_root = ''node_0'', Ot_roster = map (the \<circ> NodeIdentity \<circ> duo_node) [0, 1], Ot_tree = duo_cells\<rparr>"

lemma duo_build: "buildOnetTree duo_params (duo_job duo_links) (\<lambda>xs. xs) ''node_0'' duo_cells = Inr duo_tree"
  by (simp add: buildOnetTree_def duo_params_def duo_job_fields tree_roster_def roster_step_def duo_cells_def map_keys_def map_get_def
      duo_nodes_made slice_get_def slice_set_def duo_tree_def duo_node_def)

lemma duo_step:
  assumes "3 \<le> r" "(s, len) = (fresh_search duo_nodes ''node_0'', 0) \<or> (s, len) = (duo_built, 2)"
  shows "ring_step duo_params (duo_job duo_links) (Suc n) i r (s, len, Trees)
    = Inr (Some (duo_built, 2, Trees @ [if len = 2 then [] else [duo_tree]]))"
proof -
  have "length (Ot_roster duo_tree) = 2" "Ot_roster duo_tree \<noteq> []" "Se_tree duo_built = duo_cells"
    by (simp_all add: duo_tree_def duo_built_def)
  moreover have "duo_built\<lparr>Se_tree := duo_cells\<rparr> = duo_built" by (simp add: duo_built_def)
  ultimately show ?thesis
    using assms duo_attempt[OF assms(1), of s i n 0] duo_copied[of duo_built] duo_build
    by (auto simp: ring_step_def duo_job_fields duo_params_fields Let_def simp del: tree_attempts.simps)
qed

lemma duo_later:
  "\<forall>r \<in> set rs. 3 \<le> r \<Longrightarrow> ring_loop duo_params (duo_job duo_links) (Suc n) i rs (duo_built, 2, Trees)
    = Inr (Some (duo_built, 2, Trees @ replicate (length rs) []))"
proof (induction rs arbitrary: i Trees)
  case (Cons r rs)
  then show ?case using duo_step[of r duo_built 2 n i Trees] by simp
qed simp

lemma duo_rings: "onet_rings duo_params (duo_job duo_links) 1 = Inr (Some ([duo_tree] # replicate 11 []))"
proof -
  obtain rs where rs: "generateRadius 10000 = 20 # rs" "\<forall>r \<in> set rs. 3 \<le> r" "length rs = 11"
    by (simp add: generateRadius_def)
  then show ?thesis
    using duo_step[of 20 "fresh_search duo_nodes ''node_0''" 0 0 0 "[]"] duo_later[of rs 0 1 "[[duo_tree]]"]
    by (simp add: onet_rings_def duo_job_fields)
qed


end
