(* ===== verification/Graph_Build.thy ===== *)
theory Graph_Build
  imports Ring_Filter Onet_Rings Distance_Oracle
begin

text \<open>
  The graphs of the experiments and of the rings (gentree.go): \<open>CreateOnetLPTree\<close> for all nodes,
  \<open>buildRootedLocalityGraph\<close> for the nodes within a radius, and the whole of
  \<open>CreateOnetRings\<close>.
\<close>

subsection \<open>Definitions\<close>

definition allow_ptr :: "LocalityNodes \<Rightarrow> node_ptr option \<Rightarrow> (string, bool) gomap \<Rightarrow> (string, bool) gomap result" where
  "allow_ptr all p m = (case p of None \<Rightarrow> Inl NilDereference | Some q \<Rightarrow> Inr (map_set m (Name (node_at all q)) True))"

definition buildRootedLocalityGraph ::
  "graph_params \<Rightarrow> LocalityNodes \<Rightarrow> string \<Rightarrow> real \<Rightarrow> (node_ptr \<Rightarrow> node_ptr \<Rightarrow> real) \<Rightarrow> nat \<Rightarrow> (string \<times> graph_state) option result" where
  "buildRootedLocalityGraph P all rootName radius dist2 fuel =
     res_bind (GetByName all rootName) (\<lambda>r.
     res_bind (Filter P all r radius dist2 fuel) (\<lambda>f.
       case f of
         None \<Rightarrow> Inr None
       | Some ns \<Rightarrow> res_bind (res_fold (allow_ptr all) ns []) (\<lambda>AllowedNodes.
           grow_graph P True AllowedNodes all rootName fuel)))"

text \<open>\<open>CreateOnetLPTree\<close>: the roster has the root in front, exchanged with the first node.\<close>

fun root_index :: "LocalityNode list \<Rightarrow> string \<Rightarrow> nat \<Rightarrow> nat \<Rightarrow> nat" where
  "root_index [] rootName i found = found"
| "root_index (n # ns) rootName i found = root_index ns rootName (Suc i) (if Name n = rootName then i else found)"

definition lp_roster :: "LocalityNodes \<Rightarrow> string \<Rightarrow> ServerIdentity option list result" where
  "lp_roster all rootName =
     res_bind (NameToServerIdentity all rootName) (\<lambda>rootID.
     res_bind (res_fold (\<lambda>n roster. res_bind (NameToServerIdentity all (Name n)) (\<lambda>sid. Inr (roster @ [sid]))) (All_nodes all) []) (\<lambda>roster.
     res_bind (slice_get roster 0) (\<lambda>replacement.
     res_bind (slice_set roster 0 rootID) (\<lambda>roster1.
       slice_set roster1 (int (root_index (All_nodes all) rootName 0 0)) replacement))))"

record lp_tree =
  Lt_root :: string
  Lt_nodes :: graph_state
  Lt_list :: "string list"
  Lt_roster :: "ServerIdentity option list"
  Lt_distances :: "node_ptr \<Rightarrow> node_ptr \<Rightarrow> real"

definition CreateOnetLPTree :: "graph_params \<Rightarrow> LocalityNodes \<Rightarrow> string \<Rightarrow> nat \<Rightarrow> lp_tree option result" where
  "CreateOnetLPTree P all rootName fuel =
     res_bind (AproximateDistanceOracle all) (\<lambda>Dist2.
     res_bind (lp_roster all rootName) (\<lambda>roster.
     res_bind (grow_graph P False [] all rootName fuel) (\<lambda>r.
       case r of
         None \<Rightarrow> Inr None
       | Some (rootNode, st) \<Rightarrow>
           if None \<in> set roster then Inl NilDereference
           else Inr (Some \<lparr>Lt_root = rootNode, Lt_nodes = st, Lt_list = Gp_names P 0 5 (map_keys (Gs_nodes st)), Lt_roster = roster, Lt_distances = Dist2\<rparr>))))"

text \<open>\<open>CreateOnetRings\<close>: the graph is built from \<open>node_19\<close>, whatever the root of the rings is.\<close>

definition highLevelRootName :: string where
  "highLevelRootName = ''node_19''"

definition CreateOnetRings ::
  "graph_params \<Rightarrow> ring_params \<Rightarrow> LocalityNodes \<Rightarrow> string \<Rightarrow> (node_ptr \<Rightarrow> node_ptr \<Rightarrow> real) \<Rightarrow> nat \<Rightarrow> (onet_tree list list \<times> real list) option result" where
  "CreateOnetRings GP P all rootName dist2 fuel =
     res_bind (GetByName all rootName) (\<lambda>r.
       case r of
         None \<Rightarrow> Inl NilDereference
       | Some _ \<Rightarrow>
           res_bind (buildRootedLocalityGraph GP all highLevelRootName (last (generateRadius 10000)) dist2 fuel) (\<lambda>g.
           case g of
             None \<Rightarrow> Inr None
           | Some (rootNode, st) \<Rightarrow>
               res_bind (dfsBuildGraph all st fuel rootNode) (\<lambda>d.
               case d of
                 None \<Rightarrow> Inr None
               | Some neighbors \<Rightarrow>
                   res_bind (onet_rings P \<lparr>Rj_all = all, Rj_root = rootName, Rj_dist2 = dist2, Rj_neighbors = neighbors\<rparr> fuel) (\<lambda>t.
                     Inr (map_option (\<lambda>trees. (trees, generateRadius 10000)) t)))))"

subsection \<open>The nodes of a created graph\<close>

definition prepared :: "LocalityNodes \<Rightarrow> bool" where
  "prepared ns \<longleftrightarrow> fresh_nodes ns \<and> names_ok ns \<and> inj_on (key ns) (names ns) \<and> (\<forall>a b. Links ns a b = [])"

definition params_ok :: "graph_params \<Rightarrow> bool" where
  "params_ok P \<longleftrightarrow> new_node_ok (Gp_NewTreeNode P) \<and> (\<forall>n c. range_order (Gp_names P n c)) \<and> (\<forall>n i c. range_order (Gp_ptrs P n i c))"

lemma bunch_step_frame: "bunch_step levels v1 i v2 ns = Inr g \<Longrightarrow> Links g = Links ns \<and> ServerIdentityToName g = ServerIdentityToName ns"
  by (auto simp: bunch_step_def Let_def res_bind_Inr_iff link_bunch_def set_both_def split: if_splits)

lemma res_fold_frame:
  assumes "\<And>x s s'. f x s = Inr s' \<Longrightarrow> h s' = h s"
  shows "res_fold f xs s = Inr s' \<Longrightarrow> h s' = h s"
  by (induction xs arbitrary: s) (auto simp: res_bind_Inr_iff dest: assms)

lemma CreateLocalityGraph_frame:
  assumes "CreateLocalityGraph rand ns rc rl levels = Inr g"
  shows "Links g = Links ns" "ServerIdentityToName g = ServerIdentityToName ns"
proof -
  let ?h = "\<lambda>g :: LocalityNodes. (Links g, ServerIdentityToName g)"
  obtain g1 where g1: "bunch_phase levels (ns\<lparr>All_nodes := level_phase levels (randomise rand rc rl levels (All_nodes ns))\<rparr>) = Inr g1" "g = cluster_phase g1"
    using assms by (auto simp: CreateLocalityGraph_def res_bind_Inr_iff)
  have b1: "?h s' = ?h s" if "res_fold (bunch_step levels v1 i) xs s = Inr s'" for v1 i xs s s'
    using that by (rule res_fold_frame[where h = ?h, rotated]) (simp add: bunch_step_frame)
  have b2: "?h s' = ?h s" if "res_fold (\<lambda>i. res_fold (bunch_step levels v1 i) xs) ys s = Inr s'" for v1 xs ys s s'
    using that by (rule res_fold_frame[where h = ?h, rotated]) (rule b1)
  have "?h g' = ?h g0" if "bunch_phase levels g0 = Inr g'" for g0 g'
    using that unfolding bunch_phase_def by (rule res_fold_frame[where h = ?h, rotated]) (rule b2)
  note b3 = this
  have c1: "?h (cluster_step v1 v2 g0) = ?h g0" for v1 v2 g0 by (simp add: cluster_step_def Let_def set_both_def)
  have c2: "?h (fold (cluster_step v1) xs g0) = ?h g0" for v1 xs g0 using c1 by (induction xs arbitrary: g0) simp_all
  have "?h (fold (\<lambda>v1. fold (cluster_step v1) ys) xs g0) = ?h g0" for xs ys g0 using c2 by (induction xs arbitrary: g0) simp_all
  then have "?h (cluster_phase g1) = ?h g1" by (simp add: cluster_phase_def)
  then show "Links g = Links ns" "ServerIdentityToName g = ServerIdentityToName ns" using g1 b3[OF g1(1)] by simp_all
qed

text \<open>The tables of a collection depend on the names and identities of its nodes only.\<close>

lemma same_names:
  assumes n: "nr_nodes g = nr_nodes ns" "ServerIdentityToName g = ServerIdentityToName ns" "names_ok ns"
    and same: "\<And>p. p < nr_nodes ns \<Longrightarrow> Name (node_at g p) = Name (node_at ns p)"
      "\<And>p. p < nr_nodes ns \<Longrightarrow> NodeIdentity (node_at g p) = NodeIdentity (node_at ns p)"
  shows "names_ok g" "names g = names ns" "identity_of g = identity_of ns"
proof -
  have "indexed (All_nodes g)" using n(1,3) same(1) by (simp add: names_ok_def indexed_def)
  then show "names_ok g" using n same by (simp add: names_ok_def GetServerIdentityToName_def)
  have "map Name (All_nodes g) = map Name (All_nodes ns)" using n(1) same(1) by (intro nth_equalityI) simp_all
  then show "names g = names ns" by (metis names_def set_map)
  have "GetByName g a = GetByName ns a" for a using n(1) by (simp add: GetByName_def res_bind_def slice_get_def split: sum.splits)
  moreover have "q < nr_nodes ns" if "GetByName ns a = Inr (Some q)" for a q
    using that by (auto simp: GetByName_def res_bind_Inr_iff slice_get_def split: if_splits)
  ultimately have "NameToServerIdentity g a = NameToServerIdentity ns a" for a
    using same(2) by (auto simp: NameToServerIdentity_def res_bind_def split: sum.splits option.splits)
  then show "identity_of g = identity_of ns" by (simp add: identity_of_def fun_eq_iff)
qed

lemma created_ok:
  assumes ns: "prepared ns" and P: "params_ok P" and g: "CreateLocalityGraph rand ns rc rl levels = Inr g"
  shows "locality_graph levels g" "names_ok g" "names g = names ns" "nr_nodes g = nr_nodes ns" "identity_of g = identity_of ns" "graph_ok P g" "filter_ok P g"
    "Links g a b = []"
proof -
  have fr: "fresh_nodes ns" "names_ok ns" "inj_on (key ns) (names ns)" "Links ns a b = []" for a b using ns by (simp_all add: prepared_def)
  let ?vs = "randomise rand rc rl levels (All_nodes ns)"
  show lg: "locality_graph levels g" and n: "nr_nodes g = nr_nodes ns" using CreateLocalityGraph_ok[OF fr(1), of rand rc rl levels] g by auto
  have "same_place (node_at g p) (?vs ! p)" "placed_like (?vs ! p) (node_at ns p)" if "p < nr_nodes ns" for p
    using CreateLocalityGraph_ok[OF fr(1), of rand rc rl levels] g that n randomise_like[of rand rc rl levels "All_nodes ns"]
    by (auto simp: list_all2_conv_all_nth)
  then have same: "Name (node_at g p) = Name (node_at ns p)" "NodeIdentity (node_at g p) = NodeIdentity (node_at ns p)" if "p < nr_nodes ns" for p
    using that by (simp_all add: same_place_def placed_like_def)
  note f = CreateLocalityGraph_frame[OF g]
  have idx: "indexed (All_nodes g)" using lg by (simp add: locality_graph_def)
  note sn = same_names[OF n f(2) fr(2) same]
  show no: "names_ok g" and nm: "names g = names ns" and id: "identity_of g = identity_of ns" using sn by simp_all
  have ks: "key_set (names g) (OptimalCluster v) \<and> key_set (names g) (OptimalBunch v) \<and> key_set (names g) (Cluster v)" if "v \<in> set (All_nodes g)" for v
    using lg that unfolding names_def by (auto simp: locality_graph_def in_set_conv_nth)
  show "graph_ok P g" using no fr(3) nm id P ks by (simp add: graph_ok_def params_ok_def)
  show "Links g a b = []" for a b using f(1) fr(4) by simp
  then show "filter_ok P g" using idx P ks by (simp add: filter_ok_def params_ok_def map_keys_def)
qed

text \<open>The links of the graph are those of bunches and clusters; a node of the top level is linked with all.\<close>

lemma created_links:
  assumes "locality_graph levels g" "names_ok g" "a < nr_nodes g" "b < nr_nodes g"
  shows "Name (node_at g b) \<in> tree_links rings A g (Name (node_at g a)) \<longleftrightarrow>
    ((a, b) \<in> bunch_rel g \<or> (b, a) \<in> bunch_rel g) \<and> (rings \<longrightarrow> has A (Name (node_at g b)))"
proof -
  have "node_of g (Name (node_at g a)) = node_at g a" using assms(2,3) by (simp add: node_of_def names_ok_def)
  moreover have "OptimalCluster (node_at g a) = Cluster (node_at g a)" "OptimalBunch (node_at g a) = Bunch (node_at g a)" "cluster_rel g = (bunch_rel g)\<inverse>"
    using assms(1,3) by (simp_all add: locality_graph_def)
  moreover from this(3) have "has (Cluster (node_at g a)) (Name (node_at g b)) \<longleftrightarrow> (b, a) \<in> bunch_rel g"
    using assms(3,4) by (auto simp: cluster_rel_def set_eq_iff)
  moreover have "has (Bunch (node_at g a)) (Name (node_at g b)) \<longleftrightarrow> (a, b) \<in> bunch_rel g" using assms(3,4) by (simp add: bunch_rel_def)
  ultimately show ?thesis by (auto simp: tree_links_def)
qed

lemma top_level_bunch:
  assumes "locality_graph levels g" "2 \<le> levels" "q < nr_nodes g" "Level (node_at g q) = levels - 1" "a < nr_nodes g" "a \<noteq> q"
  shows "(a, q) \<in> bunch_rel g"
proof -
  have "in_bunch levels g a q" unfolding in_bunch_def bunch_cond_def using assms by (intro conjI exI[of _ 0]) auto
  then show ?thesis using assms(1) by (simp add: locality_graph_def)
qed

lemma bunch_irrefl: "locality_graph levels g \<Longrightarrow> (a, a) \<notin> bunch_rel g"
  by (auto simp: locality_graph_def in_bunch_def bunch_cond_def)

lemma names_nth: "a \<in> names g \<Longrightarrow> \<exists>p < nr_nodes g. Name (node_at g p) = a"
  by (auto simp: names_def in_set_conv_nth)

subsection \<open>The graph of all nodes\<close>

lemma root_index_none: "rootName \<notin> Name ` set ns \<Longrightarrow> root_index ns rootName i found = found"
  by (induction ns arbitrary: i found) auto

lemma root_index_split:
  "rootName \<notin> Name ` set us \<Longrightarrow> Name n = rootName \<Longrightarrow> rootName \<notin> Name ` set vs \<Longrightarrow> root_index (us @ n # vs) rootName i found = i + length us"
  by (induction us arbitrary: i found) (auto simp: root_index_none)

lemma lp_roster_ok:
  assumes "names_ok all" "rootName \<in> names all"
  shows "\<exists>ws. lp_roster all rootName = Inr (map (Some \<circ> identity_of all) (rootName # ws)) \<and> mset (rootName # ws) = mset (map Name (All_nodes all))"
proof -
  let ?f = "\<lambda>n roster. res_bind (NameToServerIdentity all (Name n)) (\<lambda>sid. Inr (roster @ [sid]))"
  let ?ids = "map (Some \<circ> identity_of all)"
  have ids: "res_fold ?f ns acc = Inr (acc @ ?ids (map Name ns))" if "set ns \<subseteq> set (All_nodes all)" for ns acc
    using that by (induction ns arbitrary: acc) (auto simp: identity_of_ok(1)[OF assms(1)] names_def)
  obtain us n vs where s: "All_nodes all = us @ n # vs" "Name n = rootName" using assms(2) by (metis imageE names_def split_list)
  have "rootName \<notin> Name ` set us" "rootName \<notin> Name ` set vs" using distinct_names[OF assms(1)] s by auto
  then have i: "root_index (All_nodes all) rootName 0 0 = length us" using root_index_split s by simp
  let ?xs = "?ids (map Name us) @ Some (identity_of all rootName) # ?ids (map Name vs)"
  have roster: "res_fold ?f (All_nodes all) [] = Inr ?xs" using ids[of "All_nodes all" "[]"] s by simp
  have "\<exists>ws. slice_set (?xs[0 := Some (identity_of all rootName)]) (int (length us)) (?xs ! 0) = Inr (Some (identity_of all rootName) # ?ids ws)
      \<and> mset ws = mset (map Name us) + mset (map Name vs)"
  proof (cases us)
    case Nil
    then show ?thesis by (intro exI[of _ "map Name vs"]) (simp add: slice_set_def)
  next
    case (Cons u us')
    then show ?thesis
      by (intro exI[of _ "map Name us' @ Name u # map Name vs"]) (simp add: slice_set_def list_update_append nat_add_distrib)
  qed
  then obtain ws where "slice_set (?xs[0 := Some (identity_of all rootName)]) (int (length us)) (?xs ! 0) = Inr (Some (identity_of all rootName) # ?ids ws)"
    "mset ws = mset (map Name us) + mset (map Name vs)" by blast
  then show ?thesis using roster i identity_of_ok(1)[OF assms] s
    by (intro exI[of _ ws]) (simp add: lp_roster_def slice_get_def slice_set_def)
qed

text \<open>All nodes are within two links of each other, over a node of the top level.\<close>

lemma two_links:
  assumes g: "locality_graph levels g" "names_ok g" "2 \<le> levels" and q: "q < nr_nodes g" "Level (node_at g q) = levels - 1"
    and a: "a \<in> names g" "r \<in> names g" "a \<noteq> r"
  shows "\<exists>b \<in> insert r (tree_links False [] g r). a \<in> tree_links False [] g b"
proof -
  obtain i where i: "i < nr_nodes g" "Name (node_at g i) = a" using names_nth[OF a(1)] by blast
  obtain j where j: "j < nr_nodes g" "Name (node_at g j) = r" using names_nth[OF a(2)] by blast
  have ij: "i \<noteq> j" using i(2) j(2) a(3) by auto
  note L = created_links[OF g(1,2), of _ _ False "[]"] and top = top_level_bunch[OF g(1,3) q]
  show ?thesis
  proof (cases "i = q \<or> j = q")
    case True
    then show ?thesis using L[OF j(1) i(1)] top i j ij by auto
  next
    case False
    then have "Name (node_at g q) \<in> tree_links False [] g r" "a \<in> tree_links False [] g (Name (node_at g q))"
      using L[OF j(1) q(1)] L[OF q(1) i(1)] top i j by auto
    then show ?thesis by blast
  qed
qed

lemma whole_graph:
  assumes g: "locality_graph levels g" "names_ok g" "graph_ok P g" "2 \<le> levels" "q < nr_nodes g" "Level (node_at g q) = levels - 1"
    and r: "r \<in> names g" "nr_nodes g < fuel"
  shows "\<exists>st. grow_graph P False [] g r fuel = Inr (Some (key g r, st)) \<and> graph_inv False [] g st \<and> known st = key g ` names g
    \<and> (\<forall>a < nr_nodes g. \<forall>b < nr_nodes g. key g (Name (node_at g b)) \<in> set (children_of st (key g (Name (node_at g a))))
         \<longleftrightarrow> (a, b) \<in> bunch_rel g \<or> (b, a) \<in> bunch_rel g)"
proof -
  let ?L = "tree_links False [] g"
  have lk: "Name (node_at g b) \<in> ?L (Name (node_at g a)) \<longleftrightarrow> (a, b) \<in> bunch_rel g \<or> (b, a) \<in> bunch_rel g" if "a < nr_nodes g" "b < nr_nodes g" for a b
    using created_links[OF g(1,2) that] by simp
  have sub: "\<forall>a \<in> names g. ?L a \<subseteq> names g" using links_names[OF g(3)] by blast
  have irr: "r \<notin> ?L r" using names_nth[OF r(1)] lk bunch_irrefl[OF g(1)] by blast
  have sym: "r \<in> ?L b" if b: "b \<in> ?L r" for b
  proof -
    obtain i j where "i < nr_nodes g" "Name (node_at g i) = b" "j < nr_nodes g" "Name (node_at g j) = r"
      using names_nth[OF r(1)] names_nth sub b r(1) by blast
    then show ?thesis using lk b by blast
  qed
  obtain st where st: "grow_graph P False [] g r fuel = Inr (Some (key g r, st))" "graph_inv False [] g st" "known st = key g ` names g"
      "\<forall>a \<in> names g. has_all False [] g st a"
    using grow_graph_ok[OF g(3) r(1) order_refl sub irr _ _ r(2)] sym two_links[OF g(1,2,4-6) _ r(1)] by blast
  have "key g (Name (node_at g b)) \<in> set (children_of st (key g (Name (node_at g a)))) \<longleftrightarrow> Name (node_at g b) \<in> ?L (Name (node_at g a))"
    if "a < nr_nodes g" "b < nr_nodes g" for a b
  proof -
    have n: "Name (node_at g a) \<in> names g" "Name (node_at g b) \<in> names g" using that by (simp_all add: names_def)
    then show ?thesis using st(4) inj_on_image_mem_iff[OF graph_okD(2)[OF g(3)] n(2)] sub by (simp add: has_all_def)
  qed
  then show ?thesis using st lk by blast
qed

lemma lp_tree_ok:
  assumes g: "locality_graph levels g" "levels_ok levels g" "names_ok g" "graph_ok P g" and r: "rootName \<in> names g" "nr_nodes g < fuel"
  shows "\<exists>T ws. CreateOnetLPTree P g rootName fuel = Inr (Some T) \<and> Lt_root T = key g rootName
    \<and> graph_inv False [] g (Lt_nodes T) \<and> known (Lt_nodes T) = key g ` names g \<and> set (Lt_list T) = key g ` names g \<and> distinct (Lt_list T)
    \<and> (\<forall>a < nr_nodes g. \<forall>b < nr_nodes g. key g (Name (node_at g b)) \<in> set (children_of (Lt_nodes T) (key g (Name (node_at g a))))
         \<longleftrightarrow> (a, b) \<in> bunch_rel g \<or> (b, a) \<in> bunch_rel g)
    \<and> Lt_roster T = map (Some \<circ> identity_of g) (rootName # ws) \<and> mset (rootName # ws) = mset (map Name (All_nodes g))"
proof -
  obtain q where lv: "2 \<le> levels" "q < nr_nodes g" "Level (node_at g q) = levels - 1" using g(2) by (auto simp: levels_ok_def)
  obtain st where st: "grow_graph P False [] g rootName fuel = Inr (Some (key g rootName, st))" "graph_inv False [] g st" "known st = key g ` names g"
      "\<forall>a < nr_nodes g. \<forall>b < nr_nodes g. key g (Name (node_at g b)) \<in> set (children_of st (key g (Name (node_at g a))))
         \<longleftrightarrow> (a, b) \<in> bunch_rel g \<or> (b, a) \<in> bunch_rel g"
    using whole_graph[OF g(1,3,4) lv r] by blast
  obtain ws where ws: "lp_roster g rootName = Inr (map (Some \<circ> identity_of g) (rootName # ws))" "mset (rootName # ws) = mset (map Name (All_nodes g))"
    using lp_roster_ok[OF g(3) r(1)] by blast
  obtain D where D: "AproximateDistanceOracle g = Inr D" using oracle_ok[OF g(1,2)] by blast
  let ?T = "\<lparr>Lt_root = key g rootName, Lt_nodes = st, Lt_list = Gp_names P 0 5 (map_keys (Gs_nodes st)), Lt_roster = map (Some \<circ> identity_of g) (rootName # ws), Lt_distances = D\<rparr>"
  have T: "CreateOnetLPTree P g rootName fuel = Inr (Some ?T)" using D ws(1) st(1) by (auto simp: CreateOnetLPTree_def)
  have ord: "range_order (Gp_names P 0 5)" using g(4) by (simp add: graph_ok_def)
  have "set (Lt_list ?T) = key g ` names g" "distinct (Lt_list ?T)"
    using st(2,3) range_order_set[OF ord] range_order_distinct[OF ord] by (simp_all add: gomap.keys_dom known_def graph_inv_def gomap.invar_distinct)
  then show ?thesis using T st ws(2) by (intro exI[of _ ?T] exI[of _ ws]) simp
qed

text \<open>C23: \<open>CreateOnetLPTree\<close> on a graph that has just been built ends, and its tree is the whole graph: it has
  a tree node for every node, once, whose children are the nodes of its bunch and of its cluster,
  whatever the order of the \<open>range\<close> loops; the roster is that of all nodes with the root in
  front.\<close>

theorem lp_tree_complete:
  assumes "prepared ns" "params_ok P" "levels_ok levels (ns\<lparr>All_nodes := randomise rand rc rl levels (All_nodes ns)\<rparr>)"
    and "rootName \<in> names ns" "nr_nodes ns < fuel"
  shows "\<exists>g T. CreateLocalityGraph rand ns rc rl levels = Inr g \<and> CreateOnetLPTree P g rootName fuel = Inr (Some T)
    \<and> Lt_root T = key ns rootName \<and> set (Lt_list T) = key ns ` names ns \<and> distinct (Lt_list T)
    \<and> (\<forall>a < nr_nodes g. \<forall>b < nr_nodes g. key ns (Name (node_at g b)) \<in> set (children_of (Lt_nodes T) (key ns (Name (node_at g a))))
         \<longleftrightarrow> has (Bunch (node_at g a)) (Name (node_at g b)) \<or> has (Bunch (node_at g b)) (Name (node_at g a)))
    \<and> (\<exists>ws. Lt_roster T = map (Some \<circ> identity_of ns) (rootName # ws) \<and> mset (rootName # ws) = mset (map Name (All_nodes g)))"
proof -
  obtain g where g: "CreateLocalityGraph rand ns rc rl levels = Inr g" "levels_ok levels g"
    using created_graph[OF _ assms(3)] assms(1) by (metis prepared_def)
  note c = created_ok[OF assms(1,2) g(1)]
  have r: "rootName \<in> names g" "nr_nodes g < fuel" using assms(4,5) c(3,4) by simp_all
  show ?thesis using lp_tree_ok[OF c(1) g(2) c(2,6) r] g(1) c(3,5) by (fastforce simp: bunch_rel_def)
qed

subsection \<open>The graph of a ring\<close>

text \<open>A recorded neighbour has the value \<open>true\<close>.\<close>

definition true_map :: "neighbor_map \<Rightarrow> bool" where
  "true_map nb \<longleftrightarrow> (\<forall>a k v. (k, v) \<in> set (map_get [] nb a) \<longrightarrow> v)"

lemma set_neighbor_true: "set_neighbor a b nb = Inr nb' \<Longrightarrow> true_map nb \<Longrightarrow> true_map nb'"
proof -
  assume s: "set_neighbor a b nb = Inr nb'" and t: "true_map nb"
  obtain m where m: "map_of nb a = Some m" "nb' = map_set nb a (map_set m b True)" using s by (auto simp: set_neighbor_def split: option.splits)
  have "map_get [] nb a = m" using m(1) by (simp add: map_get_def)
  then show "true_map nb'" using t set_update_subset[of b True m] unfolding true_map_def m(2) by (auto simp: map_set_def[of m])
qed

lemma visit_true: "visit_children all st fuel p cs s = Inr (Some s') \<Longrightarrow> true_map (fst s) \<Longrightarrow> true_map (fst s')"
proof (induction all st fuel p cs s arbitrary: s' rule: visit_children.induct)
  case (2 all st fuel parent c cs nb visited)
  obtain node child nb1 nb2 where n: "map_of (Gs_nodes st) c = Some node" "identity_name all node = Inr child"
    "set_neighbor parent child nb = Inr nb1" "set_neighbor child parent nb1 = Inr nb2"
    using "2.prems"(1) by (auto simp: res_bind_Inr_iff split: option.splits)
  then have t: "true_map nb2" using "2.prems"(2) set_neighbor_true by fastforce
  show ?case
  proof (cases "has visited child")
    case True
    then show ?thesis using "2.IH"(1)[OF n(1) True] "2.prems"(1) n t by simp
  next
    case False
    then obtain f s1 where f: "fuel = Suc f" "visit_children all st f child (Tc_children node) (nb2, map_set visited child True) = Inr (Some s1)"
      "visit_children all st fuel parent cs s1 = Inr (Some s')"
      using "2.prems"(1) n by (auto simp: res_bind_Inr_iff split: nat.splits option.splits)
    from "2.IH"(2)[OF n(1) False f(1,2)] t have "true_map (fst s1)" by simp
    then show ?thesis using "2.IH"(3)[OF n(1) False f(1)] f(2,3) by blast
  qed
qed simp

lemma dfsBuildGraph_true: "dfsBuildGraph all st fuel r = Inr (Some nb) \<Longrightarrow> true_map nb"
proof -
  have e: "map_get [] (map (\<lambda>n. (Name n, [] :: (string, bool) gomap)) ns) a = []" for ns a by (induction ns) (auto simp: map_get_def)
  assume "dfsBuildGraph all st fuel r = Inr (Some nb)"
  moreover have "true_map (map (\<lambda>n. (Name n, [])) (All_nodes all))" by (simp add: true_map_def e)
  ultimately show ?thesis by (fastforce simp: dfsBuildGraph_def visitBuildGraph_def res_bind_Inr_iff dest: visit_true split: option.splits)
qed

lemma allow_all:
  "set ns \<subseteq> ptrs all \<Longrightarrow> \<exists>A. res_fold (allow_ptr all) ns m = Inr A
    \<and> (\<forall>a. has A a \<longleftrightarrow> has m a \<or> (\<exists>p. Some p \<in> set ns \<and> a = Name (node_at all p)))"
proof (induction ns arbitrary: m)
  case (Cons n ns)
  then obtain p where p: "n = Some p" by auto
  from Cons.IH[of "map_set m (Name (node_at all p)) True"] Cons.prems show ?case using p by (auto simp: allow_ptr_def)
qed simp

lemma graph_of_inv:
  assumes G: "graph_ok P g" and I: "graph_inv rings A g st" "\<forall>a \<in> R. has_all rings A g st a"
    and R: "R \<subseteq> names g" "\<forall>a \<in> R. tree_links rings A g a \<subseteq> R"
  shows "graph_of g st R (tree_links rings A g)"
  unfolding graph_of_def
proof (intro conjI ballI)
  fix a assume a: "a \<in> R"
  show "tree_links rings A g a \<subseteq> R" using R(2) a by blast
  have an: "a \<in> names g" and h: "has_all rings A g st a" using a R(1) I(2) by auto
  obtain c where c: "map_of (Gs_nodes st) (key g a) = Some c" using h by (auto simp: has_all_def known_def)
  have "Tc_identity c = Some (identity_of g a)" using graph_invD[OF I(1) G an c] by (simp add: graph_cell_def)
  then have "identity_name g c = Inr a" using identity_of_ok(2)[OF graph_okD(1)[OF G] an] by (simp add: identity_name_def)
  moreover have "set (Tc_children c) = key g ` tree_links rings A g a" using h c by (simp add: has_all_def children_of_def)
  then obtain as where "Tc_children c = map (key g) as" "set as = tree_links rings A g a"
    using image_list inj_on_subset[OF graph_okD(2)[OF G] links_names[OF G an]] by metis
  ultimately show "\<exists>c as. map_of (Gs_nodes st) (key g a) = Some c \<and> identity_name g c = Inr a \<and> Tc_children c = map (key g) as
    \<and> set as = tree_links rings A g a" using c by blast
qed (rule R(1))

text \<open>The nodes within the radius of a root of the top level, and their links.\<close>

definition in_ring :: "LocalityNodes \<Rightarrow> node_ptr \<Rightarrow> real \<Rightarrow> (node_ptr \<Rightarrow> node_ptr \<Rightarrow> real) \<Rightarrow> node_ptr \<Rightarrow> bool" where
  "in_ring g q radius dist2 p \<longleftrightarrow> p < nr_nodes g \<and> (p = q \<or> dist2 q p \<le> radius)"

lemma top_level_cluster:
  assumes "locality_graph levels g" "2 \<le> levels" "q < nr_nodes g" "Level (node_at g q) = levels - 1"
  shows "insert q (near_cluster g q radius dist2) = {p. in_ring g q radius dist2 p}"
proof -
  have "has (Cluster (node_at g q)) (Name (node_at g p)) \<longleftrightarrow> p \<noteq> q" if "p < nr_nodes g" for p
  proof -
    have "cluster_rel g = (bunch_rel g)\<inverse>" using assms(1) by (simp add: locality_graph_def)
    then have "has (Cluster (node_at g q)) (Name (node_at g p)) \<longleftrightarrow> (p, q) \<in> bunch_rel g" using assms(3) that by (auto simp: cluster_rel_def set_eq_iff)
    then show ?thesis using top_level_bunch[OF assms that] bunch_irrefl[OF assms(1)] by blast
  qed
  then show ?thesis using assms(3) by (auto simp: near_cluster_def in_ring_def)
qed

lemma ring_graph:
  assumes g: "locality_graph levels g" "names_ok g" "graph_ok P g" "filter_ok P g" "\<And>a b. Links g a b = []"
    and q: "2 \<le> levels" "q < nr_nodes g" "Level (node_at g q) = levels - 1" and fuel: "nr_nodes g < fuel"
  shows "\<exists>st nb. buildRootedLocalityGraph P g (Name (node_at g q)) radius dist2 fuel = Inr (Some (key g (Name (node_at g q)), st))
    \<and> dfsBuildGraph g st fuel (key g (Name (node_at g q))) = Inr (Some nb)
    \<and> (\<forall>x y. joined nb x y \<longrightarrow> x \<in> names g \<and> y \<in> names g)
    \<and> (\<forall>a < nr_nodes g. \<forall>b < nr_nodes g. joined nb (Name (node_at g a)) (Name (node_at g b))
         \<longleftrightarrow> in_ring g q radius dist2 a \<and> in_ring g q radius dist2 b \<and> ((a, b) \<in> bunch_rel g \<or> (b, a) \<in> bunch_rel g))"
proof -
  let ?nm = "\<lambda>p. Name (node_at g p)" and ?I = "in_ring g q radius dist2"
  have idx: "indexed (All_nodes g)" using g(1) by (simp add: locality_graph_def)
  have inj: "?nm a = ?nm b \<longleftrightarrow> a = b" if "a < nr_nodes g" "b < nr_nodes g" for a b using indexed_inj[OF idx that] .
  obtain ns where ns: "Filter P g (Some q) radius dist2 fuel = Inr (Some ns)" "set ns = Some ` {p. ?I p}"
    using Filter_ok[OF g(4) q(2), of fuel radius dist2] g(5) fuel q(2) top_level_cluster[OF g(1) q] by auto
  have mem: "Some p \<in> set ns \<longleftrightarrow> ?I p" for p unfolding ns(2) by auto
  have "set ns \<subseteq> ptrs g" unfolding ns(2) by (auto simp: in_ring_def)
  then obtain A where A: "res_fold (allow_ptr g) ns [] = Inr A" "\<And>a. has A a \<longleftrightarrow> (\<exists>p. ?I p \<and> a = ?nm p)"
    using allow_all[of ns g "[]"] unfolding mem by auto
  let ?R = "?nm ` {p. ?I p}" and ?L = "tree_links True A g"
  have Iq: "?I q" and In: "?I p \<Longrightarrow> p < nr_nodes g" for p using q(2) by (auto simp: in_ring_def)
  have lk: "?nm b \<in> ?L (?nm a) \<longleftrightarrow> ((a, b) \<in> bunch_rel g \<or> (b, a) \<in> bunch_rel g) \<and> ?I b" if "a < nr_nodes g" "b < nr_nodes g" for a b
    unfolding created_links[OF g(1,2) that] A(2) using inj that In by blast
  have sub: "\<forall>a \<in> ?R. ?L a \<subseteq> ?R" using A(2) by (auto simp: tree_links_def)
  have Rn: "?R \<subseteq> names g" by (auto simp: names_def in_ring_def)
  have root: "a \<in> ?L (?nm q) \<longleftrightarrow> (\<exists>p. ?I p \<and> p \<noteq> q \<and> a = ?nm p)" for a
    using sub Iq lk[OF q(2)] top_level_bunch[OF g(1) q] bunch_irrefl[OF g(1)] In by blast
  have toq: "?nm q \<in> ?L a" if "a \<in> ?L (?nm q)" for a
    using that lk[OF _ q(2)] Iq top_level_bunch[OF g(1) q] In unfolding root by blast
  have r: "?nm q \<in> ?R" and irr: "?nm q \<notin> ?L (?nm q)" using Iq root inj[OF q(2)] In by blast+
  have near: "a = ?nm q \<or> (\<exists>b \<in> insert (?nm q) (?L (?nm q)). a \<in> ?L b)" if "a \<in> ?R" for a using that root by blast
  have next_level: "\<exists>b \<in> ?L (?nm q). ?L b \<noteq> {}" if "?L (?nm q) \<noteq> {}" using that toq by blast
  obtain st where st: "grow_graph P True A g (?nm q) fuel = Inr (Some (key g (?nm q), st))" "graph_inv True A g st" "\<forall>a \<in> ?R. has_all True A g st a"
    using grow_graph_ok[OF g(3) r Rn sub irr next_level near fuel] by blast
  note G = graph_of_inv[OF g(3) st(2,3) Rn sub]
  have "(?nm q, a) \<in> {(a, b). b \<in> ?L a}\<^sup>*" if "a \<in> ?R" for a using that root by (cases "a = ?nm q") auto
  from dfsBuildGraph_ok[OF G _ this, of fuel] obtain nb where nb: "dfsBuildGraph g st fuel (key g (?nm q)) = Inr (Some nb)"
    "\<And>a b. joined nb a b \<longleftrightarrow> a \<in> ?R \<and> b \<in> ?R \<and> (b \<in> ?L a \<or> a \<in> ?L b)" using Iq fuel by auto
  have R: "?nm a \<in> ?R \<longleftrightarrow> ?I a" if "a < nr_nodes g" for a using inj that In by blast
  have "joined nb (?nm a) (?nm b) \<longleftrightarrow> ?I a \<and> ?I b \<and> ((a, b) \<in> bunch_rel g \<or> (b, a) \<in> bunch_rel g)" if "a < nr_nodes g" "b < nr_nodes g" for a b
    unfolding nb(2) R[OF that(1)] R[OF that(2)] lk[OF that] lk[OF that(2,1)] by blast
  moreover have "buildRootedLocalityGraph P g (?nm q) radius dist2 fuel = Inr (Some (key g (?nm q), st))"
    using ns(1) A(1) st(1) GetByName_indexed[OF idx q(2)] by (simp add: buildRootedLocalityGraph_def)
  ultimately show ?thesis using nb Rn by blast
qed

subsection \<open>The rings of a root\<close>

definition ring_params_ok :: "ring_params \<Rightarrow> bool" where
  "ring_params_ok P \<longleftrightarrow> new_node_ok (Rp_NewTreeNode P) \<and> add_child_ok (Rp_AddChild P) \<and> sorter_ok (Rp_Sort P)
     \<and> (\<forall>i a c n. range_order (Rp_range P i a c n)) \<and> (\<forall>i a n. 0 < n \<longrightarrow> Rp_Intn P i a n < n)"

text \<open>C24: On a graph that has just been built, in which \<open>node_19\<close> is of the top level, \<open>CreateOnetRings\<close>
  builds the rings over a well-formed map of neighbours: two nodes are neighbours in it exactly
  when they are linked by a bunch and are within the largest radius of \<open>node_19\<close>.\<close>

theorem CreateOnetRings_neighbors:
  assumes "prepared ns" "params_ok GP" "ring_params_ok P" "CreateLocalityGraph rand ns rc rl levels = Inr g" "2 \<le> levels"
    and "q < nr_nodes g" "Name (node_at g q) = ''node_19''" "Level (node_at g q) = levels - 1" "rootName \<in> names ns" "nr_nodes ns < fuel"
  shows "\<exists>nb. let J = \<lparr>Rj_all = g, Rj_root = rootName, Rj_dist2 = dist2, Rj_neighbors = nb\<rparr> in
      CreateOnetRings GP P g rootName dist2 fuel = res_bind (onet_rings P J fuel) (\<lambda>t. Inr (map_option (\<lambda>trees. (trees, generateRadius 10000)) t))
    \<and> job_ok P J
    \<and> (\<forall>a < nr_nodes g. \<forall>b < nr_nodes g. joined nb (Name (node_at g a)) (Name (node_at g b)) \<longleftrightarrow>
         (has (Bunch (node_at g a)) (Name (node_at g b)) \<or> has (Bunch (node_at g b)) (Name (node_at g a)))
         \<and> (a = q \<or> dist2 q a \<le> last (generateRadius 10000)) \<and> (b = q \<or> dist2 q b \<le> last (generateRadius 10000)))"
proof -
  note c = created_ok[OF assms(1,2,4)]
  have fuel: "nr_nodes g < fuel" and root: "rootName \<in> names g" using assms(9,10) c(3,4) by simp_all
  obtain st nb where s: "buildRootedLocalityGraph GP g ''node_19'' (last (generateRadius 10000)) dist2 fuel = Inr (Some (key g ''node_19'', st))"
      "dfsBuildGraph g st fuel (key g ''node_19'') = Inr (Some nb)" "\<forall>x y. joined nb x y \<longrightarrow> x \<in> names g \<and> y \<in> names g"
      "\<forall>a < nr_nodes g. \<forall>b < nr_nodes g. joined nb (Name (node_at g a)) (Name (node_at g b)) \<longleftrightarrow>
         in_ring g q (last (generateRadius 10000)) dist2 a \<and> in_ring g q (last (generateRadius 10000)) dist2 b
         \<and> ((a, b) \<in> bunch_rel g \<or> (b, a) \<in> bunch_rel g)"
    using ring_graph[OF c(1,2,6,7,8) assms(5,6,8) fuel, of "last (generateRadius 10000)" dist2] unfolding assms(7) by blast
  obtain p where p: "GetByName g rootName = Inr (Some p)" using names_cases[OF c(2) root] by metis
  have "k \<in> names g" if k: "k \<in> set (map_keys (map_get [] nb a))" for a k
  proof -
    obtain v where "map_of (map_get [] nb a) k = Some v" using k by (auto simp: gomap.keys_dom)
    then have "joined nb a k" using dfsBuildGraph_true[OF s(2)] by (metis has_iff map_of_SomeD true_map_def)
    then show ?thesis using s(3) by blast
  qed
  then have "job_ok P \<lparr>Rj_all = g, Rj_root = rootName, Rj_dist2 = dist2, Rj_neighbors = nb\<rparr>"
    using c(2) root graph_okD(2)[OF c(6)] assms(3) by (auto simp: job_ok_def ring_params_ok_def)
  then show ?thesis using s p by (intro exI[of _ nb]) (auto simp: Let_def CreateOnetRings_def highLevelRootName_def in_ring_def bunch_rel_def)
qed

text \<open>With fewer than twenty nodes the name \<open>node_19\<close> of the root of the graph is not that of a node.\<close>

lemma CreateOnetRings_needs_node_19:
  assumes "indexed (All_nodes all)" "rootName \<in> names all" "nr_nodes all \<le> 19"
  shows "CreateOnetRings GP P all rootName dist2 fuel = Inl (if nr_nodes all = 19 then IndexOutOfRange else NilDereference)"
proof -
  obtain p where p: "p < nr_nodes all" "Name (node_at all p) = rootName" using names_nth[OF assms(2)] by blast
  then have r: "GetByName all rootName = Inr (Some p)" using GetByName_indexed[OF assms(1) p(1)] by simp
  have "NodeNameToInt highLevelRootName = Inr 19" unfolding highLevelRootName_def by code_simp
  then have "GetByName all highLevelRootName = (if nr_nodes all = 19 then Inl IndexOutOfRange else Inr None)"
    using assms(3) by (auto simp: GetByName_cases)
  then show ?thesis using r by (simp add: CreateOnetRings_def buildRootedLocalityGraph_def Filter_def)
qed

subsection \<open>Nodes in a row\<close>

text \<open>Nodes on a line, the last of the top level of three.\<close>

definition row_sid :: "nat \<Rightarrow> ServerIdentity" where
  "row_sid i = \<lparr>SI_ID = i, SI_String = itoa_nat i, SI_Host = [], SI_Public = []\<rparr>"

definition row_node :: "nat \<Rightarrow> nat \<Rightarrow> LocalityNode" where
  "row_node n i = \<lparr>Name = node_name (int i), IP = [], X = real i, Y = 0, Level = (if Suc i = n then 2 else 0), ADist = [], PDist = [],
     Cluster = [], Bunch = [], OptimalCluster = [], OptimalBunch = [], Rings = [], NrOwnRings = 0, NodeIdentity = Some (row_sid i)\<rparr>"

definition row_nodes :: "nat \<Rightarrow> LocalityNodes" where
  "row_nodes n = \<lparr>All_nodes = map (row_node n) [0..<n], ServerIdentityToName = map (\<lambda>i. (i, node_name (int i))) [0..<n],
     ClusterBunchDistances = (\<lambda>a b. if a = b then 0 else max_float64), Links = (\<lambda>a b. [])\<rparr>"

lemma row_simps [simp]:
  "Name (row_node n i) = node_name (int i)" "Level (row_node n i) = (if Suc i = n then 2 else 0)" "NodeIdentity (row_node n i) = Some (row_sid i)"
  "ADist (row_node n i) = []" "PDist (row_node n i) = []" "Cluster (row_node n i) = []" "Bunch (row_node n i) = []"
  "OptimalCluster (row_node n i) = []" "OptimalBunch (row_node n i) = []" "nr_nodes (row_nodes n) = n" "i < n \<Longrightarrow> node_at (row_nodes n) i = row_node n i"
  "set (All_nodes (row_nodes n)) = row_node n ` {..<n}" "Links (row_nodes n) a b = []"
  "ClusterBunchDistances (row_nodes n) a b = (if a = b then 0 else max_float64)"
  by (auto simp: row_node_def row_nodes_def)

lemma row_indexed: "n \<le> 100 \<Longrightarrow> indexed (All_nodes (row_nodes n))"
  using NodeNameToInt_node_name by (simp add: indexed_def)

lemma row_names_ok: "n \<le> 100 \<Longrightarrow> names_ok (row_nodes n)"
proof -
  have "map_of (map (\<lambda>i. (i, node_name (int i))) [0..<n]) p = Some (node_name (int p))" if "p < n" for p
    using that by (simp add: map_of_map_restrict)
  then show "n \<le> 100 \<Longrightarrow> names_ok (row_nodes n)" using row_indexed
    by (simp add: names_ok_def GetServerIdentityToName_def map_get_def row_sid_def) (simp add: row_nodes_def)
qed

lemma row_key: "n \<le> 100 \<Longrightarrow> i < n \<Longrightarrow> key (row_nodes n) (node_name (int i)) = itoa_nat i"
  using GetByName_indexed[OF row_indexed, of n i]
  by (simp add: identity_of_def NameToServerIdentity_def row_sid_def)

lemma row_names: "names (row_nodes n) = (\<lambda>i. node_name (int i)) ` {..<n}"
  by (auto simp: names_def image_iff)

lemma row_prepared: "n \<le> 100 \<Longrightarrow> prepared (row_nodes n)"
proof -
  assume n: "n \<le> 100"
  have "i = j" if "itoa_nat i = itoa_nat j" for i j using that digits_value_itoa by (metis of_nat_eq_iff)
  then have "inj_on (key (row_nodes n)) (names (row_nodes n))" using row_key[OF n] by (auto simp: row_names inj_on_def)
  moreover have "fresh_nodes (row_nodes n)" using row_indexed[OF n] by (auto simp: fresh_nodes_def)
  ultimately show ?thesis using row_names_ok[OF n] by (simp add: prepared_def)
qed

lemma row_levels: "0 < n \<Longrightarrow> n \<le> 100 \<Longrightarrow> levels_ok 3 (row_nodes n)"
proof -
  assume n: "0 < n" "n \<le> 100"
  have "ComputeDist (row_node n p) (row_node n q) = \<bar>real p - real q\<bar>" for p q by (simp add: ComputeDist_same_row row_node_def)
  moreover have "\<bar>real p - real q\<bar> < max_float64" if "p < n" "q < n" for p q
  proof -
    have "\<bar>real p - real q\<bar> < 100" using that n(2) by linarith
    also have "\<dots> < max_float64" by (simp add: max_float64_def)
    finally show ?thesis .
  qed
  moreover have "\<exists>p < n. Suc p = n" using n(1) by (intro exI[of _ "n - 1"]) auto
  ultimately show "levels_ok 3 (row_nodes n)" by (auto simp: levels_ok_def)
qed

definition row_params :: graph_params where
  "row_params = \<lparr>Gp_NewTreeNode = (\<lambda>i sid. \<lparr>Tc_index = i, Tc_identity = sid, Tc_children = [], Tc_parent = None\<rparr>),
     Gp_names = (\<lambda>_ _. rev), Gp_late = (\<lambda>n c. even n), Gp_ptrs = (\<lambda>_ _ _. rev)\<rparr>"

lemma row_params_ok: "params_ok row_params"
  by (simp add: params_ok_def row_params_def new_node_ok_def)

theorem lp_tree_complete_witness:
  "\<exists>g T. CreateLocalityGraph (\<lambda>k. 0) (row_nodes 4) False False 3 = Inr g \<and> CreateOnetLPTree row_params g (node_name 1) 5 = Inr (Some T)
    \<and> Lt_root T = itoa_nat 1 \<and> distinct (Lt_list T)"
proof -
  have "randomise (\<lambda>k. 0) False False 3 (All_nodes (row_nodes 4)) = All_nodes (row_nodes 4)" by (simp add: randomise_def)
  moreover have "node_name 1 \<in> names (row_nodes 4)" "key (row_nodes 4) (node_name 1) = itoa_nat 1"
    using row_key[of 4 1] by (auto simp: row_names image_iff intro!: bexI[of _ 1])
  ultimately show ?thesis
    using lp_tree_complete[OF row_prepared row_params_ok, of 4 3 "\<lambda>k. 0" False False "node_name 1" 5] row_levels[of 4]
    by (auto simp: row_nodes_def)
qed

theorem CreateOnetRings_neighbors_witness:
  "\<exists>g nb. CreateLocalityGraph (\<lambda>k. 0) (row_nodes 20) False False 3 = Inr g
    \<and> job_ok duo_params \<lparr>Rj_all = g, Rj_root = ''node_19'', Rj_dist2 = (\<lambda>a b. \<bar>real a - real b\<bar>), Rj_neighbors = nb\<rparr>
    \<and> joined nb ''node_19'' (node_name 3)"
proof -
  have n19: "node_name 19 = ''node_19''" by code_simp
  have p: "prepared (row_nodes 20)" by (rule row_prepared) simp
  then obtain g where g: "CreateLocalityGraph (\<lambda>k. 0) (row_nodes 20) False False 3 = Inr g" "locality_graph 3 g" "nr_nodes g = 20"
    "\<And>i. i < 20 \<Longrightarrow> same_place (node_at g i) (row_node 20 i)"
    using CreateLocalityGraph_ok[of "row_nodes 20" "\<lambda>k. 0" False False 3] by (auto simp: prepared_def randomise_def)
  then have at: "Name (node_at g i) = node_name (int i)" "Level (node_at g i) = (if Suc i = 20 then 2 else 0)" if "i < 20" for i
    using that by (simp_all add: same_place_def)
  have "has (Bunch (node_at g 3)) (Name (node_at g 19))" using top_level_bunch[OF g(2), of 19 3] g(3) at(2)[of 19] by (simp add: bunch_rel_def)
  moreover have "ring_params_ok duo_params"
    using plain_ok by (simp add: ring_params_ok_def duo_params_def sorter_ok_def)
  moreover have "''node_19'' \<in> names (row_nodes 20)" using n19 by (auto simp: row_names image_iff intro!: bexI[of _ 19])
  moreover have "3 \<le> last (generateRadius 10000)" "16 \<le> last (generateRadius 10000)" by (simp_all add: generateRadius_def)
  moreover have "3 < nr_nodes g" "19 < nr_nodes g" using g(3) by simp_all
  ultimately have "\<exists>nb. job_ok duo_params \<lparr>Rj_all = g, Rj_root = ''node_19'', Rj_dist2 = (\<lambda>a b. \<bar>real a - real b\<bar>), Rj_neighbors = nb\<rparr>
      \<and> joined nb (Name (node_at g 19)) (Name (node_at g 3))"
    using CreateOnetRings_neighbors[OF p row_params_ok _ g(1), of duo_params 19 "''node_19''" 21 "\<lambda>a b. \<bar>real a - real b\<bar>"] at[of 19] n19
    by (fastforce simp: Let_def)
  then show ?thesis using g(1) at[of 19] at[of 3] n19 by auto
qed

end
