(* ===== verification/Cosi_Trees.thy ===== *)
theory Cosi_Trees
  imports Locality_Nodes
begin

text \<open>
  The trees of the Nyle service (nyle/cosi\_service/service.go, struct.go): the graph trees the
  protocol floods, the binary trees onet runs it on, and the lookups between the two. A
  \<open>*onet.TreeNode\<close> of a protocol message is known by its server identity and its roster
  index; the node of a graph tree also has its neighbours.
\<close>

record TreeNode =
  Identity :: ServerIdentity
  RosterIndex :: int

abbreviation node_id :: "TreeNode \<Rightarrow> string" where
  "node_id n \<equiv> SI_String (Identity n)"

record GraphNode =
  Graph_Node :: TreeNode
  Children :: "TreeNode list"
  Graph_Parent :: "TreeNode option"

record GraphTree =
  ListOfNodes :: "GraphNode list"

text \<open>A \<open>*onet.Tree\<close> is compared by its address, \<open>Tree_Ptr\<close>.\<close>

record BinTree =
  Tree_Ptr :: nat
  Tree_List :: "TreeNode list"

record Trees =
  Tree_Nodes :: LocalityNodes
  GraphTrees :: "(string, GraphTree list) gomap"
  BinaryTrees :: "(string, BinTree list) gomap"

fun find_graph_node :: "GraphNode list \<Rightarrow> string \<Rightarrow> GraphNode option" where
  "find_graph_node [] sid = None"
| "find_graph_node (n # ns) sid = (if node_id (Graph_Node n) = sid then Some n else find_graph_node ns sid)"

definition FromBinaryNodeToGraphNode ::
  "Trees \<Rightarrow> TreeNode \<Rightarrow> int \<Rightarrow> string \<Rightarrow> GraphNode option result" where
  "FromBinaryNodeToGraphNode s Node index rootName =
     res_bind (slice_get (map_get [] (GraphTrees s) rootName) index) (\<lambda>t.
       Inr (find_graph_node (ListOfNodes t) (node_id Node)))"

fun find_tree_node :: "TreeNode list \<Rightarrow> string \<Rightarrow> TreeNode option" where
  "find_tree_node [] sid = None"
| "find_tree_node (n # ns) sid = (if node_id n = sid then Some n else find_tree_node ns sid)"

definition FromGraphNodeToBinaryTreeNode ::
  "Trees \<Rightarrow> TreeNode \<Rightarrow> int \<Rightarrow> string \<Rightarrow> TreeNode option result" where
  "FromGraphNodeToBinaryTreeNode s Node index rootName =
     res_bind (slice_get (map_get [] (BinaryTrees s) rootName) index) (\<lambda>t.
       Inr (find_tree_node (Tree_List t) (node_id Node)))"

fun index_of_tree :: "BinTree list \<Rightarrow> nat \<Rightarrow> int \<Rightarrow> int" where
  "index_of_tree [] p i = 999"
| "index_of_tree (t # ts) p i = (if Tree_Ptr t = p then i else index_of_tree ts p (i + 1))"

definition getIndex :: "Trees \<Rightarrow> nat \<Rightarrow> string \<Rightarrow> int" where
  "getIndex s tree rootName = index_of_tree (map_get [] (BinaryTrees s) rootName) tree 0"

lemma find_graph_node_Some:
  "find_graph_node ns sid = Some g \<Longrightarrow> g \<in> set ns \<and> node_id (Graph_Node g) = sid"
  by (induction ns) (auto split: if_splits)

lemma find_tree_node_Some: "find_tree_node ns sid = Some n \<Longrightarrow> n \<in> set ns \<and> node_id n = sid"
  by (induction ns) (auto split: if_splits)

lemma find_tree_node_None: "find_tree_node ns sid = None \<longleftrightarrow> sid \<notin> node_id ` set ns"
  by (induction ns) auto

lemma index_of_tree_cases:
  "index_of_tree ts p i = 999 \<and> p \<notin> Tree_Ptr ` set ts
   \<or> (\<exists>j < length ts. index_of_tree ts p i = i + int j \<and> Tree_Ptr (ts ! j) = p)"
proof (induction ts arbitrary: i)
  case (Cons t ts)
  show ?case
  proof (cases "Tree_Ptr t = p")
    case False
    from Cons[of "i + 1"] show ?thesis
    proof
      assume "\<exists>j < length ts. index_of_tree ts p (i + 1) = i + 1 + int j \<and> Tree_Ptr (ts ! j) = p"
      then obtain j where "j < length ts" "index_of_tree ts p (i + 1) = i + 1 + int j" "Tree_Ptr (ts ! j) = p"
        by blast
      with False show ?thesis by (intro disjI2 exI[of _ "Suc j"]) simp
    qed (use False in auto)
  qed auto
qed simp

end
