(* ===== verification/Cosi_Service.thy ===== *)
theory Cosi_Service
  imports Cosi_Trees "HOL-Library.Word"
begin

text \<open>
  The requests of the Nyle service (nyle/cosi\_service/service.go): \<open>BFTCoSiSimul\<close> runs the
  collective signing on the service's own rings and asks the nodes of its bunch to do the same
  on theirs, and waits for all of them on a wait group. The services are known by their names.
  A goroutine is a task; the protocol runs on a ring are events of the environment.
\<close>

subsection \<open>Names of metrics\<close>

definition getBunchMetric :: "string \<Rightarrow> string \<Rightarrow> string" where
  "getBunchMetric src bunchNode = ''bunch|'' @ src @ ''|'' @ bunchNode @ ''|''"

definition getOwnMetric :: "string \<Rightarrow> string" where
  "getOwnMetric src = ''own|'' @ src @ ''|''"

subsection \<open>State\<close>

text \<open>The fields of a service that requests change: the counters of the wait groups by request, the
  metrics that have been created, the number of protocols started; and, for the calls of
  \<open>BFTCoSiSimul\<close>, the requests whose own run ended with an error and those that returned.\<close>

record service_state =
  CosiWg :: "(int, int) gomap"
  metrics :: "(string, bool) gomap"
  NrProtocolsStarted :: "64 word"
  Failed :: "int set"
  Returned :: "int set"

datatype cosi_msg = StartBFTCosiReq string int | ReplyBFTCosiReq int

text \<open>The goroutines of a service. The rings of a run are those whose number has not yet come out of
  \<open>doneChan\<close>.\<close>

datatype task =
    Waiting int
  | OwnStart int
  | OwnRun int "nat list"
  | SendAll int
  | BunchSend int string
  | BunchStart int string
  | BunchRun int string "nat list"

text \<open>\<open>WaitGroup.Done\<close> panics on a negative counter, and on a group that does not exist.\<close>

definition wg_done :: "int \<Rightarrow> service_state \<Rightarrow> service_state result" where
  "wg_done reqId s =
     (case map_of (CosiWg s) reqId of
        None \<Rightarrow> Inl NilDereference
      | Some c \<Rightarrow> if c - 1 < 0 then Inl (GoPanic ''sync: negative WaitGroup counter'')
                  else Inr (s\<lparr>CosiWg := map_set (CosiWg s) reqId (c - 1)\<rparr>))"

definition record_metric :: "string \<Rightarrow> service_state \<Rightarrow> service_state result" where
  "record_metric metric s = (if has (metrics s) metric then Inr s else Inl NilDereference)"

definition new_metric :: "string \<Rightarrow> service_state \<Rightarrow> service_state" where
  "new_metric metric s = s\<lparr>metrics := map_set (metrics s) metric True\<rparr>"

subsection \<open>Lookups\<close>

text \<open>The node of a name, and the name of the server that a message to that node goes to.\<close>

definition svc_node :: "Trees \<Rightarrow> string \<Rightarrow> LocalityNode result" where
  "svc_node T name =
     res_bind (GetByName (Tree_Nodes T) name) (\<lambda>p.
       case p of None \<Rightarrow> Inl NilDereference | Some i \<Rightarrow> Inr (node_at (Tree_Nodes T) i))"

definition svc_address :: "Trees \<Rightarrow> string \<Rightarrow> string result" where
  "svc_address T name =
     res_bind (svc_node T name) (\<lambda>n.
       case NodeIdentity n of
         None \<Rightarrow> Inl (GoPanic ''SendRaw'')
       | Some sid \<Rightarrow> Inr (GetServerIdentityToName (Tree_Nodes T) sid))"

text \<open>The names in the bunch of the service, those with the value \<open>true\<close>.\<close>

definition bunch_names :: "Trees \<Rightarrow> string \<Rightarrow> string list result" where
  "bunch_names T me = res_bind (svc_node T me) (\<lambda>n. Inr (filter (has (Bunch n)) (map_keys (Bunch n))))"

subsection \<open>Runs on the service's own rings\<close>

text \<open>\<open>runCosiOnOwnTreesWithRestriction\<close> up to the receiving loop: a ring of one node is done at once,
  on the others a protocol is started. The receiving loop waits for one number per ring.\<close>

definition start_ring :: "Trees \<Rightarrow> string \<Rightarrow> nat \<Rightarrow> nat list \<Rightarrow> nat list result" where
  "start_ring T rootName i acc =
     res_bind (slice_get (map_get [] (GraphTrees T) rootName) (int i)) (\<lambda>g.
       Inr (if length (ListOfNodes g) = 1 then acc else acc @ [i]))"

definition runCosiOnOwnTreesWithRestriction :: "Trees \<Rightarrow> string \<Rightarrow> nat \<Rightarrow> nat list result" where
  "runCosiOnOwnTreesWithRestriction T rootName minTreeIndex =
     res_fold (start_ring T rootName) [minTreeIndex..<length (map_get [] (BinaryTrees T) rootName)] []"

definition has_participant :: "Trees \<Rightarrow> string \<Rightarrow> GraphTree \<Rightarrow> bool" where
  "has_participant T participantName g \<longleftrightarrow>
     (\<exists>n \<in> set (ListOfNodes g). participantName = GetServerIdentityToName (Tree_Nodes T) (Identity (Graph_Node n)))"

text \<open>The first ring with the participant, of \<open>RunCosiOnOwnTreesWithParticipant\<close>.\<close>

fun find_participant :: "Trees \<Rightarrow> string \<Rightarrow> string \<Rightarrow> nat list \<Rightarrow> nat option result" where
  "find_participant T rootName participantName [] = Inr None"
| "find_participant T rootName participantName (i # is) =
     res_bind (slice_get (map_get [] (GraphTrees T) rootName) (int i)) (\<lambda>g.
       if has_participant T participantName g then Inr (Some i)
       else find_participant T rootName participantName is)"

subsection \<open>Handlers\<close>

text \<open>What a handler or goroutine does: the new state, the tasks it starts and the messages it sends
  with their receivers.\<close>

type_synonym outcome = "(service_state \<times> task list \<times> (string \<times> cosi_msg) list) result"

text \<open>\<open>BFTCoSiSimul\<close> up to \<open>Wait\<close>. Counting the bunch and spawning the goroutines comes first.\<close>

definition BFTCoSiSimul :: "Trees \<Rightarrow> string \<Rightarrow> int \<Rightarrow> service_state \<Rightarrow> outcome" where
  "BFTCoSiSimul T me reqId s =
     res_bind (bunch_names T me) (\<lambda>bs.
       Inr (s\<lparr>CosiWg := map_set (CosiWg s) reqId (1 + int (length bs))\<rparr>, [OwnStart reqId, SendAll reqId, Waiting reqId], []))"

definition sendReqToBunch :: "Trees \<Rightarrow> string \<Rightarrow> int \<Rightarrow> service_state \<Rightarrow> outcome" where
  "sendReqToBunch T me reqId s = res_bind (bunch_names T me) (\<lambda>bs. Inr (s, map (BunchSend reqId) bs, []))"

definition send_to_bunch_node :: "Trees \<Rightarrow> string \<Rightarrow> int \<Rightarrow> string \<Rightarrow> service_state \<Rightarrow> outcome" where
  "send_to_bunch_node T me reqId nodeName s =
     res_bind (svc_address T nodeName) (\<lambda>to.
       Inr (new_metric (getBunchMetric me nodeName) s, [], [(to, StartBFTCosiReq me reqId)]))"

definition RunCosiOnOwnTrees :: "Trees \<Rightarrow> string \<Rightarrow> int \<Rightarrow> service_state \<Rightarrow> outcome" where
  "RunCosiOnOwnTrees T me reqId s =
     res_bind (runCosiOnOwnTreesWithRestriction T me 0) (\<lambda>rs.
       Inr ((new_metric (getOwnMetric me) s)\<lparr>NrProtocolsStarted := NrProtocolsStarted s + of_nat (length rs)\<rparr>, [OwnRun reqId rs], []))"

definition own_run_done :: "string \<Rightarrow> int \<Rightarrow> service_state \<Rightarrow> outcome" where
  "own_run_done me reqId s =
     res_bind (record_metric (getOwnMetric me) s) (\<lambda>s1.
     res_bind (wg_done reqId s1) (\<lambda>s2. Inr (s2, [], [])))"

definition RunCosiOnOwnTreesWithParticipant :: "Trees \<Rightarrow> string \<Rightarrow> string \<Rightarrow> int \<Rightarrow> service_state \<Rightarrow> outcome" where
  "RunCosiOnOwnTreesWithParticipant T me participantName reqId s =
     res_bind (find_participant T me participantName [0..<length (map_get [] (BinaryTrees T) me)]) (\<lambda>i.
       case i of
         None \<Rightarrow> Inr (s, [], [])
       | Some i \<Rightarrow> res_bind (runCosiOnOwnTreesWithRestriction T me i) (\<lambda>rs.
           Inr (s\<lparr>NrProtocolsStarted := NrProtocolsStarted s + of_nat (length rs)\<rparr>, [BunchRun reqId participantName rs], [])))"

definition bunch_run_done :: "Trees \<Rightarrow> int \<Rightarrow> string \<Rightarrow> service_state \<Rightarrow> outcome" where
  "bunch_run_done T reqId participantName s =
     res_bind (svc_address T participantName) (\<lambda>to. Inr (s, [], [(to, ReplyBFTCosiReq reqId)]))"

text \<open>The processors of the two messages; the sender is the one of the envelope.\<close>

fun process_msg :: "string \<Rightarrow> string \<Rightarrow> cosi_msg \<Rightarrow> service_state \<Rightarrow> outcome" where
  "process_msg me sender (StartBFTCosiReq _ reqId) s = Inr (s, [BunchStart reqId sender], [])"
| "process_msg me sender (ReplyBFTCosiReq reqId) s =
     res_bind (record_metric (getBunchMetric me sender) s) (\<lambda>s1.
     res_bind (wg_done reqId s1) (\<lambda>s2. Inr (s2, [], [])))"

text \<open>One step of a goroutine that does not wait for a ring or a wait group.\<close>

fun run_task :: "Trees \<Rightarrow> string \<Rightarrow> task \<Rightarrow> service_state \<Rightarrow> outcome option" where
  "run_task T me (OwnStart i) s = Some (RunCosiOnOwnTrees T me i s)"
| "run_task T me (OwnRun i []) s = Some (own_run_done me i s)"
| "run_task T me (SendAll i) s = Some (sendReqToBunch T me i s)"
| "run_task T me (BunchSend i n) s = Some (send_to_bunch_node T me i n s)"
| "run_task T me (BunchStart i u) s = Some (RunCosiOnOwnTreesWithParticipant T me u i s)"
| "run_task T me (BunchRun i u []) s = Some (bunch_run_done T i u s)"
| "run_task T me (Waiting i) s =
     (if map_get 0 (CosiWg s) i = 0 then Some (Inr (s\<lparr>Returned := insert i (Returned s)\<rparr>, [], [])) else None)"
| "run_task T me t s = None"

text \<open>A protocol on a ring ends.\<close>

fun ring_done :: "task \<Rightarrow> nat \<Rightarrow> task option" where
  "ring_done (OwnRun i rs) r = (if r \<in> set rs then Some (OwnRun i (remove1 r rs)) else None)"
| "ring_done (BunchRun i u rs) r = (if r \<in> set rs then Some (BunchRun i u (remove1 r rs)) else None)"
| "ring_done t r = None"

subsection \<open>All services\<close>

record cosi_net =
  Cn_svc :: "string \<Rightarrow> service_state"
  Cn_tasks :: "(string \<times> task) multiset"
  Cn_msgs :: "(string \<times> string \<times> cosi_msg) multiset"

text \<open>The services, their trees, and the bunch of each.\<close>

record cosi_world =
  Cw_names :: "string set"
  Cw_trees :: "string \<Rightarrow> Trees"
  Cw_bunch :: "string \<Rightarrow> string list"

definition perform :: "string \<Rightarrow> service_state \<Rightarrow> task list \<Rightarrow> (string \<times> cosi_msg) list \<Rightarrow> cosi_net \<Rightarrow> cosi_net" where
  "perform v s ts ms \<sigma> = \<lparr>Cn_svc = (Cn_svc \<sigma>)(v := s), Cn_tasks = Cn_tasks \<sigma> + mset (map (Pair v) ts),
     Cn_msgs = Cn_msgs \<sigma> + mset (map (\<lambda>(to, m). (v, to, m)) ms)\<rparr>"

text \<open>A client calls \<open>BFTCoSiSimul\<close> with a new request number, a goroutine goes on, a protocol on a ring
  ends, the ten minutes for a ring of an own run are over, or a message is processed. (A run for
  another service that takes longer than ten minutes panics: there is no step for it.)\<close>

inductive cosi_work :: "cosi_world \<Rightarrow> cosi_net \<Rightarrow> cosi_net \<Rightarrow> bool"
  for W :: cosi_world where
  cosi_task: "Cn_tasks \<sigma> = add_mset (v, t) R \<Longrightarrow> run_task (Cw_trees W v) v t (Cn_svc \<sigma> v) = Some (Inr (s', ts, ms)) \<Longrightarrow>
    cosi_work W \<sigma> (perform v s' ts ms (\<sigma>\<lparr>Cn_tasks := R\<rparr>))"
| cosi_ring: "Cn_tasks \<sigma> = add_mset (v, t) R \<Longrightarrow> ring_done t r = Some t' \<Longrightarrow>
    cosi_work W \<sigma> (perform v (Cn_svc \<sigma> v) [t'] [] (\<sigma>\<lparr>Cn_tasks := R\<rparr>))"
| cosi_timeout: "Cn_tasks \<sigma> = add_mset (v, OwnRun i rs) R \<Longrightarrow> rs \<noteq> [] \<Longrightarrow>
    own_run_done v i ((Cn_svc \<sigma> v)\<lparr>Failed := insert i (Failed (Cn_svc \<sigma> v))\<rparr>) = Inr (s', ts, ms) \<Longrightarrow>
    cosi_work W \<sigma> (perform v s' ts ms (\<sigma>\<lparr>Cn_tasks := R\<rparr>))"
| cosi_message: "Cn_msgs \<sigma> = add_mset (u, v, m) M \<Longrightarrow> process_msg v u m (Cn_svc \<sigma> v) = Inr (s', ts, ms) \<Longrightarrow>
    cosi_work W \<sigma> (perform v s' ts ms (\<sigma>\<lparr>Cn_msgs := M\<rparr>))"

inductive cosi_step :: "cosi_world \<Rightarrow> cosi_net \<Rightarrow> cosi_net \<Rightarrow> bool"
  for W :: cosi_world where
  cosi_call: "v \<in> Cw_names W \<Longrightarrow> map_of (CosiWg (Cn_svc \<sigma> v)) i = None \<Longrightarrow>
    BFTCoSiSimul (Cw_trees W v) v i (Cn_svc \<sigma> v) = Inr (s', ts, ms) \<Longrightarrow> cosi_step W \<sigma> (perform v s' ts ms \<sigma>)"
| cosi_work: "cosi_work W \<sigma> \<sigma>' \<Longrightarrow> cosi_step W \<sigma> \<sigma>'"

definition cosi_init :: "cosi_net \<Rightarrow> bool" where
  "cosi_init \<sigma> \<longleftrightarrow> \<sigma> = \<lparr>Cn_svc = (\<lambda>v. \<lparr>CosiWg = [], metrics = [], NrProtocolsStarted = 0, Failed = {}, Returned = {}\<rparr>),
     Cn_tasks = {#}, Cn_msgs = {#}\<rparr>"

text \<open>What the services rely on: names lead to the services, and every binary tree has its graph tree.\<close>

definition world_ok :: "cosi_world \<Rightarrow> bool" where
  "world_ok W \<longleftrightarrow> (\<forall>v \<in> Cw_names W. bunch_names (Cw_trees W v) v = Inr (Cw_bunch W v) \<and> set (Cw_bunch W v) \<subseteq> Cw_names W
     \<and> (\<forall>u \<in> Cw_names W. svc_address (Cw_trees W v) u = Inr u)
     \<and> length (map_get [] (BinaryTrees (Cw_trees W v)) v) \<le> length (map_get [] (GraphTrees (Cw_trees W v)) v))"

definition participants_ok :: "cosi_world \<Rightarrow> bool" where
  "participants_ok W \<longleftrightarrow> (\<forall>v \<in> Cw_names W. \<forall>b \<in> set (Cw_bunch W v). \<exists>i < length (map_get [] (BinaryTrees (Cw_trees W b)) b).
     has_participant (Cw_trees W b) v (map_get [] (GraphTrees (Cw_trees W b)) b ! i))"

lemma world_okD:
  assumes "world_ok W" "v \<in> Cw_names W"
  shows "bunch_names (Cw_trees W v) v = Inr (Cw_bunch W v)" "set (Cw_bunch W v) \<subseteq> Cw_names W"
    "u \<in> Cw_names W \<Longrightarrow> svc_address (Cw_trees W v) u = Inr u"
    "length (map_get [] (BinaryTrees (Cw_trees W v)) v) \<le> length (map_get [] (GraphTrees (Cw_trees W v)) v)"
  using assms by (simp_all add: world_ok_def)

lemma rings_started:
  assumes "world_ok W" "v \<in> Cw_names W"
  shows "\<exists>rs. runCosiOnOwnTreesWithRestriction (Cw_trees W v) v k = Inr rs
    \<and> length rs \<le> length (map_get [] (BinaryTrees (Cw_trees W v)) v)"
proof -
  have "\<exists>rs. res_fold (start_ring (Cw_trees W v) v) is acc = Inr rs \<and> length rs \<le> length acc + length is"
    if "\<forall>i \<in> set is. i < length (map_get [] (GraphTrees (Cw_trees W v)) v)" for "is" acc
    using that by (induction "is" arbitrary: acc) (fastforce simp: start_ring_def)+
  from this[of "[k..<length (map_get [] (BinaryTrees (Cw_trees W v)) v)]" "[]"] show ?thesis
    using world_okD(4)[OF assms] by (auto simp: runCosiOnOwnTreesWithRestriction_def)
qed

lemma participant_found:
  assumes "\<forall>i \<in> set is. i < length (map_get [] (GraphTrees T) b)"
  shows "\<exists>r. find_participant T b v is = Inr r \<and> (r = None \<longleftrightarrow> (\<forall>i \<in> set is. \<not> has_participant T v (map_get [] (GraphTrees T) b ! i)))"
  using assms by (induction "is") auto

subsection \<open>Obligations\<close>

text \<open>What the call \<open>q\<close> of service \<open>v\<close> still waits for in a task or a message.\<close>

fun task_weight :: "cosi_world \<Rightarrow> string \<Rightarrow> int \<Rightarrow> string \<times> task \<Rightarrow> nat" where
  "task_weight W v q (w, Waiting i) = 0"
| "task_weight W v q (w, OwnStart i) = (if w = v \<and> i = q then 1 else 0)"
| "task_weight W v q (w, OwnRun i rs) = (if w = v \<and> i = q then 1 else 0)"
| "task_weight W v q (w, SendAll i) = (if w = v \<and> i = q then length (Cw_bunch W v) else 0)"
| "task_weight W v q (w, BunchSend i n) = (if w = v \<and> i = q then 1 else 0)"
| "task_weight W v q (w, BunchStart i u) = (if u = v \<and> i = q then 1 else 0)"
| "task_weight W v q (w, BunchRun i u rs) = (if u = v \<and> i = q then 1 else 0)"

fun cosi_msg_weight :: "string \<Rightarrow> int \<Rightarrow> string \<times> string \<times> cosi_msg \<Rightarrow> nat" where
  "cosi_msg_weight v q (u, w, StartBFTCosiReq n i) = (if u = v \<and> i = q then 1 else 0)"
| "cosi_msg_weight v q (u, w, ReplyBFTCosiReq i) = (if w = v \<and> i = q then 1 else 0)"

definition outstanding :: "cosi_world \<Rightarrow> string \<Rightarrow> int \<Rightarrow> cosi_net \<Rightarrow> nat" where
  "outstanding W v q \<sigma> = (\<Sum>x \<in># Cn_tasks \<sigma>. task_weight W v q x) + (\<Sum>x \<in># Cn_msgs \<sigma>. cosi_msg_weight v q x)"

text \<open>The tasks and messages that occur.\<close>

definition asked :: "cosi_world \<Rightarrow> (string \<Rightarrow> service_state) \<Rightarrow> string \<Rightarrow> string \<Rightarrow> bool" where
  "asked W S v b \<longleftrightarrow> v \<in> Cw_names W \<and> b \<in> set (Cw_bunch W v) \<and> has (metrics (S v)) (getBunchMetric v b)"

fun task_ok :: "cosi_world \<Rightarrow> (string \<Rightarrow> service_state) \<Rightarrow> string \<times> task \<Rightarrow> bool" where
  "task_ok W S (w, OwnRun i rs) \<longleftrightarrow> w \<in> Cw_names W \<and> has (metrics (S w)) (getOwnMetric w)"
| "task_ok W S (w, BunchSend i n) \<longleftrightarrow> w \<in> Cw_names W \<and> n \<in> set (Cw_bunch W w)"
| "task_ok W S (w, BunchStart i u) \<longleftrightarrow> asked W S u w"
| "task_ok W S (w, BunchRun i u rs) \<longleftrightarrow> asked W S u w"
| "task_ok W S (w, Waiting i) \<longleftrightarrow> w \<in> Cw_names W \<and> map_of (CosiWg (S w)) i \<noteq> None"
| "task_ok W S (w, t) \<longleftrightarrow> w \<in> Cw_names W"

fun cosi_msg_ok :: "cosi_world \<Rightarrow> (string \<Rightarrow> service_state) \<Rightarrow> string \<times> string \<times> cosi_msg \<Rightarrow> bool" where
  "cosi_msg_ok W S (u, w, StartBFTCosiReq n i) \<longleftrightarrow> asked W S u w"
| "cosi_msg_ok W S (u, w, ReplyBFTCosiReq i) \<longleftrightarrow> asked W S w u"

definition cosi_inv :: "cosi_world \<Rightarrow> cosi_net \<Rightarrow> bool" where
  "cosi_inv W \<sigma> \<longleftrightarrow> (\<forall>x \<in># Cn_tasks \<sigma>. task_ok W (Cn_svc \<sigma>) x) \<and> (\<forall>x \<in># Cn_msgs \<sigma>. cosi_msg_ok W (Cn_svc \<sigma>) x)
     \<and> (\<forall>v q. map_get 0 (CosiWg (Cn_svc \<sigma> v)) q = int (outstanding W v q \<sigma>))
     \<and> (\<forall>v q. q \<in> Returned (Cn_svc \<sigma> v) \<longrightarrow> map_of (CosiWg (Cn_svc \<sigma> v)) q = Some 0)"

text \<open>A service that a step changes keeps its metrics, and its counters change by what the step adds to
  and takes from the obligations.\<close>

definition keeps :: "service_state \<Rightarrow> service_state \<Rightarrow> bool" where
  "keeps s s' \<longleftrightarrow> (\<forall>m. has (metrics s) m \<longrightarrow> has (metrics s') m) \<and> (\<forall>i. map_of (CosiWg s) i \<noteq> None \<longrightarrow> map_of (CosiWg s') i \<noteq> None)"

lemma asked_keeps: "asked W S v b \<Longrightarrow> keeps (S w) s' \<Longrightarrow> asked W (S(w := s')) v b"
  by (auto simp: asked_def keeps_def)

lemma ok_keeps:
  assumes "keeps (S w) s'"
  shows "task_ok W S x \<Longrightarrow> task_ok W (S(w := s')) x" "cosi_msg_ok W S y \<Longrightarrow> cosi_msg_ok W (S(w := s')) y"
proof -
  note a = asked_keeps[where S = S and w = w and s' = s', OF _ assms]
  show "task_ok W S x \<Longrightarrow> task_ok W (S(w := s')) x"
    using a assms by (cases "(W, S, x)" rule: task_ok.cases) (auto simp: keeps_def)
  show "cosi_msg_ok W S y \<Longrightarrow> cosi_msg_ok W (S(w := s')) y" using a by (cases "(W, S, y)" rule: cosi_msg_ok.cases) auto
qed

definition new_weight :: "cosi_world \<Rightarrow> string \<Rightarrow> int \<Rightarrow> string \<Rightarrow> task list \<Rightarrow> (string \<times> cosi_msg) list \<Rightarrow> nat" where
  "new_weight W v q w ts ms = sum_list (map (\<lambda>t. task_weight W v q (w, t)) ts) + sum_list (map (\<lambda>(to, m). cosi_msg_weight v q (w, to, m)) ms)"

lemma outstanding_perform: "outstanding W v q (perform w s ts ms \<sigma>) = outstanding W v q \<sigma> + new_weight W v q w ts ms"
  by (simp add: outstanding_def perform_def new_weight_def case_prod_unfold comp_def flip: mset_map sum_mset_sum_list)

lemma outstanding_remove:
  "Cn_tasks \<sigma> = add_mset x R \<Longrightarrow> outstanding W v q \<sigma> = outstanding W v q (\<sigma>\<lparr>Cn_tasks := R\<rparr>) + task_weight W v q x"
  "Cn_msgs \<sigma> = add_mset y M \<Longrightarrow> outstanding W v q \<sigma> = outstanding W v q (\<sigma>\<lparr>Cn_msgs := M\<rparr>) + cosi_msg_weight v q y"
  by (simp_all add: outstanding_def)

lemma outstanding_ge:
  "x \<in># Cn_tasks \<sigma> \<Longrightarrow> task_weight W v q x \<le> outstanding W v q \<sigma>" "y \<in># Cn_msgs \<sigma> \<Longrightarrow> cosi_msg_weight v q y \<le> outstanding W v q \<sigma>"
  using outstanding_remove by (metis le_add2 multi_member_split)+

lemma cosi_invD:
  assumes "cosi_inv W \<sigma>"
  shows "x \<in># Cn_tasks \<sigma> \<Longrightarrow> task_ok W (Cn_svc \<sigma>) x" "y \<in># Cn_msgs \<sigma> \<Longrightarrow> cosi_msg_ok W (Cn_svc \<sigma>) y"
    "map_get 0 (CosiWg (Cn_svc \<sigma> v)) q = int (outstanding W v q \<sigma>)"
    "q \<in> Returned (Cn_svc \<sigma> v) \<Longrightarrow> map_of (CosiWg (Cn_svc \<sigma> v)) q = Some 0"
  using assms by (simp_all add: cosi_inv_def)

text \<open>What a step of service \<open>w\<close> has to do that takes the weight \<open>wt\<close> away.\<close>

definition step_ok :: "cosi_world \<Rightarrow> cosi_net \<Rightarrow> string \<Rightarrow> (string \<Rightarrow> int \<Rightarrow> nat) \<Rightarrow> service_state \<Rightarrow> task list \<Rightarrow> (string \<times> cosi_msg) list \<Rightarrow> bool" where
  "step_ok W \<sigma> w wt s' ts ms \<longleftrightarrow> keeps (Cn_svc \<sigma> w) s'
     \<and> (\<forall>t \<in> set ts. task_ok W ((Cn_svc \<sigma>)(w := s')) (w, t)) \<and> (\<forall>(to, m) \<in> set ms. cosi_msg_ok W ((Cn_svc \<sigma>)(w := s')) (w, to, m))
     \<and> (\<forall>v q. int (new_weight W v q w ts ms) - int (wt v q)
          = (if v = w then map_get 0 (CosiWg s') q - map_get 0 (CosiWg (Cn_svc \<sigma> w)) q else 0))
     \<and> (\<forall>q \<in> Returned s'. map_of (CosiWg s') q = Some 0)"

lemma perform_inv:
  assumes I: "cosi_inv W \<sigma>" and S: "step_ok W \<sigma> w wt s' ts ms"
    and sub: "Cn_svc \<sigma>1 = Cn_svc \<sigma>" "Cn_tasks \<sigma>1 \<subseteq># Cn_tasks \<sigma>" "Cn_msgs \<sigma>1 \<subseteq># Cn_msgs \<sigma>"
    and wt: "\<And>v q. outstanding W v q \<sigma> = outstanding W v q \<sigma>1 + wt v q"
  shows "cosi_inv W (perform w s' ts ms \<sigma>1)"
proof -
  have k: "keeps (Cn_svc \<sigma> w) s'" using S by (simp add: step_ok_def)
  note ok = ok_keeps[where S = "Cn_svc \<sigma>" and w = w, OF k]
  have "task_ok W ((Cn_svc \<sigma>)(w := s')) x" if "x \<in># Cn_tasks \<sigma>1" for x
    using ok(1) cosi_invD(1)[OF I] mset_subset_eqD[OF sub(2) that] by blast
  moreover have "cosi_msg_ok W ((Cn_svc \<sigma>)(w := s')) x" if "x \<in># Cn_msgs \<sigma>1" for x
    using ok(2) cosi_invD(2)[OF I] mset_subset_eqD[OF sub(3) that] by blast
  moreover have "map_get 0 (CosiWg (((Cn_svc \<sigma>)(w := s')) v)) q = int (outstanding W v q \<sigma>1 + new_weight W v q w ts ms)" for v q
  proof -
    have "int (new_weight W v q w ts ms) - int (wt v q)
        = (if v = w then map_get 0 (CosiWg s') q - map_get 0 (CosiWg (Cn_svc \<sigma> w)) q else 0)"
      using S unfolding step_ok_def by blast
    then show ?thesis using cosi_invD(3)[OF I, of v q] wt[of v q] by (auto split: if_splits)
  qed
  moreover have "map_of (CosiWg (((Cn_svc \<sigma>)(w := s')) v)) q = Some 0" if "q \<in> Returned (((Cn_svc \<sigma>)(w := s')) v)" for v q
    using that S cosi_invD(4)[OF I, of q v] by (auto simp: step_ok_def split: if_splits)
  ultimately show ?thesis
    using S sub(1) unfolding cosi_inv_def outstanding_perform by (auto simp: perform_def step_ok_def)
qed

lemma wg_done_ok:
  assumes "map_get 0 (CosiWg s) i > 0"
  shows "wg_done i s = Inr (s\<lparr>CosiWg := map_set (CosiWg s) i (map_get 0 (CosiWg s) i - 1)\<rparr>)"
  using assms by (cases "map_of (CosiWg s) i") (auto simp: wg_done_def map_get_def)

lemma returned_kept:
  assumes "\<And>q. q \<in> Returned s \<Longrightarrow> map_of (CosiWg s) q = Some 0" "map_get 0 (CosiWg s) i > 0" "q \<in> Returned s"
  shows "map_of (map_set (CosiWg s) i c) q = Some 0"
  using assms(1)[OF assms(3)] assms(2) by (auto simp: gomap.lookup_update map_get_def)

lemma new_weight_simps [simp]:
  "new_weight W v q w [] [] = 0" "new_weight W v q w [t] [] = task_weight W v q (w, t)" "new_weight W v q w [] [(to, m)] = cosi_msg_weight v q (w, to, m)"
  by (simp_all add: new_weight_def)

lemma keeps_simps [simp]:
  "keeps s s" "keeps s (s\<lparr>CosiWg := map_set (CosiWg s) i c\<rparr>)" "keeps s (new_metric m s)" "keeps s (s\<lparr>NrProtocolsStarted := n\<rparr>)"
  "keeps s ((new_metric m s)\<lparr>NrProtocolsStarted := n\<rparr>)" "keeps s (s\<lparr>Returned := r\<rparr>)"
  "keeps s (s\<lparr>Failed := f, CosiWg := map_set (CosiWg s) i c\<rparr>)"
  by (simp_all add: keeps_def new_metric_def gomap.lookup_update)

subsection \<open>The steps\<close>

text \<open>The end of an own run, by its rings or by the time limit.\<close>

lemma own_run_ok:
  assumes I: "cosi_inv W \<sigma>" and t: "(w, OwnRun i rs) \<in># Cn_tasks \<sigma>" and f: "f = Failed (Cn_svc \<sigma> w) \<or> f = insert i (Failed (Cn_svc \<sigma> w))"
  shows "\<exists>s'. own_run_done w i ((Cn_svc \<sigma> w)\<lparr>Failed := f\<rparr>) = Inr (s', [], []) \<and> step_ok W \<sigma> w (\<lambda>v q. task_weight W v q (w, OwnRun i rs)) s' [] []"
proof -
  let ?s = "Cn_svc \<sigma> w"
  have c: "map_get 0 (CosiWg ?s) i > 0" using outstanding_ge(1)[OF t, of W w i] cosi_invD(3)[OF I, of w i] by simp
  have "record_metric (getOwnMetric w) (?s\<lparr>Failed := f\<rparr>) = Inr (?s\<lparr>Failed := f\<rparr>)"
    using cosi_invD(1)[OF I t] by (simp add: record_metric_def)
  then have "own_run_done w i (?s\<lparr>Failed := f\<rparr>) = Inr (?s\<lparr>Failed := f, CosiWg := map_set (CosiWg ?s) i (map_get 0 (CosiWg ?s) i - 1)\<rparr>, [], [])"
    using wg_done_ok[of "?s\<lparr>Failed := f\<rparr>" i] c by (simp add: own_run_done_def)
  moreover have "step_ok W \<sigma> w (\<lambda>v q. task_weight W v q (w, OwnRun i rs))
      (?s\<lparr>Failed := f, CosiWg := map_set (CosiWg ?s) i (map_get 0 (CosiWg ?s) i - 1)\<rparr>) [] []"
    using returned_kept[of ?s i, OF cosi_invD(4)[OF I] c] by (auto simp: step_ok_def)
  ultimately show ?thesis by blast
qed

lemma reply_ok:
  assumes I: "cosi_inv W \<sigma>" and m: "(u, w, ReplyBFTCosiReq i) \<in># Cn_msgs \<sigma>"
  shows "\<exists>s'. process_msg w u (ReplyBFTCosiReq i) (Cn_svc \<sigma> w) = Inr (s', [], [])
    \<and> step_ok W \<sigma> w (\<lambda>v q. cosi_msg_weight v q (u, w, ReplyBFTCosiReq i)) s' [] []"
proof -
  let ?s = "Cn_svc \<sigma> w"
  have c: "map_get 0 (CosiWg ?s) i > 0" using outstanding_ge(2)[OF m, of w i W] cosi_invD(3)[OF I, of w i] by simp
  have "record_metric (getBunchMetric w u) ?s = Inr ?s" using cosi_invD(2)[OF I m] by (simp add: record_metric_def asked_def)
  then have "process_msg w u (ReplyBFTCosiReq i) ?s = Inr (?s\<lparr>CosiWg := map_set (CosiWg ?s) i (map_get 0 (CosiWg ?s) i - 1)\<rparr>, [], [])"
    using wg_done_ok[OF c] by simp
  moreover have "step_ok W \<sigma> w (\<lambda>v q. cosi_msg_weight v q (u, w, ReplyBFTCosiReq i))
      (?s\<lparr>CosiWg := map_set (CosiWg ?s) i (map_get 0 (CosiWg ?s) i - 1)\<rparr>) [] []"
    using returned_kept[of ?s i, OF cosi_invD(4)[OF I] c] by (auto simp: step_ok_def)
  ultimately show ?thesis by blast
qed

lemma message_ok:
  assumes I: "cosi_inv W \<sigma>" and m: "(u, w, m) \<in># Cn_msgs \<sigma>"
  shows "\<exists>s' ts. process_msg w u m (Cn_svc \<sigma> w) = Inr (s', ts, []) \<and> step_ok W \<sigma> w (\<lambda>v q. cosi_msg_weight v q (u, w, m)) s' ts []"
proof (cases m)
  case (StartBFTCosiReq n i)
  have "step_ok W \<sigma> w (\<lambda>v q. cosi_msg_weight v q (u, w, m)) (Cn_svc \<sigma> w) [BunchStart i u] []"
    using cosi_invD(2)[OF I m] cosi_invD(4)[OF I, of _ w] StartBFTCosiReq by (auto simp: step_ok_def)
  then show ?thesis using StartBFTCosiReq by simp
qed (use reply_ok[OF I] m in blast)

lemma new_weight_sends: "new_weight W v q w (map (BunchSend i) ns) [] = (if w = v \<and> i = q then length ns else 0)"
  by (induction ns) (auto simp: new_weight_def)

lemma task_ok_runs:
  assumes W: "world_ok W" "participants_ok W" and I: "cosi_inv W \<sigma>" and t: "(w, t) \<in># Cn_tasks \<sigma>"
    and r: "run_task (Cw_trees W w) w t (Cn_svc \<sigma> w) = Some r"
  shows "\<exists>s' ts ms. r = Inr (s', ts, ms) \<and> step_ok W \<sigma> w (\<lambda>v q. task_weight W v q (w, t)) s' ts ms"
proof -
  let ?s = "Cn_svc \<sigma> w" and ?T = "Cw_trees W w"
  note ok = cosi_invD(1)[OF I t] and ret = cosi_invD(4)[OF I, of _ w]
  have w: "w \<in> Cw_names W" using ok world_okD(2)[OF W(1)] by (cases "(W, Cn_svc \<sigma>, w, t)" rule: task_ok.cases) (auto simp: asked_def)
  note L = world_okD[OF W(1) w]
  show ?thesis
  proof (cases t)
    case (Waiting i)
    then have "map_get 0 (CosiWg ?s) i = 0" "r = Inr (?s\<lparr>Returned := insert i (Returned ?s)\<rparr>, [], [])" using r by (auto split: if_splits)
    moreover from this(1) have "map_of (CosiWg ?s) i = Some 0" using ok Waiting by (auto simp: map_get_def)
    ultimately show ?thesis using Waiting ret by (auto simp: step_ok_def)
  next
    case (OwnStart i)
    obtain rs where "runCosiOnOwnTreesWithRestriction ?T w 0 = Inr rs" using rings_started[OF W(1) w] by blast
    then show ?thesis using OwnStart r w ret by (auto simp: RunCosiOnOwnTrees_def step_ok_def new_metric_def keeps_def)
  next
    case (OwnRun i rs)
    then have "rs = []" "r = own_run_done w i ?s" using r by (cases rs; simp)+
    then show ?thesis using own_run_ok[OF I, of w i rs "Failed ?s"] t OwnRun by auto
  next
    case (SendAll i)
    then have "r = Inr (?s, map (BunchSend i) (Cw_bunch W w), [])" using r L(1) by (simp add: sendReqToBunch_def)
    then show ?thesis using SendAll w ret by (auto simp: step_ok_def new_weight_sends)
  next
    case (BunchSend i n)
    then have "r = Inr (new_metric (getBunchMetric w n) ?s, [], [(n, StartBFTCosiReq w i)])"
      using r ok L(2,3) by (auto simp: send_to_bunch_node_def)
    then show ?thesis using BunchSend w ok ret by (auto simp: step_ok_def asked_def new_metric_def keeps_def)
  next
    case (BunchStart i u)
    then have u: "u \<in> Cw_names W" "w \<in> set (Cw_bunch W u)" "asked W (Cn_svc \<sigma>) u w" using ok by (auto simp: asked_def)
    obtain k where "find_participant ?T w u [0..<length (map_get [] (BinaryTrees ?T) w)] = Inr (Some k)"
      using participant_found[of "[0..<length (map_get [] (BinaryTrees ?T) w)]" ?T w u] L(4) W(2) u unfolding participants_ok_def by fastforce
    moreover obtain rs where "runCosiOnOwnTreesWithRestriction ?T w k = Inr rs" using rings_started[OF W(1) w] by blast
    moreover have "asked W ((Cn_svc \<sigma>)(w := ?s\<lparr>NrProtocolsStarted := n\<rparr>)) u w" for n
      by (rule asked_keeps[OF u(3)]) simp
    ultimately show ?thesis using BunchStart r ret by (auto simp: RunCosiOnOwnTreesWithParticipant_def step_ok_def)
  next
    case (BunchRun i u rs)
    then have u: "u \<in> Cw_names W" "w \<in> set (Cw_bunch W u)" "asked W (Cn_svc \<sigma>) u w" using ok by (auto simp: asked_def)
    moreover have "r = Inr (?s, [], [(u, ReplyBFTCosiReq i)])" using r BunchRun L(3)[OF u(1)] by (cases rs) (auto simp: bunch_run_done_def)
    ultimately show ?thesis using BunchRun ret by (auto simp: step_ok_def)
  qed
qed

lemma call_ok:
  assumes W: "world_ok W" and I: "cosi_inv W \<sigma>" and w: "w \<in> Cw_names W" "map_of (CosiWg (Cn_svc \<sigma> w)) i = None"
    and r: "BFTCoSiSimul (Cw_trees W w) w i (Cn_svc \<sigma> w) = Inr (s', ts, ms)"
  shows "step_ok W \<sigma> w (\<lambda>v q. 0) s' ts ms"
proof -
  let ?s = "Cn_svc \<sigma> w"
  have s': "s' = ?s\<lparr>CosiWg := map_set (CosiWg ?s) i (1 + int (length (Cw_bunch W w)))\<rparr>" "ts = [OwnStart i, SendAll i, Waiting i]" "ms = []"
    using r world_okD(1)[OF W w(1)] by (auto simp: BFTCoSiSimul_def)
  have "map_of (CosiWg s') q = Some 0" if "q \<in> Returned s'" for q
    using cosi_invD(4)[OF I, of q w] that w(2) by (auto simp: s' gomap.lookup_update)
  moreover have "map_get 0 (CosiWg ?s) i = 0" using w(2) by (simp add: map_get_def)
  ultimately show ?thesis using w(1) by (auto simp: step_ok_def s' new_weight_def gomap.lookup_update)
qed

lemma cosi_work_inv:
  assumes step: "cosi_work W \<sigma> \<sigma>'" and W: "world_ok W" "participants_ok W" and I: "cosi_inv W \<sigma>"
  shows "cosi_inv W \<sigma>'"
  using step
proof cases
  case (cosi_task v t R s' ts ms)
  have "step_ok W \<sigma> v (\<lambda>u q. task_weight W u q (v, t)) s' ts ms" using task_ok_runs[OF W I, of v t] cosi_task(2,3) by auto
  from perform_inv[OF I this, of "\<sigma>\<lparr>Cn_tasks := R\<rparr>"] show ?thesis
    using outstanding_remove(1)[OF cosi_task(2), of W] cosi_task(1,2) by simp
next
  case (cosi_ring v t R r t')
  have t: "(v, t) \<in># Cn_tasks \<sigma>" using cosi_ring(2) by simp
  have "step_ok W \<sigma> v (\<lambda>u q. task_weight W u q (v, t)) (Cn_svc \<sigma> v) [t'] []"
    using cosi_ring(3) cosi_invD(1)[OF I t] cosi_invD(4)[OF I, of _ v] by (cases t) (auto simp: step_ok_def split: if_splits)
  from perform_inv[OF I this, of "\<sigma>\<lparr>Cn_tasks := R\<rparr>"] show ?thesis
    using outstanding_remove(1)[OF cosi_ring(2), of W] cosi_ring(1,2) by simp
next
  case (cosi_timeout v i rs R s' ts ms)
  have "step_ok W \<sigma> v (\<lambda>u q. task_weight W u q (v, OwnRun i rs)) s' ts ms"
    using own_run_ok[OF I, of v i rs "insert i (Failed (Cn_svc \<sigma> v))"] cosi_timeout(2,4) by auto
  from perform_inv[OF I this, of "\<sigma>\<lparr>Cn_tasks := R\<rparr>"] show ?thesis
    using outstanding_remove(1)[OF cosi_timeout(2), of W] cosi_timeout(1,2) by simp
next
  case (cosi_message u v m M s' ts ms)
  have "step_ok W \<sigma> v (\<lambda>w q. cosi_msg_weight w q (u, v, m)) s' ts ms" using message_ok[OF I, of u v m] cosi_message(2,3) by auto
  from perform_inv[OF I this, of "\<sigma>\<lparr>Cn_msgs := M\<rparr>"] show ?thesis
    using outstanding_remove(2)[OF cosi_message(2)] cosi_message(1,2) by simp
qed

lemma cosi_step_inv:
  assumes step: "cosi_step W \<sigma> \<sigma>'" and W: "world_ok W" "participants_ok W" and I: "cosi_inv W \<sigma>"
  shows "cosi_inv W \<sigma>'"
  using step
proof cases
  case (cosi_call v i s' ts ms)
  show ?thesis unfolding cosi_call(1) by (rule perform_inv[OF I call_ok[OF W(1) I cosi_call(2-4)]]) simp_all
qed (rule cosi_work_inv[OF _ W I])

lemma cosi_init_inv: "cosi_init \<sigma> \<Longrightarrow> cosi_inv W \<sigma>"
  by (simp add: cosi_init_def cosi_inv_def outstanding_def)

interpretation requests: invariant_system cosi_init "cosi_step W" "\<lambda>\<sigma>. world_ok W \<and> participants_ok W \<longrightarrow> cosi_inv W \<sigma>" for W
  by unfold_locales (auto intro: cosi_init_inv cosi_step_inv)

subsection \<open>Progress\<close>

text \<open>Every call either waits or has returned.\<close>

definition calls_inv :: "cosi_net \<Rightarrow> bool" where
  "calls_inv \<sigma> \<longleftrightarrow> (\<forall>v q. map_of (CosiWg (Cn_svc \<sigma> v)) q \<noteq> None \<longrightarrow> (v, Waiting q) \<in># Cn_tasks \<sigma> \<or> q \<in> Returned (Cn_svc \<sigma> v))"

text \<open>What a handler does to the calls: it may start one, or let one return.\<close>

lemma wg_done_calls:
  "wg_done i s = Inr s' \<Longrightarrow> dom (map_of (CosiWg s')) = dom (map_of (CosiWg s)) \<and> Returned s' = Returned s"
  by (auto simp: wg_done_def gomap.lookup_update split: option.splits if_splits)

lemma work_calls:
  "process_msg w u m s = Inr (s', ts, ms) \<Longrightarrow> dom (map_of (CosiWg s')) = dom (map_of (CosiWg s)) \<and> Returned s' = Returned s"
  "own_run_done w i s = Inr (s', ts, ms) \<Longrightarrow> dom (map_of (CosiWg s')) = dom (map_of (CosiWg s)) \<and> Returned s' = Returned s"
  "run_task T w t s = Some (Inr (s', ts, ms)) \<Longrightarrow> dom (map_of (CosiWg s')) = dom (map_of (CosiWg s))
     \<and> Returned s' = (case t of Waiting i \<Rightarrow> insert i (Returned s) | _ \<Rightarrow> Returned s)"
proof -
  show m: "process_msg w u m s = Inr (s', ts, ms) \<Longrightarrow> dom (map_of (CosiWg s')) = dom (map_of (CosiWg s)) \<and> Returned s' = Returned s"
    by (cases m) (auto simp: res_bind_Inr_iff record_metric_def dest!: wg_done_calls split: if_splits)
  show o: "own_run_done w i s = Inr (s', ts, ms) \<Longrightarrow> dom (map_of (CosiWg s')) = dom (map_of (CosiWg s)) \<and> Returned s' = Returned s"
    for i by (auto simp: own_run_done_def res_bind_Inr_iff record_metric_def dest!: wg_done_calls split: if_splits)
  assume r: "run_task T w t s = Some (Inr (s', ts, ms))"
  show "dom (map_of (CosiWg s')) = dom (map_of (CosiWg s)) \<and> Returned s' = (case t of Waiting i \<Rightarrow> insert i (Returned s) | _ \<Rightarrow> Returned s)"
  proof (cases t)
    case (OwnRun i rs)
    then show ?thesis using r o[of i] by (cases rs) auto
  next
    case (BunchRun i u rs)
    then show ?thesis using r by (cases rs) (auto simp: bunch_run_done_def res_bind_Inr_iff)
  qed (use r in \<open>auto simp: RunCosiOnOwnTrees_def sendReqToBunch_def send_to_bunch_node_def RunCosiOnOwnTreesWithParticipant_def
      res_bind_Inr_iff new_metric_def split: if_splits option.splits\<close>)
qed

lemma calls_perform:
  assumes "calls_inv \<sigma>" "Cn_svc \<sigma>1 = Cn_svc \<sigma>" "\<And>u q. (u, Waiting q) \<in># Cn_tasks \<sigma> \<Longrightarrow> (u, Waiting q) \<in># Cn_tasks \<sigma>1 \<or> u = v \<and> q \<in> Returned s'"
    and "\<And>q. map_of (CosiWg s') q \<noteq> None \<Longrightarrow> map_of (CosiWg (Cn_svc \<sigma> v)) q \<noteq> None \<or> Waiting q \<in> set ts" "Returned (Cn_svc \<sigma> v) \<subseteq> Returned s'"
  shows "calls_inv (perform v s' ts ms \<sigma>1)"
  unfolding calls_inv_def
proof (intro allI impI)
  fix u q assume q: "map_of (CosiWg (Cn_svc (perform v s' ts ms \<sigma>1) u)) q \<noteq> None"
  show "(u, Waiting q) \<in># Cn_tasks (perform v s' ts ms \<sigma>1) \<or> q \<in> Returned (Cn_svc (perform v s' ts ms \<sigma>1) u)"
  proof (cases "u = v \<and> Waiting q \<in> set ts")
    case False
    then have "map_of (CosiWg (Cn_svc \<sigma> u)) q \<noteq> None" using q assms(2,4) by (auto simp: perform_def split: if_splits)
    then have "(u, Waiting q) \<in># Cn_tasks \<sigma> \<or> q \<in> Returned (Cn_svc \<sigma> u)" using assms(1) by (simp add: calls_inv_def)
    then show ?thesis using assms(2,3,5) by (auto simp: perform_def)
  qed (auto simp: perform_def)
qed

lemma cosi_work_calls: "cosi_work W \<sigma> \<sigma>' \<Longrightarrow> calls_inv \<sigma> \<Longrightarrow> calls_inv \<sigma>'"
proof (induction rule: cosi_work.induct)
  case (cosi_task \<sigma> v t R s' ts ms)
  from work_calls(3)[OF cosi_task(2)] cosi_task(1) show ?case
    by (intro calls_perform[OF cosi_task(3)]) (auto split: task.splits)
next
  case (cosi_ring \<sigma> v t R r t')
  then have "\<And>q. t \<noteq> Waiting q" by (cases t) auto
  then show ?case using cosi_ring(1) by (intro calls_perform[OF cosi_ring(3)]) auto
next
  case (cosi_timeout \<sigma> v i rs R s' ts ms)
  from work_calls(2)[OF cosi_timeout(3)] cosi_timeout(1) show ?case by (intro calls_perform[OF cosi_timeout(4)]) auto
next
  case (cosi_message \<sigma> u v m M s' ts ms)
  from work_calls(1)[OF cosi_message(2)] cosi_message(1) show ?case by (intro calls_perform[OF cosi_message(3)]) auto
qed

lemma cosi_step_calls: "cosi_step W \<sigma> \<sigma>' \<Longrightarrow> calls_inv \<sigma> \<Longrightarrow> calls_inv \<sigma>'"
proof (induction rule: cosi_step.induct)
  case (cosi_call v \<sigma> i s' ts ms)
  from cosi_call(3) show ?case
    by (intro calls_perform[OF cosi_call(4)]) (auto simp: BFTCoSiSimul_def res_bind_Inr_iff gomap.lookup_update split: if_splits)
qed (rule cosi_work_calls)

interpretation calls: invariant_system cosi_init "cosi_step W" calls_inv for W
proof
  show "cosi_init \<sigma> \<Longrightarrow> calls_inv \<sigma>" for \<sigma> by (simp add: cosi_init_def calls_inv_def)
qed (rule cosi_step_calls)

lemma cosi_progress:
  assumes W: "world_ok W" "participants_ok W" and I: "cosi_inv W \<sigma>" and C: "calls_inv \<sigma>"
    and stuck: "\<And>\<sigma>'. \<not> cosi_work W \<sigma> \<sigma>'" and q: "map_of (CosiWg (Cn_svc \<sigma> v)) q \<noteq> None"
  shows "q \<in> Returned (Cn_svc \<sigma> v)"
proof (rule ccontr)
  assume nr: "q \<notin> Returned (Cn_svc \<sigma> v)"
  have msgs: "Cn_msgs \<sigma> = {#}"
  proof (rule ccontr)
    assume "Cn_msgs \<sigma> \<noteq> {#}"
    then obtain u w m M where m: "Cn_msgs \<sigma> = add_mset (u, w, m) M" by (metis multiset_cases prod.exhaust)
    with message_ok[OF I, of u w m] stuck show False using cosi_work.cosi_message[OF m] by fastforce
  qed
  have idle: "run_task (Cw_trees W w) w t (Cn_svc \<sigma> w) = None \<and> (\<forall>r. ring_done t r = None)" if t: "(w, t) \<in># Cn_tasks \<sigma>" for w t
  proof -
    obtain R where R: "Cn_tasks \<sigma> = add_mset (w, t) R" using t by (metis multi_member_split)
    from cosi_work.cosi_task[OF R] task_ok_runs[OF W I t] stuck have "run_task (Cw_trees W w) w t (Cn_svc \<sigma> w) = None"
      by (cases "run_task (Cw_trees W w) w t (Cn_svc \<sigma> w)") fastforce+
    moreover have "ring_done t r = None" for r using cosi_work.cosi_ring[OF R] stuck by (cases "ring_done t r") blast+
    ultimately show ?thesis by blast
  qed
  have waits: "\<exists>i. t = Waiting i" if t: "(w, t) \<in># Cn_tasks \<sigma>" for w t
  proof (cases t)
    case (OwnRun i rs)
    then show ?thesis using idle[OF t] by (cases rs) (auto dest: spec[of _ "hd rs"])
  next
    case (BunchRun i u rs)
    then show ?thesis using idle[OF t] by (cases rs) (auto dest: spec[of _ "hd rs"])
  qed (use idle[OF t] in auto)
  have "task_weight W v q x = 0" if "x \<in># Cn_tasks \<sigma>" for x using waits that by (cases x) force
  then have "(\<Sum>x \<in># Cn_tasks \<sigma>. task_weight W v q x) = 0" by simp
  then have "map_get 0 (CosiWg (Cn_svc \<sigma> v)) q = 0"     using cosi_invD(3)[OF I, of v q] msgs unfolding outstanding_def by (simp del: of_nat_sum_mset)
  moreover have "(v, Waiting q) \<in># Cn_tasks \<sigma>" using C q nr by (auto simp: calls_inv_def)
  ultimately show False using idle by fastforce
qed

text \<open>The work that is left: every goroutine and message, with what it will start.\<close>

abbreviation nr_rings :: "cosi_world \<Rightarrow> string \<Rightarrow> nat" where
  "nr_rings W w \<equiv> length (map_get [] (BinaryTrees (Cw_trees W w)) w)"

fun task_work :: "cosi_world \<Rightarrow> string \<times> task \<Rightarrow> nat" where
  "task_work W (w, Waiting i) = 1"
| "task_work W (w, OwnStart i) = nr_rings W w + 2"
| "task_work W (w, OwnRun i rs) = length rs + 1"
| "task_work W (w, SendAll i) = (\<Sum>n \<leftarrow> Cw_bunch W w. nr_rings W n + 5) + 1"
| "task_work W (w, BunchSend i n) = nr_rings W n + 5"
| "task_work W (w, BunchStart i u) = nr_rings W w + 3"
| "task_work W (w, BunchRun i u rs) = length rs + 2"

fun msg_work :: "cosi_world \<Rightarrow> string \<times> string \<times> cosi_msg \<Rightarrow> nat" where
  "msg_work W (u, w, StartBFTCosiReq n i) = nr_rings W w + 4"
| "msg_work W (u, w, ReplyBFTCosiReq i) = 1"

definition work_left :: "cosi_world \<Rightarrow> cosi_net \<Rightarrow> nat" where
  "work_left W \<sigma> = (\<Sum>x \<in># Cn_tasks \<sigma>. task_work W x) + (\<Sum>x \<in># Cn_msgs \<sigma>. msg_work W x)"

definition new_work :: "cosi_world \<Rightarrow> string \<Rightarrow> task list \<Rightarrow> (string \<times> cosi_msg) list \<Rightarrow> nat" where
  "new_work W w ts ms = (\<Sum>t \<leftarrow> ts. task_work W (w, t)) + (\<Sum>(to, m) \<leftarrow> ms. msg_work W (w, to, m))"

lemma work_perform: "work_left W (perform w s ts ms \<sigma>) = work_left W \<sigma> + new_work W w ts ms"
  by (simp add: work_left_def perform_def new_work_def case_prod_unfold comp_def flip: mset_map sum_mset_sum_list)

lemma run_task_work:
  assumes W: "world_ok W" and ok: "task_ok W S (w, t)" and r: "run_task (Cw_trees W w) w t s = Some (Inr (s', ts, ms))"
  shows "new_work W w ts ms < task_work W (w, t)"
proof -
  have w: "w \<in> Cw_names W" using ok world_okD(2)[OF W] by (cases "(W, S, w, t)" rule: task_ok.cases) (auto simp: asked_def)
  note L = world_okD[OF W w]
  show ?thesis
  proof (cases t)
    case (OwnStart i)
    obtain rs where "runCosiOnOwnTreesWithRestriction (Cw_trees W w) w 0 = Inr rs" "length rs \<le> nr_rings W w"
      using rings_started[OF W w] by blast
    then show ?thesis using OwnStart r by (auto simp: RunCosiOnOwnTrees_def new_work_def)
  next
    case (OwnRun i rs)
    then show ?thesis using r by (cases rs) (auto simp: own_run_done_def res_bind_Inr_iff new_work_def)
  next
    case (SendAll i)
    then show ?thesis using r L(1) by (auto simp: sendReqToBunch_def new_work_def comp_def)
  next
    case (BunchSend i n)
    then have "svc_address (Cw_trees W w) n = Inr n" using ok L(2,3) by auto
    then show ?thesis using BunchSend r by (auto simp: send_to_bunch_node_def new_work_def)
  next
    case (BunchStart i u)
    have "length rs \<le> nr_rings W w" if "runCosiOnOwnTreesWithRestriction (Cw_trees W w) w k = Inr rs" for k rs
      using rings_started[OF W w, of k] that by auto
    then show ?thesis using BunchStart r
      by (fastforce simp: RunCosiOnOwnTreesWithParticipant_def new_work_def res_bind_Inr_iff split: option.splits)
  next
    case (BunchRun i u rs)
    then show ?thesis using r by (cases rs) (auto simp: bunch_run_done_def res_bind_Inr_iff new_work_def)
  qed (use r in \<open>auto simp: new_work_def split: if_splits\<close>)
qed

lemma remove1_shorter: "r \<in> set rs \<Longrightarrow> length (remove1 r rs) < length rs"
  by (induction rs) auto

lemma cosi_work_less:
  assumes step: "cosi_work W \<sigma> \<sigma>'" and W: "world_ok W" and I: "cosi_inv W \<sigma>"
  shows "work_left W \<sigma>' < work_left W \<sigma>"
proof -
  have rem: "work_left W \<sigma> = work_left W (\<sigma>\<lparr>Cn_tasks := R\<rparr>) + task_work W x" if "Cn_tasks \<sigma> = add_mset x R" for x R
    using that by (simp add: work_left_def)
  from step show ?thesis
  proof cases
    case (cosi_task v t R s' ts ms)
    from run_task_work[OF W cosi_invD(1)[OF I] cosi_task(3)] rem[OF cosi_task(2)] cosi_task(1,2) show ?thesis by (simp add: work_perform)
  next
    case (cosi_ring v t R r t')
    have "task_work W (v, t') < task_work W (v, t)"
      using cosi_ring(3) remove1_shorter by (cases t) (auto split: if_splits)
    then show ?thesis using rem[OF cosi_ring(2)] cosi_ring(1) by (simp add: work_perform new_work_def)
  next
    case (cosi_timeout v i rs R s' ts ms)
    then have "ts = []" "ms = []" by (auto simp: own_run_done_def res_bind_Inr_iff)
    then show ?thesis using rem[OF cosi_timeout(2)] cosi_timeout(1) by (simp add: work_perform new_work_def)
  next
    case (cosi_message u v m M s' ts ms)
    then have "new_work W v ts ms < msg_work W (u, v, m)" by (cases m) (auto simp: res_bind_Inr_iff new_work_def)
    moreover have "work_left W \<sigma> = work_left W (\<sigma>\<lparr>Cn_msgs := M\<rparr>) + msg_work W (u, v, m)" using cosi_message(2) by (simp add: work_left_def)
    ultimately show ?thesis using cosi_message(1) by (simp add: work_perform)
  qed
qed

lemma cosi_run:
  assumes W: "world_ok W" "participants_ok W" and "(cosi_work W ^^ n) \<sigma> \<sigma>'" and I: "cosi_inv W \<sigma>" "calls_inv \<sigma>"
  shows "n + work_left W \<sigma>' \<le> work_left W \<sigma> \<and> cosi_inv W \<sigma>' \<and> calls_inv \<sigma>'"
  using assms(3)
proof (induction n arbitrary: \<sigma>')
  case (Suc n)
  then obtain \<tau> where \<tau>: "(cosi_work W ^^ n) \<sigma> \<tau>" "cosi_work W \<tau> \<sigma>'" by auto
  then show ?case
    using Suc.IH[OF \<tau>(1)] cosi_work_less[OF \<tau>(2) W(1)] cosi_work_inv[OF \<tau>(2) W] cosi_work_calls[OF \<tau>(2)] by force
qed (use I in simp)

subsection \<open>Properties of the requests\<close>

subsection \<open>Two services\<close>

text \<open>Two services that are in each other's bunch, each with \<open>k\<close> rings of both.\<close>

definition twin_sid :: "nat \<Rightarrow> ServerIdentity" where
  "twin_sid i = \<lparr>SI_ID = i, SI_String = replicate i CHR ''b'', SI_Host = [], SI_Public = []\<rparr>"

definition twin_node :: "nat \<Rightarrow> LocalityNode" where
  "twin_node i = \<lparr>Name = (if i = 0 then ''node_0'' else ''node_1''), IP = [], X = real i, Y = 0, Level = 0, ADist = [], PDist = [],
     Cluster = [], Bunch = [(if i = 0 then ''node_1'' else ''node_0'', True)], OptimalCluster = [], OptimalBunch = [], Rings = [],
     NrOwnRings = 0, NodeIdentity = Some (twin_sid i)\<rparr>"

definition twin_ring :: GraphTree where
  "twin_ring = \<lparr>ListOfNodes = map (\<lambda>i. \<lparr>Graph_Node = \<lparr>Identity = twin_sid i, RosterIndex = int i\<rparr>, Children = [], Graph_Parent = None\<rparr>) [0, 1]\<rparr>"

definition twin_trees :: "nat \<Rightarrow> Trees" where
  "twin_trees k = \<lparr>Tree_Nodes = \<lparr>All_nodes = [twin_node 0, twin_node 1], ServerIdentityToName = [(0, ''node_0''), (1, ''node_1'')],
       ClusterBunchDistances = (\<lambda>a b. 0), Links = (\<lambda>a b. [])\<rparr>,
     GraphTrees = [(''node_0'', replicate k twin_ring), (''node_1'', replicate k twin_ring)],
     BinaryTrees = [(''node_0'', replicate k \<lparr>Tree_Ptr = 0, Tree_List = []\<rparr>), (''node_1'', replicate k \<lparr>Tree_Ptr = 0, Tree_List = []\<rparr>)]\<rparr>"

definition twin_world :: "nat \<Rightarrow> cosi_world" where
  "twin_world k = \<lparr>Cw_names = {''node_0'', ''node_1''}, Cw_trees = (\<lambda>_. twin_trees k),
     Cw_bunch = (\<lambda>v. if v = ''node_0'' then [''node_1''] else [''node_0''])\<rparr>"

lemma twin_name_ints: "NodeNameToInt ''node_0'' = Inr 0" "NodeNameToInt ''node_1'' = Inr 1"
  by code_simp+

lemma twin_lookups:
  "svc_node (twin_trees k) ''node_0'' = Inr (twin_node 0)" "svc_node (twin_trees k) ''node_1'' = Inr (twin_node 1)"
  by (simp_all add: svc_node_def GetByName_def twin_name_ints twin_trees_def slice_get_def)

lemma twin_bunch: "bunch_names (twin_trees k) ''node_0'' = Inr [''node_1'']" "bunch_names (twin_trees k) ''node_1'' = Inr [''node_0'']"
  by (simp_all add: bunch_names_def twin_lookups twin_node_def map_keys_def map_get_def)

lemma twin_sids:
  "GetServerIdentityToName (Tree_Nodes (twin_trees k)) (twin_sid 0) = ''node_0''" "GetServerIdentityToName (Tree_Nodes (twin_trees k)) (twin_sid 1) = ''node_1''"
  by (simp_all add: GetServerIdentityToName_def twin_sid_def twin_trees_def map_get_def)

lemma twin_address: "svc_address (twin_trees k) ''node_0'' = Inr ''node_0''" "svc_address (twin_trees k) ''node_1'' = Inr ''node_1''"
  using twin_sids by (simp_all add: svc_address_def twin_lookups twin_node_def)

lemma twin_world_ok: "world_ok (twin_world k)"
  by (auto simp: world_ok_def twin_world_def twin_bunch twin_address) (simp_all add: twin_trees_def map_get_def)

lemma twin_participants_ok: "participants_ok (twin_world (Suc k))"
  by (auto simp: participants_ok_def twin_world_def has_participant_def GetServerIdentityToName_def twin_trees_def twin_ring_def
      twin_sid_def map_get_def intro!: exI[of _ 0])

text \<open>The state after the first call.\<close>

definition twin_called :: cosi_net where
  "twin_called = perform ''node_0'' \<lparr>CosiWg = [(7, 2)], metrics = [], NrProtocolsStarted = 0, Failed = {}, Returned = {}\<rparr>
     [OwnStart 7, SendAll 7, Waiting 7] []
     \<lparr>Cn_svc = (\<lambda>v. \<lparr>CosiWg = [], metrics = [], NrProtocolsStarted = 0, Failed = {}, Returned = {}\<rparr>), Cn_tasks = {#}, Cn_msgs = {#}\<rparr>"

lemma twin_called_reachable: "reach cosi_init (cosi_step (twin_world k)) twin_called"
proof -
  let ?\<sigma> = "\<lparr>Cn_svc = (\<lambda>v. \<lparr>CosiWg = [], metrics = [], NrProtocolsStarted = 0, Failed = {}, Returned = {}\<rparr>), Cn_tasks = {#}, Cn_msgs = {#}\<rparr>"
  have "reach cosi_init (cosi_step (twin_world k)) ?\<sigma>" by (intro reach.intros) (simp add: cosi_init_def)
  moreover have "cosi_step (twin_world k) ?\<sigma> twin_called"
    unfolding twin_called_def
    by (rule cosi_call) (simp_all add: twin_world_def BFTCoSiSimul_def twin_bunch map_set_def)
  ultimately show ?thesis by (rule reach.intros)
qed





subsection \<open>Requests that are never answered\<close>

text \<open>What the steps do to tasks and messages, whatever the counters are.\<close>

definition shape_ok :: "cosi_world \<Rightarrow> (string \<Rightarrow> service_state) \<Rightarrow> string \<Rightarrow> service_state \<Rightarrow> task list \<Rightarrow> (string \<times> cosi_msg) list \<Rightarrow> bool" where
  "shape_ok W S w s' ts ms \<longleftrightarrow> keeps (S w) s' \<and> (\<forall>t \<in> set ts. task_ok W (S(w := s')) (w, t)) \<and> (\<forall>(to, m) \<in> set ms. cosi_msg_ok W (S(w := s')) (w, to, m))"

lemma wg_done_keeps: "wg_done i s = Inr s' \<Longrightarrow> keeps s s' \<and> metrics s' = metrics s"
  by (auto simp: wg_done_def keeps_def gomap.lookup_update split: option.splits if_splits)

lemma own_run_done_shape:
  assumes "own_run_done w i (s\<lparr>Failed := f\<rparr>) = Inr (s', ts, ms)"
  shows "keeps s s'" "ts = []" "ms = []"
proof -
  obtain s2 where "wg_done i (s\<lparr>Failed := f\<rparr>) = Inr s2" "s' = s2" "ts = []" "ms = []"
    using assms by (auto simp: own_run_done_def res_bind_Inr_iff record_metric_def split: if_splits)
  with wg_done_keeps[of i "s\<lparr>Failed := f\<rparr>" s2] show "keeps s s'" "ts = []" "ms = []" by (auto simp: keeps_def)
qed

lemma message_shape:
  assumes "cosi_msg_ok W S (u, w, m)" "process_msg w u m (S w) = Inr (s', ts, ms)"
  shows "shape_ok W S w s' ts ms"
  using assms wg_done_keeps by (cases m) (auto simp: shape_ok_def res_bind_Inr_iff record_metric_def split: if_splits)

lemma run_shape:
  assumes W: "world_ok W" and ok: "task_ok W S (w, t)" and r: "run_task (Cw_trees W w) w t (S w) = Some (Inr (s', ts, ms))"
  shows "shape_ok W S w s' ts ms"
proof -
  have w: "w \<in> Cw_names W" using ok world_okD(2)[OF W] by (cases "(W, S, w, t)" rule: task_ok.cases) (auto simp: asked_def)
  note L = world_okD[OF W w]
  show ?thesis
  proof (cases t)
    case (OwnRun i rs)
    then show ?thesis using r own_run_done_shape[where s = "S w" and f = "Failed (S w)" and w = w and i = i] by (cases rs) (auto simp: shape_ok_def)
  next
    case (BunchSend i n)
    then have "svc_address (Cw_trees W w) n = Inr n" using ok L(2,3) by auto
    then show ?thesis using BunchSend r ok by (auto simp: send_to_bunch_node_def shape_ok_def asked_def new_metric_def keeps_def)
  next
    case (BunchStart i u)
    have "asked W (S(w := (S w)\<lparr>NrProtocolsStarted := n\<rparr>)) u w" for n
      by (rule asked_keeps) (use ok BunchStart in simp_all)
    then show ?thesis using BunchStart r
      by (auto simp: RunCosiOnOwnTreesWithParticipant_def shape_ok_def res_bind_Inr_iff split: option.splits)
  next
    case (BunchRun i u rs)
    then have "asked W S u w" "svc_address (Cw_trees W w) u = Inr u" using ok L(3) by (auto simp: asked_def)
    then show ?thesis using BunchRun r by (cases rs) (auto simp: bunch_run_done_def shape_ok_def)
  qed (use r w L(1) in \<open>auto simp: RunCosiOnOwnTrees_def sendReqToBunch_def shape_ok_def res_bind_Inr_iff new_metric_def keeps_def split: if_splits\<close>)
qed

definition unknown :: "cosi_world \<Rightarrow> string \<Rightarrow> bool" where
  "unknown W v \<longleftrightarrow> (\<forall>b \<in> set (Cw_bunch W v). \<forall>i < nr_rings W b. \<not> has_participant (Cw_trees W b) v (map_get [] (GraphTrees (Cw_trees W b)) b ! i))"

text \<open>Nothing is done for \<open>v\<close> elsewhere, so its counters stay above the size of its bunch.\<close>

fun not_for :: "string \<Rightarrow> string \<times> task \<Rightarrow> bool" where
  "not_for v (w, BunchRun i u rs) \<longleftrightarrow> u \<noteq> v"
| "not_for v x \<longleftrightarrow> True"

fun no_reply :: "string \<Rightarrow> string \<times> string \<times> cosi_msg \<Rightarrow> bool" where
  "no_reply v (u, w, ReplyBFTCosiReq i) \<longleftrightarrow> w \<noteq> v"
| "no_reply v x \<longleftrightarrow> True"

fun own_part :: "string \<Rightarrow> int \<Rightarrow> string \<times> task \<Rightarrow> nat" where
  "own_part v q (w, OwnStart i) = (if w = v \<and> i = q then 1 else 0)"
| "own_part v q (w, OwnRun i rs) = (if w = v \<and> i = q then 1 else 0)"
| "own_part v q x = 0"

definition own_left :: "string \<Rightarrow> int \<Rightarrow> (string \<times> task) multiset \<Rightarrow> nat" where
  "own_left v q M = (\<Sum>x \<in># M. own_part v q x)"

definition lost_inv :: "cosi_world \<Rightarrow> string \<Rightarrow> cosi_net \<Rightarrow> bool" where
  "lost_inv W v \<sigma> \<longleftrightarrow> (\<forall>x \<in># Cn_tasks \<sigma>. task_ok W (Cn_svc \<sigma>) x \<and> not_for v x) \<and> (\<forall>x \<in># Cn_msgs \<sigma>. cosi_msg_ok W (Cn_svc \<sigma>) x \<and> no_reply v x)
     \<and> (\<forall>q c. map_of (CosiWg (Cn_svc \<sigma> v)) q = Some c \<longrightarrow> int (length (Cw_bunch W v) + own_left v q (Cn_tasks \<sigma>)) \<le> c)
     \<and> (\<forall>q. map_of (CosiWg (Cn_svc \<sigma> v)) q = None \<longrightarrow> own_left v q (Cn_tasks \<sigma>) = 0) \<and> Returned (Cn_svc \<sigma> v) = {}"

text \<open>The counters of \<open>v\<close> after a step of \<open>w\<close>, for the tasks \<open>M\<close> that are then left.\<close>

definition counters_ok :: "cosi_world \<Rightarrow> string \<Rightarrow> service_state \<Rightarrow> (string \<times> task) multiset \<Rightarrow> bool" where
  "counters_ok W v s M \<longleftrightarrow> (\<forall>q c. map_of (CosiWg s) q = Some c \<longrightarrow> int (length (Cw_bunch W v) + own_left v q M) \<le> c)
     \<and> (\<forall>q. map_of (CosiWg s) q = None \<longrightarrow> own_left v q M = 0) \<and> Returned s = {}"

lemma lost_perform:
  assumes I: "lost_inv W v \<sigma>" and sub: "Cn_svc \<sigma>1 = Cn_svc \<sigma>" "Cn_tasks \<sigma>1 \<subseteq># Cn_tasks \<sigma>" "Cn_msgs \<sigma>1 \<subseteq># Cn_msgs \<sigma>"
    and sh: "shape_ok W (Cn_svc \<sigma>) w s' ts ms" "\<And>t. t \<in> set ts \<Longrightarrow> not_for v (w, t)" "\<And>to m. (to, m) \<in> set ms \<Longrightarrow> no_reply v (w, to, m)"
    and c: "counters_ok W v (if w = v then s' else Cn_svc \<sigma> v) (Cn_tasks \<sigma>1 + mset (map (Pair w) ts))"
  shows "lost_inv W v (perform w s' ts ms \<sigma>1)"
proof -
  have k: "keeps (Cn_svc \<sigma> w) s'" using sh(1) by (simp add: shape_ok_def)
  note ok = ok_keeps[where S = "Cn_svc \<sigma>" and w = w, OF k]
  have "task_ok W ((Cn_svc \<sigma>)(w := s')) x \<and> not_for v x" if "x \<in># Cn_tasks \<sigma>1" for x
    using ok(1) I mset_subset_eqD[OF sub(2) that] unfolding lost_inv_def by blast
  moreover have "cosi_msg_ok W ((Cn_svc \<sigma>)(w := s')) x \<and> no_reply v x" if "x \<in># Cn_msgs \<sigma>1" for x
    using ok(2) I mset_subset_eqD[OF sub(3) that] unfolding lost_inv_def by blast
  ultimately show ?thesis
    using sh c sub(1) unfolding lost_inv_def counters_ok_def by (auto simp: perform_def shape_ok_def)
qed

lemma own_left_simps:
  "own_left v q (add_mset x M) = own_part v q x + own_left v q M" "own_left v q (M + N) = own_left v q M + own_left v q N" "own_left v q {#} = 0"
  by (simp_all add: own_left_def)

lemma own_left_sends: "own_left v q (mset (map (Pair w) (map (BunchSend i) ns))) = 0"
  by (induction ns) (auto simp: own_left_def)

lemma lost_invD:
  assumes "lost_inv W v \<sigma>"
  shows "x \<in># Cn_tasks \<sigma> \<Longrightarrow> task_ok W (Cn_svc \<sigma>) x \<and> not_for v x" "y \<in># Cn_msgs \<sigma> \<Longrightarrow> cosi_msg_ok W (Cn_svc \<sigma>) y \<and> no_reply v y"
    "counters_ok W v (Cn_svc \<sigma> v) (Cn_tasks \<sigma>)"
  using assms by (simp_all add: lost_inv_def counters_ok_def)

lemma counters_okD:
  assumes "counters_ok W v s M"
  shows "map_of (CosiWg s) q = Some c \<Longrightarrow> int (length (Cw_bunch W v) + own_left v q M) \<le> c" "map_of (CosiWg s) q = None \<Longrightarrow> own_left v q M = 0"
    "Returned s = {}"
  using assms by (simp_all add: counters_ok_def)

text \<open>The end of an own run takes one from the counter and one from what is left of it.\<close>

lemma counters_own_done:
  assumes "counters_ok W v s (add_mset (v, OwnRun i rs) R)" "own_run_done v i (s\<lparr>Failed := f\<rparr>) = Inr (s', ts, ms)"
  shows "counters_ok W v s' R"
proof -
  obtain c where "map_of (CosiWg s) i = Some c" "s' = s\<lparr>Failed := f, CosiWg := map_set (CosiWg s) i (c - 1)\<rparr>"
    using assms(2) by (auto simp: own_run_done_def res_bind_Inr_iff record_metric_def wg_done_def split: if_splits option.splits)
  note s' = this and D = counters_okD[OF assms(1)]
  show ?thesis
    unfolding counters_ok_def
  proof (intro conjI allI impI)
    show "int (length (Cw_bunch W v) + own_left v q R) \<le> d" if "map_of (CosiWg s') q = Some d" for q d
      using that D(1)[of q] s' by (cases "q = i") (auto simp: own_left_simps gomap.lookup_update)
    show "own_left v q R = 0" if "map_of (CosiWg s') q = None" for q
      using that D(2)[of q] s' by (cases "q = i") (auto simp: own_left_simps gomap.lookup_update)
  qed (use D(3) s' in simp)
qed

text \<open>A task that leaves the counters alone and what is left of the own runs.\<close>

lemma counters_same:
  assumes "counters_ok W v s M" "CosiWg s' = CosiWg s" "Returned s' = Returned s" "\<And>q. own_left v q M' = own_left v q M"
  shows "counters_ok W v s' M'"
  using assms by (simp add: counters_ok_def)

lemma lost_task:
  assumes W: "world_ok W" "unknown W v" "Cw_bunch W v \<noteq> []" and I: "lost_inv W v \<sigma>" and t: "Cn_tasks \<sigma> = add_mset (w, t) R"
    and r: "run_task (Cw_trees W w) w t (Cn_svc \<sigma> w) = Some (Inr (s', ts, ms))"
  shows "(\<forall>x \<in> set ts. not_for v (w, x)) \<and> (\<forall>(to, m) \<in> set ms. no_reply v (w, to, m))
    \<and> counters_ok W v (if w = v then s' else Cn_svc \<sigma> v) (R + mset (map (Pair w) ts))"
proof -
  let ?s = "Cn_svc \<sigma> w" and ?T = "Cw_trees W w"
  have ok: "task_ok W (Cn_svc \<sigma>) (w, t)" "not_for v (w, t)" using lost_invD(1)[OF I, of "(w, t)"] t by simp_all
  have w: "w \<in> Cw_names W" using ok(1) world_okD(2)[OF W(1)] by (cases "(W, Cn_svc \<sigma>, w, t)" rule: task_ok.cases) (auto simp: asked_def)
  note L = world_okD[OF W(1) w] and C = lost_invD(3)[OF I, unfolded t]
  have same: "counters_ok W v (if w = v then s' else Cn_svc \<sigma> v) (R + mset (map (Pair w) ts))"
    if "w = v \<Longrightarrow> CosiWg s' = CosiWg ?s \<and> Returned s' = Returned ?s" "\<And>q. own_left v q (mset (map (Pair w) ts)) = own_part v q (w, t)"
    by (rule counters_same[OF C]) (use that in \<open>auto simp: own_left_simps\<close>)
  show ?thesis
  proof (cases t)
    case (Waiting i)
    have "w \<noteq> v"
    proof
      assume "w = v"
      then obtain c where "map_of (CosiWg ?s) i = Some c" "c = 0" using r ok(1) Waiting by (auto simp: map_get_def split: if_splits)
      then have "int (length (Cw_bunch W v) + own_left v i (add_mset (v, t) R)) \<le> 0" using counters_okD(1)[OF C, of i 0] \<open>w = v\<close> by blast
      then have "length (Cw_bunch W v) = 0" by linarith
      then show False using W(3) by simp
    qed
    then show ?thesis using Waiting r same by (auto simp: own_left_simps split: if_splits)
  next
    case (OwnRun i rs)
    then have r': "rs = []" "own_run_done w i (?s\<lparr>Failed := Failed ?s\<rparr>) = Inr (s', ts, ms)" using r by (cases rs; simp)+
    note o = own_run_done_shape(2,3)[OF r'(2)]
    show ?thesis
    proof (cases "w = v")
      case True
      then show ?thesis using counters_own_done[of W v ?s i rs R "Failed ?s"] C r' o OwnRun by simp
    next
      case False
      then show ?thesis using same o OwnRun by (simp add: own_left_simps)
    qed
  next
    case (BunchStart i u)
    have "\<forall>k. find_participant ?T w u [0..<nr_rings W w] \<noteq> Inr (Some k)" if "u = v"
      using participant_found[of "[0..<nr_rings W w]" ?T w u] L(4) W(2) ok(1) that BunchStart by (fastforce simp: unknown_def asked_def)
    then show ?thesis using BunchStart r same
      by (auto simp: RunCosiOnOwnTreesWithParticipant_def res_bind_Inr_iff own_left_simps split: option.splits)
  next
    case (BunchRun i u rs)
    then have "svc_address ?T u = Inr u" using ok(1) L(3) by (auto simp: asked_def)
    then show ?thesis using BunchRun r ok(2) same by (cases rs) (auto simp: bunch_run_done_def own_left_simps)
  next
    case (SendAll i)
    then have s: "s' = ?s" "ts = map (BunchSend i) (Cw_bunch W w)" "ms = []" using r L(1) by (auto simp: sendReqToBunch_def)
    have "counters_ok W v (if w = v then s' else Cn_svc \<sigma> v) (R + mset (map (Pair w) ts))"
      by (rule same) (simp_all only: s own_left_sends, simp_all add: SendAll)
    then show ?thesis using s(2,3) by auto
  next
    case (OwnStart i)
    then show ?thesis using r same by (auto simp: RunCosiOnOwnTrees_def res_bind_Inr_iff own_left_simps new_metric_def)
  next
    case (BunchSend i n)
    then show ?thesis using r same by (auto simp: send_to_bunch_node_def res_bind_Inr_iff own_left_simps new_metric_def)
  qed
qed

lemma lost_step:
  assumes step: "cosi_step W \<sigma> \<sigma>'" and W: "world_ok W" "unknown W v" "Cw_bunch W v \<noteq> []" and I: "lost_inv W v \<sigma>"
  shows "lost_inv W v \<sigma>'"
  using step
proof cases
  case (cosi_call w i s' ts ms)
  have s': "s' = (Cn_svc \<sigma> w)\<lparr>CosiWg := map_set (CosiWg (Cn_svc \<sigma> w)) i (1 + int (length (Cw_bunch W w)))\<rparr>"
    "ts = [OwnStart i, SendAll i, Waiting i]" "ms = []"
    using cosi_call(4) world_okD(1)[OF W(1) cosi_call(2)] by (auto simp: BFTCoSiSimul_def)
  note D = counters_okD[OF lost_invD(3)[OF I]]
  have "counters_ok W v (if w = v then s' else Cn_svc \<sigma> v) (Cn_tasks \<sigma> + mset (map (Pair w) ts))"
    using D(1) D(2)[of i] D(2,3) cosi_call(3) by (auto simp: counters_ok_def s' own_left_simps gomap.lookup_update)
  moreover have "shape_ok W (Cn_svc \<sigma>) w s' ts ms" using cosi_call(2) by (auto simp: shape_ok_def s' gomap.lookup_update)
  ultimately show ?thesis
    unfolding cosi_call(1) using s'(2,3) by (intro lost_perform[OF I]) auto
next
  case cosi_work
  then show ?thesis
  proof cases
    case (cosi_task w t R s' ts ms)
    have t: "(w, t) \<in># Cn_tasks \<sigma>" by (simp add: cosi_task(2))
    show ?thesis
      unfolding cosi_task(1)
      using lost_task[OF W I cosi_task(2,3)] run_shape[where S = "Cn_svc \<sigma>", OF W(1) _ cosi_task(3)] lost_invD(1)[OF I t] cosi_task(2)
      by (intro lost_perform[OF I]) auto
  next
    case (cosi_ring w t R r t')
    have t: "(w, t) \<in># Cn_tasks \<sigma>" by (simp add: cosi_ring(2))
    have t': "task_ok W (Cn_svc \<sigma>) (w, t')" "not_for v (w, t')" "\<And>q. own_part v q (w, t') = own_part v q (w, t)"
      using cosi_ring(3) lost_invD(1)[OF I t] by (cases t; auto split: if_splits)+
    have "counters_ok W v (if w = v then Cn_svc \<sigma> w else Cn_svc \<sigma> v) (R + mset (map (Pair w) [t']))"
      by (rule counters_same[OF lost_invD(3)[OF I]]) (use t'(3) in \<open>auto simp: cosi_ring(2) own_left_simps\<close>)
    then show ?thesis unfolding cosi_ring(1) using t' cosi_ring(2) by (intro lost_perform[OF I]) (auto simp: shape_ok_def)
  next
    case (cosi_timeout w i rs R s' ts ms)
    note o = own_run_done_shape[OF cosi_timeout(4)] and C = lost_invD(3)[OF I, unfolded cosi_timeout(2)]
    have "counters_ok W v (if w = v then s' else Cn_svc \<sigma> v) R"
    proof (cases "w = v")
      case False
      have "counters_ok W v (Cn_svc \<sigma> v) R" by (rule counters_same[OF C]) (use False in \<open>auto simp: own_left_simps\<close>)
      then show ?thesis using False by simp
    qed (use C counters_own_done cosi_timeout(4) in simp)
    then show ?thesis unfolding cosi_timeout(1) using o cosi_timeout(2) by (intro lost_perform[OF I]) (auto simp: shape_ok_def)
  next
    case (cosi_message u w m M s' ts ms)
    have m: "(u, w, m) \<in># Cn_msgs \<sigma>" by (simp add: cosi_message(2))
    note ok = lost_invD(2)[OF I m] and C = lost_invD(3)[OF I]
    have new: "\<forall>x \<in> set ts. not_for v (w, x)" "ms = []" "\<And>q. own_left v q (mset (map (Pair w) ts)) = 0"
      using cosi_message(3) by (cases m; auto simp: res_bind_Inr_iff own_left_simps)+
    have "CosiWg s' = CosiWg (Cn_svc \<sigma> w) \<and> Returned s' = Returned (Cn_svc \<sigma> w)" if "w = v"
      using cosi_message(3) ok that by (cases m) (auto simp: res_bind_Inr_iff)
    then have "counters_ok W v (if w = v then s' else Cn_svc \<sigma> v) (Cn_tasks \<sigma> + mset (map (Pair w) ts))"
      by (intro counters_same[OF C]) (use new(3) in \<open>auto simp: own_left_simps\<close>)
    then show ?thesis
      unfolding cosi_message(1) using message_shape[where S = "Cn_svc \<sigma>", OF _ cosi_message(3)] ok new cosi_message(2) by (intro lost_perform[OF I]) auto
  qed
qed

interpretation unanswered: invariant_system cosi_init "cosi_step W"
  "\<lambda>\<sigma>. world_ok W \<and> unknown W v \<and> Cw_bunch W v \<noteq> [] \<longrightarrow> lost_inv W v \<sigma>" for W v
proof
  show "cosi_init \<sigma> \<Longrightarrow> world_ok W \<and> unknown W v \<and> Cw_bunch W v \<noteq> [] \<longrightarrow> lost_inv W v \<sigma>" for \<sigma>
    by (simp add: cosi_init_def lost_inv_def own_left_def)
qed (blast intro: lost_step)

text \<open>C39: A service whose bunch nodes have it in none of their rings waits for ever: its calls of
  \<open>BFTCoSiSimul\<close> never return, because the bunch nodes log the error and do not reply.\<close>

theorem request_unanswered:
  assumes "world_ok W" "Cw_bunch W v \<noteq> []" "reach cosi_init (cosi_step W) \<sigma>"
    and "\<And>b i. b \<in> set (Cw_bunch W v) \<Longrightarrow> i < nr_rings W b \<Longrightarrow>
      \<not> has_participant (Cw_trees W b) v (map_get [] (GraphTrees (Cw_trees W b)) b ! i)"
  shows "Returned (Cn_svc \<sigma> v) = {}"
proof -
  have "unknown W v" using assms(4) by (simp add: unknown_def)
  then have "lost_inv W v \<sigma>" using unanswered.reachable_inv[OF assms(3), of v] assms(1,2) by blast
  then show ?thesis by (simp add: lost_inv_def)
qed

theorem request_unanswered_witness: "Returned (Cn_svc twin_called ''node_0'') = {}"
proof (rule request_unanswered[OF twin_world_ok _ twin_called_reachable])
  show "Cw_bunch (twin_world 0) ''node_0'' \<noteq> []" by (simp add: twin_world_def)
  show "\<not> has_participant (Cw_trees (twin_world 0) b) ''node_0'' (map_get [] (GraphTrees (Cw_trees (twin_world 0) b)) b ! i)"
    if "b \<in> set (Cw_bunch (twin_world 0) ''node_0'')" "i < nr_rings (twin_world 0) b" for b i
    using that by (simp add: twin_world_def twin_trees_def map_get_def)
qed

end
