(* ===== verification/Nyle_Setup.thy ===== *)
theory Nyle_Setup
  imports Graph_Build Cosi_Service
begin

text \<open>
  The initialisation of the Nyle service (nyle/cosi\_service/service.go, \<open>InitRequest\<close>, \<open>Setup\<close> and
  \<open>genTrees\<close>), for the constants of the file: the nodes of the request are ordered, the locality
  graph and the distance oracle are built on them, and the rings of every node.
\<close>

subsection \<open>Definitions\<close>

definition RND_NODES :: bool where
  "RND_NODES = False"

definition NR_LEVELS :: int where
  "NR_LEVELS = 3"

text \<open>The loop over the roots; the trees of the rings are only printed. The choices of the runtime are
  given by root.\<close>

fun all_rings ::
  "(nat \<Rightarrow> graph_params) \<Rightarrow> (nat \<Rightarrow> ring_params) \<Rightarrow> LocalityNodes \<Rightarrow> (node_ptr \<Rightarrow> node_ptr \<Rightarrow> real) \<Rightarrow> nat \<Rightarrow> nat \<Rightarrow> LocalityNode list \<Rightarrow> unit option result" where
  "all_rings GP P all dist2 fuel i [] = Inr (Some ())"
| "all_rings GP P all dist2 fuel i (crtRoot # roots) =
     res_bind (CreateOnetRings (GP i) (P i) all (Name crtRoot) dist2 fuel) (\<lambda>r.
       case r of None \<Rightarrow> Inr None | Some _ \<Rightarrow> all_rings GP P all dist2 fuel (Suc i) roots)"

text \<open>\<open>genTrees\<close> without the optimisation of the graph, which \<open>Setup\<close> does not ask for.\<close>

definition genTrees ::
  "(nat \<Rightarrow> real) \<Rightarrow> (nat \<Rightarrow> graph_params) \<Rightarrow> (nat \<Rightarrow> ring_params) \<Rightarrow> nat \<Rightarrow> LocalityNodes \<Rightarrow> bool \<Rightarrow> int \<Rightarrow> (LocalityNodes \<times> (node_ptr \<Rightarrow> node_ptr \<Rightarrow> real)) option result" where
  "genTrees rand GP P fuel nodes RandomCoordsLevels Levels =
     res_bind (CreateLocalityGraph rand nodes RandomCoordsLevels RandomCoordsLevels Levels) (\<lambda>all.
     res_bind (AproximateDistanceOracle all) (\<lambda>dist2.
     res_bind (all_rings GP P all dist2 fuel 0 (All_nodes all)) (\<lambda>r.
       Inr (map_option (\<lambda>_. (all, dist2)) r))))"

definition Nyle_Setup ::
  "(nat \<Rightarrow> real) \<Rightarrow> (nat \<Rightarrow> graph_params) \<Rightarrow> (nat \<Rightarrow> ring_params) \<Rightarrow> nat \<Rightarrow> LocalityNode list \<Rightarrow> (ServerIdentity \<times> string) list \<Rightarrow> service_state
    \<Rightarrow> (Trees \<times> service_state) option result" where
  "Nyle_Setup rand GP P fuel reqNodes reqNames s =
     res_bind (Setup_nodes reqNodes reqNames) (\<lambda>nodes.
     res_bind (genTrees rand GP P fuel nodes RND_NODES NR_LEVELS) (\<lambda>r.
       Inr (map_option (\<lambda>(all, dist2). (\<lparr>Tree_Nodes = all, GraphTrees = [], BinaryTrees = []\<rparr>, s\<lparr>CosiWg := [], metrics := []\<rparr>)) r)))"

subsection \<open>Small networks\<close>

lemma Setup_nodes_fresh:
  assumes "names_complete reqNodes"
  shows "\<exists>ns. Setup_nodes reqNodes reqNames = Inr ns \<and> fresh_nodes ns \<and> mset (All_nodes ns) = mset (map reset_node reqNodes)"
proof -
  obtain nodes where n: "order_nodes (map reset_node reqNodes) = Inr (map Some nodes)" "indexed nodes" "mset nodes = mset (map reset_node reqNodes)"
    using assms order_nodes_complete[of "map reset_node reqNodes"] names_complete_reset by metis
  have "deref_all (map Some nodes) = Inr nodes" by (auto simp: deref_all_def comp_def)
  with n(1) obtain ns where ns: "Setup_nodes reqNodes reqNames = Inr ns" "All_nodes ns = nodes"
    "ClusterBunchDistances ns = (\<lambda>a b. if a = b then 0 else max_float64)" by (simp add: Setup_nodes_def)
  have "v \<in> reset_node ` set reqNodes" if "v \<in> set nodes" for v using that n(3) by (metis list.set_map set_mset_mset)
  then have "fresh_nodes ns" using ns(2,3) n(2) by (fastforce simp: fresh_nodes_def reset_node_def)
  then show ?thesis using ns(1,2) n(3) by blast
qed

text \<open>C40: The initialisation of the service panics on every network of fewer than twenty nodes, although the
  locality graph and the distance oracle are built for it.\<close>

theorem Setup_needs_twenty_nodes:
  assumes "names_complete reqNodes" "\<forall>v \<in> set reqNodes. 0 \<le> Level v \<and> Level v < 3" "\<exists>v \<in> set reqNodes. Level v = 2"
    and "\<forall>v \<in> set reqNodes. \<forall>w \<in> set reqNodes. ComputeDist v w < max_float64" "length reqNodes \<le> 19"
  shows "Nyle_Setup rand GP P fuel reqNodes reqNames s = Inl (if length reqNodes = 19 then IndexOutOfRange else NilDereference)"
proof -
  obtain ns where ns: "Setup_nodes reqNodes reqNames = Inr ns" "fresh_nodes ns" "mset (All_nodes ns) = mset (map reset_node reqNodes)"
    using Setup_nodes_fresh[OF assms(1)] by blast
  have set: "set (All_nodes ns) = reset_node ` set reqNodes" and len: "nr_nodes ns = length reqNodes"
    using ns(3) by (metis list.set_map set_mset_mset, metis length_map size_mset)
  have lv: "Level (reset_node v) = Level v" "ComputeDist (reset_node v) (reset_node w) = ComputeDist v w" for v w
    by (simp_all add: reset_node_def ComputeDist_def)
  have "\<forall>v \<in> set (All_nodes ns). 0 \<le> Level v \<and> Level v < 3" "\<exists>v \<in> set (All_nodes ns). Level v = 2"
    "\<forall>v \<in> set (All_nodes ns). \<forall>w \<in> set (All_nodes ns). ComputeDist v w < max_float64"
    unfolding set using assms(2-4) lv by auto
  then have "levels_ok 3 (ns\<lparr>All_nodes := randomise rand False False 3 (All_nodes ns)\<rparr>)"
    by (auto simp: levels_ok_def randomise_def Bex_def in_set_conv_nth all_set_conv_all_nth)
  from created_graph[OF ns(2) this] obtain g where g: "CreateLocalityGraph rand ns False False 3 = Inr g" "nr_nodes g = nr_nodes ns"
    "locality_graph 3 g" "levels_ok 3 g" .
  obtain D where D: "AproximateDistanceOracle g = Inr D" using oracle_ok[OF g(3,4)] by blast
  obtain v vs where v: "All_nodes g = v # vs" using g(4) by (cases "All_nodes g") (auto simp: levels_ok_def)
  have "indexed (All_nodes g)" "Name v \<in> names g" using g(3) v by (simp_all add: locality_graph_def names_def)
  from CreateOnetRings_needs_node_19[OF this] assms(5) g(2) len
  have "CreateOnetRings (GP 0) (P 0) g (Name v) D fuel = Inl (if length reqNodes = 19 then IndexOutOfRange else NilDereference)" by simp
  then show ?thesis using ns(1) g(1) D v by (simp add: Nyle_Setup_def genTrees_def RND_NODES_def NR_LEVELS_def)
qed


theorem Setup_needs_twenty_nodes_witness:
  "Nyle_Setup (\<lambda>k. 0) (\<lambda>i. row_params) (\<lambda>i. duo_params) 9 (All_nodes (row_nodes 4)) []
     \<lparr>CosiWg = [], metrics = [], NrProtocolsStarted = 0, Failed = {}, Returned = {}\<rparr> = Inl NilDereference"
proof -
  have i: "name_idx (row_node 4 i) = i \<and> NodeNameToInt (Name (row_node 4 i)) = Inr (int i)" if "i < 4" for i
    using NodeNameToInt_node_name[of "int i"] that by (simp add: name_idx_def)
  have all: "All_nodes (row_nodes 4) = map (row_node 4) [0..<4]" by (simp add: row_nodes_def)
  have "map name_idx (All_nodes (row_nodes 4)) = [0..<4]" unfolding all map_map by (rule map_idI) (use i in auto)
  then have "names_complete (All_nodes (row_nodes 4))" using i by (auto simp: names_complete_def)
  moreover have "\<forall>v \<in> set (All_nodes (row_nodes 4)). \<forall>w \<in> set (All_nodes (row_nodes 4)). ComputeDist v w < max_float64"
    using row_levels[of 4] by (auto simp: levels_ok_def)
  moreover have "\<exists>v \<in> set (All_nodes (row_nodes 4)). Level v = 2" by (auto intro!: bexI[of _ 3])
  ultimately show ?thesis using Setup_needs_twenty_nodes[of "All_nodes (row_nodes 4)"] by simp
qed

end
