(* ===== verification/Simplechain.thy ===== *)
theory Simplechain
  imports Go_Prelude "HOL-Library.Word"
begin

text \<open>
  The package \<open>simplechain\<close>: transactions and their hash, votes, the in-memory
  database and the chain that is its client. The database interface \<open>DB\<close> of the source
  is the locale \<open>tx_db\<close>; \<open>MemoryDB\<close> is its interpretation.
  SHA-256 is an argument \<open>sha256\<close> of the definitions that use it.
\<close>

type_synonym byte = "8 word"
type_synonym bytes = "8 word list"

subsection \<open>Transactions (transaction.go)\<close>

record Tx =
  PreviousRing :: int
  SpendingRing :: int
  SrcToken :: bytes
  DstToken :: bytes
  BackLink :: bytes

text \<open>The Go type fixes the three arrays to 32 bytes.\<close>

definition tx_typed :: "Tx \<Rightarrow> bool" where
  "tx_typed tx \<longleftrightarrow> length (SrcToken tx) = 32 \<and> length (DstToken tx) = 32
     \<and> length (BackLink tx) = 32"

text \<open>\<open>binary.LittleEndian.PutUint32\<close> of \<open>uint32(i)\<close>.\<close>

definition put_uint32 :: "int \<Rightarrow> bytes" where
  "put_uint32 i =
     (let v = (word_of_int i :: 32 word)
      in [ucast v, ucast (drop_bit 8 v), ucast (drop_bit 16 v), ucast (drop_bit 24 v)])"

text \<open>What \<open>Tx.Hash\<close> writes into the hasher, in the order of the writes.\<close>

definition tx_preimage :: "Tx \<Rightarrow> bytes" where
  "tx_preimage tx =
     put_uint32 (PreviousRing tx) @ put_uint32 (SpendingRing tx)
     @ SrcToken tx @ DstToken tx @ BackLink tx"

text \<open>\<open>copy\<close> into a zeroed 32-byte array.\<close>

definition copy32 :: "bytes \<Rightarrow> bytes" where
  "copy32 s = take 32 (s @ replicate 32 0)"

definition Tx_Hash :: "(bytes \<Rightarrow> bytes) \<Rightarrow> Tx \<Rightarrow> bytes" where
  "Tx_Hash sha256 tx = copy32 (sha256 (tx_preimage tx))"

subsection \<open>Votes (vote.go)\<close>

record Vote =
  Vote_val :: bool
  TxID :: bytes
  Ring :: int
  Sig :: bytes

definition CheckSignature :: "Vote \<Rightarrow> bytes \<Rightarrow> unit result" where
  "CheckSignature v pk = Inr ()"

subsection \<open>The in-memory database (database.go)\<close>

record MemoryDB =
  txs :: "(bytes, Tx) gomap"
  votes :: "(bytes, Vote) gomap option list"

definition NewMemoryDB :: MemoryDB where
  "NewMemoryDB = \<lparr>txs = [], votes = replicate 100 None\<rparr>"

definition DB_GetTx :: "MemoryDB \<Rightarrow> bytes \<Rightarrow> Tx result" where
  "DB_GetTx db key =
     (case map_of (txs db) key of
        Some tx \<Rightarrow> Inr tx
      | None \<Rightarrow> Inl (GoError ''tx does not exist''))"

definition DB_GetVote :: "MemoryDB \<Rightarrow> int \<Rightarrow> bytes \<Rightarrow> Vote result" where
  "DB_GetVote db ring key =
     (if int (length (votes db)) < ring then Inl (GoError ''no such ring'')
      else res_bind (slice_get (votes db) ring) (\<lambda>m.
        case m of
          None \<Rightarrow> Inl (GoError ''no such ring'')
        | Some vs \<Rightarrow>
            (case map_of vs key of
               Some v \<Rightarrow> Inr v
             | None \<Rightarrow> Inl (GoError ''vote does not exist''))))"

definition DB_StoreTx :: "(bytes \<Rightarrow> bytes) \<Rightarrow> MemoryDB \<Rightarrow> Tx \<Rightarrow> MemoryDB result" where
  "DB_StoreTx sha256 db tx =
     (case map_of (txs db) (Tx_Hash sha256 tx) of
        Some _ \<Rightarrow> Inl (GoError ''tx already exists'')
      | None \<Rightarrow> Inr (db\<lparr>txs := map_set (txs db) (Tx_Hash sha256 tx) tx\<rparr>))"

definition DB_StoreVote :: "MemoryDB \<Rightarrow> Vote \<Rightarrow> MemoryDB result" where
  "DB_StoreVote db v =
     res_bind (slice_get (votes db) (Ring v)) (\<lambda>m.
       let vs = (case m of None \<Rightarrow> [] | Some vs \<Rightarrow> vs)
       in case map_of vs (TxID v) of
            Some _ \<Rightarrow> Inl (GoError ''vote already exists'')
          | None \<Rightarrow>
              res_bind (slice_set (votes db) (Ring v) (Some (map_set vs (TxID v) v)))
                (\<lambda>vss. Inr (db\<lparr>votes := vss\<rparr>)))"

subsection \<open>The chain (simplechain.go)\<close>

record Chain =
  db :: MemoryDB
  unspentPool :: "(bytes, Tx) gomap"

definition Chain_AddTx :: "(bytes \<Rightarrow> bytes) \<Rightarrow> Chain \<Rightarrow> Tx \<Rightarrow> Chain result" where
  "Chain_AddTx sha256 c tx = res_bind (DB_StoreTx sha256 (db c) tx) (\<lambda>d. Inr (c\<lparr>db := d\<rparr>))"

definition Chain_AddVote :: "Chain \<Rightarrow> Vote \<Rightarrow> Chain result" where
  "Chain_AddVote c v = res_bind (DB_StoreVote (db c) v) (\<lambda>d. Inr (c\<lparr>db := d\<rparr>))"

definition Chain_GetTx :: "Chain \<Rightarrow> bytes \<Rightarrow> Tx result" where
  "Chain_GetTx c txID = DB_GetTx (db c) txID"

definition Chain_GetVote :: "Chain \<Rightarrow> int \<Rightarrow> bytes \<Rightarrow> Vote result" where
  "Chain_GetVote c ring txID = DB_GetVote (db c) ring txID"

text \<open>
  A history of requests against the chain. A request that fails leaves the chain as it was,
  and the next one is served.
\<close>

datatype chain_op = AddTxOp Tx | AddVoteOp Vote

fun chain_apply :: "(bytes \<Rightarrow> bytes) \<Rightarrow> chain_op \<Rightarrow> Chain \<Rightarrow> Chain result" where
  "chain_apply sha256 (AddTxOp tx) c = Chain_AddTx sha256 c tx"
| "chain_apply sha256 (AddVoteOp v) c = Chain_AddVote c v"

definition serve :: "('o \<Rightarrow> 'd \<Rightarrow> 'd result) \<Rightarrow> 'o \<Rightarrow> 'd \<Rightarrow> 'd" where
  "serve f r d = (case f r d of Inl _ \<Rightarrow> d | Inr d' \<Rightarrow> d')"

definition chain_run :: "(bytes \<Rightarrow> bytes) \<Rightarrow> chain_op list \<Rightarrow> Chain \<Rightarrow> Chain" where
  "chain_run sha256 = fold (serve (chain_apply sha256))"

subsection \<open>The interface DB as a contract\<close>

locale tx_db =
  fixes hash :: "'tx \<Rightarrow> 'h"
    and vote_key :: "'vote \<Rightarrow> 'r \<times> 'h"
    and get_tx :: "'db \<Rightarrow> 'h \<Rightarrow> 'tx result"
    and get_vote :: "'db \<Rightarrow> 'r \<Rightarrow> 'h \<Rightarrow> 'vote result"
    and store_tx :: "'db \<Rightarrow> 'tx \<Rightarrow> 'db result"
    and store_vote :: "'db \<Rightarrow> 'vote \<Rightarrow> 'db result"
  assumes store_tx_get:
      "store_tx d t = Inr d' \<Longrightarrow> get_tx d' h = (if h = hash t then Inr t else get_tx d h)"
    and store_tx_frame: "store_tx d t = Inr d' \<Longrightarrow> get_vote d' = get_vote d"
    and store_tx_once: "get_tx d (hash t) = Inr t' \<Longrightarrow> \<exists>e. store_tx d t = Inl e"
    and store_vote_get: "store_vote d v = Inr d' \<Longrightarrow> vote_key v = (r, h) \<Longrightarrow> get_vote d' r h = Inr v"
    and store_vote_other:
      "store_vote d v = Inr d' \<Longrightarrow> vote_key v \<noteq> (r, h) \<Longrightarrow> get_vote d r h = Inr u \<Longrightarrow>
       get_vote d' r h = Inr u"
    and store_vote_frame: "store_vote d v = Inr d' \<Longrightarrow> get_tx d' = get_tx d"
    and store_vote_once:
      "vote_key v = (r, h) \<Longrightarrow> get_vote d r h = Inr u \<Longrightarrow> \<exists>e. store_vote d v = Inl e"
begin

text \<open>What is in the database stays there: a store never changes an entry.\<close>

lemma store_tx_keeps_tx:
  assumes "store_tx d t = Inr d'" and "get_tx d h = Inr t'"
  shows "get_tx d' h = Inr t'"
proof (cases "h = hash t")
  case True
  with assms store_tx_once show ?thesis by fastforce
next
  case False
  with assms show ?thesis by (simp add: store_tx_get)
qed

lemma store_vote_keeps_vote:
  assumes "store_vote d v = Inr d'" and "get_vote d r h = Inr u"
  shows "get_vote d' r h = Inr u"
proof (cases "vote_key v = (r, h)")
  case True
  with assms store_vote_once show ?thesis by fastforce
next
  case False
  with assms show ?thesis by (simp add: store_vote_other)
qed

lemmas keeps = store_tx_keeps_tx store_vote_keeps_vote store_tx_frame store_vote_frame

end

subsection \<open>MemoryDB satisfies the contract\<close>

lemma slice_get_setD:
  assumes "slice_set xs i v = Inr ys"
  shows "slice_get ys j = (if j = i then Inr v else slice_get xs j)" "length ys = length xs"
  using assms by (auto simp: slice_set_def slice_get_def split: if_splits)

lemma DB_StoreTx_Inr:
  "DB_StoreTx sha256 d t = Inr d' \<longleftrightarrow>
     map_of (txs d) (Tx_Hash sha256 t) = None
     \<and> d' = d\<lparr>txs := map_set (txs d) (Tx_Hash sha256 t) t\<rparr>"
  by (auto simp: DB_StoreTx_def split: option.splits)

lemma DB_StoreVoteE:
  assumes "DB_StoreVote d v = Inr d'"
  obtains m vss where "slice_get (votes d) (Ring v) = Inr m"
    and "map_of (case m of None \<Rightarrow> [] | Some vs \<Rightarrow> vs) (TxID v) = None"
    and "slice_set (votes d) (Ring v)
      (Some (map_set (case m of None \<Rightarrow> [] | Some vs \<Rightarrow> vs) (TxID v) v)) = Inr vss"
    and "d' = d\<lparr>votes := vss\<rparr>"
  using assms
  by (auto simp: DB_StoreVote_def Let_def res_bind_Inr_iff split: option.splits)

lemma DB_GetVote_Inr:
  "DB_GetVote d r h = Inr v \<longleftrightarrow>
     (\<exists>vs. slice_get (votes d) r = Inr (Some vs) \<and> map_of vs h = Some v)"
  by (auto simp: DB_GetVote_def slice_get_def res_bind_Inr_iff split: option.splits if_splits)

lemma DB_StoreVote_get:
  assumes "DB_StoreVote d v = Inr d'"
  shows "DB_GetVote d' (Ring v) (TxID v) = Inr v"
  using assms
  by (rule DB_StoreVoteE) (auto simp: DB_GetVote_Inr gomap.lookup_update slice_get_setD(1))

lemma DB_StoreVote_other:
  assumes "DB_StoreVote d v = Inr d'" "(Ring v, TxID v) \<noteq> (r, h)" "DB_GetVote d r h = Inr u"
  shows "DB_GetVote d' r h = Inr u"
  using assms(1)
  by (rule DB_StoreVoteE)
    (use assms(2,3) in \<open>auto simp: DB_GetVote_Inr gomap.lookup_update slice_get_setD(1)\<close>)

interpretation mem_db: tx_db "Tx_Hash sha256" "\<lambda>v. (Ring v, TxID v)" DB_GetTx DB_GetVote
    "DB_StoreTx sha256" DB_StoreVote for sha256
proof (unfold_locales, goal_cases)
  case (1 d t d' h)
  then show ?case by (auto simp: DB_StoreTx_Inr DB_GetTx_def gomap.lookup_update)
next
  case (2 d t d')
  then show ?case by (auto simp: DB_StoreTx_Inr DB_GetVote_def fun_eq_iff)
next
  case (3 d t t')
  then show ?case by (auto simp: DB_GetTx_def DB_StoreTx_def split: option.splits)
next
  case (4 d v d' r h)
  then show ?case by (auto dest: DB_StoreVote_get)
next
  case (5 d v d' r h u)
  then show ?case by (auto intro: DB_StoreVote_other)
next
  case (6 d v d')
  then show ?case by (auto simp: DB_GetTx_def fun_eq_iff elim!: DB_StoreVoteE)
next
  case (7 v r h d u)
  then show ?case by (auto simp: DB_GetVote_Inr DB_StoreVote_def Let_def)
qed

subsection \<open>Shape invariant\<close>

text \<open>
  The database keeps one slot per ring and every transaction sits under its own hash, every
  vote under its own ring and transaction.
\<close>

definition db_invar :: "(bytes \<Rightarrow> bytes) \<Rightarrow> MemoryDB \<Rightarrow> bool" where
  "db_invar sha256 d \<longleftrightarrow>
     length (votes d) = 100
     \<and> (\<forall>h t. map_of (txs d) h = Some t \<longrightarrow> Tx_Hash sha256 t = h)
     \<and> (\<forall>r vs h v. slice_get (votes d) r = Inr (Some vs) \<longrightarrow> map_of vs h = Some v \<longrightarrow>
          Ring v = r \<and> TxID v = h)"

lemma db_invar_length: "db_invar sha256 d \<Longrightarrow> length (votes d) = 100"
  by (simp add: db_invar_def)

lemma db_invar_new: "db_invar sha256 NewMemoryDB"
  by (auto simp: db_invar_def NewMemoryDB_def slice_get_def split: if_splits)

lemma db_invar_StoreTx:
  "db_invar sha256 d \<Longrightarrow> DB_StoreTx sha256 d t = Inr d' \<Longrightarrow> db_invar sha256 d'"
  by (auto simp: db_invar_def DB_StoreTx_Inr gomap.lookup_update split: if_splits)

lemma db_invar_StoreVote:
  assumes "db_invar sha256 d" "DB_StoreVote d v = Inr d'"
  shows "db_invar sha256 d'"
  using assms(2)
proof (rule DB_StoreVoteE)
  fix m vss
  assume "slice_get (votes d) (Ring v) = Inr m"
    and set: "slice_set (votes d) (Ring v)
      (Some (map_set (case m of None \<Rightarrow> [] | Some vs \<Rightarrow> vs) (TxID v) v)) = Inr vss"
    and "d' = d\<lparr>votes := vss\<rparr>"
  with assms(1) show ?thesis
    by (auto simp: db_invar_def slice_get_setD[OF set] gomap.lookup_update
        split: if_splits option.splits)
qed

lemma chain_apply_Inr_cases:
  assumes "chain_apply sha256 r c = Inr c'"
  obtains (tx) t where "r = AddTxOp t" "DB_StoreTx sha256 (db c) t = Inr (db c')"
  | (vote) v where "r = AddVoteOp v" "DB_StoreVote (db c) v = Inr (db c')"
  using assms
  by (cases r) (auto simp: Chain_AddTx_def Chain_AddVote_def res_bind_Inr_iff)

lemma serve_chain_keeps:
  assumes step: "\<And>c'. chain_apply sha256 r c = Inr c' \<Longrightarrow> P c \<Longrightarrow> P c'" and "P c"
  shows "P (serve (chain_apply sha256) r c)"
  using assms by (auto simp: serve_def split: sum.splits)

lemma chain_run_keeps:
  assumes "\<And>r c c'. chain_apply sha256 r c = Inr c' \<Longrightarrow> P c \<Longrightarrow> P c'" and "P c"
  shows "P (chain_run sha256 rs c)"
  unfolding chain_run_def by (rule fold_invariant_set) (use assms in \<open>auto intro: serve_chain_keeps\<close>)

subsection \<open>The abstract ledger\<close>

text \<open>
  What the chain promises its callers: two write-once tables, transactions by hash and votes
  by ring and transaction, with rings numbered from 0 to 99.
\<close>

type_synonym ledger = "(bytes \<rightharpoonup> Tx) \<times> (int \<times> bytes \<rightharpoonup> Vote)"

definition put_once :: "('k \<rightharpoonup> 'v) \<Rightarrow> 'k \<Rightarrow> 'v \<Rightarrow> ('k \<rightharpoonup> 'v)" where
  "put_once m k v = (if m k = None then m(k \<mapsto> v) else m)"

fun ledger_step :: "(bytes \<Rightarrow> bytes) \<Rightarrow> chain_op \<Rightarrow> ledger \<Rightarrow> ledger" where
  "ledger_step sha256 (AddTxOp t) (T, V) = (put_once T (Tx_Hash sha256 t) t, V)"
| "ledger_step sha256 (AddVoteOp v) (T, V) =
     (T, if 0 \<le> Ring v \<and> Ring v < 100 then put_once V (Ring v, TxID v) v else V)"

definition ok_value :: "'a result \<Rightarrow> 'a option" where
  "ok_value r = (case r of Inl _ \<Rightarrow> None | Inr x \<Rightarrow> Some x)"

definition chain_abs :: "Chain \<Rightarrow> ledger" where
  "chain_abs c = ((\<lambda>h. ok_value (Chain_GetTx c h)), (\<lambda>(r, h). ok_value (Chain_GetVote c r h)))"

lemma ok_value_GetTx: "ok_value (DB_GetTx d h) = map_of (txs d) h"
  by (simp add: ok_value_def DB_GetTx_def split: option.split)

lemma ok_value_GetVote:
  "ok_value (DB_GetVote d r h) =
     (case slice_get (votes d) r of Inr (Some vs) \<Rightarrow> map_of vs h | _ \<Rightarrow> None)"
  by (auto simp: ok_value_def DB_GetVote_def slice_get_def split: option.split)

lemma ledger_step_tx:
  "chain_abs (serve (chain_apply sha256) (AddTxOp t) c) = ledger_step sha256 (AddTxOp t) (chain_abs c)"
  by (auto simp: serve_def Chain_AddTx_def DB_StoreTx_def chain_abs_def put_once_def fun_eq_iff
      Chain_GetTx_def Chain_GetVote_def ok_value_GetTx ok_value_GetVote gomap.lookup_update
      split: option.splits)

lemma ledger_step_vote:
  assumes "length (votes (db c)) = 100"
  shows "chain_abs (serve (chain_apply sha256) (AddVoteOp v) c)
    = ledger_step sha256 (AddVoteOp v) (chain_abs c)"
  using assms
  by (auto simp: serve_def Chain_AddVote_def DB_StoreVote_def chain_abs_def put_once_def
      fun_eq_iff Chain_GetTx_def Chain_GetVote_def ok_value_GetTx ok_value_GetVote
      gomap.lookup_update slice_get_def slice_set_def Let_def nth_list_update eq_nat_nat_iff
      split: option.splits if_splits)

lemma ledger_step_refines:
  assumes "db_invar sha256 (db c)"
  shows "chain_abs (serve (chain_apply sha256) r c) = ledger_step sha256 r (chain_abs c)"
  using assms by (cases r) (simp_all add: ledger_step_tx ledger_step_vote db_invar_def)

definition fresh_chain :: "(bytes, Tx) gomap \<Rightarrow> Chain" where
  "fresh_chain pool = \<lparr>db = NewMemoryDB, unspentPool = pool\<rparr>"

lemma fresh_db: "db_invar sha256 (db (fresh_chain pool))"
  by (simp add: fresh_chain_def db_invar_new)

lemma chain_abs_fresh: "chain_abs (fresh_chain pool) = (Map.empty, Map.empty)"
  by (auto simp: chain_abs_def fresh_chain_def NewMemoryDB_def fun_eq_iff Chain_GetTx_def
      Chain_GetVote_def ok_value_GetTx ok_value_GetVote slice_get_def)

lemma db_invar_run:
  "db_invar sha256 (db c) \<Longrightarrow> db_invar sha256 (db (chain_run sha256 rs c))"
  by (rule chain_run_keeps[where P = "\<lambda>c. db_invar sha256 (db c)"])
    (auto elim!: chain_apply_Inr_cases intro: db_invar_StoreTx db_invar_StoreVote)

lemma chain_run_refines:
  "db_invar sha256 (db c) \<Longrightarrow>
     chain_abs (chain_run sha256 rs c) = fold (ledger_step sha256) rs (chain_abs c)"
proof (induction rs arbitrary: c)
  case (Cons r rs)
  have "db_invar sha256 (db (chain_run sha256 [r] c))"
    using Cons.prems by (rule db_invar_run)
  with Cons show ?case by (simp add: chain_run_def ledger_step_refines)
qed (simp add: chain_run_def)

text \<open>C13: Served any sequence of requests from an empty database, the chain is exactly the
  abstract ledger: the first transaction of a hash and the first vote of a ring and a
  transaction are kept, later ones and votes for rings outside 0..99 change nothing.\<close>

theorem chain_refines_ledger:
  "chain_abs (chain_run sha256 rs (fresh_chain pool))
     = fold (ledger_step sha256) rs (Map.empty, Map.empty)"
  by (simp add: chain_run_refines fresh_db chain_abs_fresh)

lemma chain_apply_keeps_tx:
  assumes "chain_apply sha256 q c = Inr c'" "Chain_GetTx c h = Inr t"
  shows "Chain_GetTx c' h = Inr t"
  using assms(1)
  by (rule chain_apply_Inr_cases)
    (use assms(2) in \<open>simp_all add: Chain_GetTx_def mem_db.keeps(1) mem_db.keeps(4)\<close>)

lemma chain_apply_keeps_vote:
  assumes "chain_apply sha256 q c = Inr c'" "Chain_GetVote c r k = Inr v"
  shows "Chain_GetVote c' r k = Inr v"
  using assms(1)
  by (rule chain_apply_Inr_cases)
    (use assms(2) in \<open>simp_all add: Chain_GetVote_def mem_db.keeps(2) mem_db.keeps(3)\<close>)

text \<open>Nothing the chain has stored is ever changed or lost: whatever requests follow, a
  transaction and a vote that could be read are read back unchanged.\<close>

theorem chain_entries_immutable:
  assumes "Chain_GetTx c h = Inr t" and "Chain_GetVote c r k = Inr v"
  shows "Chain_GetTx (chain_run sha256 rs c) h = Inr t
    \<and> Chain_GetVote (chain_run sha256 rs c) r k = Inr v"
  using chain_run_keeps[of sha256 "\<lambda>c. Chain_GetTx c h = Inr t" c rs]
    chain_run_keeps[of sha256 "\<lambda>c. Chain_GetVote c r k = Inr v" c rs]
    chain_apply_keeps_tx chain_apply_keeps_vote assms by blast

definition sample_tx :: Tx where
  "sample_tx = \<lparr>PreviousRing = 1, SpendingRing = 2, SrcToken = replicate 32 7,
     DstToken = replicate 32 8, BackLink = replicate 32 9\<rparr>"

definition sample_vote :: Vote where
  "sample_vote = \<lparr>Vote_val = True, TxID = replicate 32 5, Ring = 99, Sig = [1]\<rparr>"

definition sample_chain :: Chain where
  "sample_chain = chain_run (\<lambda>bs. bs) [AddTxOp sample_tx, AddVoteOp sample_vote] (fresh_chain [])"

lemma sample_chain_reads:
  "Chain_GetTx sample_chain (Tx_Hash (\<lambda>bs. bs) sample_tx) = Inr sample_tx"
  "Chain_GetVote sample_chain 99 (replicate 32 5) = Inr sample_vote"
  by (simp_all add: sample_chain_def chain_run_def fresh_chain_def NewMemoryDB_def serve_def
      Chain_AddTx_def Chain_AddVote_def DB_StoreTx_def DB_StoreVote_def slice_get_def slice_set_def
      sample_vote_def Chain_GetTx_def Chain_GetVote_def DB_GetTx_def DB_GetVote_def
      gomap.lookup_update Let_def)

theorem chain_entries_immutable_witness:
  "Chain_GetTx (chain_run (\<lambda>bs. bs) [AddTxOp (sample_tx\<lparr>PreviousRing := 1 + 2 ^ 32\<rparr>)] sample_chain)
       (Tx_Hash (\<lambda>bs. bs) sample_tx) = Inr sample_tx
   \<and> Chain_GetVote (chain_run (\<lambda>bs. bs) [AddTxOp (sample_tx\<lparr>PreviousRing := 1 + 2 ^ 32\<rparr>)] sample_chain)
       99 (replicate 32 5) = Inr sample_vote"
  by (rule chain_entries_immutable) (rule sample_chain_reads)+

text \<open>C34: How reading a vote fails, on the chain after any history. Inside 0..99 it returns the
  vote or one of the two errors and never panics; above 100 it returns the error
  \<open>no such ring\<close>; at the ring 100 itself, where the guard compares with \<open><\<close>, and below
  0 the access to the slice panics.\<close>

theorem GetVote_outcomes:
  "Chain_GetVote (chain_run sha256 rs (fresh_chain pool)) ring key =
    (if ring < 0 \<or> ring = 100 then Inl IndexOutOfRange
     else if 100 < ring then Inl (GoError ''no such ring'')
     else case snd (fold (ledger_step sha256) rs (Map.empty, Map.empty)) (ring, key) of
       Some v \<Rightarrow> Inr v
     | None \<Rightarrow> if votes (db (chain_run sha256 rs (fresh_chain pool))) ! nat ring = None
              then Inl (GoError ''no such ring'')
              else Inl (GoError ''vote does not exist''))"
proof -
  let ?c = "chain_run sha256 rs (fresh_chain pool)"
  have len: "length (votes (db ?c)) = 100"
    by (rule db_invar_length[OF db_invar_run[OF fresh_db]])
  have "snd (fold (ledger_step sha256) rs (Map.empty, Map.empty)) (ring, key)
      = ok_value (Chain_GetVote ?c ring key)"
    using arg_cong[OF chain_run_refines[OF fresh_db[of sha256 pool], of rs], of snd]
    by (simp add: chain_abs_fresh chain_abs_def[of ?c] fun_eq_iff)
  then show ?thesis
    by (auto simp: len Chain_GetVote_def DB_GetVote_def slice_get_def ok_value_def
        split: option.splits)
qed

lemma ucast_byte_bits:
  fixes v w :: "32 word"
  assumes "(ucast (drop_bit (8 * k) v) :: 8 word) = ucast (drop_bit (8 * k) w)"
    and "8 * k \<le> n" "n < 8 * k + 8"
  shows "bit v n = bit w n"
proof -
  have "bit (ucast (drop_bit (8 * k) v) :: 8 word) (n - 8 * k)
      = bit (ucast (drop_bit (8 * k) w) :: 8 word) (n - 8 * k)"
    using assms(1) by simp
  moreover have "n - 8 * k < 8" using assms(2,3) by arith
  ultimately show ?thesis using assms(2) by (simp add: bit_simps)
qed

lemma put_uint32_word:
  assumes "put_uint32 i = put_uint32 j"
  shows "(word_of_int i :: 32 word) = word_of_int j"
proof (rule bit_word_eqI)
  fix n assume "n < LENGTH(32)"
  then have "n < 32" by simp
  then consider "n < 8" | "8 \<le> n" "n < 16" | "16 \<le> n" "n < 24" | "24 \<le> n" "n < 32" by linarith
  then show "bit (word_of_int i :: 32 word) n = bit (word_of_int j :: 32 word) n"
    using assms
      ucast_byte_bits[of 0 "word_of_int i" "word_of_int j" n]
      ucast_byte_bits[of 1 "word_of_int i" "word_of_int j" n]
      ucast_byte_bits[of 2 "word_of_int i" "word_of_int j" n]
      ucast_byte_bits[of 3 "word_of_int i" "word_of_int j" n]
    by cases (simp_all add: put_uint32_def Let_def)
qed

lemma put_uint32_inj:
  assumes "put_uint32 i = put_uint32 j" "0 \<le> i" "i < 2 ^ 32" "0 \<le> j" "j < 2 ^ 32"
  shows "i = j"
proof -
  have "take_bit 32 i = take_bit 32 j"
    using put_uint32_word[OF assms(1)] by (simp only: word_of_int_eq_iff) simp
  then show ?thesis using assms(2-) by (simp add: take_bit_int_eq_self)
qed

text \<open>The bytes that are hashed determine the transaction when its rings fit in 32 bits:
  different transactions are hashed from different bytes, so they share a database slot only
  if SHA-256 itself collides.\<close>

theorem tx_preimage_injective:
  assumes "a \<noteq> b" "tx_typed a" "tx_typed b"
    and "0 \<le> PreviousRing a" "PreviousRing a < 2 ^ 32" "0 \<le> PreviousRing b" "PreviousRing b < 2 ^ 32"
    and "0 \<le> SpendingRing a" "SpendingRing a < 2 ^ 32" "0 \<le> SpendingRing b" "SpendingRing b < 2 ^ 32"
  shows "tx_preimage a \<noteq> tx_preimage b"
proof
  assume eq: "tx_preimage a = tx_preimage b"
  have len: "length (put_uint32 i) = 4" for i by (simp add: put_uint32_def Let_def)
  from eq assms(2,3) have "put_uint32 (PreviousRing a) = put_uint32 (PreviousRing b)"
    "put_uint32 (SpendingRing a) = put_uint32 (SpendingRing b)"
    "SrcToken a = SrcToken b" "DstToken a = DstToken b" "BackLink a = BackLink b"
    by (auto simp: tx_preimage_def tx_typed_def len)
  with assms(4-) have "a = b"
    by (intro Tx.equality) (auto intro: put_uint32_inj)
  with assms(1) show False ..
qed

theorem tx_preimage_injective_witness:
  "tx_preimage sample_tx \<noteq> tx_preimage (sample_tx\<lparr>PreviousRing := 2, SpendingRing := 1\<rparr>)"
  by (rule tx_preimage_injective) (simp_all add: tx_typed_def sample_tx_def)

text \<open>C35: Rings are truncated to 32 bits before hashing, so a transaction whose ring differs by a
  multiple of \<open>2 ^ 32\<close> is refused as already stored.\<close>

theorem AddTx_ring_truncation:
  assumes "Chain_AddTx sha256 c tx = Inr c'"
  shows "Chain_AddTx sha256 c' (tx\<lparr>PreviousRing := PreviousRing tx + 2 ^ 32 * k\<rparr>)
    = Inl (GoError ''tx already exists'')"
proof -
  have "put_uint32 (PreviousRing tx + 2 ^ 32 * k) = put_uint32 (PreviousRing tx)"
  proof -
    have "(word_of_int (PreviousRing tx + 2 ^ 32 * k) :: 32 word) = word_of_int (PreviousRing tx)"
      by (simp only: word_of_int_eq_iff) (simp add: take_bit_eq_mod)
    then show ?thesis unfolding put_uint32_def Let_def by simp
  qed
  then have "Tx_Hash sha256 (tx\<lparr>PreviousRing := PreviousRing tx + 2 ^ 32 * k\<rparr>) = Tx_Hash sha256 tx"
    by (simp add: Tx_Hash_def tx_preimage_def)
  with assms show ?thesis
    by (auto simp: Chain_AddTx_def DB_StoreTx_def gomap.lookup_update split: option.splits)
qed

theorem AddTx_ring_truncation_witness:
  "Chain_AddTx (\<lambda>bs. bs) (fresh_chain []\<lparr>db := NewMemoryDB\<lparr>txs := [(Tx_Hash (\<lambda>bs. bs) sample_tx, sample_tx)]\<rparr>\<rparr>)
     (sample_tx\<lparr>PreviousRing := PreviousRing sample_tx + 2 ^ 32 * 1\<rparr>)
   = Inl (GoError ''tx already exists'')"
  by (rule AddTx_ring_truncation[of _ "fresh_chain []"])
    (simp add: Chain_AddTx_def DB_StoreTx_def fresh_chain_def NewMemoryDB_def map_set_def)

end
