(* ===== verification/Bft_Signature.thy ===== *)
theory Bft_Signature
  imports Go_Prelude "HOL-Library.Word"
begin

text \<open>
  The messages of the BFT-CoSi protocol (nyle/cosi\_service/packets.go) and
  \<open>BFTSignature.Verify\<close>, the check of a collective signature with exceptions.
  Points form an abelian group; the other operations of the third-party suite are fields of the
  parameter \<open>Suite\<close>, and what the check relies on is the predicate \<open>suite_ok\<close>.
\<close>

type_synonym octets = "8 word list"

subsection \<open>Rounds, exceptions and signatures\<close>

text \<open>\<open>RoundType\<close> is an \<open>int32\<close>: a message may carry a value that is none of the three.\<close>

datatype RoundType = RoundPrepare | RoundCommit | LoopBreak | OtherRound int

record 'p Exception =
  Ex_Index :: int
  Ex_Commitment :: 'p

text \<open>A \<open>nil\<close> slice is \<open>None\<close>.\<close>

record 'p BFTSignature =
  Bs_Sig :: "octets option"
  Bs_Msg :: "octets option"
  Bs_Exceptions :: "'p Exception list"

subsection \<open>Messages\<close>

record Announce =
  An_TYPE :: RoundType
  An_Timeout :: int
  TreeIndex :: int

record AnnounceCommit =
  AC_TYPE :: RoundType
  AC_Timeout :: int

record 'p Commitment =
  Cm_TYPE :: RoundType
  Cm_Commitment :: "'p option"

record 's ChallengePrepare =
  CP_Msg :: octets
  CP_Data :: octets
  CP_Challenge :: 's

record ('p, 's) ChallengeCommit =
  CC_Challenge :: 's
  CC_Signature :: "'p BFTSignature option"

record ('p, 's) Response =
  R_Response :: 's
  R_Exceptions :: "'p Exception list"
  R_TYPE :: RoundType

subsection \<open>The suite\<close>

record ('p, 's) Suite =
  PointLen :: nat
  ScalarLen :: nat
  Mul :: "'s \<Rightarrow> 'p \<Rightarrow> 'p"
  BaseMul :: "'s \<Rightarrow> 'p"
  MarshalPoint :: "'p \<Rightarrow> octets"
  UnmarshalPoint :: "octets \<Rightarrow> 'p result"
  MarshalScalar :: "'s \<Rightarrow> octets"
  SetBytes :: "octets \<Rightarrow> 's"
  Sha512 :: "octets \<Rightarrow> octets"

text \<open>\<open>aggPublic\<close>: the sum of the public keys.\<close>

definition agg_public :: "'p :: ab_group_add list \<Rightarrow> 'p" where
  "agg_public publics = foldl (+) 0 publics"

text \<open>One iteration of the loop over the exceptions, on \<open>aggExCommit\<close> and
  \<open>aggReducedPublic\<close>.\<close>

definition except_step :: "'p :: ab_group_add list \<Rightarrow> 'p Exception \<Rightarrow> 'p \<times> 'p \<Rightarrow> ('p \<times> 'p) result" where
  "except_step publics ex acc =
     res_bind (slice_get publics (Ex_Index ex)) (\<lambda>pub.
       Inr (fst acc + Ex_Commitment ex, snd acc - pub))"

definition recreate_challenge :: "('p, 's) Suite \<Rightarrow> 'p \<Rightarrow> 'p \<Rightarrow> octets \<Rightarrow> 's" where
  "recreate_challenge S commit public msg =
     SetBytes S (Sha512 S (MarshalPoint S commit @ MarshalPoint S public @ msg))"

definition Verify ::
  "('p :: ab_group_add, 's) Suite \<Rightarrow> 'p BFTSignature option \<Rightarrow> 'p list \<Rightarrow> unit result" where
  "Verify S bs publics =
     (case bs of
        None \<Rightarrow> Inl (GoError ''Invalid signature'')
      | Some b \<Rightarrow>
          (case (Bs_Sig b, Bs_Msg b) of
             (Some sig, Some msg) \<Rightarrow>
               (let aggPublic = agg_public publics;
                    sigLen = PointLen S + ScalarLen S
                in res_bind (res_fold (except_step publics) (Bs_Exceptions b) (0, aggPublic))
                     (\<lambda>(aggExCommit, aggReducedPublic).
                       if length sig < sigLen then Inl (GoError ''signature too short'')
                       else res_bind (UnmarshalPoint S (take (PointLen S) sig)) (\<lambda>origCommit.
                         let k = recreate_challenge S origCommit aggPublic msg;
                             ka = Mul S k (- aggReducedPublic);
                             r = SetBytes S (take (ScalarLen S) (drop (PointLen S) sig));
                             left = BaseMul S r + ka;
                             right = origCommit - aggExCommit
                         in if left = right then Inr ()
                            else Inl (GoError ''Commit recreated is not equal to one given''))))
           | _ \<Rightarrow> Inl (GoError ''Invalid signature'')))"

subsection \<open>What the loops compute\<close>

lemma agg_public_sum_list: "agg_public publics = sum_list publics"
proof -
  have "foldl (+) a publics = a + sum_list publics" for a
    by (induction publics arbitrary: a) (simp_all add: add.assoc)
  then show ?thesis by (simp add: agg_public_def)
qed

lemma except_fold:
  assumes "\<forall>ex \<in> set exs. 0 \<le> Ex_Index ex \<and> Ex_Index ex < int (length publics)"
  shows "res_fold (except_step publics) exs (c, a) =
    Inr (c + (\<Sum>ex \<leftarrow> exs. Ex_Commitment ex), a - (\<Sum>ex \<leftarrow> exs. publics ! nat (Ex_Index ex)))"
  using assms
  by (induction exs arbitrary: c a) (simp_all add: except_step_def slice_get_def algebra_simps)

lemma except_fold_range:
  assumes "res_fold (except_step publics) exs acc = Inr acc'" "ex \<in> set exs"
  shows "0 \<le> Ex_Index ex \<and> Ex_Index ex < int (length publics)"
  using assms
proof (induction exs arbitrary: acc)
  case (Cons e exs)
  then show ?case
    by (auto simp: except_step_def slice_get_def res_bind_Inr_iff split: if_splits)
qed simp

subsection \<open>Which signatures are accepted\<close>

text \<open>
  What the check relies on: multiplication is linear, marshalling has the announced lengths and
  can be undone. These are documented properties of the suite.
\<close>

definition suite_ok :: "('p :: ab_group_add, 's :: comm_ring) Suite \<Rightarrow> bool" where
  "suite_ok S \<longleftrightarrow>
     (\<forall>a b. BaseMul S (a + b) = BaseMul S a + BaseMul S b)
     \<and> (\<forall>k x. Mul S k (BaseMul S x) = BaseMul S (k * x))
     \<and> (\<forall>p. length (MarshalPoint S p) = PointLen S \<and> UnmarshalPoint S (MarshalPoint S p) = Inr p)
     \<and> (\<forall>s. length (MarshalScalar S s) = ScalarLen S \<and> SetBytes S (MarshalScalar S s) = s)"

lemma suite_okD:
  assumes "suite_ok S"
  shows "additive (BaseMul S)" "Mul S k (BaseMul S x) = BaseMul S (k * x)"
    "length (MarshalPoint S p) = PointLen S" "UnmarshalPoint S (MarshalPoint S p) = Inr p"
    "length (MarshalScalar S s) = ScalarLen S" "SetBytes S (MarshalScalar S s) = s"
  using assms by (simp_all add: suite_ok_def additive_def)

text \<open>The check of a marshalled signature, with the exceptions inside the roster.\<close>

lemma Verify_marshalled:
  assumes "suite_ok S"
    and "\<forall>ex \<in> set exs. 0 \<le> Ex_Index ex \<and> Ex_Index ex < int (length publics)"
  shows "Verify S (Some \<lparr>Bs_Sig = Some (MarshalPoint S C @ MarshalScalar S r @ cmask), Bs_Msg = Some msg,
      Bs_Exceptions = exs\<rparr>) publics = Inr () \<longleftrightarrow>
    BaseMul S r + Mul S (recreate_challenge S C (agg_public publics) msg)
        (- (agg_public publics - (\<Sum>ex \<leftarrow> exs. publics ! nat (Ex_Index ex))))
      = C - (\<Sum>ex \<leftarrow> exs. Ex_Commitment ex)"
  using suite_okD[OF assms(1)] by (simp add: Verify_def except_fold[OF assms(2)] Let_def)

text \<open>Sums over the roster split into the exceptions and the others.\<close>

lemma sum_split:
  fixes f :: "nat \<Rightarrow> 'a :: ab_group_add"
  assumes "distinct E" "\<forall>i \<in> set E. i < n"
  shows "(\<Sum>i < n. f i) - (\<Sum>i \<leftarrow> E. f i) = (\<Sum>i \<in> {..<n} - set E. f i)"
proof -
  have "(\<Sum>i \<leftarrow> E. f i) = (\<Sum>i \<in> set E. f i)" using assms(1) by (rule sum_list_distinct_conv_sum_set)
  moreover have "set E \<subseteq> {..<n}" using assms(2) by auto
  ultimately show ?thesis by (simp add: sum_diff)
qed

lemma sum_list_nth: "length xs = n \<Longrightarrow> sum_list (map f xs) = (\<Sum>i < n. f (xs ! i))"
  by (simp add: sum_list_sum_nth atLeast0LessThan)

text \<open>The exception of signer \<open>i\<close>: its index and its commitment.\<close>

definition exception_of :: "('p, 's) Suite \<Rightarrow> 's list \<Rightarrow> nat \<Rightarrow> 'p Exception" where
  "exception_of S vs i = \<lparr>Ex_Index = int i, Ex_Commitment = BaseMul S (vs ! i)\<rparr>"

text \<open>The response the signers outside \<open>E\<close> add up to, for the challenge \<open>k\<close>.\<close>

definition honest_response :: "'s :: comm_ring list \<Rightarrow> 's list \<Rightarrow> nat list \<Rightarrow> 's \<Rightarrow> 's" where
  "honest_response xs vs E k = (\<Sum>i \<in> {..<length xs} - set E. vs ! i + k * xs ! i)"

text \<open>C7: A collective signature with exceptions is accepted exactly when its response is the sum of the
  responses of the signers outside the exceptions. Signer \<open>i\<close> has the secret key \<open>xs ! i\<close>
  and the random commitment scalar \<open>vs ! i\<close>, the commitment in the signature is the one of all
  signers, and each exception carries the commitment of its signer; the base point has the order
  of the scalars.\<close>

theorem Verify_accepts_iff:
  fixes S :: "('p :: ab_group_add, 's :: comm_ring) Suite"
  assumes "suite_ok S" "inj (BaseMul S)"
    and "length vs = length xs" "distinct E" "\<forall>i \<in> set E. i < length xs"
    and "C = sum_list (map (BaseMul S) vs)"
    and "k = recreate_challenge S C (agg_public (map (BaseMul S) xs)) msg"
  shows "Verify S (Some \<lparr>Bs_Sig = Some (MarshalPoint S C @ MarshalScalar S r @ cmask), Bs_Msg = Some msg,
      Bs_Exceptions = map (exception_of S vs) E\<rparr>) (map (BaseMul S) xs) = Inr ()
    \<longleftrightarrow> r = honest_response xs vs E k"
proof -
  let ?B = "BaseMul S" and ?n = "length xs" and ?exs = "map (exception_of S vs) E"
  let ?I = "{..<length xs} - set E"
  note B = suite_okD(1)[OF assms(1)]
  have pub: "(\<Sum>ex \<leftarrow> ?exs. map ?B xs ! nat (Ex_Index ex)) = (\<Sum>i \<leftarrow> E. ?B (xs ! i))"
    using assms(5) by (auto simp: exception_of_def comp_def intro!: arg_cong[of _ _ sum_list])
  have red: "agg_public (map ?B xs) - (\<Sum>i \<leftarrow> E. ?B (xs ! i)) = ?B (\<Sum>i \<in> ?I. xs ! i)"
    using sum_split[OF assms(4,5), of "\<lambda>i. ?B (xs ! i)"]
    by (simp add: agg_public_sum_list sum_list_nth[OF refl] additive.sum[OF B])
  have com: "C - (\<Sum>ex \<leftarrow> ?exs. Ex_Commitment ex) = ?B (\<Sum>i \<in> ?I. vs ! i)"
    using sum_split[OF assms(4,5), of "\<lambda>i. ?B (vs ! i)"]
    by (simp add: assms(6) sum_list_nth[OF assms(3)] exception_of_def comp_def additive.sum[OF B])
  have "Verify S (Some \<lparr>Bs_Sig = Some (MarshalPoint S C @ MarshalScalar S r @ cmask), Bs_Msg = Some msg,
      Bs_Exceptions = ?exs\<rparr>) (map ?B xs) = Inr ()
    \<longleftrightarrow> ?B r + Mul S k (- ?B (\<Sum>i \<in> ?I. xs ! i)) = ?B (\<Sum>i \<in> ?I. vs ! i)"
    using Verify_marshalled[OF assms(1), of ?exs "map ?B xs" C r cmask msg] assms(5)
    unfolding pub red com assms(7)[symmetric] by (auto simp: exception_of_def)
  also have "\<dots> \<longleftrightarrow> ?B r + ?B (- (k * (\<Sum>i \<in> ?I. xs ! i))) = ?B (\<Sum>i \<in> ?I. vs ! i)"
    using suite_okD(2)[OF assms(1), of k "- (\<Sum>i \<in> ?I. xs ! i)"]
    by (simp add: additive.minus[OF B] flip: additive.minus[OF B])
  also have "\<dots> \<longleftrightarrow> r = (\<Sum>i \<in> ?I. vs ! i) + k * (\<Sum>i \<in> ?I. xs ! i)"
    using inj_eq[OF assms(2)] by (simp add: diff_eq_eq flip: additive.add[OF B])
  finally show ?thesis by (simp add: honest_response_def sum.distrib sum_distrib_left)
qed

text \<open>A suite on bytes, to evaluate the check on.\<close>

definition byte_suite :: "(8 word, 8 word) Suite" where
  "byte_suite = \<lparr>PointLen = 1, ScalarLen = 1, Mul = (*), BaseMul = (\<lambda>s. s),
     MarshalPoint = (\<lambda>p. [p]), UnmarshalPoint = (\<lambda>bs. Inr (hd bs)), MarshalScalar = (\<lambda>s. [s]),
     SetBytes = (\<lambda>bs. sum_list bs), Sha512 = (\<lambda>bs. bs)\<rparr>"

lemma byte_suite_ok: "suite_ok byte_suite" "inj (BaseMul byte_suite)"
  by (simp_all add: suite_ok_def byte_suite_def)

theorem Verify_accepts_iff_witness:
  "Verify byte_suite (Some \<lparr>Bs_Sig = Some [12, 55], Bs_Msg = Some [2],
     Bs_Exceptions = [\<lparr>Ex_Index = 1, Ex_Commitment = 4\<rparr>]\<rparr>) [3, 5, 7] = Inr ()
   \<longleftrightarrow> (55 :: 8 word) = honest_response [3, 5, 7] [3, 4, 5] [1] 29"
  using Verify_accepts_iff[OF byte_suite_ok, of "[3, 4, 5]" "[3, 5, 7]" "[1]" 12 29 "[2]" 55 "[]"]
  by (simp add: byte_suite_def exception_of_def recreate_challenge_def agg_public_def)

lemma except_fold_bad:
  assumes "ex \<in> set exs" "\<not> (0 \<le> Ex_Index ex \<and> Ex_Index ex < int (length publics))"
  shows "res_fold (except_step publics) exs acc = Inl IndexOutOfRange"
  using assms
  by (induction exs arbitrary: acc) (auto simp: except_step_def slice_get_def split: if_splits)

text \<open>C36: The index of an exception is not checked against the roster: a signature with a message and an
  exception whose index is out of range makes the check panic, whatever else it contains, even
  when it is too short. Exceptions come from the network with the challenge of the commit
  round.\<close>

theorem Verify_panics_on_bad_index:
  assumes "Bs_Sig b \<noteq> None" "Bs_Msg b \<noteq> None" "ex \<in> set (Bs_Exceptions b)"
    and "Ex_Index ex < 0 \<or> int (length publics) \<le> Ex_Index ex"
  shows "Verify S (Some b) publics = Inl IndexOutOfRange"
proof -
  have "res_fold (except_step publics) (Bs_Exceptions b) acc = Inl IndexOutOfRange" for acc
    using assms(4) by (intro except_fold_bad[OF assms(3)]) auto
  with assms(1,2) show ?thesis by (auto simp: Verify_def Let_def)
qed

theorem Verify_panics_on_bad_index_witness:
  "Verify byte_suite (Some \<lparr>Bs_Sig = Some [], Bs_Msg = Some [],
     Bs_Exceptions = [\<lparr>Ex_Index = 3, Ex_Commitment = 0\<rparr>]\<rparr>) [3, 5, 7] = Inl IndexOutOfRange"
  using Verify_panics_on_bad_index[of "\<lparr>Bs_Sig = Some [], Bs_Msg = Some [],
     Bs_Exceptions = [\<lparr>Ex_Index = 3, Ex_Commitment = 0\<rparr>]\<rparr>" "\<lparr>Ex_Index = 3, Ex_Commitment = 0\<rparr>"
     "[3, 5, 7]" byte_suite]
  by simp

end
