(* ===== verification/Bft_Node.thy ===== *)
theory Bft_Node
  imports Bft_Signature Cosi_Trees
begin

text \<open>
  One node of the BFT-CoSi protocol (nyle/cosi\_service/bftcosi.go): its state and its handlers.
  A handler takes what the node knows of its surroundings (\<open>Env\<close>) and its state and gives
  the new state and the messages it sends, or the panic or error it ends with. The CoSi
  library, the suite, protobuf and the verification function are parameters.
\<close>

subsection \<open>Surroundings\<close>

text \<open>The operations of \<open>crypto.CoSi\<close> the protocol calls, on its opaque state \<open>'c\<close>.
  A commitment list may hold \<open>nil\<close>, which a message can carry.\<close>

record ('c, 'p, 's) CoSi =
  Commit :: "'c \<Rightarrow> 'p option list \<Rightarrow> ('c \<times> 'p) result"
  CreateCommitment :: "'c \<Rightarrow> 'c \<times> 'p"
  Challenge :: "'c \<Rightarrow> 's \<Rightarrow> 'c"
  CreateChallenge :: "'c \<Rightarrow> octets \<Rightarrow> ('c \<times> 's) result"
  CreateResponse :: "'c \<Rightarrow> ('c \<times> 's) result"
  CoSi_Response :: "'c \<Rightarrow> 's list \<Rightarrow> ('c \<times> 's) result"
  GetCommitment :: "'c \<Rightarrow> 'p"
  GetResponse :: "'c \<Rightarrow> 's"
  CoSi_Signature :: "'c \<Rightarrow> octets"

record ('c, 'p, 's) Env =
  Own :: TreeNode
  Root :: TreeNode
  Svc :: Trees
  Publics :: "'p list"
  E_Suite :: "('p, 's) Suite"
  E_CoSi :: "('c, 'p, 's) CoSi"
  HashMsg :: "Announce \<Rightarrow> octets"
  VerificationFunction :: "octets \<Rightarrow> octets \<Rightarrow> bool"

definition IsRoot :: "('c, 'p, 's) Env \<Rightarrow> bool" where
  "IsRoot E \<longleftrightarrow> node_id (Own E) = node_id (Root E)"

abbreviation name_of :: "('c, 'p, 's) Env \<Rightarrow> TreeNode \<Rightarrow> string" where
  "name_of E n \<equiv> GetServerIdentityToName (Tree_Nodes (Svc E)) (Identity n)"

subsection \<open>State\<close>

record ('c, 'p, 's) ProtocolBFTCoSi =
  ReceivedMessages :: "(octets, bool) gomap"
  Parent :: "TreeNode option"
  Msg :: octets
  Data :: octets
  Timeout :: int
  signRefusal :: bool
  allowedExceptions :: int
  rosterIndex :: int
  closing :: bool
  prepare :: 'c
  commit :: 'c
  prepareSignature :: octets
  tempExceptions :: "'p Exception list"
  tempPrepareCommit :: "'p option list"
  tempCommitCommit :: "'p option list"
  tempPrepareResponse :: "'s list"
  tempPrepareResponsePublics :: "string list"
  tempCommitResponse :: "'s list"
  nrPrepareCommit :: int
  dynamicChildren :: "TreeNode list"
  dynamicChildrenAux :: "TreeNode list"
  index :: int
  commitChanClosed :: bool
  responseChanClosed :: bool

text \<open>Go's integer division truncates; the operands here are not negative.\<close>

definition allowed_exceptions :: "int \<Rightarrow> int" where
  "allowed_exceptions nodes = nodes - (nodes + 1) * 2 div 3"

definition defaultTimeout :: int where
  "defaultTimeout = 100000000000"

definition NewBFTCoSiProtocol ::
  "('c, 'p, 's) Env \<Rightarrow> nat \<Rightarrow> int \<Rightarrow> int \<Rightarrow> 'c \<Rightarrow> 'c \<Rightarrow> ('c, 'p, 's) ProtocolBFTCoSi" where
  "NewBFTCoSiProtocol E tree nodes idx cosi1 cosi2 =
     \<lparr>ReceivedMessages = [], Parent = None, Msg = [], Data = [], Timeout = defaultTimeout,
      signRefusal = False, allowedExceptions = allowed_exceptions nodes, rosterIndex = idx,
      closing = False, prepare = cosi1, commit = cosi2, prepareSignature = [],
      tempExceptions = [], tempPrepareCommit = [], tempCommitCommit = [],
      tempPrepareResponse = [], tempPrepareResponsePublics = [], tempCommitResponse = [],
      nrPrepareCommit = 0, dynamicChildren = [], dynamicChildrenAux = [],
      index = getIndex (Svc E) tree (name_of E (Root E)),
      commitChanClosed = False, responseChanClosed = False\<rparr>"

subsection \<open>Messages and sends\<close>

datatype ('p, 's) bft_msg =
    MAnnounce Announce
  | MAnnounceCommit AnnounceCommit
  | MCommitment "'p Commitment"
  | MChallengePrepare "'s ChallengePrepare"
  | MChallengeCommit "('p, 's) ChallengeCommit"
  | MResponse "('p, 's) Response"

text \<open>
  What a handler hands over: a message to another node (\<open>DelayedSend\<close> or \<open>SendTo\<close>, where
  a \<open>nil\<close> message is possible), a message the node puts into a channel of its own, or the
  signature passed to the \<open>onSignatureDone\<close> callback.
\<close>

datatype ('p, 's) action =
    Send TreeNode "('p, 's) bft_msg"
  | SendNil TreeNode
  | ToSelf "('p, 's) bft_msg"
  | SignatureDone "'p BFTSignature"

type_synonym ('c, 'p, 's) bft = "('c, 'p, 's) ProtocolBFTCoSi"
type_synonym ('c, 'p, 's) handled = "(('c, 'p, 's) ProtocolBFTCoSi \<times> ('p, 's) action list) result"

text \<open>
  \<open>DelayedSend\<close>: the two names are looked up for the delay, then the message goes to the node
  of the binary tree with the same identity; without such a node the error is only logged.
\<close>

definition DelayedSend ::
  "('c, 'p, 's) Env \<Rightarrow> ('c, 'p, 's) bft \<Rightarrow> TreeNode \<Rightarrow> ('p, 's) bft_msg \<Rightarrow> ('p, 's) action list result" where
  "DelayedSend E s to msg =
     res_bind (GetByName (Tree_Nodes (Svc E)) (name_of E to)) (\<lambda>_.
     res_bind (GetByName (Tree_Nodes (Svc E)) (name_of E (Own E))) (\<lambda>_.
     res_bind (FromGraphNodeToBinaryTreeNode (Svc E) to (index s) (name_of E (Root E))) (\<lambda>t.
       Inr (case t of None \<Rightarrow> [] | Some n \<Rightarrow> [Send n msg]))))"

definition send_all ::
  "('c, 'p, 's) Env \<Rightarrow> ('c, 'p, 's) bft \<Rightarrow> TreeNode list \<Rightarrow> ('p, 's) bft_msg \<Rightarrow> ('p, 's) action list result" where
  "send_all E s tos msg =
     res_fold (\<lambda>to acc. res_bind (DelayedSend E s to msg) (\<lambda>a. Inr (acc @ a))) tos []"

definition DelayedSendToChildren ::
  "('c, 'p, 's) Env \<Rightarrow> ('c, 'p, 's) bft \<Rightarrow> ('p, 's) bft_msg \<Rightarrow> ('p, 's) action list result" where
  "DelayedSendToChildren E s msg = send_all E s (dynamicChildren s) msg"

text \<open>The graph node of the node itself; every use dereferences it.\<close>

definition graph_node :: "('c, 'p, 's) Env \<Rightarrow> ('c, 'p, 's) bft \<Rightarrow> GraphNode result" where
  "graph_node E s =
     res_bind (FromBinaryNodeToGraphNode (Svc E) (Own E) (index s) (name_of E (Root E))) (\<lambda>g.
       case g of None \<Rightarrow> Inl NilDereference | Some n \<Rightarrow> Inr n)"

definition parentFound :: "GraphNode \<Rightarrow> bool" where
  "parentFound g \<longleftrightarrow> (\<exists>n \<in> set (Children g).
     \<exists>p. Graph_Parent g = Some p \<and> node_id n = node_id p)"

definition extra_parent :: "GraphNode \<Rightarrow> TreeNode list" where
  "extra_parent g = (case Graph_Parent g of
     Some p \<Rightarrow> if parentFound g then [] else [p] | None \<Rightarrow> [])"

definition DelayedSendToNeighbors ::
  "('c, 'p, 's) Env \<Rightarrow> ('c, 'p, 's) bft \<Rightarrow> ('p, 's) bft_msg \<Rightarrow> ('p, 's) action list result" where
  "DelayedSendToNeighbors E s msg =
     res_bind (graph_node E s) (\<lambda>g. send_all E s (Children g @ extra_parent g) msg)"

definition is_parent :: "('c, 'p, 's) bft \<Rightarrow> TreeNode \<Rightarrow> bool" where
  "is_parent s n = (case Parent s of None \<Rightarrow> False | Some p \<Rightarrow> node_id n = node_id p)"

definition DelayedSendToNeighborsExcParent ::
  "('c, 'p, 's) Env \<Rightarrow> ('c, 'p, 's) bft \<Rightarrow> ('p, 's) bft_msg \<Rightarrow> ('p, 's) action list result" where
  "DelayedSendToNeighborsExcParent E s msg =
     res_bind (graph_node E s) (\<lambda>g. send_all E s (filter (\<lambda>n. \<not> is_parent s n) (Children g)) msg)"

text \<open>Without a parent the log statement before the send dereferences \<open>nil\<close>.\<close>

definition DelayedSendToParent ::
  "('c, 'p, 's) Env \<Rightarrow> ('c, 'p, 's) bft \<Rightarrow> ('p, 's) bft_msg \<Rightarrow> ('p, 's) action list result" where
  "DelayedSendToParent E s msg =
     (case Parent s of None \<Rightarrow> Inl NilDereference | Some p \<Rightarrow> DelayedSend E s p msg)"

definition sending :: "('c, 'p, 's) bft \<Rightarrow> ('p, 's) action list result \<Rightarrow> ('c, 'p, 's) handled" where
  "sending s r = res_bind r (\<lambda>as. Inr (s, as))"

definition getCosi :: "RoundType \<Rightarrow> ('c, 'p, 's) bft \<Rightarrow> 'c" where
  "getCosi t s = (if t = RoundPrepare then prepare s else commit s)"

definition setCosi :: "RoundType \<Rightarrow> 'c \<Rightarrow> ('c, 'p, 's) bft \<Rightarrow> ('c, 'p, 's) bft" where
  "setCosi t c s = (if t = RoundPrepare then s\<lparr>prepare := c\<rparr> else s\<lparr>commit := c\<rparr>)"

definition isLocalityTreeLeaf :: "('c, 'p, 's) bft \<Rightarrow> bool" where
  "isLocalityTreeLeaf s \<longleftrightarrow> dynamicChildren s = []"

subsection \<open>Announcements\<close>

definition startAnnouncement :: "RoundType \<Rightarrow> ('c, 'p, 's) bft \<Rightarrow> ('p, 's) action list" where
  "startAnnouncement t s =
     (case t of
        RoundPrepare \<Rightarrow> [ToSelf (MAnnounce \<lparr>An_TYPE = t, An_Timeout = Timeout s, TreeIndex = index s\<rparr>)]
      | RoundCommit \<Rightarrow> [ToSelf (MAnnounceCommit \<lparr>AC_TYPE = t, AC_Timeout = Timeout s\<rparr>)]
      | _ \<Rightarrow> [])"

definition Start :: "('c, 'p, 's) bft \<Rightarrow> ('p, 's) action list" where
  "Start s = startAnnouncement RoundPrepare s @ startAnnouncement RoundCommit s"

text \<open>The message has been seen, or the sender becomes the parent.\<close>

definition isLoopAndSet ::
  "('c, 'p, 's) Env \<Rightarrow> TreeNode option \<Rightarrow> Announce \<Rightarrow> ('c, 'p, 's) bft \<Rightarrow> bool \<times> ('c, 'p, 's) bft" where
  "isLoopAndSet E sender ann s =
     (let hashedMsg = HashMsg E ann
      in if has (ReceivedMessages s) hashedMsg then (True, s)
         else (False, s\<lparr>Parent := sender, ReceivedMessages := map_set (ReceivedMessages s) hashedMsg True\<rparr>))"

definition isLeafInRound :: "('c, 'p, 's) Env \<Rightarrow> ('c, 'p, 's) bft \<Rightarrow> bool result" where
  "isLeafInRound E s =
     res_bind (graph_node E s) (\<lambda>g. Inr (length (Children g) = 1 \<and> Parent s \<noteq> None))"

definition hasOneChild :: "('c, 'p, 's) Env \<Rightarrow> ('c, 'p, 's) bft \<Rightarrow> bool result" where
  "hasOneChild E s = res_bind (graph_node E s) (\<lambda>g. Inr (length (Children g) = 1))"

definition loop_break :: "('p, 's) bft_msg" where
  "loop_break = MCommitment \<lparr>Cm_TYPE = LoopBreak, Cm_Commitment = None\<rparr>"

text \<open>Answer to a repeated announcement: a loop break to the sender. A sender that is not in the
  graph, or an internal message, dereferences \<open>nil\<close>.\<close>

definition reply_loop_break ::
  "('c, 'p, 's) Env \<Rightarrow> TreeNode option \<Rightarrow> ('c, 'p, 's) bft \<Rightarrow> ('p, 's) action list result" where
  "reply_loop_break E sender s =
     (case sender of
        None \<Rightarrow> Inl NilDereference
      | Some n \<Rightarrow>
          res_bind (FromBinaryNodeToGraphNode (Svc E) n (index s) (name_of E (Root E))) (\<lambda>g.
            case g of None \<Rightarrow> Inl NilDereference | Some gn \<Rightarrow> DelayedSend E s (Graph_Node gn) loop_break))"

definition readAnnouncement ::
  "('c, 'p, 's) Env \<Rightarrow> TreeNode option \<Rightarrow> Announce \<Rightarrow> ('c, 'p, 's) bft \<Rightarrow> ('c, 'p, 's) handled" where
  "readAnnouncement E sender ann s0 =
     (if closing s0 then Inr (s0, [])
      else let s = s0\<lparr>index := TreeIndex ann\<rparr>
           in if index s = 999 then Inl (GoPanic ''no tree with this index'')
              else case isLoopAndSet E sender ann s of
                     (True, s) \<Rightarrow> sending s (reply_loop_break E sender s)
                   | (False, s) \<Rightarrow>
                       res_bind (isLeafInRound E s) (\<lambda>leaf.
                         if leaf
                         then if commitChanClosed s then Inl (GoPanic ''close of closed channel'')
                              else Inr (s\<lparr>commitChanClosed := True\<rparr>, [])
                         else sending s (DelayedSendToNeighborsExcParent E s (MAnnounce ann))))"

definition startCommitment :: "('c, 'p, 's) Env \<Rightarrow> RoundType \<Rightarrow> ('c, 'p, 's) bft \<Rightarrow> ('c, 'p, 's) handled" where
  "startCommitment E t s =
     (let (c, cm) = CreateCommitment (E_CoSi E) (getCosi t s);
          s1 = setCosi t c s
      in sending s1 (DelayedSendToParent E s1 (MCommitment \<lparr>Cm_TYPE = t, Cm_Commitment = Some cm\<rparr>)))"

definition readAnnouncementCommit ::
  "('c, 'p, 's) Env \<Rightarrow> AnnounceCommit \<Rightarrow> ('c, 'p, 's) bft \<Rightarrow> ('c, 'p, 's) handled" where
  "readAnnouncementCommit E ann s =
     (if closing s then Inr (s, [])
      else if \<not> isLocalityTreeLeaf s then sending s (DelayedSendToChildren E s (MAnnounceCommit ann))
      else startCommitment E RoundCommit s)"

subsection \<open>Commitments\<close>

definition nr_neighbors :: "GraphNode \<Rightarrow> int" where
  "nr_neighbors g = int (length (Children g)) + int (length (extra_parent g))"

text \<open>The counter of replies; a commitment also records its sender as a child.\<close>

definition updateCommitPrepAndCompare ::
  "('c, 'p, 's) Env \<Rightarrow> int \<Rightarrow> (TreeNode \<times> 'p option) option \<Rightarrow> ('c, 'p, 's) bft
    \<Rightarrow> (bool \<times> ('c, 'p, 's) bft) result" where
  "updateCommitPrepAndCompare E correction com s0 =
     (let s1 = s0\<lparr>nrPrepareCommit := nrPrepareCommit s0 + 1\<rparr>;
          s = (case com of
                 None \<Rightarrow> s1
               | Some (n, c) \<Rightarrow> s1\<lparr>tempPrepareCommit := tempPrepareCommit s1 @ [c],
                                 dynamicChildren := dynamicChildren s1 @ [n]\<rparr>)
      in res_bind (graph_node E s) (\<lambda>g.
           Inr (nrPrepareCommit s = nr_neighbors g + correction, s)))"

text \<open>The goroutine that handles one message of \<open>readCommitChan\<close>; the flag is its signal on the
  channel \<open>ready\<close>.\<close>

definition commit_message ::
  "('c, 'p, 's) Env \<Rightarrow> RoundType \<Rightarrow> TreeNode \<Rightarrow> 'p Commitment \<Rightarrow> ('c, 'p, 's) bft
    \<Rightarrow> (bool \<times> ('c, 'p, 's) bft) result" where
  "commit_message E t sender comm s =
     (let correction = (if IsRoot E then 0 else -1)
      in case Cm_TYPE comm of
           LoopBreak \<Rightarrow> updateCommitPrepAndCompare E correction None s
         | RoundPrepare \<Rightarrow> updateCommitPrepAndCompare E correction (Some (sender, Cm_Commitment comm)) s
         | RoundCommit \<Rightarrow>
             (let s1 = s\<lparr>tempCommitCommit := tempCommitCommit s @ [Cm_Commitment comm]\<rparr>
              in Inr (t = RoundCommit \<and> length (tempCommitCommit s1) = length (tempPrepareCommit s1), s1))
         | OtherRound _ \<Rightarrow> Inr (False, s))"

text \<open>
  \<open>readCommitChan\<close> on the messages that arrive, in the order they are handled: the flag
  tells that it has returned, because a goroutine signalled or the channel is closed. Waiting
  longer than the timeout panics; that the wait can go on is the value \<open>False\<close> of the flag.
\<close>

fun readCommitChan ::
  "('c, 'p, 's) Env \<Rightarrow> RoundType \<Rightarrow> (TreeNode \<times> 'p Commitment) list \<Rightarrow> ('c, 'p, 's) bft
    \<Rightarrow> (bool \<times> ('c, 'p, 's) bft) result" where
  "readCommitChan E t [] s =
     (if closing s then Inl (GoError ''Closing'') else Inr (commitChanClosed s, s))"
| "readCommitChan E t ((n, m) # ms) s =
     (if closing s then Inl (GoError ''Closing'')
      else res_bind (commit_message E t n m s) (\<lambda>(ready, s').
        if ready then Inr (True, s') else readCommitChan E t ms s'))"

definition startChallenge :: "('c, 'p, 's) Env \<Rightarrow> RoundType \<Rightarrow> ('c, 'p, 's) bft \<Rightarrow> ('c, 'p, 's) handled" where
  "startChallenge E t s =
     (case t of
        RoundPrepare \<Rightarrow>
          res_bind (CreateChallenge (E_CoSi E) (prepare s) (Sha512 (E_Suite E) (Msg s))) (\<lambda>(c, ch).
            Inr (s\<lparr>prepare := c\<rparr>, [ToSelf (MChallengePrepare
              \<lparr>CP_Msg = Msg s, CP_Data = Data s, CP_Challenge = ch\<rparr>)]))
      | RoundCommit \<Rightarrow>
          res_bind (CreateChallenge (E_CoSi E) (commit s) (Msg s)) (\<lambda>(c, ch).
            Inr (s\<lparr>commit := c\<rparr>, [ToSelf (MChallengeCommit
              \<lparr>CC_Challenge = ch, CC_Signature = Some \<lparr>Bs_Sig = Some (prepareSignature s),
                 Bs_Msg = Some (Msg s), Bs_Exceptions = tempExceptions s\<rparr>\<rparr>)]))
      | _ \<Rightarrow> Inr (s, []))"

text \<open>What \<open>handleCommitmentPrepare\<close> does once \<open>readCommitChan\<close> has returned.\<close>

definition finishCommitmentPrepare :: "('c, 'p, 's) Env \<Rightarrow> ('c, 'p, 's) bft \<Rightarrow> ('c, 'p, 's) handled" where
  "finishCommitmentPrepare E s =
     res_bind (Commit (E_CoSi E) (prepare s) (tempPrepareCommit s)) (\<lambda>(c, commitment).
       let s1 = s\<lparr>prepare := c\<rparr>
       in if IsRoot E then startChallenge E RoundPrepare s1
          else sending s1 (DelayedSendToParent E s1
                 (MCommitment \<lparr>Cm_TYPE = RoundPrepare, Cm_Commitment = Some commitment\<rparr>)))"

text \<open>\<open>None\<close>: still waiting for messages.\<close>

definition handleCommitmentPrepare ::
  "('c, 'p, 's) Env \<Rightarrow> (TreeNode \<times> 'p Commitment) list \<Rightarrow> ('c, 'p, 's) bft
    \<Rightarrow> (('c, 'p, 's) bft \<times> ('p, 's) action list) option result" where
  "handleCommitmentPrepare E ms s =
     res_bind (readCommitChan E RoundPrepare ms s) (\<lambda>(returned, s1).
       if returned then res_bind (finishCommitmentPrepare E s1) (\<lambda>r. Inr (Some r)) else Inr None)"

definition finishCommitmentCommit :: "('c, 'p, 's) Env \<Rightarrow> ('c, 'p, 's) bft \<Rightarrow> ('c, 'p, 's) handled" where
  "finishCommitmentCommit E s =
     res_bind (Commit (E_CoSi E) (commit s) (tempCommitCommit s)) (\<lambda>(c, commitment).
       let s1 = s\<lparr>commit := c\<rparr>
       in if IsRoot E then Inr (s1, [])
          else sending s1 (DelayedSendToParent E s1
                 (MCommitment \<lparr>Cm_TYPE = RoundCommit, Cm_Commitment = Some commitment\<rparr>)))"

text \<open>The error of \<open>readCommitChan\<close> in the commit round is dropped.\<close>

definition handleCommitmentCommit ::
  "('c, 'p, 's) Env \<Rightarrow> (TreeNode \<times> 'p Commitment) list \<Rightarrow> ('c, 'p, 's) bft
    \<Rightarrow> (('c, 'p, 's) bft \<times> ('p, 's) action list) option result" where
  "handleCommitmentCommit E ms s =
     (case readCommitChan E RoundCommit ms s of
        Inl (GoError _) \<Rightarrow> res_bind (finishCommitmentCommit E s) (\<lambda>r. Inr (Some r))
      | Inl e \<Rightarrow> Inl e
      | Inr (returned, s1) \<Rightarrow>
          if returned then res_bind (finishCommitmentCommit E s1) (\<lambda>r. Inr (Some r)) else Inr None)"

subsection \<open>Responses\<close>

text \<open>One message of \<open>readResponseChan\<close>. The panic compares the key of the sender with itself
  and is never taken.\<close>

definition response_message ::
  "RoundType \<Rightarrow> TreeNode \<Rightarrow> ('p, 's) Response \<Rightarrow> ('c, 'p, 's) bft \<Rightarrow> bool \<times> ('c, 'p, 's) bft" where
  "response_message t sender r s =
     (case R_TYPE r of
        RoundPrepare \<Rightarrow>
          (let s1 = s\<lparr>tempPrepareResponse := tempPrepareResponse s @ [R_Response r],
                      dynamicChildrenAux := dynamicChildrenAux s @ [sender],
                      tempPrepareResponsePublics :=
                        tempPrepareResponsePublics s @ [SI_Public (Identity sender)]\<rparr>
           in (t = RoundPrepare \<and> length (tempPrepareResponse s1) = length (tempPrepareCommit s1), s1))
      | RoundCommit \<Rightarrow>
          (let s1 = s\<lparr>tempCommitResponse := tempCommitResponse s @ [R_Response r]\<rparr>
           in (t = RoundCommit \<and> length (tempCommitResponse s1) = length (tempCommitCommit s1), s1))
      | _ \<Rightarrow> (False, s))"

fun readResponseChan ::
  "RoundType \<Rightarrow> (TreeNode \<times> ('p, 's) Response) list \<Rightarrow> ('c, 'p, 's) bft
    \<Rightarrow> (bool \<times> ('c, 'p, 's) bft) result" where
  "readResponseChan t [] s =
     (if closing s then Inl (GoError ''Closing'') else Inr (responseChanClosed s, s))"
| "readResponseChan t ((n, m) # ms) s =
     (if closing s then Inl (GoError ''Closing'')
      else case response_message t n m s of
             (True, s') \<Rightarrow> Inr (True, s')
           | (False, s') \<Rightarrow> readResponseChan t ms s')"

text \<open>
  \<open>waitResponseVerification\<close>: a failed verification and a child that did not respond both
  end in a panic before the exception takes effect; a failing CoSi response gives the
  \<open>nil\<close> response.
\<close>

definition waitResponseVerification ::
  "('c, 'p, 's) Env \<Rightarrow> ('c, 'p, 's) bft \<Rightarrow> (('p, 's) Response option \<times> bool \<times> ('c, 'p, 's) bft) result" where
  "waitResponseVerification E s =
     (let verified = VerificationFunction E (Msg s) (Data s)
      in if isLocalityTreeLeaf s \<and> tempPrepareResponse s \<noteq> []
         then Inl (GoPanic ''bft.tempPrepareResponse is not 0 on leaf node'')
         else case CoSi_Response (E_CoSi E) (prepare s) (tempPrepareResponse s) of
                Inl _ \<Rightarrow> Inr (None, False, s)
              | Inr (c, resp) \<Rightarrow>
                  if \<not> verified then Inl (GoPanic ''Exceptions 2'')
                  else if \<exists>tn \<in> set (dynamicChildren s).
                            SI_Public (Identity tn) \<notin> set (tempPrepareResponsePublics s)
                  then Inl (GoPanic ''Exceptions 1'')
                  else Inr (Some \<lparr>R_Response = resp, R_Exceptions = tempExceptions s,
                                 R_TYPE = RoundPrepare\<rparr>, verified, s\<lparr>prepare := c\<rparr>))"

text \<open>\<open>copy(cosiSig[pointLen:sigLen], buf)\<close>.\<close>

definition copy_response :: "('p, 's) Suite \<Rightarrow> octets \<Rightarrow> octets \<Rightarrow> octets result" where
  "copy_response S cosiSig buf =
     (let pl = PointLen S; sl = PointLen S + ScalarLen S
      in if length cosiSig < sl then Inl IndexOutOfRange
         else let b = take (ScalarLen S) buf
              in Inr (take pl cosiSig @ b @ drop (pl + length b) cosiSig))"

definition finishResponsePrepare ::
  "('c, 'p :: ab_group_add, 's) Env \<Rightarrow> ('c, 'p, 's) bft \<Rightarrow> ('c, 'p, 's) handled" where
  "finishResponsePrepare E s0 =
     res_bind (waitResponseVerification E s0) (\<lambda>(bzrReturn, ok, s).
       if \<not> IsRoot E
       then (case Parent s of
               None \<Rightarrow> Inl NilDereference
             | Some p \<Rightarrow> Inr (s, [case bzrReturn of None \<Rightarrow> SendNil p | Some r \<Rightarrow> Send p (MResponse r)]))
       else case bzrReturn of
              None \<Rightarrow> Inl NilDereference
            | Some r \<Rightarrow>
                res_bind (copy_response (E_Suite E) (CoSi_Signature (E_CoSi E) (prepare s))
                    (MarshalScalar (E_Suite E) (R_Response r))) (\<lambda>cosiSig.
                  let s1 = s\<lparr>prepareSignature := cosiSig\<rparr>;
                      sig = \<lparr>Bs_Sig = Some cosiSig, Bs_Msg = Some (Sha512 (E_Suite E) (Msg s)),
                             Bs_Exceptions = tempExceptions s\<rparr>
                  in res_bind (Verify (E_Suite E) (Some sig) (Publics E)) (\<lambda>_.
                       startChallenge E RoundCommit s1)))"

definition handleResponsePrepare ::
  "('c, 'p :: ab_group_add, 's) Env \<Rightarrow> (TreeNode \<times> ('p, 's) Response) list \<Rightarrow> ('c, 'p, 's) bft
    \<Rightarrow> (('c, 'p, 's) bft \<times> ('p, 's) action list) option result" where
  "handleResponsePrepare E ms s =
     res_bind (readResponseChan RoundPrepare ms s) (\<lambda>(returned, s1).
       if returned then res_bind (finishResponsePrepare E s1) (\<lambda>r. Inr (Some r)) else Inr None)"

text \<open>\<open>Signature\<close>: without refusal only the exceptions of offline nodes, whose commitment is
  the neutral point, are kept.\<close>

definition Signature :: "('c, 'p :: ab_group_add, 's) Env \<Rightarrow> ('c, 'p, 's) bft \<Rightarrow> 'p BFTSignature" where
  "Signature E s =
     (let offline = filter (\<lambda>ex. Ex_Commitment ex = 0) (tempExceptions s)
      in if signRefusal s
         then \<lparr>Bs_Sig = None, Bs_Msg = Some (Msg s), Bs_Exceptions = tempExceptions s\<rparr>
         else \<lparr>Bs_Sig = Some (CoSi_Signature (E_CoSi E) (commit s)), Bs_Msg = Some (Msg s),
               Bs_Exceptions = offline\<rparr>)"

definition commit_response ::
  "('c, 'p, 's :: comm_ring) Env \<Rightarrow> ('c, 'p, 's) bft \<Rightarrow> (('c, 'p, 's) bft \<times> ('p, 's) Response) result" where
  "commit_response E s =
     res_bind (if isLocalityTreeLeaf s then CreateResponse (E_CoSi E) (commit s)
               else CoSi_Response (E_CoSi E) (commit s) (tempCommitResponse s)) (\<lambda>(c, resp).
       let s1 = s\<lparr>commit := c\<rparr>
       in Inr (s1, if signRefusal s1
                   then \<lparr>R_Response = resp - GetResponse (E_CoSi E) c,
                         R_Exceptions = [\<lparr>Ex_Index = rosterIndex s1, Ex_Commitment = GetCommitment (E_CoSi E) c\<rparr>],
                         R_TYPE = RoundCommit\<rparr>
                   else \<lparr>R_Response = resp, R_Exceptions = [], R_TYPE = RoundCommit\<rparr>))"

definition finishResponseCommit ::
  "('c, 'p :: ab_group_add, 's :: comm_ring) Env \<Rightarrow> ('c, 'p, 's) bft \<Rightarrow> ('c, 'p, 's) handled" where
  "finishResponseCommit E s =
     res_bind (commit_response E s) (\<lambda>(s1, r).
       if IsRoot E then Inr (s1, [SignatureDone (Signature E s1)])
       else sending s1 (DelayedSendToParent E s1 (MResponse r)))"

text \<open>The error of \<open>readResponseChan\<close> in the commit round is dropped.\<close>

definition handleResponseCommit ::
  "('c, 'p :: ab_group_add, 's :: comm_ring) Env \<Rightarrow> (TreeNode \<times> ('p, 's) Response) list \<Rightarrow> ('c, 'p, 's) bft
    \<Rightarrow> (('c, 'p, 's) bft \<times> ('p, 's) action list) option result" where
  "handleResponseCommit E ms s =
     (case readResponseChan RoundCommit ms s of
        Inl (GoError _) \<Rightarrow> res_bind (finishResponseCommit E s) (\<lambda>r. Inr (Some r))
      | Inl e \<Rightarrow> Inl e
      | Inr (returned, s1) \<Rightarrow>
          if returned then res_bind (finishResponseCommit E s1) (\<lambda>r. Inr (Some r)) else Inr None)"

definition startResponse ::
  "('c, 'p :: ab_group_add, 's :: comm_ring) Env \<Rightarrow> RoundType \<Rightarrow> ('c, 'p, 's) bft
    \<Rightarrow> (('c, 'p, 's) bft \<times> ('p, 's) action list) option result" where
  "startResponse E t s =
     (if \<not> isLocalityTreeLeaf s then Inl (GoPanic ''Only leaf can call startResponse'')
      else case t of
             RoundPrepare \<Rightarrow> handleResponsePrepare E [] s
           | RoundCommit \<Rightarrow> handleResponseCommit E [] s
           | _ \<Rightarrow> Inr (Some (s, [])))"

subsection \<open>Challenges\<close>

definition handleChallengePrepare ::
  "('c, 'p :: ab_group_add, 's :: comm_ring) Env \<Rightarrow> 's ChallengePrepare \<Rightarrow> ('c, 'p, 's) bft
    \<Rightarrow> (('c, 'p, 's) bft \<times> ('p, 's) action list) option result" where
  "handleChallengePrepare E ch s0 =
     (if closing s0 then Inr (Some (s0, []))
      else let s = (if \<not> IsRoot E
                    then s0\<lparr>Msg := CP_Msg ch, Data := CP_Data ch,
                            prepare := Challenge (E_CoSi E) (prepare s0) (CP_Challenge ch)\<rparr>
                    else s0)
           in if isLocalityTreeLeaf s then startResponse E RoundPrepare s
              else res_bind (sending s (DelayedSendToChildren E s (MChallengePrepare ch))) (\<lambda>r. Inr (Some r)))"

text \<open>The checks of the commit challenge: the prepare signature verifies, and not more than
  \<open>allowedExceptions\<close> nodes refused. A returned error and a threshold both set
  \<open>signRefusal\<close>; a panic of the check stays a panic.\<close>

definition check_commit_challenge ::
  "('c, 'p :: ab_group_add, 's) Env \<Rightarrow> 'p BFTSignature \<Rightarrow> ('c, 'p, 's) bft \<Rightarrow> ('c, 'p, 's) bft result" where
  "check_commit_challenge E sg s =
     (let bad = int (length (Bs_Exceptions sg)) > allowedExceptions s;
          hashed = \<lparr>Bs_Sig = Bs_Sig sg,
                    Bs_Msg = Some (Sha512 (E_Suite E) (case Bs_Msg sg of None \<Rightarrow> [] | Some m \<Rightarrow> m)),
                    Bs_Exceptions = Bs_Exceptions sg\<rparr>
      in case Verify (E_Suite E) (Some hashed) (Publics E) of
           Inl (GoError _) \<Rightarrow> Inr (s\<lparr>signRefusal := True, tempExceptions := Bs_Exceptions sg\<rparr>)
         | Inl e \<Rightarrow> Inl e
         | Inr _ \<Rightarrow> Inr (s\<lparr>signRefusal := signRefusal s \<or> bad, tempExceptions := Bs_Exceptions sg\<rparr>))"

definition handleChallengeCommit ::
  "('c, 'p :: ab_group_add, 's :: comm_ring) Env \<Rightarrow> ('p, 's) ChallengeCommit \<Rightarrow> ('c, 'p, 's) bft
    \<Rightarrow> (('c, 'p, 's) bft \<times> ('p, 's) action list) option result" where
  "handleChallengeCommit E ch s0 =
     (if closing s0 then Inr (Some (s0, []))
      else let s = (if \<not> IsRoot E then s0\<lparr>commit := Challenge (E_CoSi E) (commit s0) (CC_Challenge ch)\<rparr> else s0)
           in case CC_Signature ch of
                None \<Rightarrow> Inl NilDereference
              | Some sg \<Rightarrow>
                  res_bind (check_commit_challenge E sg s) (\<lambda>s1.
                    if isLocalityTreeLeaf s1 then handleResponseCommit E [] s1
                    else res_bind (sending s1 (DelayedSendToChildren E s1 (MChallengeCommit ch)))
                           (\<lambda>r. Inr (Some r))))"

text \<open>Closing down: \<open>Shutdown\<close> sets the flag and closes the channels; a channel that is closed
  already ends it through \<open>recover\<close>.\<close>

definition Shutdown :: "('c, 'p, 's) bft \<Rightarrow> ('c, 'p, 's) bft" where
  "Shutdown s =
     (let s1 = s\<lparr>closing := True\<rparr>
      in if isLocalityTreeLeaf s1 \<or> commitChanClosed s1 then s1
         else s1\<lparr>commitChanClosed := True, responseChanClosed := True\<rparr>)"

end
