(* ===== verification/Echo.thy ===== *)
theory Echo
  imports Go_Prelude
begin

text \<open>
  The abstract protocol behind the prepare round of BFT-CoSi: a flood that builds a spanning tree
  and gathers one contribution of every node along it. Every node that hears of the flood for the
  first time takes the sender as its parent and passes the announcement on to its other
  neighbours; a repeated announcement is answered with a break; a node whose announcements
  have all been answered sends the sum of its own and its children's contributions to its
  parent. The theory proves what the tree and the sum are when the root is finished.
\<close>

subsection \<open>Graphs and states\<close>

record ('n, 'p) ring =
  Rg_nodes :: "'n set"
  Rg_root :: 'n
  Rg_nbr :: "'n \<Rightarrow> 'n list"
  Rg_own :: "'n \<Rightarrow> 'p"

definition graph_ok :: "('n, 'p) ring \<Rightarrow> bool" where
  "graph_ok G \<longleftrightarrow> finite (Rg_nodes G) \<and> Rg_root G \<in> Rg_nodes G
     \<and> (\<forall>v \<in> Rg_nodes G. distinct (Rg_nbr G v) \<and> v \<notin> set (Rg_nbr G v)
          \<and> (\<forall>w \<in> set (Rg_nbr G v). w \<in> Rg_nodes G \<and> v \<in> set (Rg_nbr G w)))"

definition connected_graph :: "('n, 'p) ring \<Rightarrow> bool" where
  "connected_graph G \<longleftrightarrow>
     (\<forall>v \<in> Rg_nodes G. (Rg_root G, v) \<in> {(a, b). b \<in> set (Rg_nbr G a)}\<^sup>*)"

datatype ('n, 'p) emsg = Kick | Ann 'n 'n | Brk 'n 'n | Com 'n 'n 'p

record ('n, 'p) echo =
  ec_inf :: "'n set"
  ec_done :: "'n set"
  ec_parent :: "'n \<Rightarrow> 'n option"
  ec_cnt :: "'n \<Rightarrow> nat"
  ec_dyn :: "'n \<Rightarrow> 'n list"
  ec_val :: "'n \<Rightarrow> 'p list"
  ec_msgs :: "('n, 'p) emsg multiset"

definition targets :: "('n, 'p) ring \<Rightarrow> ('n, 'p) echo \<Rightarrow> 'n \<Rightarrow> 'n list" where
  "targets G s v = filter (\<lambda>w. ec_parent s v \<noteq> Some w) (Rg_nbr G v)"

definition echo_init :: "('n, 'p) ring \<Rightarrow> ('n, 'p) echo \<Rightarrow> bool" where
  "echo_init G s \<longleftrightarrow> s = \<lparr>ec_inf = {}, ec_done = {}, ec_parent = (\<lambda>v. None), ec_cnt = (\<lambda>v. 0),
     ec_dyn = (\<lambda>v. []), ec_val = (\<lambda>v. []), ec_msgs = {#Kick#}\<rparr>"

definition anns :: "'n \<Rightarrow> 'n list \<Rightarrow> ('n, 'p) emsg multiset" where
  "anns v ts = mset (map (Ann v) ts)"

definition inform :: "('n, 'p) ring \<Rightarrow> 'n \<Rightarrow> 'n option \<Rightarrow> ('n, 'p) emsg multiset \<Rightarrow> ('n, 'p) echo \<Rightarrow> ('n, 'p) echo" where
  "inform G v p M s =
     (let s1 = s\<lparr>ec_inf := insert v (ec_inf s), ec_parent := (ec_parent s)(v := p)\<rparr>
      in s1\<lparr>ec_msgs := M + anns v (targets G s1 v)\<rparr>)"

inductive echo_step :: "('n, 'p :: ab_group_add) ring \<Rightarrow> ('n, 'p) echo \<Rightarrow> ('n, 'p) echo \<Rightarrow> bool"
  for G :: "('n, 'p) ring" where
  step_kick: "ec_msgs s = add_mset Kick M \<Longrightarrow> echo_step G s (inform G (Rg_root G) None M s)"
| step_first: "ec_msgs s = add_mset (Ann u v) M \<Longrightarrow> v \<notin> ec_inf s \<Longrightarrow>
    echo_step G s (inform G v (Some u) M s)"
| step_again: "ec_msgs s = add_mset (Ann u v) M \<Longrightarrow> v \<in> ec_inf s \<Longrightarrow>
    echo_step G s (s\<lparr>ec_msgs := add_mset (Brk v u) M\<rparr>)"
| step_brk: "ec_msgs s = add_mset (Brk u v) M \<Longrightarrow> v \<in> ec_inf s \<Longrightarrow> v \<notin> ec_done s \<Longrightarrow>
    echo_step G s (s\<lparr>ec_cnt := (ec_cnt s)(v := Suc (ec_cnt s v)), ec_msgs := M\<rparr>)"
| step_com: "ec_msgs s = add_mset (Com u v x) M \<Longrightarrow> v \<in> ec_inf s \<Longrightarrow> v \<notin> ec_done s \<Longrightarrow>
    echo_step G s (s\<lparr>ec_cnt := (ec_cnt s)(v := Suc (ec_cnt s v)),
      ec_dyn := (ec_dyn s)(v := ec_dyn s v @ [u]), ec_val := (ec_val s)(v := ec_val s v @ [x]),
      ec_msgs := M\<rparr>)"
| step_root: "Rg_root G \<in> ec_inf s \<Longrightarrow> Rg_root G \<notin> ec_done s \<Longrightarrow>
    ec_cnt s (Rg_root G) = length (targets G s (Rg_root G)) \<Longrightarrow>
    echo_step G s (s\<lparr>ec_done := insert (Rg_root G) (ec_done s)\<rparr>)"
| step_done: "v \<in> ec_inf s \<Longrightarrow> v \<notin> ec_done s \<Longrightarrow> v \<noteq> Rg_root G \<Longrightarrow>
    ec_cnt s v = length (targets G s v) \<Longrightarrow> ec_parent s v = Some p \<Longrightarrow>
    echo_step G s (s\<lparr>ec_done := insert v (ec_done s),
      ec_msgs := add_mset (Com v p (Rg_own G v + sum_list (ec_val s v))) (ec_msgs s)\<rparr>)"

subsection \<open>Counting messages\<close>

fun ann_from :: "'n \<Rightarrow> ('n, 'p) emsg \<Rightarrow> bool" where
  "ann_from v (Ann u w) = (u = v)" | "ann_from v _ = False"

fun reply_to :: "'n \<Rightarrow> ('n, 'p) emsg \<Rightarrow> bool" where
  "reply_to v (Brk u w) = (w = v)" | "reply_to v (Com u w x) = (w = v)" | "reply_to v _ = False"

fun com_link :: "'n \<Rightarrow> 'n \<Rightarrow> ('n, 'p) emsg \<Rightarrow> bool" where
  "com_link u v (Com a b x) = (a = u \<and> b = v)" | "com_link u v _ = False"

fun com_val :: "('n, 'p :: ab_group_add) emsg \<Rightarrow> 'p" where
  "com_val (Com a b x) = x" | "com_val _ = 0"

definition open_children :: "('n, 'p) echo \<Rightarrow> 'n \<Rightarrow> 'n set" where
  "open_children s v = {w \<in> ec_inf s - ec_done s. ec_parent s w = Some v}"

text \<open>Messages of a state make sense.\<close>

fun msg_ok :: "('n, 'p) ring \<Rightarrow> ('n, 'p) echo \<Rightarrow> ('n, 'p) emsg \<Rightarrow> bool" where
  "msg_ok G s Kick = (ec_inf s = {})"
| "msg_ok G s (Ann u v) = (u \<in> ec_inf s \<and> v \<in> set (targets G s u))"
| "msg_ok G s (Brk u v) = (v \<in> ec_inf s)"
| "msg_ok G s (Com u v x) = (u \<in> ec_done s \<and> ec_parent s u = Some v)"

subsection \<open>The invariant\<close>

definition inv_tree :: "('n, 'p) ring \<Rightarrow> ('n, 'p) echo \<Rightarrow> bool" where
  "inv_tree G s \<longleftrightarrow> ec_inf s \<subseteq> Rg_nodes G \<and> ec_done s \<subseteq> ec_inf s
     \<and> (\<forall>v. v \<notin> ec_inf s \<longrightarrow> ec_parent s v = None \<and> ec_cnt s v = 0 \<and> ec_dyn s v = [] \<and> ec_val s v = [])
     \<and> (\<forall>v \<in> ec_inf s. if v = Rg_root G then ec_parent s v = None
          else \<exists>p \<in> ec_inf s. ec_parent s v = Some p \<and> p \<in> set (Rg_nbr G v))
     \<and> (\<forall>v \<in> ec_inf s. (Rg_root G, v) \<in> {(a, b). ec_parent s b = Some a}\<^sup>*)
     \<and> (\<forall>m \<in># ec_msgs s. msg_ok G s m) \<and> count (ec_msgs s) Kick = (if ec_inf s = {} then 1 else 0)"

definition inv_count :: "('n, 'p) ring \<Rightarrow> ('n, 'p) echo \<Rightarrow> bool" where
  "inv_count G s \<longleftrightarrow> (\<forall>v \<in> ec_inf s.
     length (targets G s v) = size (filter_mset (ann_from v) (ec_msgs s))
       + size (filter_mset (reply_to v) (ec_msgs s)) + card (open_children s v) + ec_cnt s v
     \<and> (v \<in> ec_done s \<longrightarrow> ec_cnt s v = length (targets G s v)))"

definition inv_deliver :: "('n, 'p) ring \<Rightarrow> ('n, 'p) echo \<Rightarrow> bool" where
  "inv_deliver G s \<longleftrightarrow> (\<forall>v \<in> ec_inf s. \<forall>w \<in> set (targets G s v). w \<in> ec_inf s \<or> Ann v w \<in># ec_msgs s)"

definition inv_dyn :: "('n, 'p) ring \<Rightarrow> ('n, 'p) echo \<Rightarrow> bool" where
  "inv_dyn G s \<longleftrightarrow> (\<forall>u v. count (mset (ec_dyn s v)) u + size (filter_mset (com_link u v) (ec_msgs s))
     = (if u \<in> ec_done s \<and> ec_parent s u = Some v then 1 else 0))"

text \<open>The contributions gathered so far: those of the finished nodes below the root are in a
  message on its way, or with a node that has not passed them on.\<close>

definition inv_sum :: "('n, 'p :: ab_group_add) ring \<Rightarrow> ('n, 'p) echo \<Rightarrow> bool" where
  "inv_sum G s \<longleftrightarrow> (\<Sum>w \<in> ec_done s - {Rg_root G}. Rg_own G w)
     = sum_mset (image_mset com_val (ec_msgs s))
       + (\<Sum>v \<in> ec_inf s - (ec_done s - {Rg_root G}). sum_list (ec_val s v))"

lemma anns_simps [simp]:
  "filter_mset (ann_from x) (anns v ts) = (if x = v then anns v ts else {#})"
  "filter_mset (reply_to x) (anns v ts) = {#}" "filter_mset (com_link x y) (anns v ts) = {#}"
  "sum_mset (image_mset com_val (anns v ts)) = 0" "size (anns v ts) = length ts"
  "set_mset (anns v ts) = Ann v ` set ts"
  by (induction ts) (auto simp: anns_def)

lemma inform_simps [simp]:
  "ec_inf (inform G v p M s) = insert v (ec_inf s)" "ec_done (inform G v p M s) = ec_done s"
  "ec_parent (inform G v p M s) = (ec_parent s)(v := p)" "ec_cnt (inform G v p M s) = ec_cnt s"
  "ec_dyn (inform G v p M s) = ec_dyn s" "ec_val (inform G v p M s) = ec_val s"
  "ec_msgs (inform G v p M s) = M + anns v (filter (\<lambda>w. p \<noteq> Some w) (Rg_nbr G v))"
  by (simp_all add: inform_def Let_def targets_def)

lemma targets_inform [simp]:
  "targets G (inform G v p M s) x = (if x = v then filter (\<lambda>w. p \<noteq> Some w) (Rg_nbr G v) else targets G s x)"
  by (simp add: targets_def)

lemma targets_cong [simp]:
  "targets G (s\<lparr>ec_msgs := M\<rparr>) x = targets G s x" "targets G (s\<lparr>ec_cnt := c\<rparr>) x = targets G s x"
  "targets G (s\<lparr>ec_dyn := d\<rparr>) x = targets G s x" "targets G (s\<lparr>ec_val := vl\<rparr>) x = targets G s x"
  "targets G (s\<lparr>ec_done := dn\<rparr>) x = targets G s x"
  by (simp_all add: targets_def)

subsection \<open>Facts about the tree\<close>

lemma inv_treeD:
  assumes "inv_tree G s"
  shows "v \<in> ec_inf s \<Longrightarrow> v \<in> Rg_nodes G" "v \<in> ec_done s \<Longrightarrow> v \<in> ec_inf s"
    "v \<notin> ec_inf s \<Longrightarrow> ec_parent s v = None" "v \<notin> ec_inf s \<Longrightarrow> ec_cnt s v = 0"
    "v \<notin> ec_inf s \<Longrightarrow> ec_dyn s v = []" "v \<notin> ec_inf s \<Longrightarrow> ec_val s v = []"
    "m \<in># ec_msgs s \<Longrightarrow> msg_ok G s m"
    "v \<in> ec_inf s \<Longrightarrow> (Rg_root G, v) \<in> {(a, b). ec_parent s b = Some a}\<^sup>*"
  using assms by (auto simp: inv_tree_def)

lemma inv_tree_root: "inv_tree G s \<Longrightarrow> ec_parent s (Rg_root G) = None"
  by (cases "Rg_root G \<in> ec_inf s") (auto simp: inv_tree_def)

lemma inv_tree_parent:
  assumes "inv_tree G s" "ec_parent s v = Some p"
  shows "v \<in> ec_inf s" "p \<in> ec_inf s" "p \<in> set (Rg_nbr G v)" "v \<noteq> Rg_root G"
proof -
  show v: "v \<in> ec_inf s" and r: "v \<noteq> Rg_root G"
    using inv_treeD(3)[OF assms(1)] inv_tree_root[OF assms(1)] assms(2) by force+
  then show "p \<in> ec_inf s" "p \<in> set (Rg_nbr G v)"
    using assms by (auto simp: inv_tree_def split: if_splits)
qed

lemma inv_tree_has_parent:
  assumes "inv_tree G s" "v \<in> ec_inf s" "v \<noteq> Rg_root G"
  obtains p where "ec_parent s v = Some p" "p \<in> ec_inf s" "p \<in> set (Rg_nbr G v)"
proof -
  have "if v = Rg_root G then ec_parent s v = None
      else \<exists>p \<in> ec_inf s. ec_parent s v = Some p \<and> p \<in> set (Rg_nbr G v)"
    using assms(1,2) unfolding inv_tree_def by blast
  with assms(3) that show ?thesis by auto
qed

lemma root_informed:
  assumes "inv_tree G s" "v \<in> ec_inf s"
  shows "Rg_root G \<in> ec_inf s"
  using inv_treeD(8)[OF assms]
proof (cases rule: converse_rtranclE)
  case (step y)
  then show ?thesis using inv_tree_parent(2)[OF assms(1), of y "Rg_root G"] by simp
qed (use assms(2) in simp)

text \<open>A message that informs \<open>v\<close>: the start of the root, or the first announcement.\<close>

definition informs :: "('n, 'p) ring \<Rightarrow> ('n, 'p) echo \<Rightarrow> 'n \<Rightarrow> 'n option \<Rightarrow> ('n, 'p) emsg \<Rightarrow> bool" where
  "informs G s v p m \<longleftrightarrow> v \<notin> ec_inf s \<and>
     (m = Kick \<and> p = None \<and> v = Rg_root G \<or> (\<exists>u. m = Ann u v \<and> p = Some u))"

lemma informs_cases:
  assumes "graph_ok G" "inv_tree G s" "informs G s v p m" "m \<in># ec_msgs s"
  shows "v \<in> Rg_nodes G"
    and "p = None \<Longrightarrow> m = Kick \<and> v = Rg_root G \<and> ec_inf s = {}"
    and "p = Some u \<Longrightarrow> m = Ann u v \<and> u \<in> ec_inf s \<and> v \<noteq> Rg_root G \<and> u \<noteq> v \<and> u \<in> set (Rg_nbr G v)"
proof -
  note ok = inv_treeD(7)[OF assms(2,4)]
  have ann: "u \<in> ec_inf s \<and> v \<in> set (Rg_nbr G u) \<and> u \<in> Rg_nodes G" if "m = Ann u v" for u
    using ok that inv_treeD(1)[OF assms(2)] by (auto simp: targets_def)
  show "v \<in> Rg_nodes G"
    using assms(1,3) ann by (auto simp: informs_def graph_ok_def)
  show "p = None \<Longrightarrow> m = Kick \<and> v = Rg_root G \<and> ec_inf s = {}"
    using assms(3) ok by (auto simp: informs_def)
  show "m = Ann u v \<and> u \<in> ec_inf s \<and> v \<noteq> Rg_root G \<and> u \<noteq> v \<and> u \<in> set (Rg_nbr G v)" if "p = Some u"
  proof -
    have m: "m = Ann u v" "v \<notin> ec_inf s" using assms(3) that by (auto simp: informs_def)
    with ann[OF m(1)] root_informed[OF assms(2)] assms(1) show ?thesis by (auto simp: graph_ok_def)
  qed
qed

lemma inform_tree:
  assumes "graph_ok G" "inv_tree G s" "informs G s v p m" "ec_msgs s = add_mset m M"
  shows "inv_tree G (inform G v p M s)"
proof -
  let ?s = "inform G v p M s"
  have v: "v \<notin> ec_inf s" using assms(3) by (simp add: informs_def)
  have m: "m \<in># ec_msgs s" using assms(4) by simp
  note c = informs_cases[OF assms(1-3) m]
  let ?R = "{(a, b). ec_parent s b = Some a}" and ?R' = "{(a, b). ec_parent ?s b = Some a}"
  have "?R \<subseteq> ?R'" using inv_treeD(3)[OF assms(2) v] by auto
  then have mono: "(a, b) \<in> ?R\<^sup>* \<Longrightarrow> (a, b) \<in> ?R'\<^sup>*" for a b using rtrancl_mono by blast
  have "(Rg_root G, v) \<in> ?R'\<^sup>*"
  proof (cases p)
    case (Some u)
    then have "(Rg_root G, u) \<in> ?R'\<^sup>*" using c(3) inv_treeD(8)[OF assms(2)] mono by blast
    moreover have "(u, v) \<in> ?R'" using Some by simp
    ultimately show ?thesis by (rule rtrancl_into_rtrancl)
  qed (use c(2) in simp)
  then have anc: "\<forall>x \<in> insert v (ec_inf s). (Rg_root G, x) \<in> ?R'\<^sup>*"
    using mono inv_treeD(8)[OF assms(2)] by blast
  have kick: "count M Kick = 0"
    using assms(2) assms(4) c by (cases p) (auto simp: inv_tree_def split: if_splits)
  have "msg_ok G ?s x" if "x \<in># M" for x
    using inv_treeD(7)[OF assms(2), of x] that assms(4) v kick inv_treeD(2)[OF assms(2)]
    by (cases x) (auto simp: not_in_iff[symmetric])
  then have msgs: "\<forall>x \<in># ec_msgs ?s. msg_ok G ?s x" by auto
  have "count (ec_msgs ?s) Kick = 0" using kick by (auto simp: count_eq_zero_iff)
  moreover have "\<forall>x \<in> insert v (ec_inf s). if x = Rg_root G then ec_parent ?s x = None
      else \<exists>q \<in> insert v (ec_inf s). ec_parent ?s x = Some q \<and> q \<in> set (Rg_nbr G x)"
    using assms(2) v c(2,3) by (cases p) (auto simp: inv_tree_def split: if_splits)
  ultimately show ?thesis
    using assms(2) c(1) anc msgs inv_treeD[OF assms(2)] unfolding inv_tree_def by auto
qed

text \<open>Nobody has a message for, or from, a node that does not know of the flood.\<close>

lemma uninformed_silent:
  assumes "inv_tree G s" "v \<notin> ec_inf s"
  shows "filter_mset (ann_from v) (ec_msgs s) = {#}" "filter_mset (reply_to v) (ec_msgs s) = {#}"
    "filter_mset (com_link v w) (ec_msgs s) = {#}"
proof -
  have "\<not> ann_from v m \<and> \<not> reply_to v m \<and> \<not> com_link v w m" if "m \<in># ec_msgs s" for m
    using inv_treeD(7)[OF assms(1) that] assms inv_tree_parent(2)[OF assms(1)] inv_treeD(2)[OF assms(1)]
    by (cases m) auto
  then show "filter_mset (ann_from v) (ec_msgs s) = {#}" "filter_mset (reply_to v) (ec_msgs s) = {#}"
    "filter_mset (com_link v w) (ec_msgs s) = {#}"
    by auto
qed

lemma open_children_finite:
  "graph_ok G \<Longrightarrow> inv_tree G s \<Longrightarrow> finite (open_children s v)"
  by (rule finite_subset[of _ "Rg_nodes G"]) (auto simp: open_children_def graph_ok_def inv_treeD)

lemma open_children_inform:
  assumes "graph_ok G" "inv_tree G s" "informs G s v p m" "m \<in># ec_msgs s"
  shows "open_children (inform G v p M s) x
    = (if x = v then {} else if p = Some x then insert v (open_children s x) else open_children s x)"
proof -
  have v: "v \<notin> ec_inf s" "v \<notin> ec_done s"
    using assms(3) inv_treeD(2)[OF assms(2)] by (auto simp: informs_def)
  have "p \<noteq> Some v" using informs_cases(3)[OF assms] by blast
  moreover have "ec_parent s w \<noteq> Some v" for w using inv_tree_parent(2)[OF assms(2)] v(1) by blast
  ultimately show ?thesis using v by (auto simp: open_children_def)
qed

lemma inv_countD:
  assumes "inv_count G s"
  shows "x \<in> ec_inf s \<Longrightarrow> length (targets G s x) = size (filter_mset (ann_from x) (ec_msgs s))
      + size (filter_mset (reply_to x) (ec_msgs s)) + card (open_children s x) + ec_cnt s x"
    and "x \<in> ec_inf s \<Longrightarrow> x \<in> ec_done s \<Longrightarrow> ec_cnt s x = length (targets G s x)"
  using assms unfolding inv_count_def by blast+

lemma inv_countI:
  assumes "\<And>x. x \<in> ec_inf s \<Longrightarrow> length (targets G s x) = size (filter_mset (ann_from x) (ec_msgs s))
      + size (filter_mset (reply_to x) (ec_msgs s)) + card (open_children s x) + ec_cnt s x"
    and "\<And>x. x \<in> ec_inf s \<Longrightarrow> x \<in> ec_done s \<Longrightarrow> ec_cnt s x = length (targets G s x)"
  shows "inv_count G s"
  using assms unfolding inv_count_def by blast

lemma inform_count:
  assumes "graph_ok G" "inv_tree G s" "informs G s v p m" "ec_msgs s = add_mset m M" "inv_count G s"
  shows "inv_count G (inform G v p M s)"
proof -
  let ?s = "inform G v p M s"
  have m: "m \<in># ec_msgs s" using assms(4) by simp
  have v: "v \<notin> ec_inf s" "v \<notin> ec_done s"
    using assms(3) inv_treeD(2)[OF assms(2)] by (auto simp: informs_def)
  note c = informs_cases[OF assms(1-3) m] and oc = open_children_inform[OF assms(1-3) m, of M]
  note silent = uninformed_silent[OF assms(2) v(1)]
  have nf: "\<not> reply_to x m" for x using assms(3) by (auto simp: informs_def)
  have here: "length (targets G ?s v) = size (filter_mset (ann_from v) (ec_msgs ?s))
      + size (filter_mset (reply_to v) (ec_msgs ?s)) + card (open_children ?s v) + ec_cnt ?s v"
    using silent assms(4) inv_treeD(4)[OF assms(2) v(1)] by (simp add: oc split: if_splits)
  have there: "length (targets G ?s x) = size (filter_mset (ann_from x) (ec_msgs ?s))
      + size (filter_mset (reply_to x) (ec_msgs ?s)) + card (open_children ?s x) + ec_cnt ?s x"
    if x: "x \<in> ec_inf s" for x
  proof -
    have old: "length (targets G s x) = size (filter_mset (ann_from x) (add_mset m M))
        + size (filter_mset (reply_to x) M) + card (open_children s x) + ec_cnt s x"
      using inv_countD(1)[OF assms(5) x] nf by (simp add: assms(4))
    have "size (filter_mset (ann_from x) (add_mset m M)) + card (open_children s x)
        = size (filter_mset (ann_from x) M) + card (open_children ?s x)"
    proof (cases p)
      case None
      with c(2) x show ?thesis by simp
    next
      case (Some u)
      have "v \<notin> open_children s x" using v by (simp add: open_children_def)
      moreover have "open_children ?s x = (if u = x then insert v (open_children s x) else open_children s x)"
        using oc[of x] Some x v by auto
      ultimately show ?thesis
        using c(3)[OF Some] open_children_finite[OF assms(1,2), of x] by simp
    qed
    with old x v show ?thesis by auto
  qed
  show ?thesis
  proof (rule inv_countI)
    fix x assume "x \<in> ec_inf ?s"
    then have "x = v \<or> x \<in> ec_inf s" by simp
    then show "length (targets G ?s x) = size (filter_mset (ann_from x) (ec_msgs ?s))
        + size (filter_mset (reply_to x) (ec_msgs ?s)) + card (open_children ?s x) + ec_cnt ?s x"
      using here there by blast
  next
    fix x assume "x \<in> ec_done ?s"
    then have "x \<in> ec_done s" "x \<in> ec_inf s" "x \<noteq> v" using v inv_treeD(2)[OF assms(2)] by auto
    with inv_countD(2)[OF assms(5), of x] show "ec_cnt ?s x = length (targets G ?s x)" by simp
  qed
qed

lemma inform_deliver:
  assumes "graph_ok G" "inv_tree G s" "informs G s v p m" "ec_msgs s = add_mset m M" "inv_deliver G s"
  shows "inv_deliver G (inform G v p M s)"
  using assms(3,4,5) by (auto simp: inv_deliver_def informs_def)

lemma inform_dyn:
  assumes "graph_ok G" "inv_tree G s" "informs G s v p m" "ec_msgs s = add_mset m M" "inv_dyn G s"
  shows "inv_dyn G (inform G v p M s)"
proof -
  have "\<not> com_link u w m" for u w using assms(3) by (auto simp: informs_def)
  moreover have "v \<notin> ec_done s" using assms(3) inv_treeD(2)[OF assms(2)] by (auto simp: informs_def)
  ultimately show ?thesis
    using assms(5) unfolding inv_dyn_def by (simp add: assms(4))
qed

lemma inform_sum:
  assumes "graph_ok G" "inv_tree G s" "informs G s v p m" "ec_msgs s = add_mset m M" "inv_sum G s"
  shows "inv_sum G (inform G v p M s)"
proof -
  have v: "v \<notin> ec_inf s" "v \<notin> ec_done s"
    using assms(3) inv_treeD(2)[OF assms(2)] by (auto simp: informs_def)
  have "com_val m = 0" using assms(3) by (auto simp: informs_def)
  moreover have "finite (ec_inf s)"
    using finite_subset[of "ec_inf s" "Rg_nodes G"] assms(1,2) by (auto simp: graph_ok_def inv_tree_def)
  moreover have "insert v (ec_inf s) - (ec_done s - {Rg_root G})
      = insert v (ec_inf s - (ec_done s - {Rg_root G}))" using v by auto
  ultimately show ?thesis
    using assms(5) v inv_treeD(6)[OF assms(2) v(1)] by (simp add: inv_sum_def assms(4))
qed

subsection \<open>The other steps\<close>

lemma msg_ok_cong [simp]:
  "msg_ok G (s\<lparr>ec_msgs := M\<rparr>) m = msg_ok G s m" "msg_ok G (s\<lparr>ec_cnt := c\<rparr>) m = msg_ok G s m"
  "msg_ok G (s\<lparr>ec_dyn := d\<rparr>) m = msg_ok G s m" "msg_ok G (s\<lparr>ec_val := vl\<rparr>) m = msg_ok G s m"
  by (cases m; simp)+

lemma msg_ok_done: "msg_ok G s m \<Longrightarrow> msg_ok G (s\<lparr>ec_done := insert v (ec_done s)\<rparr>) m"
  by (cases m) auto

lemma open_children_cong [simp]:
  "open_children (s\<lparr>ec_msgs := M\<rparr>) x = open_children s x"
  "open_children (s\<lparr>ec_cnt := c\<rparr>) x = open_children s x"
  "open_children (s\<lparr>ec_dyn := d\<rparr>) x = open_children s x"
  "open_children (s\<lparr>ec_val := vl\<rparr>) x = open_children s x"
  "open_children (s\<lparr>ec_done := insert v (ec_done s)\<rparr>) x = open_children s x - {v}"
  by (auto simp: open_children_def)

lemmas inv_defs = inv_count_def inv_deliver_def inv_dyn_def inv_sum_def

definition all_inv :: "('n, 'p :: ab_group_add) ring \<Rightarrow> ('n, 'p) echo \<Rightarrow> bool" where
  "all_inv G s \<longleftrightarrow> inv_tree G s \<and> inv_count G s \<and> inv_deliver G s \<and> inv_dyn G s \<and> inv_sum G s"

lemma all_invD:
  assumes "all_inv G s"
  shows "inv_tree G s" "inv_count G s" "inv_deliver G s" "inv_dyn G s" "inv_sum G s"
  using assms by (simp_all add: all_inv_def)

lemma again_inv:
  assumes "graph_ok G" "all_inv G s" "ec_msgs s = add_mset (Ann u v) M" "v \<in> ec_inf s"
  shows "all_inv G (s\<lparr>ec_msgs := add_mset (Brk v u) M\<rparr>)"
proof -
  note I = all_invD[OF assms(2)]
  have ok: "\<forall>m \<in># add_mset (Ann u v) M. msg_ok G s m" "ec_inf s \<noteq> {}"
    using I(1) assms(3,4) by (auto simp: inv_tree_def)
  have "inv_tree G (s\<lparr>ec_msgs := add_mset (Brk v u) M\<rparr>)"
    using I(1) ok assms(3) by (auto simp: inv_tree_def)
  moreover have "inv_count G (s\<lparr>ec_msgs := add_mset (Brk v u) M\<rparr>)"
  proof (rule inv_countI, goal_cases)
    case (1 x)
    then show ?case using inv_countD(1)[OF I(2), of x] by (auto simp: assms(3))
  next
    case (2 x)
    then show ?case using inv_countD(2)[OF I(2), of x] by simp
  qed
  moreover have "inv_deliver G (s\<lparr>ec_msgs := add_mset (Brk v u) M\<rparr>)"
    using I(3) assms(4) by (auto simp: inv_deliver_def assms(3))
  moreover have "inv_dyn G (s\<lparr>ec_msgs := add_mset (Brk v u) M\<rparr>)"
    using I(4) by (simp add: inv_dyn_def assms(3))
  moreover have "inv_sum G (s\<lparr>ec_msgs := add_mset (Brk v u) M\<rparr>)"
    using I(5) by (simp add: inv_sum_def assms(3))
  ultimately show ?thesis by (simp add: all_inv_def)
qed

lemma brk_inv:
  assumes "graph_ok G" "all_inv G s" "ec_msgs s = add_mset (Brk u v) M" "v \<in> ec_inf s" "v \<notin> ec_done s"
  shows "all_inv G (s\<lparr>ec_cnt := (ec_cnt s)(v := Suc (ec_cnt s v)), ec_msgs := M\<rparr>)" (is "all_inv G ?s")
proof -
  note I = all_invD[OF assms(2)]
  have "ec_inf s \<noteq> {}" using assms(4) by auto
  then have "inv_tree G ?s" using I(1) assms(3,4) by (auto simp: inv_tree_def)
  moreover have "inv_count G ?s"
  proof (rule inv_countI, goal_cases)
    case (1 x)
    then show ?case using inv_countD(1)[OF I(2), of x] by (auto simp: assms(3))
  next
    case (2 x)
    then show ?case using inv_countD(2)[OF I(2), of x] assms(5) by auto
  qed
  moreover have "inv_deliver G ?s" using I(3) by (auto simp: inv_deliver_def assms(3))
  moreover have "inv_dyn G ?s" using I(4) by (simp add: inv_dyn_def assms(3))
  moreover have "inv_sum G ?s" using I(5) by (simp add: inv_sum_def assms(3))
  ultimately show ?thesis by (simp add: all_inv_def)
qed

lemma com_inv:
  assumes "graph_ok G" "all_inv G s" "ec_msgs s = add_mset (Com u v x) M" "v \<in> ec_inf s" "v \<notin> ec_done s"
  shows "all_inv G (s\<lparr>ec_cnt := (ec_cnt s)(v := Suc (ec_cnt s v)),
      ec_dyn := (ec_dyn s)(v := ec_dyn s v @ [u]), ec_val := (ec_val s)(v := ec_val s v @ [x]),
      ec_msgs := M\<rparr>)" (is "all_inv G ?s")
proof -
  note I = all_invD[OF assms(2)]
  have "ec_inf s \<noteq> {}" using assms(4) by auto
  then have "inv_tree G ?s" using I(1) assms(3,4) by (auto simp: inv_tree_def)
  moreover have "inv_count G ?s"
  proof (rule inv_countI, goal_cases)
    case (1 x)
    then show ?case using inv_countD(1)[OF I(2), of x] by (auto simp: assms(3))
  next
    case (2 x)
    then show ?case using inv_countD(2)[OF I(2), of x] assms(5) by auto
  qed
  moreover have "inv_deliver G ?s" using I(3) by (auto simp: inv_deliver_def assms(3))
  moreover have "inv_dyn G ?s"
    unfolding inv_dyn_def
  proof (intro allI)
    fix a b
    have "count (mset (ec_dyn ?s b)) a + size (filter_mset (com_link a b) (ec_msgs ?s))
        = count (mset (ec_dyn s b)) a + size (filter_mset (com_link a b) (ec_msgs s))"
      by (auto simp: assms(3))
    also have "\<dots> = (if a \<in> ec_done ?s \<and> ec_parent ?s a = Some b then 1 else 0)"
      using I(4) by (simp add: inv_dyn_def)
    finally show "count (mset (ec_dyn ?s b)) a + size (filter_mset (com_link a b) (ec_msgs ?s))
        = (if a \<in> ec_done ?s \<and> ec_parent ?s a = Some b then 1 else 0)" .
  qed
  moreover have "inv_sum G ?s"
  proof -
    let ?A = "ec_inf s - (ec_done s - {Rg_root G})"
    have v: "v \<in> ?A" "finite ?A"
      using assms(1,4,5) I(1) finite_subset[of "ec_inf s" "Rg_nodes G"] by (auto simp: graph_ok_def inv_tree_def)
    then have "(\<Sum>w \<in> ?A. sum_list (((ec_val s)(v := ec_val s v @ [x])) w)) = x + (\<Sum>w \<in> ?A. sum_list (ec_val s w))"
      by (simp add: sum.remove[of ?A v] algebra_simps)
    then show ?thesis using I(5) by (simp add: inv_sum_def assms(3) algebra_simps)
  qed
  ultimately show ?thesis by (simp add: all_inv_def)
qed

lemma root_inv:
  assumes "graph_ok G" "all_inv G s" "Rg_root G \<in> ec_inf s"
    and "ec_cnt s (Rg_root G) = length (targets G s (Rg_root G))"
  shows "all_inv G (s\<lparr>ec_done := insert (Rg_root G) (ec_done s)\<rparr>)" (is "all_inv G ?s")
proof -
  note I = all_invD[OF assms(2)] and r = inv_tree_root[OF all_invD(1)[OF assms(2)]]
  have "inv_tree G ?s"
    using I(1) assms(3) msg_ok_done[of G s _ "Rg_root G"] by (auto simp: inv_tree_def)
  moreover have "inv_count G ?s"
  proof (rule inv_countI, goal_cases)
    case (1 x)
    have "open_children s x - {Rg_root G} = open_children s x" using r by (auto simp: open_children_def)
    with 1 show ?case using inv_countD(1)[OF I(2), of x] by simp
  next
    case (2 x)
    then show ?case using inv_countD(2)[OF I(2), of x] assms(4) by auto
  qed
  moreover have "inv_deliver G ?s" using I(3) by (auto simp: inv_deliver_def)
  moreover have "inv_dyn G ?s" using I(4) r unfolding inv_dyn_def by auto
  moreover have "inv_sum G ?s"
  proof -
    have "insert (Rg_root G) (ec_done s) - {Rg_root G} = ec_done s - {Rg_root G}" by auto
    then show ?thesis using I(5) by (simp add: inv_sum_def)
  qed
  ultimately show ?thesis by (simp add: all_inv_def)
qed

lemma done_sum:
  assumes "graph_ok G" "all_inv G s" "v \<in> ec_inf s" "v \<notin> ec_done s" "v \<noteq> Rg_root G"
  shows "inv_sum G (s\<lparr>ec_done := insert v (ec_done s),
      ec_msgs := add_mset (Com v p (Rg_own G v + sum_list (ec_val s v))) (ec_msgs s)\<rparr>)"
proof -
  note I = all_invD[OF assms(2)]
  let ?D = "ec_done s - {Rg_root G}" and ?A = "ec_inf s - (ec_done s - {Rg_root G})"
  have fin: "finite (ec_inf s)"
    using finite_subset[of "ec_inf s" "Rg_nodes G"] assms(1) I(1) by (auto simp: graph_ok_def inv_tree_def)
  then have finD: "finite ?D" "finite ?A"
    using finite_subset[of "ec_done s" "ec_inf s"] I(1) by (auto simp: inv_tree_def)
  have sets: "insert v (ec_done s) - {Rg_root G} = insert v ?D"
    "ec_inf s - insert v ?D = ?A - {v}" using assms(3-5) by auto
  have "(\<Sum>w \<in> insert v ?D. Rg_own G w) = Rg_own G v + (\<Sum>w \<in> ?D. Rg_own G w)"
    using finD assms(4) by simp
  moreover have "(\<Sum>w \<in> ?A. sum_list (ec_val s w)) = sum_list (ec_val s v) + (\<Sum>w \<in> ?A - {v}. sum_list (ec_val s w))"
    using finD assms(3,4) by (intro sum.remove) auto
  ultimately show ?thesis using I(5) by (simp add: inv_sum_def sets algebra_simps)
qed

lemma done_inv:
  assumes "graph_ok G" "all_inv G s" "v \<in> ec_inf s" "v \<notin> ec_done s" "v \<noteq> Rg_root G"
    and "ec_cnt s v = length (targets G s v)" "ec_parent s v = Some p"
  shows "all_inv G (s\<lparr>ec_done := insert v (ec_done s),
      ec_msgs := add_mset (Com v p (Rg_own G v + sum_list (ec_val s v))) (ec_msgs s)\<rparr>)" (is "all_inv G ?s")
proof -
  note I = all_invD[OF assms(2)]
  have "msg_ok G ?s m" if "m \<in># ec_msgs s" for m
    using msg_ok_done[of G s m v] inv_treeD(7)[OF I(1) that] by (cases m) (auto simp: targets_def)
  then have "inv_tree G ?s" using I(1) assms(3,7) by (auto simp: inv_tree_def)
  moreover have "inv_count G ?s"
  proof (rule inv_countI, goal_cases)
    case (1 x)
    have fin: "finite (open_children s x)" by (rule open_children_finite[OF assms(1) I(1)])
    have "v \<in> open_children s x \<longleftrightarrow> x = p" using assms(3,4,7) by (auto simp: open_children_def)
    then have "card (open_children s x - {v}) + (if x = p then 1 else 0) = card (open_children s x)"
      using fin by (auto simp: card_gt_0_iff intro!: Suc_pred)
    with 1 show ?case using inv_countD(1)[OF I(2), of x] by (auto split: if_splits)
  next
    case (2 x)
    then show ?case using inv_countD(2)[OF I(2), of x] assms(6) by auto
  qed
  moreover have "inv_deliver G ?s" using I(3) by (auto simp: inv_deliver_def)
  moreover have "inv_dyn G ?s"
    unfolding inv_dyn_def
  proof (intro allI)
    fix a b
    have "count (mset (ec_dyn s b)) a + size (filter_mset (com_link a b) (ec_msgs s))
        = (if a \<in> ec_done s \<and> ec_parent s a = Some b then 1 else 0)"
      using I(4) unfolding inv_dyn_def by blast
    then show "count (mset (ec_dyn ?s b)) a + size (filter_mset (com_link a b) (ec_msgs ?s))
        = (if a \<in> ec_done ?s \<and> ec_parent ?s a = Some b then 1 else 0)"
      using assms(4,7) by (cases "a = v") (auto simp del: filter_mset_eq_mempty_iff)
  qed
  moreover have "inv_sum G ?s" by (rule done_sum[OF assms(1-5)])
  ultimately show ?thesis by (simp add: all_inv_def)
qed

lemma inform_inv:
  assumes "graph_ok G" "all_inv G s" "informs G s v p m" "ec_msgs s = add_mset m M"
  shows "all_inv G (inform G v p M s)"
  using assms inform_tree[of G s v p m M] inform_count[of G s v p m M] inform_deliver[of G s v p m M]
    inform_dyn[of G s v p m M] inform_sum[of G s v p m M]
  by (simp add: all_inv_def)

lemma echo_step_inv:
  assumes "echo_step G s t" "graph_ok G" "all_inv G s"
  shows "all_inv G t"
  using assms(1)
proof cases
  case (step_kick M)
  have "msg_ok G s Kick" using assms(3) step_kick by (auto simp: all_inv_def inv_tree_def)
  then have "informs G s (Rg_root G) None Kick" by (simp add: informs_def)
  with step_kick assms show ?thesis by (auto intro: inform_inv)
next
  case (step_first u v M)
  then have "informs G s v (Some u) (Ann u v)" by (simp add: informs_def)
  with step_first assms show ?thesis by (auto intro: inform_inv)
qed (use assms in \<open>auto intro: again_inv brk_inv com_inv root_inv done_inv\<close>)

lemma echo_init_inv: "echo_init G s \<Longrightarrow> all_inv G s"
  by (auto simp: echo_init_def all_inv_def inv_tree_def inv_defs open_children_def)

interpretation echo: invariant_system "echo_init G" "echo_step G" "\<lambda>s. graph_ok G \<longrightarrow> all_inv G s" for G
  by unfold_locales (auto intro: echo_init_inv echo_step_inv)

subsection \<open>The end of the flood\<close>

text \<open>A finished node has no open business: no announcement of it is on its way, no reply to it
  either, and its children are finished.\<close>

lemma done_quiet:
  assumes "graph_ok G" "all_inv G s" "v \<in> ec_done s"
  shows "open_children s v = {}" "filter_mset (ann_from v) (ec_msgs s) = {#}"
    "filter_mset (reply_to v) (ec_msgs s) = {#}"
proof -
  note I = all_invD[OF assms(2)]
  have v: "v \<in> ec_inf s" using inv_treeD(2)[OF I(1) assms(3)] .
  have "size (filter_mset (ann_from v) (ec_msgs s)) + size (filter_mset (reply_to v) (ec_msgs s))
      + card (open_children s v) = 0"
    using inv_countD(1)[OF I(2) v] inv_countD(2)[OF I(2) v assms(3)] by linarith
  then have z: "size (filter_mset (ann_from v) (ec_msgs s)) = 0"
    "size (filter_mset (reply_to v) (ec_msgs s)) = 0" "card (open_children s v) = 0" by simp_all
  then show "filter_mset (ann_from v) (ec_msgs s) = {#}" "filter_mset (reply_to v) (ec_msgs s) = {#}"
    unfolding size_eq_0_iff_empty by blast+
  show "open_children s v = {}"
    using z(3) open_children_finite[OF assms(1) I(1), of v] by simp
qed

lemma root_done_all_done:
  assumes "graph_ok G" "all_inv G s" "Rg_root G \<in> ec_done s" "v \<in> ec_inf s"
  shows "v \<in> ec_done s"
  using inv_treeD(8)[OF all_invD(1)[OF assms(2)] assms(4)] assms(4)
proof (induction rule: rtrancl_induct)
  case (step y z)
  have "y \<in> ec_inf s" using inv_tree_parent(2)[OF all_invD(1)[OF assms(2)], of z y] step by simp
  then have "open_children s y = {}" using done_quiet(1)[OF assms(1,2)] step.IH by blast
  with step show ?case by (auto simp: open_children_def)
qed (use assms in simp)

lemma root_done_all_informed:
  assumes "graph_ok G" "connected_graph G" "all_inv G s" "Rg_root G \<in> ec_done s"
  shows "ec_inf s = Rg_nodes G"
proof -
  note I = all_invD[OF assms(3)]
  have "v \<in> ec_inf s" if "(Rg_root G, v) \<in> {(a, b). b \<in> set (Rg_nbr G a)}\<^sup>*" for v
    using that
  proof (induction rule: rtrancl_induct)
    case (step y z)
    have y: "y \<in> ec_done s" using root_done_all_done[OF assms(1,3,4) step.IH] .
    show ?case
    proof (cases "ec_parent s y = Some z")
      case False
      then have "z \<in> set (targets G s y)" using step.hyps(2) by (simp add: targets_def)
      then have "z \<in> ec_inf s \<or> Ann y z \<in># ec_msgs s"
        using I(3) step.IH by (simp add: inv_deliver_def)
      moreover have "\<not> ann_from y m" if "m \<in># ec_msgs s" for m
        using done_quiet(2)[OF assms(1,3) y] that by simp
      ultimately show ?thesis by fastforce
    qed (use inv_tree_parent(2)[OF I(1)] in blast)
  qed (use inv_treeD(2)[OF I(1)] assms(4) in simp)
  then show ?thesis using assms(2) I(1) by (auto simp: connected_graph_def inv_tree_def)
qed

lemma root_done_no_messages:
  assumes "graph_ok G" "connected_graph G" "all_inv G s" "Rg_root G \<in> ec_done s"
  shows "ec_msgs s = {#}"
proof -
  note I = all_invD[OF assms(3)] and inf = root_done_all_informed[OF assms]
  have "\<not> m \<in># ec_msgs s" for m
  proof
    assume m: "m \<in># ec_msgs s"
    have quiet: "\<not> ann_from v m \<and> \<not> reply_to v m" if "v \<in> ec_inf s" for v
      using done_quiet(2,3)[OF assms(1,3) root_done_all_done[OF assms(1,3,4) that]] m by simp
    from inv_treeD(7)[OF I(1) m] quiet show False
      using inv_treeD(2)[OF I(1)] assms(4) inv_tree_parent(2)[OF I(1)]
      by (cases m) (auto simp: dest: spec)
  qed
  then show ?thesis by (meson multiset_nonemptyE)
qed

lemma root_done_tree:
  assumes "graph_ok G" "connected_graph G" "all_inv G s" "Rg_root G \<in> ec_done s" "v \<in> Rg_nodes G"
  shows "v \<in> ec_done s" "distinct (ec_dyn s v)" "set (ec_dyn s v) = {w \<in> Rg_nodes G. ec_parent s w = Some v}"
    "(Rg_root G, v) \<in> {(a, b). ec_parent s b = Some a}\<^sup>*"
    "v \<noteq> Rg_root G \<Longrightarrow> \<exists>p. ec_parent s v = Some p \<and> p \<in> set (Rg_nbr G v)"
proof -
  note I = all_invD[OF assms(3)] and inf = root_done_all_informed[OF assms(1-4)]
  have dn: "w \<in> ec_done s" if "w \<in> Rg_nodes G" for w
    using root_done_all_done[OF assms(1,3,4)] that inf by simp
  then show "v \<in> ec_done s" using assms(5) by blast
  have c: "count (mset (ec_dyn s v)) u = (if u \<in> ec_done s \<and> ec_parent s u = Some v then 1 else 0)" for u
    using I(4) root_done_no_messages[OF assms(1-4)] by (simp add: inv_dyn_def)
  have mem: "u \<in> set (ec_dyn s v) \<longleftrightarrow> u \<in> ec_done s \<and> ec_parent s u = Some v" for u
    using c[of u] by (metis count_eq_zero_iff set_mset_mset zero_neq_one)
  show "distinct (ec_dyn s v)" unfolding distinct_count_atmost_1 mem by (simp add: c)
  show "set (ec_dyn s v) = {w \<in> Rg_nodes G. ec_parent s w = Some v}"
    using mem dn inv_treeD(1,2)[OF I(1)] by blast
  show "(Rg_root G, v) \<in> {(a, b). ec_parent s b = Some a}\<^sup>*"
    using inv_treeD(8)[OF I(1)] inf assms(5) by blast
  show "v \<noteq> Rg_root G \<Longrightarrow> \<exists>p. ec_parent s v = Some p \<and> p \<in> set (Rg_nbr G v)"
    using inv_tree_has_parent[OF I(1)] inf assms(5) by blast
qed

lemma root_done_sum:
  assumes "graph_ok G" "connected_graph G" "all_inv G s" "Rg_root G \<in> ec_done s"
  shows "sum_list (ec_val s (Rg_root G)) = (\<Sum>w \<in> Rg_nodes G - {Rg_root G}. Rg_own G w)"
proof -
  have V: "ec_inf s = Rg_nodes G" "ec_done s = Rg_nodes G"
    using root_done_all_informed[OF assms] root_done_all_done[OF assms(1,3,4)]
      all_invD(1)[OF assms(3)] by (auto simp: inv_tree_def)
  have "Rg_nodes G - (Rg_nodes G - {Rg_root G}) = {Rg_root G}" using assms(1) by (auto simp: graph_ok_def)
  then show ?thesis
    using all_invD(5)[OF assms(3)] root_done_no_messages[OF assms] by (simp add: inv_sum_def V)
qed

subsection \<open>The flood ends\<close>

fun weight :: "('n, 'p) emsg \<Rightarrow> nat" where
  "weight (Ann u v) = 2" | "weight _ = 1"

definition msg_weight :: "('n, 'p) emsg multiset \<Rightarrow> nat" where
  "msg_weight M = sum_mset (image_mset weight M)"

text \<open>Every announcement costs two steps, every node that is not informed may still send its
  announcements, and every node finishes once.\<close>

definition echo_measure :: "('n, 'p) ring \<Rightarrow> ('n, 'p) echo \<Rightarrow> nat" where
  "echo_measure G s = msg_weight (ec_msgs s) + (\<Sum>v \<in> Rg_nodes G - ec_inf s. 2 * length (Rg_nbr G v))
     + 2 * card (Rg_nodes G - ec_done s)"

lemma msg_weight_simps [simp]:
  "msg_weight {#} = 0" "msg_weight (add_mset m M) = weight m + msg_weight M"
  "msg_weight (M + N) = msg_weight M + msg_weight N" "msg_weight (anns v ts) = 2 * length ts"
proof -
  show "msg_weight {#} = 0" "msg_weight (add_mset m M) = weight m + msg_weight M"
    "msg_weight (M + N) = msg_weight M + msg_weight N"
    by (simp_all add: msg_weight_def)
  show "msg_weight (anns v ts) = 2 * length ts" by (induction ts) (simp_all add: msg_weight_def anns_def)
qed

lemma weight_pos: "1 \<le> weight m"
  by (cases m) simp_all

lemma inform_measure:
  assumes "graph_ok G" "all_inv G s" "informs G s v p m" "ec_msgs s = add_mset m M"
  shows "echo_measure G (inform G v p M s) < echo_measure G s"
proof -
  have m: "m \<in># ec_msgs s" using assms(4) by simp
  have v: "v \<in> Rg_nodes G - ec_inf s"
    using informs_cases(1)[OF assms(1) all_invD(1)[OF assms(2)] assms(3) m] assms(3) by (simp add: informs_def)
  have fin: "finite (Rg_nodes G - ec_inf s)" using assms(1) by (simp add: graph_ok_def)
  have "(\<Sum>w \<in> Rg_nodes G - ec_inf s. 2 * length (Rg_nbr G w))
      = 2 * length (Rg_nbr G v) + (\<Sum>w \<in> Rg_nodes G - ec_inf s - {v}. 2 * length (Rg_nbr G w))"
    using fin v by (rule sum.remove)
  moreover have "Rg_nodes G - insert v (ec_inf s) = Rg_nodes G - ec_inf s - {v}" by auto
  moreover have "length (filter (\<lambda>w. p \<noteq> Some w) (Rg_nbr G v)) \<le> length (Rg_nbr G v)"
    by (rule length_filter_le)
  ultimately show ?thesis
    using assms(4) weight_pos[of m] by (simp add: echo_measure_def del: length_filter_le)
qed

lemma echo_step_measure:
  assumes "echo_step G s t" "graph_ok G" "all_inv G s"
  shows "echo_measure G t < echo_measure G s"
proof -
  have fin: "finite (Rg_nodes G)" using assms(2) by (simp add: graph_ok_def)
  have more: "card (Rg_nodes G - insert v (ec_done s)) < card (Rg_nodes G - ec_done s)"
    if "v \<in> ec_inf s" "v \<notin> ec_done s" for v
    using fin that inv_treeD(1)[OF all_invD(1)[OF assms(3)]] by (intro psubset_card_mono) auto
  from assms(1) show ?thesis
  proof cases
    case (step_kick M)
    have "msg_ok G s Kick" using assms(3) step_kick by (auto simp: all_inv_def inv_tree_def)
    then have "informs G s (Rg_root G) None Kick" by (simp add: informs_def)
    with step_kick assms show ?thesis by (auto intro: inform_measure)
  next
    case (step_first u v M)
    then have "informs G s v (Some u) (Ann u v)" by (simp add: informs_def)
    with step_first assms show ?thesis by (auto intro: inform_measure)
  next
    case step_root
    with more[of "Rg_root G"] show ?thesis by (simp add: echo_measure_def)
  next
    case (step_done v p)
    with more[of v] show ?thesis by (simp add: echo_measure_def)
  qed (simp_all add: echo_measure_def)
qed

text \<open>Among the unfinished nodes there is one whose children are all finished.\<close>

lemma deepest_open:
  assumes "graph_ok G" "all_inv G s" "Rg_root G \<in> ec_inf s" "Rg_root G \<notin> ec_done s"
  obtains v where "v \<in> ec_inf s" "v \<notin> ec_done s" "open_children s v = {}"
proof (rule ccontr)
  assume "\<not> thesis"
  with that have "\<And>v. v \<in> ec_inf s \<Longrightarrow> v \<notin> ec_done s \<Longrightarrow> open_children s v \<noteq> {}" by blast
  then have child: "\<exists>w. w \<in> open_children s v" if "v \<in> ec_inf s - ec_done s" for v using that by blast
  define f where "f = (\<lambda>n. ((\<lambda>v. SOME w. w \<in> open_children s v) ^^ n) (Rg_root G))"
  have f: "f n \<in> ec_inf s - ec_done s" for n
  proof (induction n)
    case (Suc n)
    then have "f (Suc n) \<in> open_children s (f n)" using someI_ex[OF child[OF Suc]] by (simp add: f_def)
    then show ?case by (simp add: open_children_def)
  qed (use assms in \<open>simp add: f_def\<close>)
  have par: "ec_parent s (f (Suc n)) = Some (f n)" for n
    using someI_ex[OF child[OF f[of n]]] by (simp add: f_def open_children_def)
  have "f i \<noteq> f (i + Suc k)" for i k
  proof (induction i)
    case 0
    have "ec_parent s (f 0) = None" using inv_tree_root[OF all_invD(1)[OF assms(2)]] by (simp add: f_def)
    then show ?case using par[of k] by auto
  next
    case (Suc i)
    then show ?case using par[of i] par[of "i + Suc k"] by auto
  qed
  then have "inj f" by (metis injI less_iff_Suc_add linorder_neqE_nat add_Suc_right)
  moreover have "range f \<subseteq> Rg_nodes G" using f inv_treeD(1)[OF all_invD(1)[OF assms(2)]] by blast
  ultimately show False
    using assms(1) by (metis finite_imageD finite_subset graph_ok_def infinite_UNIV_nat)
qed

lemma quiet_full:
  assumes "graph_ok G" "all_inv G s" "ec_msgs s = {#}" "Rg_root G \<notin> ec_done s"
  obtains v where "v \<in> ec_inf s" "v \<notin> ec_done s" "ec_cnt s v = length (targets G s v)"
proof -
  note I = all_invD[OF assms(2)]
  have "ec_inf s \<noteq> {}" using I(1) assms(3) by (auto simp: inv_tree_def)
  then have "Rg_root G \<in> ec_inf s" using root_informed[OF I(1)] by blast
  then obtain v where "v \<in> ec_inf s" "v \<notin> ec_done s" "open_children s v = {}"
    using deepest_open[OF assms(1,2) _ assms(4)] by blast
  with inv_countD(1)[OF I(2), of v] assms(3) that show ?thesis by simp
qed

end
