(* ===== verification/Bft_Prepare.thy ===== *)
theory Bft_Prepare
  imports Bft_Node Echo Locality_Graph
begin

text \<open>
  The prepare round of BFT-CoSi on a whole ring: the network of nodes running
  \<open>handleAnnouncement\<close> and \<open>handleCommitmentPrepare\<close>, with messages delivered in any
  order, and the proof that it implements the flood of theory \<open>Echo\<close>.
\<close>

subsection \<open>The network\<close>

datatype phase = WaitAnnouncement | ReadCommitments | CommitmentSent

text \<open>A packet is a message with its sender (\<open>None\<close> when a node put it into its own channel)
  and its receiver.\<close>

type_synonym ('p, 's) packet = "TreeNode option \<times> TreeNode \<times> ('p, 's) bft_msg"

record ('c, 'p, 's) net =
  N_state :: "TreeNode \<Rightarrow> ('c, 'p, 's) bft"
  N_phase :: "TreeNode \<Rightarrow> phase"
  N_ready :: "TreeNode \<Rightarrow> bool"
  N_msgs :: "('p, 's) packet multiset"

fun packets :: "TreeNode \<Rightarrow> ('p, 's) action \<Rightarrow> ('p, 's) packet multiset" where
  "packets v (Send n m) = {#(Some v, n, m)#}"
| "packets v (ToSelf m) = {#(None, v, m)#}"
| "packets v _ = {#}"

definition outbox :: "TreeNode \<Rightarrow> ('p, 's) action list \<Rightarrow> ('p, 's) packet multiset" where
  "outbox v as = sum_list (map (packets v) as)"

text \<open>
  The steps: an announcement is read (by \<open>Dispatch\<close> or by the goroutine that goes on
  reading), a reply is handled while the node reads its commitments, and a node that has been
  told it is ready, or whose channel is closed, sends its own commitment.
\<close>

inductive prepare_step :: "(TreeNode \<Rightarrow> ('c, 'p, 's) Env) \<Rightarrow> ('c, 'p, 's) net \<Rightarrow> ('c, 'p, 's) net \<Rightarrow> bool"
  for E :: "TreeNode \<Rightarrow> ('c, 'p, 's) Env" where
  deliver_announcement: "N_msgs \<sigma> = add_mset (sender, v, MAnnounce a) M \<Longrightarrow>
    readAnnouncement (E v) sender a (N_state \<sigma> v) = Inr (s', as) \<Longrightarrow>
    prepare_step E \<sigma> (\<sigma>\<lparr>N_state := (N_state \<sigma>)(v := s'),
      N_phase := (N_phase \<sigma>)(v := if N_phase \<sigma> v = WaitAnnouncement then ReadCommitments else N_phase \<sigma> v),
      N_msgs := M + outbox v as\<rparr>)"
| deliver_commitment: "N_msgs \<sigma> = add_mset (Some u, v, MCommitment c) M \<Longrightarrow>
    N_phase \<sigma> v = ReadCommitments \<Longrightarrow> \<not> closing (N_state \<sigma> v) \<Longrightarrow>
    commit_message (E v) RoundPrepare u c (N_state \<sigma> v) = Inr (ready, s') \<Longrightarrow>
    prepare_step E \<sigma> (\<sigma>\<lparr>N_state := (N_state \<sigma>)(v := s'),
      N_ready := (N_ready \<sigma>)(v := N_ready \<sigma> v \<or> ready), N_msgs := M\<rparr>)"
| send_commitment: "N_phase \<sigma> v = ReadCommitments \<Longrightarrow>
    N_ready \<sigma> v \<or> commitChanClosed (N_state \<sigma> v) \<Longrightarrow>
    finishCommitmentPrepare (E v) (N_state \<sigma> v) = Inr (s', as) \<Longrightarrow>
    prepare_step E \<sigma> (\<sigma>\<lparr>N_state := (N_state \<sigma>)(v := s'),
      N_phase := (N_phase \<sigma>)(v := CommitmentSent), N_msgs := N_msgs \<sigma> + outbox v as\<rparr>)"

text \<open>All instances are new; the root has been started. The service sets the message and the
  timeout of the root after creating it.\<close>

definition new_instance :: "('c, 'p, 's) Env \<Rightarrow> ('c, 'p, 's) bft \<Rightarrow> bool" where
  "new_instance E s \<longleftrightarrow> (\<exists>tree nodes idx c1 c2 m t. 0 \<le> nodes \<and>
     s = (NewBFTCoSiProtocol E tree nodes idx c1 c2)\<lparr>Msg := m, Timeout := t\<rparr>)"

definition prepare_init ::
  "(TreeNode \<Rightarrow> ('c, 'p, 's) Env) \<Rightarrow> TreeNode \<Rightarrow> (TreeNode \<Rightarrow> ('c, 'p, 's) bft) \<Rightarrow> ('c, 'p, 's) net \<Rightarrow> bool" where
  "prepare_init E r st0 \<sigma> \<longleftrightarrow> (\<forall>v. new_instance (E v) (st0 v))
     \<and> \<sigma> = \<lparr>N_state = st0, N_phase = (\<lambda>v. WaitAnnouncement), N_ready = (\<lambda>v. False),
            N_msgs = outbox r (Start (st0 r))\<rparr>"

subsection \<open>Rings\<close>

text \<open>
  What the protocol relies on: every node of the ring finds itself, its neighbours and the
  receivers of its messages in the tables of its service, neighbours see each other, and
  \<open>crypto.CoSi\<close> adds the node's own commitment to the ones it is given.
\<close>

definition lookups_ok :: "('c, 'p, 's) Env \<Rightarrow> (TreeNode, 'p) ring \<Rightarrow> int \<Rightarrow> TreeNode \<Rightarrow> bool" where
  "lookups_ok E G i v \<longleftrightarrow> Own E = v \<and> Root E = Rg_root G
     \<and> (\<exists>g. FromBinaryNodeToGraphNode (Svc E) v i (name_of E (Root E)) = Inr (Some g)
          \<and> Children g = Rg_nbr G v \<and> extra_parent g = [])
     \<and> (\<forall>u \<in> Rg_nodes G.
          (\<exists>g. FromBinaryNodeToGraphNode (Svc E) u i (name_of E (Root E)) = Inr (Some g) \<and> Graph_Node g = u)
          \<and> FromGraphNodeToBinaryTreeNode (Svc E) u i (name_of E (Root E)) = Inr (Some u)
          \<and> (\<exists>x. GetByName (Tree_Nodes (Svc E)) (name_of E u) = Inr x))"

definition cosi_adds :: "('c, 'p :: ab_group_add, 's) CoSi \<Rightarrow> 'c \<Rightarrow> 'p \<Rightarrow> bool" where
  "cosi_adds C c own \<longleftrightarrow> (\<forall>ps. \<exists>c'. Commit C c (map Some ps) = Inr (c', own + sum_list ps))"

definition ring_ok ::
  "(TreeNode \<Rightarrow> ('c, 'p :: ab_group_add, 's) Env) \<Rightarrow> (TreeNode, 'p) ring \<Rightarrow> (TreeNode \<Rightarrow> ('c, 'p, 's) bft) \<Rightarrow> bool" where
  "ring_ok E G st0 \<longleftrightarrow> graph_ok G \<and> inj_on node_id (Rg_nodes G) \<and> index (st0 (Rg_root G)) \<noteq> 999
     \<and> (\<forall>v \<in> Rg_nodes G. lookups_ok (E v) G (index (st0 (Rg_root G))) v
          \<and> HashMsg (E v) = HashMsg (E (Rg_root G))
          \<and> cosi_adds (E_CoSi (E v)) (prepare (st0 v)) (Rg_own G v))"

lemma ring_okD:
  assumes "ring_ok E G st0"
  shows "graph_ok G" "inj_on node_id (Rg_nodes G)" "index (st0 (Rg_root G)) \<noteq> 999"
    "v \<in> Rg_nodes G \<Longrightarrow> lookups_ok (E v) G (index (st0 (Rg_root G))) v"
    "v \<in> Rg_nodes G \<Longrightarrow> HashMsg (E v) = HashMsg (E (Rg_root G))"
    "v \<in> Rg_nodes G \<Longrightarrow> cosi_adds (E_CoSi (E v)) (prepare (st0 v)) (Rg_own G v)"
  using assms by (simp_all add: ring_ok_def)

subsection \<open>The handlers on a ring\<close>

lemma DelayedSend_ok:
  assumes "lookups_ok E G i v" "index s = i" "u \<in> Rg_nodes G" "v \<in> Rg_nodes G"
  shows "DelayedSend E s u m = Inr [Send u m]"
proof -
  obtain x y where "GetByName (Tree_Nodes (Svc E)) (name_of E u) = Inr x"
    "GetByName (Tree_Nodes (Svc E)) (name_of E (Own E)) = Inr y"
    "FromGraphNodeToBinaryTreeNode (Svc E) u i (name_of E (Root E)) = Inr (Some u)"
    using assms unfolding lookups_ok_def by blast
  then show ?thesis using assms(2) by (simp add: DelayedSend_def)
qed

lemma send_all_ok:
  assumes "lookups_ok E G i v" "index s = i" "set us \<subseteq> Rg_nodes G" "v \<in> Rg_nodes G"
  shows "send_all E s us m = Inr (map (\<lambda>u. Send u m) us)"
proof -
  have "res_fold (\<lambda>to acc. res_bind (DelayedSend E s to m) (\<lambda>a. Inr (acc @ a))) us acc
      = Inr (acc @ map (\<lambda>u. Send u m) us)" for acc
    using assms(3) by (induction us arbitrary: acc) (simp_all add: DelayedSend_ok[OF assms(1,2) _ assms(4)])
  then show ?thesis by (simp add: send_all_def)
qed

lemma graph_node_ok:
  assumes "lookups_ok E G i v" "index s = i"
  obtains g where "graph_node E s = Inr g" "Children g = Rg_nbr G v" "nr_neighbors g = int (length (Rg_nbr G v))"
  using assms by (auto simp: lookups_ok_def graph_node_def nr_neighbors_def)

lemma filter_parent:
  assumes "inj_on node_id V" "set ws \<subseteq> V" "\<And>u. Parent s = Some u \<Longrightarrow> u \<in> V"
  shows "filter (\<lambda>n. \<not> is_parent s n) ws = filter (\<lambda>w. Parent s \<noteq> Some w) ws"
proof (rule filter_cong[OF refl])
  fix w assume "w \<in> set ws"
  then show "(\<not> is_parent s w) = (Parent s \<noteq> Some w)"
    using assms inj_onD[OF assms(1)] by (auto simp: is_parent_def split: option.splits)
qed

definition prepare_commitment :: "'p \<Rightarrow> ('p, 's) bft_msg" where
  "prepare_commitment x = MCommitment \<lparr>Cm_TYPE = RoundPrepare, Cm_Commitment = Some x\<rparr>"

lemma readAnnouncement_first:
  assumes R: "ring_ok E G st0" and v: "v \<in> Rg_nodes G" and "TreeIndex a = index (st0 (Rg_root G))"
    and s: "\<not> closing s" "\<not> has (ReceivedMessages s) (HashMsg (E v) a)" "\<not> commitChanClosed s"
    and p: "\<And>u. p = Some u \<Longrightarrow> u \<in> set (Rg_nbr G v)"
  shows "readAnnouncement (E v) p a s = Inr
    (s\<lparr>index := TreeIndex a, Parent := p, ReceivedMessages := map_set (ReceivedMessages s) (HashMsg (E v) a) True,
       commitChanClosed := (length (Rg_nbr G v) = 1 \<and> p \<noteq> None)\<rparr>,
     map (\<lambda>w. Send w (MAnnounce a)) (filter (\<lambda>w. p \<noteq> Some w) (Rg_nbr G v)))"
proof -
  note L = ring_okD(4)[OF R v]
  have nbr: "set (Rg_nbr G v) \<subseteq> Rg_nodes G" using ring_okD(1)[OF R] v by (auto simp: graph_ok_def)
  define s1 where "s1 = s\<lparr>index := TreeIndex a, Parent := p,
    ReceivedMessages := map_set (ReceivedMessages s) (HashMsg (E v) a) True\<rparr>"
  have i: "index s1 = index (st0 (Rg_root G))" "Parent s1 = p" "commitChanClosed s1 = False"
    using assms(3) s(3) by (simp_all add: s1_def)
  obtain g where g: "graph_node (E v) s1 = Inr g" "Children g = Rg_nbr G v"
    using graph_node_ok[OF L i(1)] by blast
  have read: "readAnnouncement (E v) p a s = res_bind (isLeafInRound (E v) s1) (\<lambda>leaf.
      if leaf then Inr (s1\<lparr>commitChanClosed := True\<rparr>, [])
      else sending s1 (DelayedSendToNeighborsExcParent (E v) s1 (MAnnounce a)))"
    using s ring_okD(3)[OF R] assms(3) unfolding s1_def
    by (simp add: readAnnouncement_def isLoopAndSet_def Let_def cong: if_cong)
  show ?thesis
  proof (cases "length (Rg_nbr G v) = 1 \<and> p \<noteq> None")
    case True
    then obtain u where "p = Some u" "Rg_nbr G v = [u]" using p by (auto simp: length_Suc_conv)
    with True read g i show ?thesis by (simp add: isLeafInRound_def s1_def)
  next
    case False
    have "filter (\<lambda>n. \<not> is_parent s1 n) (Rg_nbr G v) = filter (\<lambda>w. p \<noteq> Some w) (Rg_nbr G v)"
      using filter_parent[OF ring_okD(2)[OF R] nbr, of s1] i(2) p nbr by blast
    then have "DelayedSendToNeighborsExcParent (E v) s1 (MAnnounce a)
        = send_all (E v) s1 (filter (\<lambda>w. p \<noteq> Some w) (Rg_nbr G v)) (MAnnounce a)"
      using g by (simp add: DelayedSendToNeighborsExcParent_def)
    also have "\<dots> = Inr (map (\<lambda>w. Send w (MAnnounce a)) (filter (\<lambda>w. p \<noteq> Some w) (Rg_nbr G v)))"
      by (rule send_all_ok[OF L i(1) _ v]) (use nbr in auto)
    finally have "DelayedSendToNeighborsExcParent (E v) s1 (MAnnounce a)
        = Inr (map (\<lambda>w. Send w (MAnnounce a)) (filter (\<lambda>w. p \<noteq> Some w) (Rg_nbr G v)))" .
    moreover have "isLeafInRound (E v) s1 = Inr False"
      using False g i(2) by (auto simp: isLeafInRound_def)
    ultimately have "readAnnouncement (E v) p a s
        = Inr (s1, map (\<lambda>w. Send w (MAnnounce a)) (filter (\<lambda>w. p \<noteq> Some w) (Rg_nbr G v)))"
      using read by (simp add: sending_def)
    moreover have "s1\<lparr>commitChanClosed := (length (Rg_nbr G v) = 1 \<and> p \<noteq> None)\<rparr> = s1"
      using False i(3) by simp
    ultimately show ?thesis by (simp only: s1_def)
  qed
qed

lemma readAnnouncement_again:
  assumes R: "ring_ok E G st0" and v: "v \<in> Rg_nodes G" and "TreeIndex a = index (st0 (Rg_root G))"
    and s: "\<not> closing s" "has (ReceivedMessages s) (HashMsg (E v) a)" and u: "u \<in> Rg_nodes G"
  shows "readAnnouncement (E v) (Some u) a s = Inr (s\<lparr>index := TreeIndex a\<rparr>, [Send u loop_break])"
proof -
  note L = ring_okD(4)[OF R v]
  let ?s = "s\<lparr>index := TreeIndex a\<rparr>"
  have i: "index ?s = index (st0 (Rg_root G))" using assms(3) by simp
  obtain g where "FromBinaryNodeToGraphNode (Svc (E v)) u (index (st0 (Rg_root G)))
      (name_of (E v) (Root (E v))) = Inr (Some g)" "Graph_Node g = u"
    using L u unfolding lookups_ok_def by blast
  then have "reply_loop_break (E v) (Some u) ?s = Inr [Send u loop_break]"
    using DelayedSend_ok[OF L i u v] assms(3) by (simp add: reply_loop_break_def)
  then show ?thesis
    using s ring_okD(3)[OF R] assms(3) by (simp add: readAnnouncement_def isLoopAndSet_def Let_def sending_def)
qed

lemma IsRoot_ring:
  assumes "ring_ok E G st0" "v \<in> Rg_nodes G"
  shows "IsRoot (E v) \<longleftrightarrow> v = Rg_root G"
proof -
  have "Own (E v) = v" "Root (E v) = Rg_root G"
    using ring_okD(4)[OF assms] unfolding lookups_ok_def by blast+
  moreover have "Rg_root G \<in> Rg_nodes G"
    using ring_okD(1)[OF assms(1)] unfolding graph_ok_def by blast
  ultimately show ?thesis
    using inj_on_eq_iff[OF ring_okD(2)[OF assms(1)] assms(2), of "Rg_root G"] by (simp add: IsRoot_def)
qed

text \<open>The threshold of the counter is the number of announcements the node has sent.\<close>

lemma threshold:
  assumes "ring_ok E G st0" "v \<in> Rg_nodes G"
    and "if v = Rg_root G then p = None else \<exists>u \<in> set (Rg_nbr G v). p = Some u"
  shows "int (length (Rg_nbr G v)) + (if IsRoot (E v) then 0 else -1)
    = int (length (filter (\<lambda>w. p \<noteq> Some w) (Rg_nbr G v)))"
proof -
  have dist: "distinct (Rg_nbr G v)"
    using ring_okD(1)[OF assms(1)] assms(2) unfolding graph_ok_def by blast
  note root = IsRoot_ring[OF assms(1,2)]
  show ?thesis
  proof (cases "v = Rg_root G")
    case False
    then obtain u where u: "u \<in> set (Rg_nbr G v)" "p = Some u" using assms(3) by auto
    then have "length (filter (\<lambda>w. p \<noteq> Some w) (Rg_nbr G v)) = length (remove1 u (Rg_nbr G v))"
      using dist by (simp add: distinct_remove1_removeAll removeAll_filter_not_eq)
    also have "\<dots> = length (Rg_nbr G v) - 1" using u(1) by (simp add: length_remove1)
    moreover have "length (Rg_nbr G v) > 0" using u(1) by (cases "Rg_nbr G v") auto
    ultimately have "length (Rg_nbr G v) = Suc (length (filter (\<lambda>w. p \<noteq> Some w) (Rg_nbr G v)))" by simp
    then show ?thesis using False root by simp
  qed (use root assms(3) in simp)
qed

lemma commit_message_ok:
  assumes R: "ring_ok E G st0" and v: "v \<in> Rg_nodes G" and "index s = index (st0 (Rg_root G))"
    and p: "if v = Rg_root G then Parent s = None else \<exists>u \<in> set (Rg_nbr G v). Parent s = Some u"
  shows "commit_message (E v) RoundPrepare u \<lparr>Cm_TYPE = LoopBreak, Cm_Commitment = None\<rparr> s =
      Inr (nrPrepareCommit s + 1 = int (length (filter (\<lambda>w. Parent s \<noteq> Some w) (Rg_nbr G v))),
           s\<lparr>nrPrepareCommit := nrPrepareCommit s + 1\<rparr>)"
    and "commit_message (E v) RoundPrepare u \<lparr>Cm_TYPE = RoundPrepare, Cm_Commitment = c\<rparr> s =
      Inr (nrPrepareCommit s + 1 = int (length (filter (\<lambda>w. Parent s \<noteq> Some w) (Rg_nbr G v))),
           s\<lparr>nrPrepareCommit := nrPrepareCommit s + 1, tempPrepareCommit := tempPrepareCommit s @ [c],
             dynamicChildren := dynamicChildren s @ [u]\<rparr>)"
proof -
  note L = ring_okD(4)[OF R v] and th = threshold[OF R v p]
  have "\<exists>g. graph_node (E v) t = Inr g \<and> nr_neighbors g = int (length (Rg_nbr G v))" if "index t = index s" for t
    using graph_node_ok[OF L, of t] that assms(3) by metis
  then have up: "res_bind (graph_node (E v) t) (\<lambda>g. Inr (nrPrepareCommit t = nr_neighbors g + (if IsRoot (E v) then 0 else -1), t))
      = Inr (nrPrepareCommit t = int (length (filter (\<lambda>w. Parent s \<noteq> Some w) (Rg_nbr G v))), t)"
    if "index t = index s" for t
    using that th by (metis (no_types, lifting) res_bind_simps(2))
  show "commit_message (E v) RoundPrepare u \<lparr>Cm_TYPE = LoopBreak, Cm_Commitment = None\<rparr> s =
      Inr (nrPrepareCommit s + 1 = int (length (filter (\<lambda>w. Parent s \<noteq> Some w) (Rg_nbr G v))),
           s\<lparr>nrPrepareCommit := nrPrepareCommit s + 1\<rparr>)"
    using up[of "s\<lparr>nrPrepareCommit := nrPrepareCommit s + 1\<rparr>"]
    by (simp add: commit_message_def updateCommitPrepAndCompare_def Let_def)
  show "commit_message (E v) RoundPrepare u \<lparr>Cm_TYPE = RoundPrepare, Cm_Commitment = c\<rparr> s =
      Inr (nrPrepareCommit s + 1 = int (length (filter (\<lambda>w. Parent s \<noteq> Some w) (Rg_nbr G v))),
           s\<lparr>nrPrepareCommit := nrPrepareCommit s + 1, tempPrepareCommit := tempPrepareCommit s @ [c],
             dynamicChildren := dynamicChildren s @ [u]\<rparr>)"
    using up[of "s\<lparr>nrPrepareCommit := nrPrepareCommit s + 1, tempPrepareCommit := tempPrepareCommit s @ [c],
             dynamicChildren := dynamicChildren s @ [u]\<rparr>"]
    by (simp add: commit_message_def updateCommitPrepAndCompare_def Let_def)
qed

lemma somes: "None \<notin> set cs \<Longrightarrow> map Some (map the cs) = cs"
  by (induction cs) auto

lemma finish_root:
  assumes R: "ring_ok E G st0" and "finishCommitmentPrepare (E (Rg_root G)) s = Inr (s', as)"
  shows "\<exists>c m. s' = s\<lparr>prepare := c\<rparr> \<and> as = [ToSelf (MChallengePrepare m)]"
proof -
  have "Rg_root G \<in> Rg_nodes G" using ring_okD(1)[OF R] unfolding graph_ok_def by blast
  then have "IsRoot (E (Rg_root G))" using IsRoot_ring[OF R] by blast
  with assms(2) show ?thesis
    by (auto simp: finishCommitmentPrepare_def startChallenge_def res_bind_Inr_iff)
qed

lemma finish_other:
  assumes R: "ring_ok E G st0" and v: "v \<in> Rg_nodes G" "v \<noteq> Rg_root G"
    and s: "index s = index (st0 (Rg_root G))" "prepare s = prepare (st0 v)" "Parent s = Some p"
      "p \<in> Rg_nodes G" "None \<notin> set (tempPrepareCommit s)"
  shows "\<exists>c. finishCommitmentPrepare (E v) s = Inr (s\<lparr>prepare := c\<rparr>,
    [Send p (prepare_commitment (Rg_own G v + sum_list (map the (tempPrepareCommit s))))])"
proof -
  note L = ring_okD(4)[OF R v(1)]
  obtain c where c: "Commit (E_CoSi (E v)) (prepare s) (tempPrepareCommit s)
      = Inr (c, Rg_own G v + sum_list (map the (tempPrepareCommit s)))"
    using ring_okD(6)[OF R v(1)] somes[OF s(5)] s(2) unfolding cosi_adds_def by metis
  have "DelayedSend (E v) (s\<lparr>prepare := c\<rparr>) p m = Inr [Send p m]" for m
    using s(1) by (intro DelayedSend_ok[OF L _ s(4) v(1)]) simp
  then show ?thesis
    using c s(3) IsRoot_ring[OF R v(1)] v(2)
    by (intro exI[of _ c]) (simp add: finishCommitmentPrepare_def DelayedSendToParent_def sending_def prepare_commitment_def)
qed

subsection \<open>The network as a flood\<close>

fun abs_packet :: "('p, 's) packet \<Rightarrow> (TreeNode, 'p) emsg multiset" where
  "abs_packet (None, v, MAnnounce a) = {#Kick#}"
| "abs_packet (Some u, v, MAnnounce a) = {#Ann u v#}"
| "abs_packet (Some u, v, MCommitment c) =
     (case Cm_TYPE c of LoopBreak \<Rightarrow> {#Brk u v#} | RoundPrepare \<Rightarrow> {#Com u v (the (Cm_Commitment c))#}
      | _ \<Rightarrow> {#})"
| "abs_packet _ = {#}"

definition abs_msgs :: "('p, 's) packet multiset \<Rightarrow> (TreeNode, 'p) emsg multiset" where
  "abs_msgs M = sum_mset (image_mset abs_packet M)"

text \<open>The announcement of the run.\<close>

definition run_ann :: "('c, 'p, 's) bft \<Rightarrow> Announce" where
  "run_ann s = \<lparr>An_TYPE = RoundPrepare, An_Timeout = Timeout s, TreeIndex = index s\<rparr>"

definition run_hash :: "(TreeNode \<Rightarrow> ('c, 'p, 's) Env) \<Rightarrow> TreeNode \<Rightarrow> (TreeNode \<Rightarrow> ('c, 'p, 's) bft) \<Rightarrow> octets" where
  "run_hash E r st0 = HashMsg (E r) (run_ann (st0 r))"

definition abs_net ::
  "octets \<Rightarrow> TreeNode set \<Rightarrow> ('c, 'p, 's) net \<Rightarrow> (TreeNode, 'p) echo" where
  "abs_net h V \<sigma> =
     \<lparr>ec_inf = {v \<in> V. has (ReceivedMessages (N_state \<sigma> v)) h},
      ec_done = {v \<in> V. N_phase \<sigma> v = CommitmentSent},
      ec_parent = (\<lambda>v. if v \<in> V then Parent (N_state \<sigma> v) else None),
      ec_cnt = (\<lambda>v. if v \<in> V then nat (nrPrepareCommit (N_state \<sigma> v)) else 0),
      ec_dyn = (\<lambda>v. if v \<in> V then dynamicChildren (N_state \<sigma> v) else []),
      ec_val = (\<lambda>v. if v \<in> V then map the (tempPrepareCommit (N_state \<sigma> v)) else []),
      ec_msgs = abs_msgs (N_msgs \<sigma>)\<rparr>"

fun packet_ok :: "(TreeNode, 'p) ring \<Rightarrow> Announce \<Rightarrow> ('p, 's) packet \<Rightarrow> bool" where
  "packet_ok G a (None, v, m) =
     (v = Rg_root G \<and> (case m of MAnnounce b \<Rightarrow> b = a | MCommitment _ \<Rightarrow> False | _ \<Rightarrow> True))"
| "packet_ok G a (Some u, v, m) = (u \<in> Rg_nodes G \<and> v \<in> Rg_nodes G
     \<and> (m = MAnnounce a \<or> m = loop_break \<or> (\<exists>x. m = prepare_commitment x)))"

definition node_ok ::
  "octets \<Rightarrow> (TreeNode, 'p) ring \<Rightarrow> (TreeNode \<Rightarrow> ('c, 'p, 's) bft) \<Rightarrow> phase \<Rightarrow> bool \<Rightarrow> ('c, 'p, 's) bft \<Rightarrow> TreeNode \<Rightarrow> bool" where
  "node_ok h G st0 ph ready s v \<longleftrightarrow>
     \<not> closing s \<and> 0 \<le> nrPrepareCommit s \<and> None \<notin> set (tempPrepareCommit s)
     \<and> (ph \<noteq> CommitmentSent \<longrightarrow> prepare s = prepare (st0 v))
     \<and> (ph = WaitAnnouncement \<longleftrightarrow> \<not> has (ReceivedMessages s) h)
     \<and> (ph = WaitAnnouncement \<longrightarrow> \<not> commitChanClosed s \<and> \<not> ready \<and> nrPrepareCommit s = 0)
     \<and> (ph \<noteq> WaitAnnouncement \<longrightarrow> index s = index (st0 (Rg_root G)))
     \<and> (ph \<noteq> WaitAnnouncement \<longrightarrow> commitChanClosed s = (length (Rg_nbr G v) = 1 \<and> Parent s \<noteq> None))
     \<and> (0 < nrPrepareCommit s \<and> nrPrepareCommit s = int (length (filter (\<lambda>w. Parent s \<noteq> Some w) (Rg_nbr G v)))
          \<longrightarrow> ready)
     \<and> (ready \<or> commitChanClosed s \<longrightarrow>
          length (filter (\<lambda>w. Parent s \<noteq> Some w) (Rg_nbr G v)) \<le> nat (nrPrepareCommit s))"

definition net_ok ::
  "(TreeNode \<Rightarrow> ('c, 'p :: ab_group_add, 's) Env) \<Rightarrow> (TreeNode, 'p) ring \<Rightarrow> (TreeNode \<Rightarrow> ('c, 'p, 's) bft)
    \<Rightarrow> ('c, 'p, 's) net \<Rightarrow> bool" where
  "net_ok E G st0 \<sigma> \<longleftrightarrow>
     (\<forall>v \<in> Rg_nodes G. node_ok (run_hash E (Rg_root G) st0) G st0 (N_phase \<sigma> v) (N_ready \<sigma> v) (N_state \<sigma> v) v)
     \<and> (\<forall>q \<in># N_msgs \<sigma>. packet_ok G (run_ann (st0 (Rg_root G))) q)"

lemma abs_msgs_simps [simp]:
  "abs_msgs {#} = {#}" "abs_msgs (add_mset q M) = abs_packet q + abs_msgs M"
  "abs_msgs (M + N) = abs_msgs M + abs_msgs N"
  by (simp_all add: abs_msgs_def)

lemma outbox_simps [simp]: "outbox v [] = {#}" "outbox v (a # as) = packets v a + outbox v as"
  by (simp_all add: outbox_def)

lemma outbox_anns: "abs_msgs (outbox v (map (\<lambda>w. Send w (MAnnounce a)) ws)) = anns v ws"
  by (induction ws) (simp_all add: anns_def)

lemma outbox_anns_ok:
  assumes "v \<in> Rg_nodes G" "set ws \<subseteq> Rg_nodes G" "q \<in># outbox v (map (\<lambda>w. Send w (MAnnounce a)) ws)"
  shows "packet_ok G a q"
  using assms(2,3) by (induction ws) (auto simp: assms(1))

lemma abs_packet_msgs [simp]:
  "abs_packet (Some u, v, loop_break) = {#Brk u v#}"
  "abs_packet (Some u, v, prepare_commitment x) = {#Com u v x#}"
  by (simp_all add: loop_break_def prepare_commitment_def)

lemma net_okD:
  assumes "net_ok E G st0 \<sigma>"
  shows "v \<in> Rg_nodes G \<Longrightarrow>
      node_ok (run_hash E (Rg_root G) st0) G st0 (N_phase \<sigma> v) (N_ready \<sigma> v) (N_state \<sigma> v) v"
    and "q \<in># N_msgs \<sigma> \<Longrightarrow> packet_ok G (run_ann (st0 (Rg_root G))) q"
  using assms by (simp_all add: net_ok_def)

lemma net_okI:
  assumes "net_ok E G st0 \<sigma>"
    and "\<And>w. w \<noteq> v \<Longrightarrow> N_state \<sigma>' w = N_state \<sigma> w \<and> N_phase \<sigma>' w = N_phase \<sigma> w \<and> N_ready \<sigma>' w = N_ready \<sigma> w"
    and "v \<in> Rg_nodes G \<Longrightarrow>
      node_ok (run_hash E (Rg_root G) st0) G st0 (N_phase \<sigma>' v) (N_ready \<sigma>' v) (N_state \<sigma>' v) v"
    and "\<And>q. q \<in># N_msgs \<sigma>' \<Longrightarrow> packet_ok G (run_ann (st0 (Rg_root G))) q"
  shows "net_ok E G st0 \<sigma>'"
  unfolding net_ok_def
proof (intro conjI ballI)
  fix w assume w: "w \<in> Rg_nodes G"
  show "node_ok (run_hash E (Rg_root G) st0) G st0 (N_phase \<sigma>' w) (N_ready \<sigma>' w) (N_state \<sigma>' w) w"
    using assms(2)[of w] assms(3) net_okD(1)[OF assms(1) w] w by (cases "w = v") auto
qed (rule assms(4))

lemma run_hash_ring:
  "ring_ok E G st0 \<Longrightarrow> v \<in> Rg_nodes G \<Longrightarrow> HashMsg (E v) (run_ann (st0 (Rg_root G))) = run_hash E (Rg_root G) st0"
  by (simp add: run_hash_def ring_okD(5))

text \<open>The state of a node after it has been informed.\<close>

definition informed_state ::
  "octets \<Rightarrow> (TreeNode, 'p) ring \<Rightarrow> int \<Rightarrow> TreeNode \<Rightarrow> TreeNode option \<Rightarrow> ('c, 'p, 's) bft \<Rightarrow> ('c, 'p, 's) bft" where
  "informed_state h G i v p s = s\<lparr>index := i, Parent := p,
     ReceivedMessages := map_set (ReceivedMessages s) h True,
     commitChanClosed := (length (Rg_nbr G v) = 1 \<and> p \<noteq> None)\<rparr>"

lemma informed_state_simps [simp]:
  "index (informed_state h G i v p s) = i" "Parent (informed_state h G i v p s) = p"
  "ReceivedMessages (informed_state h G i v p s) = map_set (ReceivedMessages s) h True"
  "commitChanClosed (informed_state h G i v p s) = (length (Rg_nbr G v) = 1 \<and> p \<noteq> None)"
  "closing (informed_state h G i v p s) = closing s"
  "nrPrepareCommit (informed_state h G i v p s) = nrPrepareCommit s"
  "tempPrepareCommit (informed_state h G i v p s) = tempPrepareCommit s"
  "dynamicChildren (informed_state h G i v p s) = dynamicChildren s"
  "prepare (informed_state h G i v p s) = prepare s"
  by (simp_all add: informed_state_def)

lemma abs_first:
  assumes "v \<in> V" "N_phase \<sigma> v = WaitAnnouncement"
  shows "abs_net h V (\<sigma>\<lparr>N_state := (N_state \<sigma>)(v := informed_state h G i v p (N_state \<sigma> v)),
      N_phase := (N_phase \<sigma>)(v := ReadCommitments),
      N_msgs := M + outbox v (map (\<lambda>w. Send w (MAnnounce a)) (filter (\<lambda>w. p \<noteq> Some w) (Rg_nbr G v)))\<rparr>)
    = inform G v p (abs_msgs M) (abs_net h V \<sigma>)"
  using assms
  by (intro echo.equality)
    (auto simp: abs_net_def inform_def targets_def outbox_anns fun_eq_iff Let_def)

text \<open>A node that hears of the flood for the first time.\<close>

lemma sim_first:
  assumes R: "ring_ok E G st0" and N: "net_ok E G st0 \<sigma>"
    and m: "N_msgs \<sigma> = add_mset q M" and v: "v \<in> Rg_nodes G"
    and new: "\<not> has (ReceivedMessages (N_state \<sigma> v)) (run_hash E (Rg_root G) st0)"
    and p: "\<And>u. p = Some u \<Longrightarrow> u \<in> set (Rg_nbr G v)"
    and r: "readAnnouncement (E v) p (run_ann (st0 (Rg_root G))) (N_state \<sigma> v) = Inr (s', as)"
    and t: "\<sigma>' = \<sigma>\<lparr>N_state := (N_state \<sigma>)(v := s'),
      N_phase := (N_phase \<sigma>)(v := if N_phase \<sigma> v = WaitAnnouncement then ReadCommitments else N_phase \<sigma> v),
      N_msgs := M + outbox v as\<rparr>"
  shows "net_ok E G st0 \<sigma>'"
    and "abs_net (run_hash E (Rg_root G) st0) (Rg_nodes G) \<sigma>'
      = inform G v p (abs_msgs M) (abs_net (run_hash E (Rg_root G) st0) (Rg_nodes G) \<sigma>)"
proof -
  let ?h = "run_hash E (Rg_root G) st0" and ?i = "index (st0 (Rg_root G))" and ?a = "run_ann (st0 (Rg_root G))"
  have nbr: "set (Rg_nbr G v) \<subseteq> Rg_nodes G" using ring_okD(1)[OF R] v unfolding graph_ok_def by blast
  have K: "node_ok ?h G st0 (N_phase \<sigma> v) (N_ready \<sigma> v) (N_state \<sigma> v) v" by (rule net_okD(1)[OF N v])
  then have ph: "N_phase \<sigma> v = WaitAnnouncement" and c: "\<not> closing (N_state \<sigma> v)"
    "\<not> commitChanClosed (N_state \<sigma> v)" using new by (auto simp: node_ok_def)
  have "readAnnouncement (E v) p ?a (N_state \<sigma> v) = Inr (informed_state ?h G ?i v p (N_state \<sigma> v),
      map (\<lambda>w. Send w (MAnnounce ?a)) (filter (\<lambda>w. p \<noteq> Some w) (Rg_nbr G v)))"
    using readAnnouncement_first[OF R v _ c(1) _ c(2) p, of ?a p] new run_hash_ring[OF R v]
    by (simp add: informed_state_def run_ann_def)
  then have s': "s' = informed_state ?h G ?i v p (N_state \<sigma> v)"
    and as: "as = map (\<lambda>w. Send w (MAnnounce ?a)) (filter (\<lambda>w. p \<noteq> Some w) (Rg_nbr G v))"
    using r by simp_all
  show "abs_net ?h (Rg_nodes G) \<sigma>' = inform G v p (abs_msgs M) (abs_net ?h (Rg_nodes G) \<sigma>)"
    using abs_first[OF v ph, where h = ?h and G = G and i = ?i and p = p and M = M and a = ?a]
    by (simp add: t s' as ph)
  have leaf: "length (Rg_nbr G v) = 1 \<and> p \<noteq> None \<Longrightarrow> filter (\<lambda>w. p \<noteq> Some w) (Rg_nbr G v) = []"
    using p by (auto simp: length_Suc_conv)
  have "node_ok ?h G st0 ReadCommitments (N_ready \<sigma> v) s' v"
    using K ph leaf by (auto simp: node_ok_def s' simp del: One_nat_def)
  moreover have "packet_ok G ?a x" if "x \<in># outbox v as" for x
    using outbox_anns_ok[OF v, of "filter (\<lambda>w. p \<noteq> Some w) (Rg_nbr G v)" x ?a] that nbr by (auto simp: as)
  ultimately show "net_ok E G st0 \<sigma>'"
    using ph net_okD(2)[OF N] by (intro net_okI[OF N, of v]) (auto simp: t m)
qed

abbreviation flood ::
  "(TreeNode \<Rightarrow> ('c, 'p :: ab_group_add, 's) Env) \<Rightarrow> (TreeNode, 'p) ring \<Rightarrow> (TreeNode \<Rightarrow> ('c, 'p, 's) bft)
    \<Rightarrow> ('c, 'p, 's) net \<Rightarrow> (TreeNode, 'p) echo" where
  "flood E G st0 \<sigma> \<equiv> abs_net (run_hash E (Rg_root G) st0) (Rg_nodes G) \<sigma>"

lemma flood_simps [simp]:
  "ec_inf (abs_net h V \<sigma>) = {v \<in> V. has (ReceivedMessages (N_state \<sigma> v)) h}"
  "ec_done (abs_net h V \<sigma>) = {v \<in> V. N_phase \<sigma> v = CommitmentSent}"
  "ec_msgs (abs_net h V \<sigma>) = abs_msgs (N_msgs \<sigma>)"
  by (simp_all add: abs_net_def)

lemma flood_fields:
  assumes "v \<in> V"
  shows "ec_cnt (abs_net h V \<sigma>) v = nat (nrPrepareCommit (N_state \<sigma> v))"
    "ec_parent (abs_net h V \<sigma>) v = Parent (N_state \<sigma> v)"
    "ec_dyn (abs_net h V \<sigma>) v = dynamicChildren (N_state \<sigma> v)"
    "ec_val (abs_net h V \<sigma>) v = map the (tempPrepareCommit (N_state \<sigma> v))"
  using assms by (simp_all add: abs_net_def)

lemma flood_targets:
  "v \<in> V \<Longrightarrow> targets G (abs_net h V \<sigma>) v = filter (\<lambda>w. Parent (N_state \<sigma> v) \<noteq> Some w) (Rg_nbr G v)"
  by (simp add: targets_def abs_net_def)

text \<open>A step that changes what the flood does not see.\<close>

lemma sim_announcement:
  assumes R: "ring_ok E G st0" and N: "net_ok E G st0 \<sigma>" and I: "all_inv G (flood E G st0 \<sigma>)"
    and m: "N_msgs \<sigma> = add_mset (sender, v, MAnnounce a) M"
    and r: "readAnnouncement (E v) sender a (N_state \<sigma> v) = Inr (s', as)"
    and t: "\<sigma>' = \<sigma>\<lparr>N_state := (N_state \<sigma>)(v := s'),
      N_phase := (N_phase \<sigma>)(v := if N_phase \<sigma> v = WaitAnnouncement then ReadCommitments else N_phase \<sigma> v),
      N_msgs := M + outbox v as\<rparr>"
  shows "net_ok E G st0 \<sigma>' \<and> echo_step G (flood E G st0 \<sigma>) (flood E G st0 \<sigma>')"
proof -
  let ?h = "run_hash E (Rg_root G) st0" and ?a = "run_ann (st0 (Rg_root G))"
  have root: "Rg_root G \<in> Rg_nodes G" using ring_okD(1)[OF R] unfolding graph_ok_def by blast
  have "(sender, v, MAnnounce a) \<in># N_msgs \<sigma>" by (simp add: m)
  note ok = net_okD(2)[OF N this]
  then have v: "v \<in> Rg_nodes G" and a: "a = ?a"
    using root by (cases sender; auto simp: loop_break_def prepare_commitment_def)+
  let ?m = "case sender of None \<Rightarrow> Kick | Some u \<Rightarrow> Ann u v"
  have em: "ec_msgs (flood E G st0 \<sigma>) = add_mset ?m (abs_msgs M)" by (cases sender) (simp_all add: m)
  have mok: "msg_ok G (flood E G st0 \<sigma>) ?m"
    using inv_treeD(7)[OF all_invD(1)[OF I], of ?m] em by simp
  have first: "net_ok E G st0 \<sigma>' \<and> flood E G st0 \<sigma>' = inform G v sender (abs_msgs M) (flood E G st0 \<sigma>)"
    if "\<not> has (ReceivedMessages (N_state \<sigma> v)) ?h" "\<And>u. sender = Some u \<Longrightarrow> u \<in> set (Rg_nbr G v)"
    using sim_first[OF R N m v that _ t] r a by blast
  show ?thesis
  proof (cases sender)
    case None
    then have "msg_ok G (flood E G st0 \<sigma>) Kick" "v = Rg_root G" using mok ok by auto
    then have "\<not> has (ReceivedMessages (N_state \<sigma> v)) ?h" using v by auto
    with first None \<open>v = Rg_root G\<close> em show ?thesis by (auto intro: step_kick)
  next
    case (Some u)
    then have "msg_ok G (flood E G st0 \<sigma>) (Ann u v)" using mok by simp
    then have u: "u \<in> Rg_nodes G" "v \<in> set (Rg_nbr G u)" by (auto simp: flood_targets)
    then have uv: "u \<in> set (Rg_nbr G v)" using ring_okD(1)[OF R] unfolding graph_ok_def by blast
    show ?thesis
    proof (cases "has (ReceivedMessages (N_state \<sigma> v)) ?h")
      case False
      then have "v \<notin> ec_inf (flood E G st0 \<sigma>)" by simp
      then show ?thesis using first[OF False] uv Some em by (auto intro: step_first)
    next
      case True
      have K: "node_ok ?h G st0 (N_phase \<sigma> v) (N_ready \<sigma> v) (N_state \<sigma> v) v" by (rule net_okD(1)[OF N v])
      then have c: "\<not> closing (N_state \<sigma> v)" "N_phase \<sigma> v \<noteq> WaitAnnouncement"
        "index (N_state \<sigma> v) = index (st0 (Rg_root G))" using True by (auto simp: node_ok_def)
      have "readAnnouncement (E v) (Some u) ?a (N_state \<sigma> v)
          = Inr ((N_state \<sigma> v)\<lparr>index := TreeIndex ?a\<rparr>, [Send u loop_break])"
        using True run_hash_ring[OF R v]
        by (intro readAnnouncement_again[OF R v _ c(1) _ u(1)]) (simp_all add: run_ann_def)
      moreover have "(N_state \<sigma> v)\<lparr>index := TreeIndex ?a\<rparr> = N_state \<sigma> v" using c(3) by (simp add: run_ann_def)
      ultimately have sa: "s' = N_state \<sigma> v" "as = [Send u loop_break]" using r a Some by simp_all
      then have t': "\<sigma>' = \<sigma>\<lparr>N_msgs := add_mset (Some v, u, loop_break) M\<rparr>" using t c(2) by simp
      have "net_ok E G st0 \<sigma>'"
        using net_okD(2)[OF N] net_okD(1)[OF N] u(1) v
        by (intro net_okI[OF N, of v]) (auto simp: t' m)
      moreover have "flood E G st0 \<sigma>' = (flood E G st0 \<sigma>)\<lparr>ec_msgs := add_mset (Brk v u) (abs_msgs M)\<rparr>"
        by (simp add: abs_net_def t' cong: if_cong)
      moreover have "v \<in> ec_inf (flood E G st0 \<sigma>)" using True v by simp
      ultimately show ?thesis using step_again[of "flood E G st0 \<sigma>" u v "abs_msgs M" G] em Some by simp
    qed
  qed
qed

lemma flood_parent:
  assumes "inv_tree G (flood E G st0 \<sigma>)" "v \<in> ec_inf (flood E G st0 \<sigma>)"
  shows "if v = Rg_root G then Parent (N_state \<sigma> v) = None
    else \<exists>u \<in> set (Rg_nbr G v). Parent (N_state \<sigma> v) = Some u \<and> u \<in> Rg_nodes G"
proof -
  have v: "v \<in> Rg_nodes G" using assms(2) by simp
  then have par: "ec_parent (flood E G st0 \<sigma>) v = Parent (N_state \<sigma> v)" by (simp add: abs_net_def)
  show ?thesis
  proof (cases "v = Rg_root G")
    case False
    then obtain p where "ec_parent (flood E G st0 \<sigma>) v = Some p" "p \<in> ec_inf (flood E G st0 \<sigma>)"
      "p \<in> set (Rg_nbr G v)" using inv_tree_has_parent[OF assms] by blast
    then have "Parent (N_state \<sigma> v) = Some p" "p \<in> set (Rg_nbr G v)" "p \<in> Rg_nodes G"
      using par by simp_all
    with False show ?thesis by auto
  qed (use inv_tree_root[OF assms(1)] par in simp)
qed

lemma sim_commitment:
  assumes R: "ring_ok E G st0" and N: "net_ok E G st0 \<sigma>" and I: "all_inv G (flood E G st0 \<sigma>)"
    and m: "N_msgs \<sigma> = add_mset (Some u, v, MCommitment c) M" and ph: "N_phase \<sigma> v = ReadCommitments"
    and r: "commit_message (E v) RoundPrepare u c (N_state \<sigma> v) = Inr (ready, s')"
    and t: "\<sigma>' = \<sigma>\<lparr>N_state := (N_state \<sigma>)(v := s'),
      N_ready := (N_ready \<sigma>)(v := N_ready \<sigma> v \<or> ready), N_msgs := M\<rparr>"
  shows "net_ok E G st0 \<sigma>' \<and> echo_step G (flood E G st0 \<sigma>) (flood E G st0 \<sigma>')"
proof -
  let ?h = "run_hash E (Rg_root G) st0" and ?s = "N_state \<sigma> v"
  let ?n = "nrPrepareCommit (N_state \<sigma> v)"
  have "(Some u, v, MCommitment c) \<in># N_msgs \<sigma>" by (simp add: m)
  note ok = net_okD(2)[OF N this]
  then have v: "v \<in> Rg_nodes G" by simp
  have K: "node_ok ?h G st0 (N_phase \<sigma> v) (N_ready \<sigma> v) ?s v" by (rule net_okD(1)[OF N v])
  then have s: "index ?s = index (st0 (Rg_root G))" "has (ReceivedMessages ?s) ?h" "0 \<le> ?n"
    using ph by (auto simp: node_ok_def)
  have inf: "v \<in> ec_inf (flood E G st0 \<sigma>)" "v \<notin> ec_done (flood E G st0 \<sigma>)" using v s(2) ph by simp_all
  have par: "if v = Rg_root G then Parent ?s = None else \<exists>u \<in> set (Rg_nbr G v). Parent ?s = Some u"
    using flood_parent[OF all_invD(1)[OF I] inf(1)] by (auto split: if_splits)
  note cm = commit_message_ok[OF R v s(1) par, of u]
  have nat: "nat (?n + 1) = Suc (nat ?n)" using s(3) by simp
  have keep: "net_ok E G st0 \<sigma>'" if "node_ok ?h G st0 (N_phase \<sigma> v) (N_ready \<sigma> v \<or> ready) s' v"
    using that net_okD(2)[OF N] by (intro net_okI[OF N, of v]) (auto simp: t m)
  from ok consider "c = \<lparr>Cm_TYPE = LoopBreak, Cm_Commitment = None\<rparr>"
    | x where "c = \<lparr>Cm_TYPE = RoundPrepare, Cm_Commitment = Some x\<rparr>"
    by (auto simp: loop_break_def prepare_commitment_def)
  then show ?thesis
  proof cases
    case 1
    then have sr: "s' = ?s\<lparr>nrPrepareCommit := ?n + 1\<rparr>"
      "ready = (?n + 1 = int (length (filter (\<lambda>w. Parent ?s \<noteq> Some w) (Rg_nbr G v))))" using r cm(1) by simp_all
    have "flood E G st0 \<sigma>' = (flood E G st0 \<sigma>)\<lparr>ec_cnt := (ec_cnt (flood E G st0 \<sigma>))
        (v := Suc (ec_cnt (flood E G st0 \<sigma>) v)), ec_msgs := abs_msgs M\<rparr>"
      using v nat by (intro echo.equality) (auto simp: abs_net_def t sr fun_eq_iff)
    moreover have "node_ok ?h G st0 (N_phase \<sigma> v) (N_ready \<sigma> v \<or> ready) s' v"
      using K ph nat by (auto simp: node_ok_def sr)
    ultimately show ?thesis
      using keep inf step_brk[of "flood E G st0 \<sigma>" u v "abs_msgs M" G] by (simp add: m 1)
  next
    case (2 x)
    then have sr: "s' = ?s\<lparr>nrPrepareCommit := ?n + 1, tempPrepareCommit := tempPrepareCommit ?s @ [Some x],
        dynamicChildren := dynamicChildren ?s @ [u]\<rparr>"
      "ready = (?n + 1 = int (length (filter (\<lambda>w. Parent ?s \<noteq> Some w) (Rg_nbr G v))))" using r cm(2) by simp_all
    let ?f = "flood E G st0 \<sigma>"
    have "flood E G st0 \<sigma>' = ?f\<lparr>ec_cnt := (ec_cnt ?f)(v := Suc (ec_cnt ?f v)),
        ec_dyn := (ec_dyn ?f)(v := ec_dyn ?f v @ [u]), ec_val := (ec_val ?f)(v := ec_val ?f v @ [x]),
        ec_msgs := abs_msgs M\<rparr>"
      using v nat by (intro echo.equality) (auto simp: abs_net_def t sr fun_eq_iff)
    moreover have "node_ok ?h G st0 (N_phase \<sigma> v) (N_ready \<sigma> v \<or> ready) s' v"
      using K ph nat by (auto simp: node_ok_def sr)
    ultimately show ?thesis
      using keep inf step_com[of ?f u v x "abs_msgs M" G] by (simp add: m 2)
  qed
qed

lemma sim_send:
  assumes R: "ring_ok E G st0" and N: "net_ok E G st0 \<sigma>" and I: "all_inv G (flood E G st0 \<sigma>)"
    and ph: "N_phase \<sigma> v = ReadCommitments" and rd: "N_ready \<sigma> v \<or> commitChanClosed (N_state \<sigma> v)"
    and v: "v \<in> Rg_nodes G"
    and r: "finishCommitmentPrepare (E v) (N_state \<sigma> v) = Inr (s', as)"
    and t: "\<sigma>' = \<sigma>\<lparr>N_state := (N_state \<sigma>)(v := s'),
      N_phase := (N_phase \<sigma>)(v := CommitmentSent), N_msgs := N_msgs \<sigma> + outbox v as\<rparr>"
  shows "net_ok E G st0 \<sigma>' \<and> echo_step G (flood E G st0 \<sigma>) (flood E G st0 \<sigma>')"
proof -
  let ?h = "run_hash E (Rg_root G) st0" and ?s = "N_state \<sigma> v" and ?f = "flood E G st0 \<sigma>"
  have K: "node_ok ?h G st0 (N_phase \<sigma> v) (N_ready \<sigma> v) ?s v" by (rule net_okD(1)[OF N v])
  then have s: "index ?s = index (st0 (Rg_root G))" "has (ReceivedMessages ?s) ?h"
    "prepare ?s = prepare (st0 v)" "None \<notin> set (tempPrepareCommit ?s)"
    "length (filter (\<lambda>w. Parent ?s \<noteq> Some w) (Rg_nbr G v)) \<le> nat (nrPrepareCommit ?s)"
    using ph rd by (auto simp: node_ok_def)
  have inf: "v \<in> ec_inf ?f" "v \<notin> ec_done ?f" using v s(2) ph by simp_all
  have cnt: "ec_cnt ?f v = nat (nrPrepareCommit ?s)" using v by (simp add: abs_net_def)
  have full: "ec_cnt ?f v = length (targets G ?f v)"
    using inv_countD(1)[OF all_invD(2)[OF I] inf(1)] s(5) cnt by (simp add: flood_targets[OF v])
  note par = flood_parent[OF all_invD(1)[OF I] inf(1)]
  have keep: "net_ok E G st0 \<sigma>'" if "\<exists>c. s' = ?s\<lparr>prepare := c\<rparr>"
      "\<And>q. q \<in># outbox v as \<Longrightarrow> packet_ok G (run_ann (st0 (Rg_root G))) q"
    using that K ph net_okD(2)[OF N] by (intro net_okI[OF N, of v]) (auto simp: t node_ok_def)
  show ?thesis
  proof (cases "v = Rg_root G")
    case True
    then obtain c m where sa: "s' = ?s\<lparr>prepare := c\<rparr>" "as = [ToSelf (MChallengePrepare m)]"
      using finish_root[OF R] r by blast
    have "flood E G st0 \<sigma>' = ?f\<lparr>ec_done := insert v (ec_done ?f)\<rparr>"
      using v by (intro echo.equality) (auto simp: abs_net_def t sa fun_eq_iff)
    moreover have "net_ok E G st0 \<sigma>'" using keep sa True by auto
    ultimately show ?thesis using step_root[of G ?f] inf full True by simp
  next
    case False
    then obtain p where p: "Parent ?s = Some p" "p \<in> Rg_nodes G" using par by auto
    let ?x = "Rg_own G v + sum_list (map the (tempPrepareCommit ?s))"
    obtain c where sa: "s' = ?s\<lparr>prepare := c\<rparr>" "as = [Send p (prepare_commitment ?x)]"
      using finish_other[OF R v False s(1,3) p s(4)] r by auto
    have ep: "ec_parent ?f v = Some p" "ec_val ?f v = map the (tempPrepareCommit ?s)"
      using v p by (simp_all add: abs_net_def)
    have "flood E G st0 \<sigma>' = ?f\<lparr>ec_done := insert v (ec_done ?f),
        ec_msgs := add_mset (Com v p (Rg_own G v + sum_list (ec_val ?f v))) (ec_msgs ?f)\<rparr>"
      unfolding ep(2) using v by (intro echo.equality) (auto simp: abs_net_def t sa fun_eq_iff)
    moreover have "net_ok E G st0 \<sigma>'" using keep sa v p(2) by auto
    ultimately show ?thesis using step_done[OF inf False full ep(1)] by simp
  qed
qed

text \<open>Nodes outside the ring take no part: nothing is addressed to them.\<close>

lemma sim_step:
  assumes "prepare_step E \<sigma> \<sigma>'" "ring_ok E G st0" "net_ok E G st0 \<sigma>" "all_inv G (flood E G st0 \<sigma>)"
    and "\<forall>v. v \<notin> Rg_nodes G \<longrightarrow> N_phase \<sigma> v = WaitAnnouncement"
  shows "net_ok E G st0 \<sigma>' \<and> echo_step G (flood E G st0 \<sigma>) (flood E G st0 \<sigma>')
    \<and> (\<forall>v. v \<notin> Rg_nodes G \<longrightarrow> N_phase \<sigma>' v = WaitAnnouncement)"
  using assms(1)
proof cases
  case (deliver_announcement sender v a M s' as)
  have "Rg_root G \<in> Rg_nodes G" using ring_okD(1)[OF assms(2)] unfolding graph_ok_def by blast
  moreover have "(sender, v, MAnnounce a) \<in># N_msgs \<sigma>" using deliver_announcement(2) by simp
  note ok = net_okD(2)[OF assms(3) this]
  ultimately have "v \<in> Rg_nodes G" by (cases sender) auto
  then show ?thesis
    using sim_announcement[OF assms(2-4) deliver_announcement(2,3,1)] assms(5) deliver_announcement(1) by auto
next
  case (deliver_commitment u v c M ready s')
  then show ?thesis
    using sim_commitment[OF assms(2-4) deliver_commitment(2,3,5,1)] assms(5) by auto
next
  case (send_commitment v s' as)
  then have "v \<in> Rg_nodes G" using assms(5) by auto
  then show ?thesis
    using sim_send[OF assms(2-4) send_commitment(2,3) _ send_commitment(4,1)] assms(5) send_commitment(1) by auto
qed

lemma sim_init:
  assumes "prepare_init E (Rg_root G) st0 \<sigma>" "ring_ok E G st0"
  shows "net_ok E G st0 \<sigma>" "echo_init G (flood E G st0 \<sigma>)" "N_phase \<sigma> v = WaitAnnouncement"
proof -
  have s: "\<sigma> = \<lparr>N_state = st0, N_phase = (\<lambda>v. WaitAnnouncement), N_ready = (\<lambda>v. False),
      N_msgs = outbox (Rg_root G) (Start (st0 (Rg_root G)))\<rparr>"
    and new: "new_instance (E v) (st0 v)" for v
    using assms(1) by (simp_all add: prepare_init_def)
  have fresh: "ReceivedMessages (st0 v) = []" "Parent (st0 v) = None" "\<not> closing (st0 v)"
    "tempPrepareCommit (st0 v) = []" "nrPrepareCommit (st0 v) = 0" "dynamicChildren (st0 v) = []"
    "\<not> commitChanClosed (st0 v)" for v
    using new[of v] by (auto simp: new_instance_def NewBFTCoSiProtocol_def)
  have out: "outbox (Rg_root G) (Start (st0 (Rg_root G))) =
      {#(None, Rg_root G, MAnnounce (run_ann (st0 (Rg_root G)))),
        (None, Rg_root G, MAnnounceCommit \<lparr>AC_TYPE = RoundCommit, AC_Timeout = Timeout (st0 (Rg_root G))\<rparr>)#}"
    by (simp add: Start_def startAnnouncement_def run_ann_def)
  show "net_ok E G st0 \<sigma>"
    by (auto simp: net_ok_def s out node_ok_def fresh)
  show "echo_init G (flood E G st0 \<sigma>)"
    by (auto simp: echo_init_def abs_net_def s out fresh fun_eq_iff)
  show "N_phase \<sigma> v = WaitAnnouncement" by (simp add: s)
qed

lemma sim_reach:
  assumes "reach (prepare_init E (Rg_root G) st0) (prepare_step E) \<sigma>" "ring_ok E G st0"
  shows "net_ok E G st0 \<sigma> \<and> reach (echo_init G) (echo_step G) (flood E G st0 \<sigma>)
    \<and> (\<forall>v. v \<notin> Rg_nodes G \<longrightarrow> N_phase \<sigma> v = WaitAnnouncement)"
  using assms(1)
proof (induction rule: reach.induct)
  case (reach_init s)
  then show ?case using sim_init[OF reach_init assms(2)] by (auto intro: reach.reach_init)
next
  case (reach_step s t)
  then have "all_inv G (flood E G st0 s)"
    using echo.reachable_inv[of G "flood E G st0 s"] ring_okD(1)[OF assms(2)] by blast
  with reach_step sim_step[of E s t G st0] assms(2) show ?case by (auto intro: reach.reach_step)
qed

subsection \<open>Progress\<close>

lemma announcement_enabled:
  assumes R: "ring_ok E G st0" and N: "net_ok E G st0 \<sigma>" and I: "all_inv G (flood E G st0 \<sigma>)"
    and m: "(sender, v, MAnnounce a) \<in># N_msgs \<sigma>"
  shows "\<exists>s' as. readAnnouncement (E v) sender a (N_state \<sigma> v) = Inr (s', as)"
proof -
  let ?h = "run_hash E (Rg_root G) st0" and ?a = "run_ann (st0 (Rg_root G))"
  let ?m = "case sender of None \<Rightarrow> Kick | Some u \<Rightarrow> Ann u v"
  have root: "Rg_root G \<in> Rg_nodes G" using ring_okD(1)[OF R] unfolding graph_ok_def by blast
  note ok = net_okD(2)[OF N m]
  then have v: "v \<in> Rg_nodes G" and a: "a = ?a"
    using root by (cases sender; auto simp: loop_break_def prepare_commitment_def)+
  obtain M where "N_msgs \<sigma> = add_mset (sender, v, MAnnounce a) M" using multi_member_split[OF m] by blast
  then have mok: "msg_ok G (flood E G st0 \<sigma>) ?m"
    using inv_treeD(7)[OF all_invD(1)[OF I], of ?m] by (cases sender) auto
  have ti: "TreeIndex ?a = index (st0 (Rg_root G))" by (simp add: run_ann_def)
  have K: "node_ok ?h G st0 (N_phase \<sigma> v) (N_ready \<sigma> v) (N_state \<sigma> v) v" by (rule net_okD(1)[OF N v])
  then have c: "\<not> closing (N_state \<sigma> v)" by (simp add: node_ok_def)
  show ?thesis
  proof (cases "has (ReceivedMessages (N_state \<sigma> v)) ?h")
    case True
    then obtain u where "sender = Some u" "u \<in> Rg_nodes G" using mok v ok by (cases sender) auto
    then show ?thesis
      using readAnnouncement_again[OF R v ti c, of u] True run_hash_ring[OF R v] a by auto
  next
    case False
    then have "\<not> commitChanClosed (N_state \<sigma> v)" using K by (simp add: node_ok_def)
    moreover have "u \<in> set (Rg_nbr G v)" if "sender = Some u" for u
    proof -
      have "u \<in> Rg_nodes G" "v \<in> set (Rg_nbr G u)" using mok that by (auto simp: flood_targets)
      then show ?thesis using ring_okD(1)[OF R] unfolding graph_ok_def by blast
    qed
    ultimately show ?thesis
      using readAnnouncement_first[OF R v ti c, of sender] False run_hash_ring[OF R v] a by auto
  qed
qed

lemma commitment_enabled:
  assumes R: "ring_ok E G st0" and N: "net_ok E G st0 \<sigma>" and I: "all_inv G (flood E G st0 \<sigma>)"
    and m: "(Some u, v, MCommitment c) \<in># N_msgs \<sigma>"
  shows "N_phase \<sigma> v = ReadCommitments \<and> \<not> closing (N_state \<sigma> v)
    \<and> (\<exists>ready s'. commit_message (E v) RoundPrepare u c (N_state \<sigma> v) = Inr (ready, s'))"
proof -
  let ?h = "run_hash E (Rg_root G) st0" and ?f = "flood E G st0 \<sigma>"
  note ok = net_okD(2)[OF N m]
  then have v: "v \<in> Rg_nodes G" by simp
  obtain M where M: "N_msgs \<sigma> = add_mset (Some u, v, MCommitment c) M" using multi_member_split[OF m] by blast
  from ok consider "c = \<lparr>Cm_TYPE = LoopBreak, Cm_Commitment = None\<rparr>"
    | x where "c = \<lparr>Cm_TYPE = RoundPrepare, Cm_Commitment = Some x\<rparr>"
    by (auto simp: loop_break_def prepare_commitment_def)
  then obtain x where x: "x \<in># ec_msgs ?f" "reply_to v x"
  proof cases
    case 1
    with that[of "Brk u v"] M show ?thesis by simp
  next
    case (2 y)
    with that[of "Com u v y"] M show ?thesis by simp
  qed
  have inf: "v \<in> ec_inf ?f" using uninformed_silent(2)[OF all_invD(1)[OF I], of v] x by auto
  have nd: "v \<notin> ec_done ?f" using done_quiet(3)[OF ring_okD(1)[OF R] I, of v] x by auto
  have K: "node_ok ?h G st0 (N_phase \<sigma> v) (N_ready \<sigma> v) (N_state \<sigma> v) v" by (rule net_okD(1)[OF N v])
  then have ph: "N_phase \<sigma> v = ReadCommitments" and s: "index (N_state \<sigma> v) = index (st0 (Rg_root G))"
    "\<not> closing (N_state \<sigma> v)"
    using inf nd v by (cases "N_phase \<sigma> v"; auto simp: node_ok_def)+
  have par: "if v = Rg_root G then Parent (N_state \<sigma> v) = None else \<exists>u \<in> set (Rg_nbr G v). Parent (N_state \<sigma> v) = Some u"
    using flood_parent[OF all_invD(1)[OF I] inf] by (auto split: if_splits)
  from ok show ?thesis
    using commit_message_ok[OF R v s(1) par, of u] ph s(2)
    by (auto simp: loop_break_def prepare_commitment_def)
qed

text \<open>The challenge of the root can be created.\<close>

definition challenge_ok :: "('c, 'p, 's) CoSi \<Rightarrow> bool" where
  "challenge_ok C \<longleftrightarrow> (\<forall>c m. \<exists>r. CreateChallenge C c m = Inr r)"

lemma send_enabled:
  assumes R: "ring_ok E G st0" and N: "net_ok E G st0 \<sigma>" and I: "all_inv G (flood E G st0 \<sigma>)"
    and C: "challenge_ok (E_CoSi (E (Rg_root G)))" and nbr: "Rg_nbr G (Rg_root G) \<noteq> []"
    and v: "v \<in> ec_inf (flood E G st0 \<sigma>)" "v \<notin> ec_done (flood E G st0 \<sigma>)"
      "ec_cnt (flood E G st0 \<sigma>) v = length (targets G (flood E G st0 \<sigma>) v)"
  shows "N_phase \<sigma> v = ReadCommitments \<and> (N_ready \<sigma> v \<or> commitChanClosed (N_state \<sigma> v))
    \<and> (\<exists>s' as. finishCommitmentPrepare (E v) (N_state \<sigma> v) = Inr (s', as))"
proof -
  let ?h = "run_hash E (Rg_root G) st0" and ?f = "flood E G st0 \<sigma>" and ?s = "N_state \<sigma> v"
  have V: "v \<in> Rg_nodes G" using v(1) by simp
  have K: "node_ok ?h G st0 (N_phase \<sigma> v) (N_ready \<sigma> v) ?s v" by (rule net_okD(1)[OF N V])
  then have ph: "N_phase \<sigma> v = ReadCommitments" and s: "index ?s = index (st0 (Rg_root G))"
    "prepare ?s = prepare (st0 v)" "None \<notin> set (tempPrepareCommit ?s)" "0 \<le> nrPrepareCommit ?s"
    using v(1,2) V by (cases "N_phase \<sigma> v"; auto simp: node_ok_def)+
  note par = flood_parent[OF all_invD(1)[OF I] v(1)]
  let ?t = "filter (\<lambda>w. Parent ?s \<noteq> Some w) (Rg_nbr G v)"
  have "nat (nrPrepareCommit ?s) = length ?t" using v(3) by (simp add: flood_targets[OF V] flood_fields[OF V])
  then have cnt: "nrPrepareCommit ?s = int (length ?t)" using s(4) by simp
  have rdy: "N_ready \<sigma> v" if "?t \<noteq> []" using K cnt that unfolding node_ok_def by simp
  show ?thesis
  proof (cases "v = Rg_root G")
    case True
    then have "?t = Rg_nbr G v" using par by simp
    then have "N_ready \<sigma> v" using rdy nbr True by simp
    moreover obtain c x where "Commit (E_CoSi (E v)) (prepare ?s) (tempPrepareCommit ?s) = Inr (c, x)"
      using ring_okD(6)[OF R V] somes[OF s(3)] s(2) unfolding cosi_adds_def by metis
    moreover have "IsRoot (E v)" using IsRoot_ring[OF R V] True by simp
    ultimately show ?thesis
      using C True ph
      by (auto simp: finishCommitmentPrepare_def startChallenge_def challenge_ok_def split_beta res_bind_Inr_iff)
  next
    case False
    then obtain p where p: "p \<in> set (Rg_nbr G v)" "Parent ?s = Some p" "p \<in> Rg_nodes G" using par by auto
    have "N_ready \<sigma> v \<or> commitChanClosed ?s"
    proof (cases "?t = []")
      case True
      then have "set (Rg_nbr G v) \<subseteq> {p}" using p(2) by (auto simp: filter_empty_conv)
      moreover have "distinct (Rg_nbr G v)" using ring_okD(1)[OF R] V unfolding graph_ok_def by blast
      ultimately have "length (Rg_nbr G v) = 1"
        using p(1) by (metis distinct_card card_1_singleton_iff One_nat_def empty_iff subset_singletonD)
      then show ?thesis using K ph p(2) by (simp add: node_ok_def)
    qed (use rdy in simp)
    then show ?thesis using finish_other[OF R V False s(1,2) p(2,3) s(3)] ph by auto
  qed
qed

lemma prepare_progress:
  assumes R: "ring_ok E G st0" and N: "net_ok E G st0 \<sigma>" and I: "all_inv G (flood E G st0 \<sigma>)"
    and C: "challenge_ok (E_CoSi (E (Rg_root G)))" and nbr: "Rg_nbr G (Rg_root G) \<noteq> []"
    and open_root: "N_phase \<sigma> (Rg_root G) \<noteq> CommitmentSent"
  shows "\<exists>\<sigma>'. prepare_step E \<sigma> \<sigma>'"
proof (cases "\<exists>sender v a. (sender, v, MAnnounce a) \<in># N_msgs \<sigma>")
  case True
  then obtain sender v a M where M: "N_msgs \<sigma> = add_mset (sender, v, MAnnounce a) M"
    by (metis multi_member_split)
  obtain s' as where "readAnnouncement (E v) sender a (N_state \<sigma> v) = Inr (s', as)"
    using announcement_enabled[OF R N I, of sender v a] M by auto
  then show ?thesis using deliver_announcement[of \<sigma> sender v a M E s' as, OF M] by blast
next
  case noann: False
  show ?thesis
  proof (cases "\<exists>u v c. (Some u, v, MCommitment c) \<in># N_msgs \<sigma>")
    case True
    then obtain u v c M where M: "N_msgs \<sigma> = add_mset (Some u, v, MCommitment c) M"
      by (metis multi_member_split)
    then have "(Some u, v, MCommitment c) \<in># N_msgs \<sigma>" by simp
    from commitment_enabled[OF R N I this] show ?thesis
      using deliver_commitment[OF M] by blast
  next
    case False
    have "abs_packet q = {#}" if "q \<in># N_msgs \<sigma>" for q
      using that noann False by (cases q rule: abs_packet.cases) auto
    then have "ec_msgs (flood E G st0 \<sigma>) = {#}" by (simp add: abs_msgs_def)
    moreover have "Rg_root G \<notin> ec_done (flood E G st0 \<sigma>)" using open_root by simp
    ultimately obtain v where "v \<in> ec_inf (flood E G st0 \<sigma>)" "v \<notin> ec_done (flood E G st0 \<sigma>)"
      "ec_cnt (flood E G st0 \<sigma>) v = length (targets G (flood E G st0 \<sigma>) v)"
      using quiet_full[OF ring_okD(1)[OF R] I] by blast
    from send_enabled[OF R N I C nbr this] show ?thesis using send_commitment by blast
  qed
qed

subsection \<open>Properties of the round\<close>

lemma reached_flood:
  assumes "ring_ok E G st0" "reach (prepare_init E (Rg_root G) st0) (prepare_step E) \<sigma>"
  shows "net_ok E G st0 \<sigma>" "all_inv G (flood E G st0 \<sigma>)"
    "\<forall>v. v \<notin> Rg_nodes G \<longrightarrow> N_phase \<sigma> v = WaitAnnouncement"
  using sim_reach[OF assms(2,1)] echo.reachable_inv[of G "flood E G st0 \<sigma>"] ring_okD(1)[OF assms(1)] by blast+

lemma reached_root_done:
  assumes "ring_ok E G st0" "N_phase \<sigma> (Rg_root G) = CommitmentSent"
  shows "Rg_root G \<in> ec_done (flood E G st0 \<sigma>)"
  using assms ring_okD(1)[OF assms(1)] by (simp add: graph_ok_def)

text \<open>C5: When the root of a connected ring has gathered the commitments of the prepare round, in
  whatever order the messages arrived, every node of the ring has committed; every node but the
  root has a neighbour as its parent and is reached from the root along parent links; and the
  children a node has recorded are, without repetition, exactly the nodes whose parent it is. The
  recorded children form a spanning tree of the ring.\<close>

theorem prepare_round_spanning_tree:
  assumes "ring_ok E G st0" "connected_graph G"
    and "reach (prepare_init E (Rg_root G) st0) (prepare_step E) \<sigma>"
    and "N_phase \<sigma> (Rg_root G) = CommitmentSent"
    and "v \<in> Rg_nodes G"
  shows "N_phase \<sigma> v = CommitmentSent
    \<and> (v \<noteq> Rg_root G \<longrightarrow> (\<exists>p \<in> set (Rg_nbr G v). Parent (N_state \<sigma> v) = Some p))
    \<and> (Rg_root G, v) \<in> {(a, b). b \<in> Rg_nodes G \<and> Parent (N_state \<sigma> b) = Some a}\<^sup>*
    \<and> distinct (dynamicChildren (N_state \<sigma> v))
    \<and> set (dynamicChildren (N_state \<sigma> v)) = {w \<in> Rg_nodes G. Parent (N_state \<sigma> w) = Some v}"
proof -
  note I = reached_flood[OF assms(1,3)]
  note T = root_done_tree[OF ring_okD(1)[OF assms(1)] assms(2) I(2) reached_root_done[OF assms(1,4)] assms(5)]
  have "{(a, b). ec_parent (flood E G st0 \<sigma>) b = Some a}
      = {(a, b). b \<in> Rg_nodes G \<and> Parent (N_state \<sigma> b) = Some a}"
    "{w \<in> Rg_nodes G. ec_parent (flood E G st0 \<sigma>) w = Some v}
      = {w \<in> Rg_nodes G. Parent (N_state \<sigma> w) = Some v}" by (auto simp: abs_net_def)
  then show ?thesis using T by (auto simp: flood_fields[OF assms(5)])
qed

text \<open>C6: The commitment the root computes at the end of the prepare round is the sum of the
  commitments of all nodes of the ring, each counted once.\<close>

theorem prepare_round_aggregate:
  assumes "ring_ok E G st0" "connected_graph G"
    and "reach (prepare_init E (Rg_root G) st0) (prepare_step E) \<sigma>"
    and "N_phase \<sigma> (Rg_root G) = CommitmentSent"
  shows "\<exists>c. Commit (E_CoSi (E (Rg_root G))) (prepare (st0 (Rg_root G)))
      (tempPrepareCommit (N_state \<sigma> (Rg_root G))) = Inr (c, \<Sum>w \<in> Rg_nodes G. Rg_own G w)"
proof -
  note I = reached_flood[OF assms(1,3)] and G = ring_okD(1)[OF assms(1)]
  let ?r = "Rg_root G" and ?cs = "tempPrepareCommit (N_state \<sigma> (Rg_root G))"
  have r: "?r \<in> Rg_nodes G" "finite (Rg_nodes G)" using G unfolding graph_ok_def by blast+
  have "sum_list (map the ?cs) = (\<Sum>w \<in> Rg_nodes G - {?r}. Rg_own G w)"
    using root_done_sum[OF G assms(2) I(2) reached_root_done[OF assms(1,4)]] r(1) by (simp add: flood_fields)
  then have "Rg_own G ?r + sum_list (map the ?cs) = (\<Sum>w \<in> Rg_nodes G. Rg_own G w)"
    using sum.remove[OF r(2,1), of "Rg_own G"] by simp
  moreover have "map Some (map the ?cs) = ?cs"
    using net_okD(1)[OF I(1) r(1)] by (intro somes) (simp add: node_ok_def)
  ultimately show ?thesis
    using ring_okD(6)[OF assms(1) r(1)] unfolding cosi_adds_def by metis
qed

text \<open>C8: The prepare round of a ring with more than its root cannot get stuck: as long as the root
  has not gathered its commitments, some message can be handled or some node can commit.\<close>

theorem prepare_round_no_deadlock:
  assumes "ring_ok E G st0" "Rg_nbr G (Rg_root G) \<noteq> []" "challenge_ok (E_CoSi (E (Rg_root G)))"
    and "reach (prepare_init E (Rg_root G) st0) (prepare_step E) \<sigma>"
    and "N_phase \<sigma> (Rg_root G) \<noteq> CommitmentSent"
  shows "\<exists>\<sigma>'. prepare_step E \<sigma> \<sigma>'"
  using prepare_progress[OF assms(1) reached_flood(1,2)[OF assms(1,4)] assms(3,2,5)] .

lemma run_measure:
  assumes "ring_ok E G st0"
  shows "(prepare_step E ^^ n) \<sigma> \<sigma>' \<Longrightarrow> reach (prepare_init E (Rg_root G) st0) (prepare_step E) \<sigma> \<Longrightarrow>
    reach (prepare_init E (Rg_root G) st0) (prepare_step E) \<sigma>'
    \<and> n + echo_measure G (flood E G st0 \<sigma>') \<le> echo_measure G (flood E G st0 \<sigma>)"
proof (induction n arbitrary: \<sigma>')
  case (Suc n)
  then obtain \<tau> where \<tau>: "(prepare_step E ^^ n) \<sigma> \<tau>" "prepare_step E \<tau> \<sigma>'" by auto
  with Suc have IH: "reach (prepare_init E (Rg_root G) st0) (prepare_step E) \<tau>"
    "n + echo_measure G (flood E G st0 \<tau>) \<le> echo_measure G (flood E G st0 \<sigma>)" by blast+
  note I = reached_flood[OF assms IH(1)]
  have "echo_measure G (flood E G st0 \<sigma>') < echo_measure G (flood E G st0 \<tau>)"
    using sim_step[OF \<tau>(2) assms I] echo_step_measure[OF _ ring_okD(1)[OF assms] I(2)] by blast
  with IH \<tau>(2) show ?case by (auto intro: reach.reach_step)
qed simp

text \<open>C9: The prepare round ends: from the start, no order of deliveries takes more than
  \<open>2 * n + 2 * d + 1\<close> steps, for \<open>n\<close> nodes and \<open>d\<close> the sum of their degrees.\<close>

theorem prepare_round_bound:
  assumes "ring_ok E G st0" "prepare_init E (Rg_root G) st0 \<sigma>" "(prepare_step E ^^ n) \<sigma> \<sigma>'"
  shows "n \<le> 2 * card (Rg_nodes G) + 2 * (\<Sum>v \<in> Rg_nodes G. length (Rg_nbr G v)) + 1"
proof -
  have "echo_init G (flood E G st0 \<sigma>)" by (rule sim_init(2)[OF assms(2,1)])
  then have "echo_measure G (flood E G st0 \<sigma>)
      = 2 * card (Rg_nodes G) + 2 * (\<Sum>v \<in> Rg_nodes G. length (Rg_nbr G v)) + 1"
    by (simp add: echo_init_def echo_measure_def sum_distrib_left)
  moreover have "n + echo_measure G (flood E G st0 \<sigma>') \<le> echo_measure G (flood E G st0 \<sigma>)"
    using run_measure[OF assms(1,3)] reach.reach_init[of "prepare_init E (Rg_root G) st0", OF assms(2)] by blast
  ultimately show ?thesis by linarith
qed

text \<open>Together: the root can always be brought to the end of the round.\<close>

lemma prepare_round_reaches_end:
  assumes "ring_ok E G st0" "Rg_nbr G (Rg_root G) \<noteq> []" "challenge_ok (E_CoSi (E (Rg_root G)))"
    and "reach (prepare_init E (Rg_root G) st0) (prepare_step E) \<sigma>"
  shows "\<exists>\<sigma>'. reach (prepare_init E (Rg_root G) st0) (prepare_step E) \<sigma>'
    \<and> N_phase \<sigma>' (Rg_root G) = CommitmentSent"
  using assms(4)
proof (induction "echo_measure G (flood E G st0 \<sigma>)" arbitrary: \<sigma> rule: less_induct)
  case less
  show ?case
  proof (cases "N_phase \<sigma> (Rg_root G) = CommitmentSent")
    case False
    note I = reached_flood[OF assms(1) less.prems]
    obtain \<tau> where \<tau>: "prepare_step E \<sigma> \<tau>"
      using prepare_progress[OF assms(1) I(1,2) assms(3,2) False] by blast
    then have "echo_measure G (flood E G st0 \<tau>) < echo_measure G (flood E G st0 \<sigma>)"
      using sim_step[OF \<tau> assms(1) I] echo_step_measure[OF _ ring_okD(1)[OF assms(1)] I(2)] by blast
    then show ?thesis using less.hyps less.prems \<tau> by (blast intro: reach.reach_step)
  qed (use less.prems in blast)
qed

subsection \<open>A ring of two nodes\<close>

definition pair_node :: "nat \<Rightarrow> TreeNode" where
  "pair_node k = \<lparr>Identity = \<lparr>SI_ID = k, SI_String = node_name (int k), SI_Host = [], SI_Public = node_name (int k)\<rparr>,
     RosterIndex = int k\<rparr>"

definition pair_nbr :: "TreeNode \<Rightarrow> TreeNode list" where
  "pair_nbr v = (if v = pair_node 0 then [pair_node 1] else [pair_node 0])"

definition pair_trees :: Trees where
  "pair_trees = \<lparr>Tree_Nodes = \<lparr>All_nodes = [line_node 0 0 0, line_node 1 3 1],
       ServerIdentityToName = [(0, node_name 0), (1, node_name 1)],
       ClusterBunchDistances = (\<lambda>a b. 0), Links = (\<lambda>a b. [])\<rparr>,
     GraphTrees = [(node_name 0, [\<lparr>ListOfNodes = map (\<lambda>k. \<lparr>Graph_Node = pair_node k,
       Children = pair_nbr (pair_node k), Graph_Parent = None\<rparr>) [0, 1]\<rparr>])],
     BinaryTrees = [(node_name 0, [\<lparr>Tree_Ptr = 7, Tree_List = map pair_node [0, 1]\<rparr>])]\<rparr>"

text \<open>A CoSi instance that adds up bytes; its state is its own commitment.\<close>

definition byte_cosi :: "(8 word, 8 word, 8 word) CoSi" where
  "byte_cosi = \<lparr>Commit = (\<lambda>c ps. if None \<in> set ps then Inl NilDereference else Inr (c, c + sum_list (map the ps))),
     CreateCommitment = (\<lambda>c. (c, c)), Challenge = (\<lambda>c ch. c), CreateChallenge = (\<lambda>c m. Inr (c, 0)),
     CreateResponse = (\<lambda>c. Inr (c, c)), CoSi_Response = (\<lambda>c rs. Inr (c, c + sum_list rs)),
     GetCommitment = (\<lambda>c. c), GetResponse = (\<lambda>c. c), CoSi_Signature = (\<lambda>c. [c, c])\<rparr>"

definition pair_env :: "TreeNode \<Rightarrow> (8 word, 8 word, 8 word) Env" where
  "pair_env v = \<lparr>Own = v, Root = pair_node 0, Svc = pair_trees, Publics = [1, 2], E_Suite = byte_suite,
     E_CoSi = byte_cosi, HashMsg = (\<lambda>a. []), VerificationFunction = (\<lambda>m d. True)\<rparr>"

definition pair_ring :: "(TreeNode, 8 word) ring" where
  "pair_ring = \<lparr>Rg_nodes = {pair_node 0, pair_node 1}, Rg_root = pair_node 0, Rg_nbr = pair_nbr,
     Rg_own = (\<lambda>v. if v = pair_node 0 then 5 else 7)\<rparr>"

definition pair_start :: "TreeNode \<Rightarrow> (8 word, 8 word, 8 word) bft" where
  "pair_start v = NewBFTCoSiProtocol (pair_env v) 7 2 (RosterIndex v) (Rg_own pair_ring v) 0"

lemma node_name_inj:
  "0 \<le> i \<Longrightarrow> i < 2 ^ 63 \<Longrightarrow> 0 \<le> j \<Longrightarrow> j < 2 ^ 63 \<Longrightarrow> node_name i = node_name j \<longleftrightarrow> i = j"
  using NodeNameToInt_node_name[of i] NodeNameToInt_node_name[of j] by (metis sum.inject(2))

lemma pair_nodes [simp]:
  "pair_node 0 \<noteq> pair_node (Suc 0)" "pair_node (Suc 0) \<noteq> pair_node 0" "node_id (pair_node k) = node_name (int k)"
  "node_name 0 \<noteq> node_name 1" "node_name 1 \<noteq> node_name 0"
  by (simp_all add: pair_node_def node_name_inj)

lemma pair_names [simp]:
  "GetServerIdentityToName (Tree_Nodes pair_trees) (Identity (pair_node 0)) = node_name 0"
  "GetServerIdentityToName (Tree_Nodes pair_trees) (Identity (pair_node (Suc 0))) = node_name 1"
  by (simp_all add: GetServerIdentityToName_def pair_trees_def pair_node_def map_get_def)

lemma pair_lookups:
  "GetByName (Tree_Nodes pair_trees) (node_name 0) = Inr (Some 0)"
  "GetByName (Tree_Nodes pair_trees) (node_name 1) = Inr (Some 1)"
  "FromGraphNodeToBinaryTreeNode pair_trees (pair_node 0) 0 (node_name 0) = Inr (Some (pair_node 0))"
  "FromGraphNodeToBinaryTreeNode pair_trees (pair_node (Suc 0)) 0 (node_name 0) = Inr (Some (pair_node (Suc 0)))"
  "FromBinaryNodeToGraphNode pair_trees (pair_node 0) 0 (node_name 0) = Inr (Some
     \<lparr>Graph_Node = pair_node 0, Children = [pair_node (Suc 0)], Graph_Parent = None\<rparr>)"
  "FromBinaryNodeToGraphNode pair_trees (pair_node (Suc 0)) 0 (node_name 0) = Inr (Some
     \<lparr>Graph_Node = pair_node (Suc 0), Children = [pair_node 0], Graph_Parent = None\<rparr>)"
  using NodeNameToInt_node_name[of 0] NodeNameToInt_node_name[of 1]
  by (simp_all add: GetByName_def pair_trees_def FromGraphNodeToBinaryTreeNode_def
      FromBinaryNodeToGraphNode_def slice_get_def map_get_def pair_nbr_def)

lemma pair_ring_graph: "graph_ok pair_ring" "connected_graph pair_ring"
  by (auto simp: graph_ok_def connected_graph_def pair_ring_def pair_nbr_def)

lemma pair_index: "index (pair_start (pair_node 0)) = 0"
  by (simp add: pair_start_def NewBFTCoSiProtocol_def pair_env_def getIndex_def pair_trees_def map_get_def
      GetServerIdentityToName_def pair_node_def)

lemma pair_ring_ok: "ring_ok pair_env pair_ring pair_start"
proof -
  have "lookups_ok (pair_env v) pair_ring 0 v" if "v \<in> Rg_nodes pair_ring" for v
    using that pair_lookups
    by (auto simp: lookups_ok_def pair_ring_def pair_env_def pair_nbr_def extra_parent_def)
  moreover have "cosi_adds (E_CoSi (pair_env v)) (prepare (pair_start v)) (Rg_own pair_ring v)" for v
    by (auto simp: cosi_adds_def pair_env_def byte_cosi_def pair_start_def NewBFTCoSiProtocol_def comp_def)
  moreover have "inj_on node_id (Rg_nodes pair_ring)" by (auto simp: pair_ring_def inj_on_def)
  ultimately show ?thesis
    using pair_ring_graph(1) pair_index by (simp add: ring_ok_def pair_ring_def pair_env_def)
qed

lemma pair_init: "\<exists>\<sigma>. prepare_init pair_env (Rg_root pair_ring) pair_start \<sigma>"
proof -
  have "new_instance (pair_env v) (pair_start v)" for v
    unfolding new_instance_def pair_start_def
    by (intro exI[of _ 7] exI[of _ 2] exI[of _ "RosterIndex v"] exI[of _ "Rg_own pair_ring v"] exI[of _ 0]
        exI[of _ "[]"] exI[of _ defaultTimeout]) (simp add: NewBFTCoSiProtocol_def)
  then show ?thesis by (auto simp: prepare_init_def)
qed

lemma pair_challenge: "Rg_nbr pair_ring (Rg_root pair_ring) \<noteq> []" "challenge_ok (E_CoSi (pair_env v))"
  by (simp_all add: pair_ring_def pair_nbr_def challenge_ok_def pair_env_def byte_cosi_def)

lemma pair_end:
  "\<exists>\<sigma>. reach (prepare_init pair_env (Rg_root pair_ring) pair_start) (prepare_step pair_env) \<sigma>
    \<and> N_phase \<sigma> (Rg_root pair_ring) = CommitmentSent"
proof -
  obtain \<sigma> where "prepare_init pair_env (Rg_root pair_ring) pair_start \<sigma>" using pair_init by blast
  then show ?thesis
    by (intro prepare_round_reaches_end[OF pair_ring_ok pair_challenge]) (rule reach.reach_init)
qed

theorem prepare_round_spanning_tree_witness:
  "\<exists>\<sigma>. reach (prepare_init pair_env (Rg_root pair_ring) pair_start) (prepare_step pair_env) \<sigma>
    \<and> N_phase \<sigma> (pair_node 1) = CommitmentSent
    \<and> Parent (N_state \<sigma> (pair_node 1)) = Some (pair_node 0)"
proof -
  obtain \<sigma> where \<sigma>: "reach (prepare_init pair_env (Rg_root pair_ring) pair_start) (prepare_step pair_env) \<sigma>"
    "N_phase \<sigma> (Rg_root pair_ring) = CommitmentSent" using pair_end by blast
  have "pair_node 1 \<in> Rg_nodes pair_ring" "pair_node 1 \<noteq> Rg_root pair_ring"
    "Rg_nbr pair_ring (pair_node 1) = [pair_node 0]"
    by (simp_all add: pair_ring_def pair_nbr_def)
  with prepare_round_spanning_tree[OF pair_ring_ok pair_ring_graph(2) \<sigma>, of "pair_node 1"] \<sigma>(1)
  show ?thesis by auto
qed

theorem prepare_round_aggregate_witness:
  "\<exists>\<sigma> c. reach (prepare_init pair_env (Rg_root pair_ring) pair_start) (prepare_step pair_env) \<sigma>
    \<and> Commit byte_cosi 5 (tempPrepareCommit (N_state \<sigma> (pair_node 0))) = Inr (c, 12)"
proof -
  obtain \<sigma> where \<sigma>: "reach (prepare_init pair_env (Rg_root pair_ring) pair_start) (prepare_step pair_env) \<sigma>"
    "N_phase \<sigma> (Rg_root pair_ring) = CommitmentSent" using pair_end by blast
  have "prepare (pair_start (pair_node 0)) = 5"
    by (simp add: pair_start_def NewBFTCoSiProtocol_def pair_ring_def)
  with prepare_round_aggregate[OF pair_ring_ok pair_ring_graph(2) \<sigma>] \<sigma>(1)
  show ?thesis by (auto simp: pair_ring_def pair_env_def)
qed

theorem prepare_round_no_deadlock_witness:
  "\<exists>\<sigma> \<sigma>'. prepare_init pair_env (Rg_root pair_ring) pair_start \<sigma> \<and> prepare_step pair_env \<sigma> \<sigma>'"
proof -
  obtain \<sigma> where \<sigma>: "prepare_init pair_env (Rg_root pair_ring) pair_start \<sigma>" using pair_init by blast
  then have "N_phase \<sigma> (Rg_root pair_ring) \<noteq> CommitmentSent" by (simp add: prepare_init_def)
  with prepare_round_no_deadlock[OF pair_ring_ok pair_challenge, of \<sigma>] \<sigma>
  show ?thesis by (blast intro: reach.reach_init)
qed

theorem prepare_round_bound_witness:
  "\<exists>\<sigma>. prepare_init pair_env (Rg_root pair_ring) pair_start \<sigma>
    \<and> (\<forall>n \<sigma>'. (prepare_step pair_env ^^ n) \<sigma> \<sigma>' \<longrightarrow> n \<le> 9)"
proof -
  obtain \<sigma> where \<sigma>: "prepare_init pair_env (Rg_root pair_ring) pair_start \<sigma>" using pair_init by blast
  have "n \<le> 9" if "(prepare_step pair_env ^^ n) \<sigma> \<sigma>'" for n \<sigma>'
    using prepare_round_bound[OF pair_ring_ok \<sigma> that] by (simp add: pair_ring_def pair_nbr_def)
  with \<sigma> show ?thesis by blast
qed

end
