(* ===== verification/Tree_Cast.thy ===== *)
theory Tree_Cast
  imports Go_Prelude "HOL-Library.Multiset"
begin

text \<open>
  Broadcast and convergecast on a rooted tree, the abstract specification of the three rounds of
  BFT-CoSi that follow the flood: a request goes down the tree from the root, every node passes
  it on to its children and, once it has all their answers, answers its parent with the sum of
  its own value and theirs. Shown here, for every order of deliveries: when the root has
  finished, all nodes have, each once, and the answers the root holds add up to the values of
  all other nodes; the cast cannot get stuck and ends.
\<close>

record 'n cast_tree =
  Tr_nodes :: "'n set"
  Tr_root :: 'n
  Tr_kids :: "'n \<Rightarrow> 'n list"
  Tr_par :: "'n \<Rightarrow> 'n option"

definition kid_rel :: "'n cast_tree \<Rightarrow> ('n \<times> 'n) set" where
  "kid_rel T = {(p, v). v \<in> Tr_nodes T \<and> Tr_par T v = Some p}"

definition tree_ok :: "'n cast_tree \<Rightarrow> bool" where
  "tree_ok T \<longleftrightarrow> finite (Tr_nodes T) \<and> Tr_root T \<in> Tr_nodes T \<and> Tr_par T (Tr_root T) = None
     \<and> (\<forall>v \<in> Tr_nodes T. distinct (Tr_kids T v)
          \<and> set (Tr_kids T v) = {w \<in> Tr_nodes T. Tr_par T w = Some v}
          \<and> (\<forall>p. Tr_par T v = Some p \<longrightarrow> p \<in> Tr_nodes T) \<and> (Tr_root T, v) \<in> (kid_rel T)\<^sup>*)"

datatype ('n, 'v) cmsg = Down 'n | Up 'n 'n 'v

record ('n, 'v) cast =
  ca_open :: "'n set"
  ca_done :: "'n set"
  ca_got :: "'n \<Rightarrow> ('n \<times> 'v) list"
  ca_msgs :: "('n, 'v) cmsg multiset"

definition answer :: "'n cast_tree \<Rightarrow> 'n \<Rightarrow> 'v \<Rightarrow> ('n, 'v) cmsg multiset" where
  "answer T v x = (case Tr_par T v of None \<Rightarrow> {#} | Some p \<Rightarrow> {#Up v p x#})"

definition cast_init :: "'n cast_tree \<Rightarrow> ('n, 'v) cast \<Rightarrow> bool" where
  "cast_init T s \<longleftrightarrow> s = \<lparr>ca_open = {}, ca_done = {}, ca_got = (\<lambda>v. []), ca_msgs = {#Down (Tr_root T)#}\<rparr>"

inductive cast_step :: "'n cast_tree \<Rightarrow> ('n \<Rightarrow> 'v :: ab_group_add) \<Rightarrow> ('n, 'v) cast \<Rightarrow> ('n, 'v) cast \<Rightarrow> bool"
  for T :: "'n cast_tree" and own :: "'n \<Rightarrow> 'v :: ab_group_add" where
  step_leaf: "ca_msgs s = add_mset (Down v) M \<Longrightarrow> Tr_kids T v = [] \<Longrightarrow>
    cast_step T own s (s\<lparr>ca_open := insert v (ca_open s), ca_done := insert v (ca_done s),
      ca_msgs := M + answer T v (own v)\<rparr>)"
| step_forward: "ca_msgs s = add_mset (Down v) M \<Longrightarrow> Tr_kids T v \<noteq> [] \<Longrightarrow>
    cast_step T own s (s\<lparr>ca_open := insert v (ca_open s), ca_msgs := M + mset (map Down (Tr_kids T v))\<rparr>)"
| step_got: "ca_msgs s = add_mset (Up u v x) M \<Longrightarrow>
    cast_step T own s (s\<lparr>ca_got := (ca_got s)(v := ca_got s v @ [(u, x)]), ca_msgs := M\<rparr>)"
| step_finish: "v \<in> ca_open s \<Longrightarrow> v \<notin> ca_done s \<Longrightarrow> length (ca_got s v) = length (Tr_kids T v) \<Longrightarrow>
    cast_step T own s (s\<lparr>ca_done := insert v (ca_done s),
      ca_msgs := ca_msgs s + answer T v (own v + sum_list (map snd (ca_got s v)))\<rparr>)"

subsection \<open>Trees\<close>

lemma tree_okD:
  assumes "tree_ok T"
  shows "finite (Tr_nodes T)" "Tr_root T \<in> Tr_nodes T" "Tr_par T (Tr_root T) = None"
    "v \<in> Tr_nodes T \<Longrightarrow> distinct (Tr_kids T v)"
    "v \<in> Tr_nodes T \<Longrightarrow> set (Tr_kids T v) = {w \<in> Tr_nodes T. Tr_par T w = Some v}"
    "v \<in> Tr_nodes T \<Longrightarrow> Tr_par T v = Some p \<Longrightarrow> p \<in> Tr_nodes T"
    "v \<in> Tr_nodes T \<Longrightarrow> (Tr_root T, v) \<in> (kid_rel T)\<^sup>*"
  using assms unfolding tree_ok_def by blast+

lemma tree_parent:
  assumes "tree_ok T" "v \<in> Tr_nodes T" "v \<noteq> Tr_root T"
  obtains p where "Tr_par T v = Some p" "p \<in> Tr_nodes T" "v \<in> set (Tr_kids T p)"
proof -
  have "(Tr_root T, v) \<in> (kid_rel T)\<^sup>*" by (rule tree_okD(7)[OF assms(1,2)])
  then obtain p where "Tr_par T v = Some p" using assms(3) by (cases rule: rtranclE) (auto simp: kid_rel_def)
  then show thesis using that[of p] tree_okD(5)[OF assms(1), of p] tree_okD(6)[OF assms(1,2)] assms(2) by auto
qed

lemma tree_acyclic:
  assumes "tree_ok T" "v \<in> Tr_nodes T"
  shows "(v, v) \<notin> (kid_rel T)\<^sup>+"
  using tree_okD(7)[OF assms]
proof (induction rule: rtrancl_induct)
  case base
  then show ?case using tree_okD(3)[OF assms(1)] by (auto simp: kid_rel_def elim: tranclE)
next
  case (step a b)
  show ?case
  proof
    assume "(b, b) \<in> (kid_rel T)\<^sup>+"
    then obtain z where "(b, z) \<in> (kid_rel T)\<^sup>*" "(z, b) \<in> kid_rel T" by (metis tranclD2)
    then have "z = a" using step(2) by (simp add: kid_rel_def)
    then have "(a, a) \<in> (kid_rel T)\<^sup>+" using step(2) \<open>(b, z) \<in> _\<close> by (metis rtrancl_into_trancl2)
    then show False using step(3) by simp
  qed
qed

lemma tree_wf: "tree_ok T \<Longrightarrow> wf ((kid_rel T)\<inverse>)"
proof -
  assume T: "tree_ok T"
  have "kid_rel T \<subseteq> Tr_nodes T \<times> Tr_nodes T" using tree_okD(6)[OF T] by (auto simp: kid_rel_def)
  then have "finite (kid_rel T)" using tree_okD(1)[OF T] by (meson finite_SigmaI finite_subset)
  moreover have "acyclic (kid_rel T)"
  proof (rule acyclicI, rule allI)
    fix v show "(v, v) \<notin> (kid_rel T)\<^sup>+"
      using tree_acyclic[OF T, of v] \<open>kid_rel T \<subseteq> _\<close> by (auto dest: tranclD)
  qed
  ultimately show "wf ((kid_rel T)\<inverse>)" by (rule finite_acyclic_wf_converse)
qed

subsection \<open>Invariant\<close>

fun up_from :: "'n \<Rightarrow> ('n, 'v) cmsg \<Rightarrow> bool" where
  "up_from w (Up u v x) = (u = w)" | "up_from w (Down v) = False"

fun up_val :: "('n, 'v :: ab_group_add) cmsg \<Rightarrow> 'v" where
  "up_val (Up u v x) = x" | "up_val (Down v) = 0"

fun cmsg_ok :: "'n cast_tree \<Rightarrow> ('n, 'v) cmsg \<Rightarrow> bool" where
  "cmsg_ok T (Up u v x) = (u \<in> Tr_nodes T \<and> Tr_par T u = Some v)"
| "cmsg_ok T (Down v) = (v \<in> Tr_nodes T)"

definition told :: "'n cast_tree \<Rightarrow> ('n, 'v) cast \<Rightarrow> 'n \<Rightarrow> bool" where
  "told T s v \<longleftrightarrow> (case Tr_par T v of None \<Rightarrow> True | Some p \<Rightarrow> p \<in> ca_open s)"

definition inv_shape :: "'n cast_tree \<Rightarrow> ('n, 'v) cast \<Rightarrow> bool" where
  "inv_shape T s \<longleftrightarrow> ca_done s \<subseteq> ca_open s \<and> ca_open s \<subseteq> Tr_nodes T \<and> (\<forall>m \<in># ca_msgs s. cmsg_ok T m)
     \<and> (\<forall>v \<in> ca_open s. told T s v) \<and> (\<forall>v. v \<notin> ca_open s \<longrightarrow> ca_got s v = [])
     \<and> (\<forall>v \<in> Tr_nodes T. set (map fst (ca_got s v)) \<subseteq> set (Tr_kids T v))
     \<and> (\<forall>v \<in> ca_done s. length (ca_got s v) = length (Tr_kids T v))"

definition inv_down :: "'n cast_tree \<Rightarrow> ('n, 'v) cast \<Rightarrow> bool" where
  "inv_down T s \<longleftrightarrow>
     (\<forall>v \<in> Tr_nodes T. count (ca_msgs s) (Down v) = of_bool (v \<notin> ca_open s \<and> told T s v))"

definition inv_up :: "'n cast_tree \<Rightarrow> ('n, 'v) cast \<Rightarrow> bool" where
  "inv_up T s \<longleftrightarrow> (\<forall>v \<in> Tr_nodes T. \<forall>p. Tr_par T v = Some p \<longrightarrow>
     size (filter_mset (up_from v) (ca_msgs s)) + count_list (map fst (ca_got s p)) v = of_bool (v \<in> ca_done s))"

definition inv_total :: "'n cast_tree \<Rightarrow> ('n \<Rightarrow> 'v :: ab_group_add) \<Rightarrow> ('n, 'v) cast \<Rightarrow> bool" where
  "inv_total T own s \<longleftrightarrow> (\<Sum>w \<in> ca_done s - {Tr_root T}. own w)
     = sum_mset (image_mset up_val (ca_msgs s))
       + (\<Sum>v \<in> ca_open s - (ca_done s - {Tr_root T}). sum_list (map snd (ca_got s v)))"

definition cast_inv :: "'n cast_tree \<Rightarrow> ('n \<Rightarrow> 'v :: ab_group_add) \<Rightarrow> ('n, 'v) cast \<Rightarrow> bool" where
  "cast_inv T own s \<longleftrightarrow> inv_shape T s \<and> inv_down T s \<and> inv_up T s \<and> inv_total T own s"

lemma cast_invD:
  assumes "cast_inv T own s"
  shows "inv_shape T s" "inv_down T s" "inv_up T s" "inv_total T own s"
  using assms by (simp_all add: cast_inv_def)

lemma inv_shapeD:
  assumes "inv_shape T s"
  shows "ca_done s \<subseteq> ca_open s" "ca_open s \<subseteq> Tr_nodes T" "m \<in># ca_msgs s \<Longrightarrow> cmsg_ok T m"
    "v \<in> ca_open s \<Longrightarrow> told T s v" "v \<notin> ca_open s \<Longrightarrow> ca_got s v = []"
    "v \<in> Tr_nodes T \<Longrightarrow> set (map fst (ca_got s v)) \<subseteq> set (Tr_kids T v)"
    "v \<in> ca_done s \<Longrightarrow> length (ca_got s v) = length (Tr_kids T v)"
  using assms unfolding inv_shape_def by blast+

lemma inv_downD: "inv_down T s \<Longrightarrow> v \<in> Tr_nodes T \<Longrightarrow>
    count (ca_msgs s) (Down v) = of_bool (v \<notin> ca_open s \<and> told T s v)"
  by (simp add: inv_down_def)

lemma inv_upD: "inv_up T s \<Longrightarrow> v \<in> Tr_nodes T \<Longrightarrow> Tr_par T v = Some p \<Longrightarrow>
    size (filter_mset (up_from v) (ca_msgs s)) + count_list (map fst (ca_got s p)) v = of_bool (v \<in> ca_done s)"
  by (simp add: inv_up_def)

lemma told_simps [simp]:
  "told T (s\<lparr>ca_msgs := M\<rparr>) v = told T s v" "told T (s\<lparr>ca_got := g\<rparr>) v = told T s v"
  "told T (s\<lparr>ca_done := D\<rparr>) v = told T s v"
  "told T (s\<lparr>ca_open := insert u (ca_open s)\<rparr>) v \<longleftrightarrow> told T s v \<or> Tr_par T v = Some u"
  by (auto simp: told_def split: option.splits)

lemma downs_simps [simp]:
  "filter_mset (up_from w) (image_mset Down (mset ws)) = {#}"
  "sum_mset (image_mset up_val (image_mset Down (mset ws))) = 0"
  "count (image_mset Down (mset ws)) (Down w) = count (mset ws) w"
  by (induction ws) auto

lemma answer_simps [simp]:
  "count (answer T v x) (Down w) = 0"
  "filter_mset (up_from w) (answer T v x) = (if w = v then answer T v x else {#})"
  "size (answer T v x) = (if Tr_par T v = None then 0 else 1)"
  "sum_mset (image_mset up_val (answer T v x)) = (if Tr_par T v = None then 0 else x)"
  by (auto simp: answer_def split: option.splits)

lemma cast_init_inv: "tree_ok T \<Longrightarrow> cast_init T s \<Longrightarrow> cast_inv T own s"
proof -
  assume T: "tree_ok T" and s: "cast_init T s"
  have "told T s v \<longleftrightarrow> v = Tr_root T" if "v \<in> Tr_nodes T" for v
    using tree_okD(3)[OF T] s
    by (cases "v = Tr_root T") (auto simp: told_def cast_init_def elim: tree_parent[OF T that])
  then show ?thesis
    using s tree_okD(2)[OF T]
    by (auto simp: cast_inv_def inv_shape_def inv_down_def inv_up_def inv_total_def cast_init_def)
qed

text \<open>A request reaches a node that has not seen it, from its parent.\<close>

lemma down_new:
  assumes "tree_ok T" "cast_inv T own s" "ca_msgs s = add_mset (Down v) M"
  shows "v \<in> Tr_nodes T" "v \<notin> ca_open s" "told T s v" "count M (Down v) = 0"
proof -
  show v: "v \<in> Tr_nodes T" using inv_shapeD(3)[OF cast_invD(1)[OF assms(2)], of "Down v"] assms(3) by simp
  have "Suc (count M (Down v)) = of_bool (v \<notin> ca_open s \<and> told T s v)"
    using inv_downD[OF cast_invD(2)[OF assms(2)] v] assms(3) by simp
  then show "v \<notin> ca_open s" "told T s v" "count M (Down v) = 0"
    by (auto simp: of_bool_def split: if_splits)
qed

lemma forward_inv:
  assumes T: "tree_ok T" and I: "cast_inv T own s" and m: "ca_msgs s = add_mset (Down v) M"
  shows "cast_inv T own (s\<lparr>ca_open := insert v (ca_open s), ca_msgs := M + mset (map Down (Tr_kids T v))\<rparr>)"
    (is "cast_inv T own ?s")
proof -
  note J = cast_invD[OF I] and v = down_new[OF T I m]
  note sh = inv_shapeD[OF J(1)]
  have kids: "w \<in> set (Tr_kids T v) \<longleftrightarrow> w \<in> Tr_nodes T \<and> Tr_par T w = Some v" for w
    using tree_okD(5)[OF T v(1)] by simp
  have closed: "w \<notin> ca_open s" if "Tr_par T w = Some v" for w
    using sh(4)[of w] that v(2) by (auto simp: told_def)
  have noloop: "Tr_par T v \<noteq> Some v"
    using tree_acyclic[OF T v(1)] v(1) by (auto simp: kid_rel_def)
  have "inv_shape T ?s"
    using J(1) v(1,3) kids unfolding inv_shape_def m by (auto simp: told_def split: option.splits)
  moreover have "inv_down T ?s"
    unfolding inv_down_def
  proof
    fix w assume w: "w \<in> Tr_nodes T"
    have "count (mset (Tr_kids T v)) w = of_bool (Tr_par T w = Some v)"
      using kids w tree_okD(4)[OF T v(1)] by (simp add: distinct_count_atmost_1)
    moreover have "\<not> told T s w" if "Tr_par T w = Some v" using that v(2) by (simp add: told_def)
    ultimately show "count (ca_msgs ?s) (Down w) = of_bool (w \<notin> ca_open ?s \<and> told T ?s w)"
      using inv_downD[OF J(2) w] v(2-4) closed[of w] noloop
      by (cases "w = v"; cases "Tr_par T w = Some v") (auto simp: m)
  qed
  moreover have "inv_up T ?s" using J(3) by (simp add: inv_up_def m)
  moreover have "inv_total T own ?s"
  proof -
    have "v \<notin> ca_done s" using sh(1) v(2) by blast
    then have "insert v (ca_open s) - (ca_done s - {Tr_root T}) = insert v (ca_open s - (ca_done s - {Tr_root T}))"
      by auto
    moreover have "finite (ca_open s)" using sh(2) tree_okD(1)[OF T] by (rule finite_subset)
    ultimately show ?thesis using J(4) v(2) sh(5)[OF v(2)] by (simp add: inv_total_def m)
  qed
  ultimately show ?thesis by (simp add: cast_inv_def)
qed

lemma got_distinct:
  assumes "tree_ok T" "cast_inv T own s" "p \<in> Tr_nodes T"
  shows "distinct (map fst (ca_got s p))"
proof -
  have "count_list (map fst (ca_got s p)) w \<le> 1" for w
  proof (cases "w \<in> set (Tr_kids T p)")
    case True
    then have "w \<in> Tr_nodes T" "Tr_par T w = Some p" using tree_okD(5)[OF assms(1,3)] by auto
    from inv_upD[OF cast_invD(3)[OF assms(2)] this] show ?thesis by (auto simp: of_bool_def split: if_splits)
  next
    case False
    then have "w \<notin> set (map fst (ca_got s p))" using inv_shapeD(6)[OF cast_invD(1)[OF assms(2)] assms(3)] by blast
    then show ?thesis by (simp add: count_list_0_iff)
  qed
  then have "count (mset (map fst (ca_got s p))) w \<le> 1" for w unfolding count_mset .
  moreover have "1 \<le> count (mset (map fst (ca_got s p))) w" if "w \<in> set (map fst (ca_got s p))" for w
    using count_mset_gt_0[OF that] by linarith
  ultimately have "\<forall>w. count (mset (map fst (ca_got s p))) w = (if w \<in> set (map fst (ca_got s p)) then 1 else 0)"
    by (metis count_mset_0_iff le_antisym)
  then show ?thesis by (subst distinct_count_atmost_1)
qed

text \<open>A node that holds as many answers as it has children holds one of each.\<close>

lemma got_all:
  assumes "tree_ok T" "cast_inv T own s" "p \<in> Tr_nodes T" "length (ca_got s p) = length (Tr_kids T p)"
  shows "set (map fst (ca_got s p)) = set (Tr_kids T p)"
proof (rule card_subset_eq)
  show "set (map fst (ca_got s p)) \<subseteq> set (Tr_kids T p)"
    by (rule inv_shapeD(6)[OF cast_invD(1)[OF assms(2)] assms(3)])
  show "card (set (map fst (ca_got s p))) = card (set (Tr_kids T p))"
    using distinct_card[OF got_distinct[OF assms(1-3)]] distinct_card[OF tree_okD(4)[OF assms(1,3)]] assms(4) by simp
qed simp

text \<open>An answer on its way comes from a finished child of an open node that is not finished.\<close>

lemma up_open:
  assumes "tree_ok T" "cast_inv T own s" "ca_msgs s = add_mset (Up u v x) M"
  shows "u \<in> Tr_nodes T" "Tr_par T u = Some v" "u \<in> ca_done s" "v \<in> ca_open s" "v \<notin> ca_done s"
    "v \<in> Tr_nodes T" "u \<in> set (Tr_kids T v)"
proof -
  note J = cast_invD[OF assms(2)]
  note sh = inv_shapeD[OF J(1)]
  show u: "u \<in> Tr_nodes T" "Tr_par T u = Some v" using sh(3)[of "Up u v x"] assms(3) by auto
  have one: "1 + size (filter_mset (up_from u) M) + count_list (map fst (ca_got s v)) u = of_bool (u \<in> ca_done s)"
    using inv_upD[OF J(3) u] assms(3) by simp
  then show d: "u \<in> ca_done s" by (cases "u \<in> ca_done s") auto
  then have "told T s u" using sh(1,4) by blast
  then show o: "v \<in> ca_open s" using u(2) by (simp add: told_def)
  then show v: "v \<in> Tr_nodes T" using sh(2) by blast
  show k: "u \<in> set (Tr_kids T v)" using tree_okD(5)[OF assms(1) v] u by simp
  have "u \<notin> set (map fst (ca_got s v))" using one d count_list_0_iff[of "map fst (ca_got s v)" u] by simp
  then show "v \<notin> ca_done s" using got_all[OF assms(1,2) v] sh(7)[of v] k by blast
qed

lemma got_inv:
  assumes T: "tree_ok T" and I: "cast_inv T own s" and m: "ca_msgs s = add_mset (Up u v x) M"
  shows "cast_inv T own (s\<lparr>ca_got := (ca_got s)(v := ca_got s v @ [(u, x)]), ca_msgs := M\<rparr>)"
    (is "cast_inv T own ?s")
proof -
  note J = cast_invD[OF I] and v = up_open[OF T I m]
  have "inv_shape T ?s" using J(1) v unfolding inv_shape_def m by auto
  moreover have "inv_down T ?s" using J(2) by (simp add: inv_down_def m)
  moreover have "inv_up T ?s"
    unfolding inv_up_def
  proof (intro ballI allI impI)
    fix w p assume w: "w \<in> Tr_nodes T" "Tr_par T w = Some p"
    then show "size (filter_mset (up_from w) (ca_msgs ?s)) + count_list (map fst (ca_got ?s p)) w
        = of_bool (w \<in> ca_done ?s)"
      using inv_upD[OF J(3) w] v(2) by (auto simp: m count_list_append)
  qed
  moreover have "inv_total T own ?s"
  proof -
    have "finite (ca_open s)" using inv_shapeD(2)[OF J(1)] tree_okD(1)[OF T] by (rule finite_subset)
    then have f: "finite (ca_open s - (ca_done s - {Tr_root T}))" by simp
    moreover have "v \<in> ca_open s - (ca_done s - {Tr_root T})" using v by simp
    ultimately show ?thesis
      using J(4) by (simp add: inv_total_def m sum.remove algebra_simps)
  qed
  ultimately show ?thesis by (simp add: cast_inv_def)
qed

lemma finish_inv:
  assumes T: "tree_ok T" and I: "cast_inv T own s" and v: "v \<in> ca_open s" "v \<notin> ca_done s"
    and l: "length (ca_got s v) = length (Tr_kids T v)"
  shows "cast_inv T own (s\<lparr>ca_done := insert v (ca_done s),
      ca_msgs := ca_msgs s + answer T v (own v + sum_list (map snd (ca_got s v)))\<rparr>)"
    (is "cast_inv T own ?s")
proof -
  note J = cast_invD[OF I]
  have V: "v \<in> Tr_nodes T" using inv_shapeD(2)[OF J(1)] v(1) by blast
  have "cmsg_ok T m" if "m \<in># answer T v y" for m and y :: 'b
    using that V by (auto simp: answer_def split: option.splits)
  then have "inv_shape T ?s" using J(1) v l unfolding inv_shape_def by auto
  moreover have "inv_down T ?s" using J(2) by (simp add: inv_down_def)
  moreover have "inv_up T ?s"
    unfolding inv_up_def
  proof (intro ballI allI impI)
    fix w p assume w: "w \<in> Tr_nodes T" "Tr_par T w = Some p"
    show "size (filter_mset (up_from w) (ca_msgs ?s)) + count_list (map fst (ca_got ?s p)) w
        = of_bool (w \<in> ca_done ?s)"
      using inv_upD[OF J(3) w] v w(2) by (cases "w = v") auto
  qed
  moreover have "inv_total T own ?s"
  proof (cases "v = Tr_root T")
    case True
    then show ?thesis using J(4) tree_okD(3)[OF T] by (simp add: inv_total_def)
  next
    case False
    then obtain p where par: "Tr_par T v = Some p" using tree_parent[OF T V] by blast
    have fin: "finite (ca_open s)" using inv_shapeD(2)[OF J(1)] tree_okD(1)[OF T] by (rule finite_subset)
    then have d: "finite (ca_done s)" using inv_shapeD(1)[OF J(1)] by (rule rev_finite_subset)
    have "ca_open s - (insert v (ca_done s) - {Tr_root T}) = (ca_open s - (ca_done s - {Tr_root T})) - {v}"
      "insert v (ca_done s) - {Tr_root T} = insert v (ca_done s - {Tr_root T})"
      using False by auto
    moreover have "v \<in> ca_open s - (ca_done s - {Tr_root T})" using v by simp
    ultimately show ?thesis
      using J(4) par v fin d sum.remove[of "ca_open s - (ca_done s - {Tr_root T})" v "\<lambda>v. sum_list (map snd (ca_got s v))"]
      by (simp add: inv_total_def algebra_simps)
  qed
  ultimately show ?thesis by (simp add: cast_inv_def)
qed

lemma leaf_inv:
  assumes T: "tree_ok T" and I: "cast_inv T own s" and m: "ca_msgs s = add_mset (Down v) M"
    and k: "Tr_kids T v = []"
  shows "cast_inv T own (s\<lparr>ca_open := insert v (ca_open s), ca_done := insert v (ca_done s),
      ca_msgs := M + answer T v (own v)\<rparr>)"
proof -
  note v = down_new[OF T I m] and sh = inv_shapeD[OF cast_invD(1)[OF I]]
  have "v \<notin> ca_done s" "ca_got s v = []" using sh(1,5) v(2) by auto
  with finish_inv[OF T forward_inv[OF T I m], of v] k show ?thesis by simp
qed

lemma cast_step_inv:
  assumes "tree_ok T" "cast_step T own s t" "cast_inv T own s"
  shows "cast_inv T own t"
  using assms(2)
proof cases
  case (step_forward v M)
  show ?thesis unfolding step_forward(1) by (rule forward_inv[OF assms(1,3) step_forward(2)])
qed (auto intro: leaf_inv[OF assms(1,3)] got_inv[OF assms(1,3)] finish_inv[OF assms(1,3)])

definition cast_ok :: "'n cast_tree \<Rightarrow> ('n \<Rightarrow> 'v :: ab_group_add) \<Rightarrow> ('n, 'v) cast \<Rightarrow> bool" where
  "cast_ok T own s \<longleftrightarrow> (tree_ok T \<longrightarrow> cast_inv T own s)"

interpretation caster: invariant_system "cast_init T" "cast_step T own" "cast_ok T own"
  for T :: "'n cast_tree" and own :: "'n \<Rightarrow> 'v :: ab_group_add"
  by unfold_locales (auto simp: cast_ok_def intro: cast_init_inv cast_step_inv)

subsection \<open>When the root has finished\<close>

lemma done_kids:
  assumes "tree_ok T" "cast_inv T own s" "p \<in> ca_done s" "v \<in> Tr_nodes T" "Tr_par T v = Some p"
  shows "v \<in> ca_done s"
proof -
  note J = cast_invD[OF assms(2)]
  note sh = inv_shapeD[OF J(1)]
  have p: "p \<in> Tr_nodes T" using sh(1,2) assms(3) by blast
  then have "v \<in> set (map fst (ca_got s p))"
    using got_all[OF assms(1,2) p sh(7)[OF assms(3)]] tree_okD(5)[OF assms(1) p] assms(4,5) by blast
  then have "count_list (map fst (ca_got s p)) v \<noteq> 0" using count_list_0_iff by metis
  then show ?thesis using inv_upD[OF J(3) assms(4,5)] by (auto simp: of_bool_def split: if_splits)
qed

lemma cast_root_all:
  assumes "tree_ok T" "cast_inv T own s" "Tr_root T \<in> ca_done s"
  shows "ca_done s = Tr_nodes T" "ca_open s = Tr_nodes T"
proof -
  note sh = inv_shapeD[OF cast_invD(1)[OF assms(2)]]
  have "v \<in> ca_done s" if "v \<in> Tr_nodes T" for v
    using tree_okD(7)[OF assms(1) that]
  proof (induction rule: rtrancl_induct)
    case (step a b)
    then show ?case using done_kids[OF assms(1,2), of a b] by (simp add: kid_rel_def)
  qed (rule assms(3))
  then show "ca_done s = Tr_nodes T" "ca_open s = Tr_nodes T" using sh(1,2) by blast+
qed

lemma cast_root_quiet:
  assumes "tree_ok T" "cast_inv T own s" "Tr_root T \<in> ca_done s"
  shows "ca_msgs s = {#}"
proof (rule ccontr)
  assume "ca_msgs s \<noteq> {#}"
  then obtain m M where m: "ca_msgs s = add_mset m M" by (meson multiset_cases)
  note all = cast_root_all[OF assms]
  show False
  proof (cases m)
    case (Down v)
    then show False using down_new[OF assms(1,2), of v M] m all(2) by simp
  next
    case (Up u v x)
    then show False using up_open[OF assms(1,2), of u v x M] m all(1) by simp
  qed
qed

lemma cast_root_sum:
  assumes "tree_ok T" "cast_inv T own s" "Tr_root T \<in> ca_done s"
  shows "sum_list (map snd (ca_got s (Tr_root T))) = (\<Sum>w \<in> Tr_nodes T - {Tr_root T}. own w)"
proof -
  have "ca_open s - (ca_done s - {Tr_root T}) = {Tr_root T}"
    using cast_root_all[OF assms] tree_okD(2)[OF assms(1)] by auto
  then show ?thesis
    using cast_invD(4)[OF assms(2)] cast_root_quiet[OF assms] cast_root_all[OF assms]
    by (simp add: inv_total_def)
qed

lemma cast_root_full:
  assumes "tree_ok T" "cast_inv T own s" "length (ca_got s (Tr_root T)) = length (Tr_kids T (Tr_root T))"
    and "Tr_root T \<in> ca_open s"
  shows "sum_list (map snd (ca_got s (Tr_root T))) = (\<Sum>w \<in> Tr_nodes T - {Tr_root T}. own w)"
    and "Tr_nodes T - {Tr_root T} \<subseteq> ca_done s"
proof -
  note full = cast_root_sum cast_root_all(1)
  show "sum_list (map snd (ca_got s (Tr_root T))) = (\<Sum>w \<in> Tr_nodes T - {Tr_root T}. own w)"
  proof (cases "Tr_root T \<in> ca_done s")
    case False
    from full(1)[OF assms(1) finish_inv[OF assms(1,2,4) False assms(3)]] show ?thesis by simp
  qed (rule full(1)[OF assms(1,2)])
  show "Tr_nodes T - {Tr_root T} \<subseteq> ca_done s"
  proof (cases "Tr_root T \<in> ca_done s")
    case False
    from full(2)[OF assms(1) finish_inv[OF assms(1,2,4) False assms(3)]] show ?thesis by auto
  qed (use full(2)[OF assms(1,2)] in auto)
qed

subsection \<open>Progress and end\<close>

lemma cast_progress:
  assumes "tree_ok T" "cast_inv T own s" "Tr_root T \<notin> ca_done s" "ca_msgs s = {#}"
  obtains v where "v \<in> ca_open s" "v \<notin> ca_done s" "length (ca_got s v) = length (Tr_kids T v)"
proof -
  note J = cast_invD[OF assms(2)]
  note sh = inv_shapeD[OF J(1)]
  have opn: "v \<in> ca_open s" if "v \<in> Tr_nodes T" "told T s v" for v
    using inv_downD[OF J(2) that(1)] that(2) assms(4) by simp
  have "told T s (Tr_root T)" using tree_okD(3)[OF assms(1)] by (simp add: told_def)
  then have "Tr_root T \<in> ca_open s - ca_done s" using opn[OF tree_okD(2)[OF assms(1)]] assms(3) by blast
  then obtain v where v: "v \<in> ca_open s - ca_done s"
    "\<And>w. (w, v) \<in> (kid_rel T)\<inverse> \<Longrightarrow> w \<notin> ca_open s - ca_done s"
    using tree_wf[OF assms(1)] unfolding wf_eq_minimal by meson
  then have V: "v \<in> Tr_nodes T" using sh(2) by blast
  have "set (Tr_kids T v) \<subseteq> set (map fst (ca_got s v))"
  proof
    fix w assume "w \<in> set (Tr_kids T v)"
    then have w: "w \<in> Tr_nodes T" "Tr_par T w = Some v" using tree_okD(5)[OF assms(1) V] by auto
    then have "w \<in> ca_open s" using opn v(1) by (simp add: told_def)
    then have "w \<in> ca_done s" using v(2)[of w] w by (auto simp: kid_rel_def)
    then have "count_list (map fst (ca_got s v)) w = 1" using inv_upD[OF J(3) w] assms(4) by simp
    then show "w \<in> set (map fst (ca_got s v))" using count_list_0_iff[of "map fst (ca_got s v)" w] by force
  qed
  then have "set (Tr_kids T v) = set (map fst (ca_got s v))" using sh(6)[OF V] by blast
  then have "length (ca_got s v) = length (Tr_kids T v)"
    using distinct_card[OF got_distinct[OF assms(1,2) V]] distinct_card[OF tree_okD(4)[OF assms(1) V]] by simp
  with v(1) that show thesis by blast
qed

definition ups :: "('n, 'v) cmsg multiset \<Rightarrow> nat" where
  "ups M = size (filter_mset (\<lambda>m. \<exists>w. up_from w m) M)"

definition cast_measure :: "'n cast_tree \<Rightarrow> ('n, 'v) cast \<Rightarrow> nat" where
  "cast_measure T s = card (Tr_nodes T - ca_open s) + 2 * card (Tr_nodes T - ca_done s) + ups (ca_msgs s)"

lemma ups_simps [simp]:
  "ups {#} = 0" "ups (add_mset (Up u v x) M) = Suc (ups M)" "ups (add_mset (Down v) M) = ups M"
  "ups (M + N) = ups M + ups N" "ups (image_mset Down (mset ws)) = 0"
proof -
  show "ups {#} = 0" "ups (add_mset (Up u v x) M) = Suc (ups M)" "ups (add_mset (Down v) M) = ups M"
    "ups (M + N) = ups M + ups N" by (simp_all add: ups_def)
  show "ups (image_mset Down (mset ws)) = 0" by (induction ws) (simp_all add: ups_def)
qed

lemma ups_answer: "ups (answer T v x) \<le> 1"
  by (simp add: answer_def split: option.splits)

lemma cast_step_measure:
  assumes "tree_ok T" "cast_step T own s t" "cast_inv T own s"
  shows "cast_measure T t < cast_measure T s"
proof -
  note fin = tree_okD(1)[OF assms(1)] and sh = inv_shapeD[OF cast_invD(1)[OF assms(3)]]
  have less: "card (Tr_nodes T - insert v A) < card (Tr_nodes T - A)" if "v \<in> Tr_nodes T" "v \<notin> A" for v A
    using fin that by (intro psubset_card_mono) auto
  from assms(2) show ?thesis
  proof cases
    case (step_leaf v M)
    note v = down_new[OF assms(1,3) step_leaf(2)]
    have "v \<notin> ca_done s" using v(2) sh(1) by blast
    then show ?thesis
      using less[OF v(1,2)] less[OF v(1), of "ca_done s"] ups_answer[of T v "own v"] step_leaf
      by (simp add: cast_measure_def)
  next
    case (step_forward v M)
    note v = down_new[OF assms(1,3) step_forward(2)]
    then show ?thesis using less[OF v(1,2)] step_forward by (simp add: cast_measure_def)
  next
    case (step_finish v)
    have "v \<in> Tr_nodes T" using step_finish(2) sh(2) by blast
    from less[OF this step_finish(3)] show ?thesis
      using ups_answer[of T v "own v + sum_list (map snd (ca_got s v))"] step_finish by (simp add: cast_measure_def)
  qed (simp add: cast_measure_def)
qed

subsection \<open>Casts seen from outside\<close>

text \<open>
  A system that runs a cast may not remember from whom an answer came. A view has what such a
  system shows: who has been told, who has finished, the values each node holds, the senders
  where they are recorded, and the messages on their way.
\<close>

record ('n, 'v) cview =
  cv_open :: "'n set"
  cv_done :: "'n set"
  cv_vals :: "'n \<Rightarrow> 'v list"
  cv_who :: "'n \<Rightarrow> 'n list option"
  cv_msgs :: "('n, 'v) cmsg multiset"

definition views :: "'n cast_tree \<Rightarrow> ('n, 'v) cview \<Rightarrow> ('n, 'v) cast \<Rightarrow> bool" where
  "views T w a \<longleftrightarrow> ca_open a = cv_open w \<and> ca_done a = cv_done w \<and> ca_msgs a = cv_msgs w
     \<and> (\<forall>v \<in> Tr_nodes T. map snd (ca_got a v) = cv_vals w v
          \<and> (\<forall>ns. cv_who w v = Some ns \<longrightarrow> map fst (ca_got a v) = ns))"

definition view_inv :: "'n cast_tree \<Rightarrow> ('n \<Rightarrow> 'v :: ab_group_add) \<Rightarrow> ('n, 'v) cview \<Rightarrow> bool" where
  "view_inv T own w \<longleftrightarrow> (\<exists>a. cast_inv T own a \<and> views T w a)"

lemma view_invI: "cast_inv T own a \<Longrightarrow> views T w a \<Longrightarrow> view_inv T own w"
  by (auto simp: view_inv_def)

lemma view_init:
  assumes "tree_ok T" "cv_open w = {}" "cv_done w = {}" "cv_msgs w = {#Down (Tr_root T)#}"
    and "\<And>v. v \<in> Tr_nodes T \<Longrightarrow> cv_vals w v = [] \<and> cv_who w v \<in> {None, Some []}"
  shows "view_inv T own w"
proof -
  let ?a = "\<lparr>ca_open = {}, ca_done = {}, ca_got = (\<lambda>v. []), ca_msgs = {#Down (Tr_root T)#}\<rparr>"
  have "cast_inv T own ?a" by (rule cast_init_inv[OF assms(1)]) (simp add: cast_init_def)
  then show ?thesis by (rule view_invI) (use assms in \<open>fastforce simp: views_def\<close>)
qed

lemma view_same:
  assumes "view_inv T own w" "cv_open w' = cv_open w" "cv_done w' = cv_done w" "cv_msgs w' = cv_msgs w"
    and "\<And>v. v \<in> Tr_nodes T \<Longrightarrow> cv_vals w' v = cv_vals w v \<and> cv_who w' v = cv_who w v"
  shows "view_inv T own w'"
  using assms unfolding view_inv_def views_def by force

lemma view_down:
  assumes "tree_ok T" "view_inv T own w" "cv_msgs w = add_mset (Down v) M"
  shows "v \<in> Tr_nodes T" "v \<notin> cv_open w" "v \<notin> cv_done w" "cv_vals w v = []"
proof -
  obtain a where a: "cast_inv T own a" "views T w a" using assms(2) by (auto simp: view_inv_def)
  then have "ca_msgs a = add_mset (Down v) M" using assms(3) by (simp add: views_def)
  note v = down_new[OF assms(1) a(1) this] and sh = inv_shapeD[OF cast_invD(1)[OF a(1)]]
  then show "v \<in> Tr_nodes T" "v \<notin> cv_open w" "v \<notin> cv_done w" using a(2) by (auto simp: views_def)
  show "cv_vals w v = []" using a(2) v(1) sh(5)[OF v(2)] by (force simp: views_def)
qed

text \<open>A request below the root has passed the root.\<close>

lemma view_down_root:
  assumes T: "tree_ok T" and w: "view_inv T own w" and m: "cv_msgs w = add_mset (Down v) M" and v: "v \<noteq> Tr_root T"
  shows "Tr_root T \<in> cv_open w"
proof -
  obtain a where a: "cast_inv T own a" "views T w a" using w by (auto simp: view_inv_def)
  then have "ca_msgs a = add_mset (Down v) M" using m by (simp add: views_def)
  note n = down_new[OF T a(1) this] and sh = inv_shapeD[OF cast_invD(1)[OF a(1)]]
  obtain p where p: "Tr_par T v = Some p" "p \<in> Tr_nodes T" using tree_parent[OF T n(1) v] by blast
  have "(Tr_root T, p) \<in> (kid_rel T)\<^sup>*" by (rule tree_okD(7)[OF T p(2)])
  moreover have "p \<in> ca_open a" using n(3) p(1) by (simp add: told_def)
  ultimately have "Tr_root T \<in> ca_open a"
  proof (induction rule: rtrancl_induct)
    case (step x y)
    then show ?case using sh(4)[of y] by (simp add: kid_rel_def told_def)
  qed
  then show ?thesis using a(2) by (simp add: views_def)
qed

lemma view_forward:
  assumes T: "tree_ok T" and w: "view_inv T own w" and m: "cv_msgs w = add_mset (Down v) M"
    and w': "cv_open w' = insert v (cv_open w)" "cv_done w' = cv_done w"
      "cv_msgs w' = M + mset (map Down (Tr_kids T v))"
      "\<And>u. u \<in> Tr_nodes T \<Longrightarrow> cv_vals w' u = cv_vals w u \<and> cv_who w' u = cv_who w u"
  shows "view_inv T own w'"
proof -
  obtain a where a: "cast_inv T own a" "views T w a" using w by (auto simp: view_inv_def)
  then have "ca_msgs a = add_mset (Down v) M" using m by (simp add: views_def)
  from forward_inv[OF T a(1) this] show ?thesis
    by (rule view_invI) (use a(2) w' in \<open>simp add: views_def\<close>)
qed

lemma view_leaf:
  assumes T: "tree_ok T" and w: "view_inv T own w" and m: "cv_msgs w = add_mset (Down v) M" "Tr_kids T v = []"
    and w': "cv_open w' = insert v (cv_open w)" "cv_done w' = insert v (cv_done w)"
      "cv_msgs w' = M + answer T v (own v)"
      "\<And>u. u \<in> Tr_nodes T \<Longrightarrow> cv_vals w' u = cv_vals w u \<and> cv_who w' u = cv_who w u"
  shows "view_inv T own w'"
proof -
  obtain a where a: "cast_inv T own a" "views T w a" using w by (auto simp: view_inv_def)
  then have "ca_msgs a = add_mset (Down v) M" using m(1) by (simp add: views_def)
  from leaf_inv[OF T a(1) this m(2)] show ?thesis
    by (rule view_invI) (use a(2) w' in \<open>simp add: views_def\<close>)
qed

lemma view_up:
  assumes "tree_ok T" "view_inv T own w" "cv_msgs w = add_mset (Up u v x) M"
  shows "u \<in> Tr_nodes T" "v \<in> Tr_nodes T" "v \<in> cv_open w" "v \<notin> cv_done w" "u \<in> set (Tr_kids T v)"
    "length (cv_vals w v) < length (Tr_kids T v)"
proof -
  obtain a where a: "cast_inv T own a" "views T w a" using assms(2) by (auto simp: view_inv_def)
  then have m: "ca_msgs a = add_mset (Up u v x) M" using assms(3) by (simp add: views_def)
  note up = up_open[OF assms(1) a(1) m]
  then show "u \<in> Tr_nodes T" "v \<in> Tr_nodes T" "v \<in> cv_open w" "v \<notin> cv_done w" "u \<in> set (Tr_kids T v)"
    using a(2) by (auto simp: views_def)
  note J = got_inv[OF assms(1) a(1) m]
  have "card (set (map fst (ca_got a v @ [(u, x)]))) \<le> card (set (Tr_kids T v))"
    using inv_shapeD(6)[OF cast_invD(1)[OF J] up(6)] by (intro card_mono) auto
  moreover have "card (set (map fst (ca_got a v @ [(u, x)]))) = Suc (length (ca_got a v))"
    using distinct_card[OF got_distinct[OF assms(1) J up(6)]] by simp
  moreover have "length (cv_vals w v) = length (ca_got a v)" using a(2) up(6) by (metis length_map views_def)
  ultimately show "length (cv_vals w v) < length (Tr_kids T v)"
    using card_length[of "Tr_kids T v"] by linarith
qed

lemma view_got:
  assumes T: "tree_ok T" and w: "view_inv T own w" and m: "cv_msgs w = add_mset (Up u v x) M"
    and w': "cv_open w' = cv_open w" "cv_done w' = cv_done w" "cv_msgs w' = M"
      "cv_vals w' v = cv_vals w v @ [x]" "cv_who w' v = map_option (\<lambda>ns. ns @ [u]) (cv_who w v)"
      "\<And>z. z \<in> Tr_nodes T \<Longrightarrow> z \<noteq> v \<Longrightarrow> cv_vals w' z = cv_vals w z \<and> cv_who w' z = cv_who w z"
  shows "view_inv T own w'"
proof -
  obtain a where a: "cast_inv T own a" "views T w a" using w by (auto simp: view_inv_def)
  then have "ca_msgs a = add_mset (Up u v x) M" using m by (simp add: views_def)
  from got_inv[OF T a(1) this] show ?thesis
    by (rule view_invI) (use a(2) w' in \<open>auto simp: views_def\<close>)
qed

lemma view_finish:
  assumes T: "tree_ok T" and w: "view_inv T own w" and v: "v \<in> cv_open w" "v \<notin> cv_done w"
      "length (cv_vals w v) = length (Tr_kids T v)"
    and w': "cv_open w' = cv_open w" "cv_done w' = insert v (cv_done w)"
      "cv_msgs w' = cv_msgs w + answer T v (own v + sum_list (cv_vals w v))"
      "\<And>u. u \<in> Tr_nodes T \<Longrightarrow> cv_vals w' u = cv_vals w u \<and> cv_who w' u = cv_who w u"
  shows "view_inv T own w'"
proof -
  obtain a where a: "cast_inv T own a" "views T w a" using w by (auto simp: view_inv_def)
  then have o: "v \<in> ca_open a" "v \<notin> ca_done a" using v by (simp_all add: views_def)
  then have V: "v \<in> Tr_nodes T" using inv_shapeD(2)[OF cast_invD(1)[OF a(1)]] by blast
  then have g: "map snd (ca_got a v) = cv_vals w v" using a(2) by (simp add: views_def)
  then have "length (ca_got a v) = length (Tr_kids T v)" using v(3) by (metis length_map)
  from finish_inv[OF T a(1) o this] show ?thesis
    by (rule view_invI) (use a(2) w' g in \<open>simp add: views_def\<close>)
qed

lemma view_shape:
  assumes "view_inv T own w"
  shows "cv_done w \<subseteq> cv_open w" "cv_open w \<subseteq> Tr_nodes T"
    "v \<in> Tr_nodes T \<Longrightarrow> v \<notin> cv_open w \<Longrightarrow> cv_vals w v = []"
proof -
  obtain a where a: "cast_inv T own a" "views T w a" using assms by (auto simp: view_inv_def)
  note sh = inv_shapeD[OF cast_invD(1)[OF a(1)]]
  show "cv_done w \<subseteq> cv_open w" "cv_open w \<subseteq> Tr_nodes T" using a(2) sh(1,2) by (simp_all add: views_def)
  show "cv_vals w v = []" if "v \<in> Tr_nodes T" "v \<notin> cv_open w"
    using a(2) sh(5)[of v] that by (force simp: views_def)
qed

text \<open>A node that holds as many values as it has children, with recorded senders.\<close>

lemma view_full_who:
  assumes "tree_ok T" "view_inv T own w" "v \<in> Tr_nodes T" "length (cv_vals w v) = length (Tr_kids T v)"
    and "cv_who w v = Some ns"
  shows "set ns = set (Tr_kids T v)"
proof -
  obtain a where a: "cast_inv T own a" "views T w a" using assms(2) by (auto simp: view_inv_def)
  then have "map snd (ca_got a v) = cv_vals w v" "map fst (ca_got a v) = ns"
    using assms(3,5) by (auto simp: views_def)
  then show ?thesis using got_all[OF assms(1) a(1) assms(3)] assms(4) by (metis length_map)
qed

lemma view_root_done:
  assumes "tree_ok T" "view_inv T own w" "Tr_root T \<in> cv_done w"
  shows "cv_done w = Tr_nodes T" "cv_open w = Tr_nodes T" "cv_msgs w = {#}"
proof -
  obtain a where a: "cast_inv T own a" "views T w a" using assms(2) by (auto simp: view_inv_def)
  then have "Tr_root T \<in> ca_done a" using assms(3) by (simp add: views_def)
  from cast_root_all[OF assms(1) a(1) this] cast_root_quiet[OF assms(1) a(1) this]
  show "cv_done w = Tr_nodes T" "cv_open w = Tr_nodes T" "cv_msgs w = {#}" using a(2) unfolding views_def by metis+
qed

lemma view_root_full:
  assumes "tree_ok T" "view_inv T own w" "length (cv_vals w (Tr_root T)) = length (Tr_kids T (Tr_root T))"
    and "Tr_root T \<in> cv_open w"
  shows "own (Tr_root T) + sum_list (cv_vals w (Tr_root T)) = (\<Sum>v \<in> Tr_nodes T. own v)"
proof -
  obtain a where a: "cast_inv T own a" "views T w a" using assms(2) by (auto simp: view_inv_def)
  then have g: "map snd (ca_got a (Tr_root T)) = cv_vals w (Tr_root T)"
    using tree_okD(2)[OF assms(1)] by (simp add: views_def)
  then have "length (ca_got a (Tr_root T)) = length (Tr_kids T (Tr_root T))" using assms(3) by (metis length_map)
  from cast_root_full(1)[OF assms(1) a(1) this] show ?thesis
    using assms(4) a(2) g tree_okD(1,2)[OF assms(1)] by (simp add: views_def sum.remove[of _ "Tr_root T"])
qed

lemma view_progress:
  assumes "tree_ok T" "view_inv T own w" "Tr_root T \<notin> cv_done w" "cv_msgs w = {#}"
  obtains v where "v \<in> cv_open w" "v \<notin> cv_done w" "length (cv_vals w v) = length (Tr_kids T v)"
proof -
  obtain a where a: "cast_inv T own a" "views T w a" using assms(2) by (auto simp: view_inv_def)
  then have "Tr_root T \<notin> ca_done a" "ca_msgs a = {#}" using assms(3,4) by (simp_all add: views_def)
  from cast_progress[OF assms(1) a(1) this] obtain v where
    v: "v \<in> ca_open a" "v \<notin> ca_done a" "length (ca_got a v) = length (Tr_kids T v)" by blast
  then have "v \<in> Tr_nodes T" using inv_shapeD(2)[OF cast_invD(1)[OF a(1)]] by blast
  then have "map snd (ca_got a v) = cv_vals w v" using a(2) by (simp add: views_def)
  with v a(2) that show thesis by (metis length_map views_def)
qed

end
