(* ===== verification/Bft_Sign.thy ===== *)
theory Bft_Sign
  imports Bft_Prepare Tree_Cast
begin

text \<open>
  The rest of a run of BFT-CoSi (\<open>Dispatch\<close> of nyle/cosi\_service/bftcosi.go after the
  commitments of the prepare round): the commitments of the commit round, the challenge and the
  responses of the prepare round, the challenge and the responses of the commit round, on the
  tree the prepare round has recorded. \<open>sign_step\<close> is the network; each of the three
  rounds is shown to be a cast of \<open>Tree_Cast\<close>, and the run to end with a collective
  signature that \<open>Verify\<close> accepts.
\<close>

subsection \<open>The network\<close>

text \<open>Where a node's \<open>Dispatch\<close> is.\<close>

datatype stage = ReadCommits | WaitChallengePrepare | ReadPrepareResponses | WaitChallengeCommit
  | ReadCommitResponses | Finished

text \<open>\<open>S_ann\<close>: the goroutine of \<open>handleAnnouncementCommit\<close> has not got its message yet;
  \<open>S_ready\<close>: the reading loop of the stage has returned; \<open>S_sigs\<close>: the calls of
  \<open>onSignatureDone\<close>.\<close>

record ('c, 'p, 's) snet =
  S_state :: "TreeNode \<Rightarrow> ('c, 'p, 's) bft"
  S_stage :: "TreeNode \<Rightarrow> stage"
  S_ann :: "TreeNode \<Rightarrow> bool"
  S_ready :: "TreeNode \<Rightarrow> bool"
  S_msgs :: "('p, 's) packet multiset"
  S_sigs :: "'p BFTSignature list"

fun signatures :: "('p, 's) action list \<Rightarrow> 'p BFTSignature list" where
  "signatures [] = []"
| "signatures (SignatureDone sg # as) = sg # signatures as"
| "signatures (_ # as) = signatures as"

text \<open>\<open>Dispatch\<close> closes the response channel of a leaf before it reads the challenge.\<close>

definition close_leaf :: "('c, 'p, 's) bft \<Rightarrow> ('c, 'p, 's) bft" where
  "close_leaf s = (if isLocalityTreeLeaf s then s\<lparr>responseChanClosed := True\<rparr> else s)"

text \<open>A node moves to a stage with a new state and sends.\<close>

definition move ::
  "TreeNode \<Rightarrow> stage \<Rightarrow> ('c, 'p, 's) bft \<Rightarrow> ('p, 's) action list \<Rightarrow> ('p, 's) packet multiset \<Rightarrow> ('c, 'p, 's) snet
    \<Rightarrow> ('c, 'p, 's) snet" where
  "move v g s' as M \<sigma> = \<sigma>\<lparr>S_state := (S_state \<sigma>)(v := s'), S_stage := (S_stage \<sigma>)(v := g),
     S_ready := (S_ready \<sigma>)(v := False), S_msgs := M + outbox v as, S_sigs := S_sigs \<sigma> @ signatures as\<rparr>"

text \<open>
  The steps, in the order of \<open>Dispatch\<close>. A node without recorded children skips the reading
  stages: its challenge handlers answer at once. Before it reads the responses of the prepare
  round, a node spins until it has as many commitments of the commit round as of the prepare
  round, and at least one.
\<close>

inductive sign_step :: "(TreeNode \<Rightarrow> ('c, 'p :: ab_group_add, 's :: comm_ring) Env) \<Rightarrow> ('c, 'p, 's) snet
    \<Rightarrow> ('c, 'p, 's) snet \<Rightarrow> bool"
  for E :: "TreeNode \<Rightarrow> ('c, 'p :: ab_group_add, 's :: comm_ring) Env" where
  announce_commit: "S_msgs \<sigma> = add_mset (sender, v, MAnnounceCommit a) M \<Longrightarrow> S_ann \<sigma> v \<Longrightarrow>
    readAnnouncementCommit (E v) a (S_state \<sigma> v) = Inr (s', as) \<Longrightarrow>
    sign_step E \<sigma> (\<sigma>\<lparr>S_state := (S_state \<sigma>)(v := s'), S_ann := (S_ann \<sigma>)(v := False),
      S_msgs := M + outbox v as\<rparr>)"
| commitment_read: "S_msgs \<sigma> = add_mset (Some u, v, MCommitment c) M \<Longrightarrow> S_stage \<sigma> v = ReadCommits \<Longrightarrow>
    \<not> closing (S_state \<sigma> v) \<Longrightarrow> commit_message (E v) RoundCommit u c (S_state \<sigma> v) = Inr (ready, s') \<Longrightarrow>
    sign_step E \<sigma> (\<sigma>\<lparr>S_state := (S_state \<sigma>)(v := s'), S_ready := (S_ready \<sigma>)(v := S_ready \<sigma> v \<or> ready),
      S_msgs := M\<rparr>)"
| commitment_done: "S_stage \<sigma> v = ReadCommits \<Longrightarrow> S_ready \<sigma> v \<or> commitChanClosed (S_state \<sigma> v) \<Longrightarrow>
    finishCommitmentCommit (E v) (S_state \<sigma> v) = Inr (s', as) \<Longrightarrow>
    sign_step E \<sigma> (move v WaitChallengePrepare s' as (S_msgs \<sigma>) \<sigma>)"
| challenge_prepare: "S_msgs \<sigma> = add_mset (sender, v, MChallengePrepare ch) M \<Longrightarrow>
    S_stage \<sigma> v = WaitChallengePrepare \<Longrightarrow>
    handleChallengePrepare (E v) ch (close_leaf (S_state \<sigma> v)) = Inr (Some (s', as)) \<Longrightarrow>
    sign_step E \<sigma> (move v (if isLocalityTreeLeaf (S_state \<sigma> v) then WaitChallengeCommit else ReadPrepareResponses)
      s' as M \<sigma>)"
| prepare_response: "S_msgs \<sigma> = add_mset (Some u, v, MResponse r) M \<Longrightarrow>
    S_stage \<sigma> v = ReadPrepareResponses \<Longrightarrow> \<not> S_ready \<sigma> v \<Longrightarrow> \<not> closing (S_state \<sigma> v) \<Longrightarrow>
    length (tempCommitCommit (S_state \<sigma> v)) = length (tempPrepareCommit (S_state \<sigma> v)) \<Longrightarrow>
    tempPrepareCommit (S_state \<sigma> v) \<noteq> [] \<Longrightarrow>
    response_message RoundPrepare u r (S_state \<sigma> v) = (ready, s') \<Longrightarrow>
    sign_step E \<sigma> (\<sigma>\<lparr>S_state := (S_state \<sigma>)(v := s'), S_ready := (S_ready \<sigma>)(v := ready), S_msgs := M\<rparr>)"
| prepare_done: "S_stage \<sigma> v = ReadPrepareResponses \<Longrightarrow> S_ready \<sigma> v \<or> responseChanClosed (S_state \<sigma> v) \<Longrightarrow>
    finishResponsePrepare (E v) (S_state \<sigma> v) = Inr (s', as) \<Longrightarrow>
    sign_step E \<sigma> (move v WaitChallengeCommit s' as (S_msgs \<sigma>) \<sigma>)"
| challenge_commit: "S_msgs \<sigma> = add_mset (sender, v, MChallengeCommit cc) M \<Longrightarrow>
    S_stage \<sigma> v = WaitChallengeCommit \<Longrightarrow>
    handleChallengeCommit (E v) cc (S_state \<sigma> v) = Inr (Some (s', as)) \<Longrightarrow>
    sign_step E \<sigma> (move v (if isLocalityTreeLeaf (S_state \<sigma> v) then Finished else ReadCommitResponses) s' as M \<sigma>)"
| commit_response: "S_msgs \<sigma> = add_mset (Some u, v, MResponse r) M \<Longrightarrow>
    S_stage \<sigma> v = ReadCommitResponses \<Longrightarrow> \<not> S_ready \<sigma> v \<Longrightarrow> \<not> closing (S_state \<sigma> v) \<Longrightarrow>
    response_message RoundCommit u r (S_state \<sigma> v) = (ready, s') \<Longrightarrow>
    sign_step E \<sigma> (\<sigma>\<lparr>S_state := (S_state \<sigma>)(v := s'), S_ready := (S_ready \<sigma>)(v := ready), S_msgs := M\<rparr>)"
| commit_done: "S_stage \<sigma> v = ReadCommitResponses \<Longrightarrow> S_ready \<sigma> v \<or> responseChanClosed (S_state \<sigma> v) \<Longrightarrow>
    finishResponseCommit (E v) (S_state \<sigma> v) = Inr (s', as) \<Longrightarrow>
    sign_step E \<sigma> (move v Finished s' as (S_msgs \<sigma>) \<sigma>)"

text \<open>A network in which the root has gathered the commitments of the prepare round goes on:
  a node with recorded children reads commitments, a leaf waits for the challenge.\<close>

definition sign_init :: "('c, 'p, 's) net \<Rightarrow> ('c, 'p, 's) snet \<Rightarrow> bool" where
  "sign_init \<sigma> \<tau> \<longleftrightarrow> \<tau> = \<lparr>S_state = N_state \<sigma>,
     S_stage = (\<lambda>v. if isLocalityTreeLeaf (N_state \<sigma> v) then WaitChallengePrepare else ReadCommits),
     S_ann = (\<lambda>v. True), S_ready = (\<lambda>v. False), S_msgs = N_msgs \<sigma>, S_sigs = []\<rparr>"

subsection \<open>The CoSi library\<close>

text \<open>
  What \<open>crypto.CoSi\<close> holds, as far as the protocol can tell: the private key, the random
  scalar it will draw next, the one it holds, the aggregate commitment, the challenge and the
  aggregate response. The laws are the documented behaviour of its operations: a
  commitment commits to a random scalar, the aggregate adds the ones of the children, the
  challenge hashes the aggregate commitment, the aggregate key and the message, the response is
  the random scalar plus the challenge times the private key, the signature is the aggregate
  commitment, the aggregate response and a mask.
\<close>

record ('p, 's) cosi_view =
  V_key :: 's
  V_next :: 's
  V_random :: "'s option"
  V_commit :: "'p option"
  V_challenge :: "'s option"
  V_response :: "'s option"

definition cosi_laws ::
  "('p :: ab_group_add, 's :: comm_ring) Suite \<Rightarrow> 'p \<Rightarrow> ('c \<Rightarrow> ('p, 's) cosi_view) \<Rightarrow> ('c, 'p, 's) CoSi \<Rightarrow> bool" where
  "cosi_laws S A vw C \<longleftrightarrow>
     (\<forall>c. \<exists>c'. CreateCommitment C c = (c', BaseMul S (V_next (vw c)))
        \<and> vw c' = (vw c)\<lparr>V_random := Some (V_next (vw c))\<rparr>)
     \<and> (\<forall>c ps. \<exists>c'. Commit C c (map Some ps) = Inr (c', BaseMul S (V_next (vw c)) + sum_list ps)
        \<and> vw c' = (vw c)\<lparr>V_random := Some (V_next (vw c)),
                         V_commit := Some (BaseMul S (V_next (vw c)) + sum_list ps)\<rparr>)
     \<and> (\<forall>c m q. V_commit (vw c) = Some q \<longrightarrow>
          (\<exists>c'. CreateChallenge C c m = Inr (c', recreate_challenge S q A m)
            \<and> vw c' = (vw c)\<lparr>V_challenge := Some (recreate_challenge S q A m)\<rparr>))
     \<and> (\<forall>c k. vw (Challenge C c k) = (vw c)\<lparr>V_challenge := Some k\<rparr>)
     \<and> (\<forall>c r k. V_random (vw c) = Some r \<and> V_challenge (vw c) = Some k \<longrightarrow>
          (\<exists>c'. CreateResponse C c = Inr (c', r + k * V_key (vw c)) \<and> vw c' = (vw c)\<lparr>V_random := None\<rparr>))
     \<and> (\<forall>c r k rs. V_random (vw c) = Some r \<and> V_challenge (vw c) = Some k \<longrightarrow>
          (\<exists>c'. CoSi_Response C c rs = Inr (c', r + k * V_key (vw c) + sum_list rs)
            \<and> vw c' = (vw c)\<lparr>V_random := None, V_response := Some (r + k * V_key (vw c) + sum_list rs)\<rparr>))
     \<and> (\<forall>c q r. V_commit (vw c) = Some q \<and> V_response (vw c) = Some r \<longrightarrow>
          (\<exists>m. CoSi_Signature C c = MarshalPoint S q @ MarshalScalar S r @ m))"

lemma cosi_lawsD:
  assumes "cosi_laws S A vw C"
  shows "\<exists>c'. CreateCommitment C c = (c', BaseMul S (V_next (vw c)))
        \<and> vw c' = (vw c)\<lparr>V_random := Some (V_next (vw c))\<rparr>"
    "\<exists>c'. Commit C c (map Some ps) = Inr (c', BaseMul S (V_next (vw c)) + sum_list ps)
        \<and> vw c' = (vw c)\<lparr>V_random := Some (V_next (vw c)),
                         V_commit := Some (BaseMul S (V_next (vw c)) + sum_list ps)\<rparr>"
    "V_commit (vw c) = Some q \<Longrightarrow> \<exists>c'. CreateChallenge C c m = Inr (c', recreate_challenge S q A m)
            \<and> vw c' = (vw c)\<lparr>V_challenge := Some (recreate_challenge S q A m)\<rparr>"
    "vw (Challenge C c k) = (vw c)\<lparr>V_challenge := Some k\<rparr>"
    "V_random (vw c) = Some r \<Longrightarrow> V_challenge (vw c) = Some k \<Longrightarrow>
      \<exists>c'. CreateResponse C c = Inr (c', r + k * V_key (vw c)) \<and> vw c' = (vw c)\<lparr>V_random := None\<rparr>"
    "V_random (vw c) = Some r \<Longrightarrow> V_challenge (vw c) = Some k \<Longrightarrow>
      \<exists>c'. CoSi_Response C c rs = Inr (c', r + k * V_key (vw c) + sum_list rs)
            \<and> vw c' = (vw c)\<lparr>V_random := None, V_response := Some (r + k * V_key (vw c) + sum_list rs)\<rparr>"
    "V_commit (vw c) = Some q \<Longrightarrow> V_response (vw c) = Some y \<Longrightarrow>
      \<exists>m. CoSi_Signature C c = MarshalPoint S q @ MarshalScalar S y @ m"
  using assms unfolding cosi_laws_def by blast+

subsection \<open>A run\<close>

text \<open>
  The constants of a run: the recorded tree, the private keys, the random scalars of the two
  rounds, the message with its data, the index of the tree, the suite, the roster's keys, and
  the view of the CoSi states.
\<close>

record ('c, 'p, 's) run =
  Ru_tree :: "TreeNode cast_tree"
  Ru_key :: "TreeNode \<Rightarrow> 's"
  Ru_r1 :: "TreeNode \<Rightarrow> 's"
  Ru_r2 :: "TreeNode \<Rightarrow> 's"
  Ru_msg :: octets
  Ru_data :: octets
  Ru_index :: int
  Ru_suite :: "('p, 's) Suite"
  Ru_publics :: "'p list"
  Ru_view :: "'c \<Rightarrow> ('p, 's) cosi_view"

abbreviation run_nodes :: "('c, 'p, 's) run \<Rightarrow> TreeNode set" where
  "run_nodes R \<equiv> Tr_nodes (Ru_tree R)"

abbreviation run_root :: "('c, 'p, 's) run \<Rightarrow> TreeNode" where
  "run_root R \<equiv> Tr_root (Ru_tree R)"

definition own_commit :: "('c, 'p, 's) run \<Rightarrow> TreeNode \<Rightarrow> 'p" where
  "own_commit R v = BaseMul (Ru_suite R) (Ru_r2 R v)"

definition commit1 :: "('c, 'p :: ab_group_add, 's :: comm_ring) run \<Rightarrow> 'p" where
  "commit1 R = (\<Sum>v \<in> run_nodes R. BaseMul (Ru_suite R) (Ru_r1 R v))"

definition commit2 :: "('c, 'p :: ab_group_add, 's :: comm_ring) run \<Rightarrow> 'p" where
  "commit2 R = (\<Sum>v \<in> run_nodes R. own_commit R v)"

definition chal1 :: "('c, 'p :: ab_group_add, 's :: comm_ring) run \<Rightarrow> 's" where
  "chal1 R = recreate_challenge (Ru_suite R) (commit1 R) (agg_public (Ru_publics R))
     (Sha512 (Ru_suite R) (Ru_msg R))"

definition chal2 :: "('c, 'p :: ab_group_add, 's :: comm_ring) run \<Rightarrow> 's" where
  "chal2 R = recreate_challenge (Ru_suite R) (commit2 R) (agg_public (Ru_publics R)) (Ru_msg R)"

definition own_response1 :: "('c, 'p :: ab_group_add, 's :: comm_ring) run \<Rightarrow> TreeNode \<Rightarrow> 's" where
  "own_response1 R v = Ru_r1 R v + chal1 R * Ru_key R v"

definition own_response2 :: "('c, 'p :: ab_group_add, 's :: comm_ring) run \<Rightarrow> TreeNode \<Rightarrow> 's" where
  "own_response2 R v = Ru_r2 R v + chal2 R * Ru_key R v"

definition response1 :: "('c, 'p :: ab_group_add, 's :: comm_ring) run \<Rightarrow> 's" where
  "response1 R = (\<Sum>v \<in> run_nodes R. own_response1 R v)"

definition response2 :: "('c, 'p :: ab_group_add, 's :: comm_ring) run \<Rightarrow> 's" where
  "response2 R = (\<Sum>v \<in> run_nodes R. own_response2 R v)"

definition run_ok :: "(TreeNode \<Rightarrow> ('c, 'p :: ab_group_add, 's :: comm_ring) Env) \<Rightarrow> ('c, 'p, 's) run \<Rightarrow> bool" where
  "run_ok E R \<longleftrightarrow> tree_ok (Ru_tree R) \<and> Tr_kids (Ru_tree R) (run_root R) \<noteq> [] \<and> suite_ok (Ru_suite R)
     \<and> agg_public (Ru_publics R) = (\<Sum>v \<in> run_nodes R. BaseMul (Ru_suite R) (Ru_key R v))
     \<and> (\<forall>v \<in> run_nodes R. E_Suite (E v) = Ru_suite R \<and> Publics (E v) = Ru_publics R
          \<and> (IsRoot (E v) \<longleftrightarrow> v = run_root R) \<and> VerificationFunction (E v) (Ru_msg R) (Ru_data R)
          \<and> cosi_laws (Ru_suite R) (agg_public (Ru_publics R)) (Ru_view R) (E_CoSi (E v))
          \<and> (\<forall>u \<in> run_nodes R. \<forall>s m. index s = Ru_index R \<longrightarrow> DelayedSend (E v) s u m = Inr [Send u m]))"

lemma run_okD:
  assumes "run_ok E R"
  shows "tree_ok (Ru_tree R)" "Tr_kids (Ru_tree R) (run_root R) \<noteq> []" "suite_ok (Ru_suite R)"
    "agg_public (Ru_publics R) = (\<Sum>v \<in> run_nodes R. BaseMul (Ru_suite R) (Ru_key R v))"
    "v \<in> run_nodes R \<Longrightarrow> E_Suite (E v) = Ru_suite R" "v \<in> run_nodes R \<Longrightarrow> Publics (E v) = Ru_publics R"
    "v \<in> run_nodes R \<Longrightarrow> IsRoot (E v) \<longleftrightarrow> v = run_root R"
    "v \<in> run_nodes R \<Longrightarrow> VerificationFunction (E v) (Ru_msg R) (Ru_data R)"
    "v \<in> run_nodes R \<Longrightarrow> cosi_laws (Ru_suite R) (agg_public (Ru_publics R)) (Ru_view R) (E_CoSi (E v))"
    "v \<in> run_nodes R \<Longrightarrow> u \<in> run_nodes R \<Longrightarrow> index s = Ru_index R \<Longrightarrow> DelayedSend (E v) s u m = Inr [Send u m]"
  using assms unfolding run_ok_def by blast+

text \<open>The signatures of the two rounds are accepted.\<close>

lemma sum_BaseMul:
  "suite_ok S \<Longrightarrow> (\<Sum>v \<in> A. BaseMul S (f v)) = BaseMul S (\<Sum>v \<in> A. f v)"
  by (simp add: additive.sum[OF suite_okD(1)])

lemma Verify_full:
  assumes S: "suite_ok S" and A: "agg_public pubs = BaseMul S z"
    and k: "k = recreate_challenge S (BaseMul S y) (agg_public pubs) m"
  shows "Verify S (Some \<lparr>Bs_Sig = Some (MarshalPoint S (BaseMul S y) @ MarshalScalar S (y + k * z) @ bits),
    Bs_Msg = Some m, Bs_Exceptions = []\<rparr>) pubs = Inr ()"
proof -
  note B = suite_okD(1)[OF S]
  have "BaseMul S (y + k * z) + Mul S k (- BaseMul S z) = BaseMul S y"
    using suite_okD(2)[OF S, of k "- z"] by (simp add: additive.minus[OF B] additive.add[OF B])
  then show ?thesis
    using Verify_marshalled[OF S, of "[]" pubs "BaseMul S y" "y + k * z" bits m]
    unfolding k[symmetric] by (simp add: A)
qed

lemma response_sum:
  "(\<Sum>v \<in> V. r v + k * key v) = (\<Sum>v \<in> V. r v) + (k :: 's :: comm_ring) * (\<Sum>v \<in> V. key v)"
  by (simp add: sum.distrib sum_distrib_left)

lemma Verify_round1:
  assumes "run_ok E R"
  shows "Verify (Ru_suite R) (Some \<lparr>Bs_Sig = Some (MarshalPoint (Ru_suite R) (commit1 R)
      @ MarshalScalar (Ru_suite R) (response1 R) @ bits), Bs_Msg = Some (Sha512 (Ru_suite R) (Ru_msg R)),
    Bs_Exceptions = []\<rparr>) (Ru_publics R) = Inr ()"
  using Verify_full[OF run_okD(3)[OF assms], of "Ru_publics R" "\<Sum>v \<in> run_nodes R. Ru_key R v" "chal1 R"
      "\<Sum>v \<in> run_nodes R. Ru_r1 R v" "Sha512 (Ru_suite R) (Ru_msg R)" bits]
  by (simp add: run_okD(4)[OF assms] sum_BaseMul[OF run_okD(3)[OF assms]] chal1_def commit1_def response1_def
      own_response1_def response_sum)

lemma Verify_round2:
  assumes "run_ok E R"
  shows "Verify (Ru_suite R) (Some \<lparr>Bs_Sig = Some (MarshalPoint (Ru_suite R) (commit2 R)
      @ MarshalScalar (Ru_suite R) (response2 R) @ bits), Bs_Msg = Some (Ru_msg R), Bs_Exceptions = []\<rparr>)
    (Ru_publics R) = Inr ()"
  using Verify_full[OF run_okD(3)[OF assms], of "Ru_publics R" "\<Sum>v \<in> run_nodes R. Ru_key R v" "chal2 R"
      "\<Sum>v \<in> run_nodes R. Ru_r2 R v" "Ru_msg R" bits]
  by (simp add: run_okD(4)[OF assms] sum_BaseMul[OF run_okD(3)[OF assms]] chal2_def commit2_def own_commit_def
      response2_def own_response2_def response_sum)

subsection \<open>The handlers in a run\<close>

text \<open>What no step of the run changes, and what the environment knows of a node.\<close>

definition static_ok :: "('c, 'p, 's) run \<Rightarrow> TreeNode \<Rightarrow> ('c, 'p, 's) bft \<Rightarrow> bool" where
  "static_ok R v s \<longleftrightarrow> \<not> closing s \<and> index s = Ru_index R \<and> Parent s = Tr_par (Ru_tree R) v
     \<and> dynamicChildren s = Tr_kids (Ru_tree R) v \<and> length (tempPrepareCommit s) = length (Tr_kids (Ru_tree R) v)
     \<and> \<not> signRefusal s \<and> tempExceptions s = [] \<and> 0 \<le> allowedExceptions s
     \<and> (commitChanClosed s \<longrightarrow> Tr_kids (Ru_tree R) v = [])"

lemma static_okD:
  assumes "static_ok R v s"
  shows "\<not> closing s" "index s = Ru_index R" "Parent s = Tr_par (Ru_tree R) v"
    "dynamicChildren s = Tr_kids (Ru_tree R) v" "length (tempPrepareCommit s) = length (Tr_kids (Ru_tree R) v)"
    "\<not> signRefusal s" "tempExceptions s = []" "0 \<le> allowedExceptions s"
    "commitChanClosed s \<Longrightarrow> Tr_kids (Ru_tree R) v = []"
    "isLocalityTreeLeaf s \<longleftrightarrow> Tr_kids (Ru_tree R) v = []"
  using assms by (auto simp: static_ok_def isLocalityTreeLeaf_def)

lemma static_ok_updates [simp]:
  "static_ok R v (s\<lparr>prepare := c\<rparr>) = static_ok R v s" "static_ok R v (s\<lparr>commit := c\<rparr>) = static_ok R v s"
  "static_ok R v (s\<lparr>Msg := b\<rparr>) = static_ok R v s" "static_ok R v (s\<lparr>Data := b\<rparr>) = static_ok R v s"
  "static_ok R v (s\<lparr>tempCommitCommit := cs\<rparr>) = static_ok R v s"
  "static_ok R v (s\<lparr>tempPrepareResponse := rs\<rparr>) = static_ok R v s"
  "static_ok R v (s\<lparr>dynamicChildrenAux := ns\<rparr>) = static_ok R v s"
  "static_ok R v (s\<lparr>tempPrepareResponsePublics := ps\<rparr>) = static_ok R v s"
  "static_ok R v (s\<lparr>tempCommitResponse := rs\<rparr>) = static_ok R v s"
  "static_ok R v (s\<lparr>prepareSignature := b\<rparr>) = static_ok R v s"
  "static_ok R v (s\<lparr>responseChanClosed := f\<rparr>) = static_ok R v s"
  by (simp_all add: static_ok_def)

lemma to_children:
  assumes "run_ok E R" "v \<in> run_nodes R" "static_ok R v s"
  shows "DelayedSendToChildren (E v) s m = Inr (map (\<lambda>u. Send u m) (Tr_kids (Ru_tree R) v))"
proof -
  have kids: "set (Tr_kids (Ru_tree R) v) \<subseteq> run_nodes R" using tree_okD(5)[OF run_okD(1)[OF assms(1)] assms(2)] by blast
  have "res_fold (\<lambda>to acc. res_bind (DelayedSend (E v) s to m) (\<lambda>a. Inr (acc @ a))) us acc
      = Inr (acc @ map (\<lambda>u. Send u m) us)" if "set us \<subseteq> run_nodes R" for us acc
    using that by (induction us arbitrary: acc) (simp_all add: run_okD(10)[OF assms(1,2) _ static_okD(2)[OF assms(3)]])
  from this[OF kids] show ?thesis by (simp add: DelayedSendToChildren_def send_all_def static_okD(4)[OF assms(3)])
qed

lemma to_parent:
  assumes "run_ok E R" "v \<in> run_nodes R" "static_ok R v s" "Tr_par (Ru_tree R) v = Some p"
  shows "DelayedSendToParent (E v) s m = Inr [Send p m]"
  using run_okD(10)[OF assms(1,2) tree_okD(6)[OF run_okD(1)[OF assms(1)] assms(2,4)] static_okD(2)[OF assms(3)]]
  by (simp add: DelayedSendToParent_def static_okD(3)[OF assms(3)] assms(4))

lemma announce_inner:
  assumes "run_ok E R" "v \<in> run_nodes R" "static_ok R v s" "Tr_kids (Ru_tree R) v \<noteq> []"
  shows "readAnnouncementCommit (E v) a s = Inr (s, map (\<lambda>u. Send u (MAnnounceCommit a)) (Tr_kids (Ru_tree R) v))"
  using assms(4) static_okD(1,10)[OF assms(3)] to_children[OF assms(1-3)]
  by (simp add: readAnnouncementCommit_def sending_def)

definition round_commitment :: "'p \<Rightarrow> ('p, 's) bft_msg" where
  "round_commitment x = MCommitment \<lparr>Cm_TYPE = RoundCommit, Cm_Commitment = Some x\<rparr>"

lemma announce_leaf:
  assumes R: "run_ok E R" and v: "v \<in> run_nodes R" and s: "static_ok R v s"
    and k: "Tr_kids (Ru_tree R) v = []" "Tr_par (Ru_tree R) v = Some p"
    and c: "V_next (Ru_view R (commit s)) = Ru_r2 R v"
  shows "\<exists>c'. readAnnouncementCommit (E v) a s = Inr (s\<lparr>commit := c'\<rparr>, [Send p (round_commitment (own_commit R v))])
    \<and> Ru_view R c' = (Ru_view R (commit s))\<lparr>V_random := Some (Ru_r2 R v)\<rparr>"
proof -
  obtain c' where c': "CreateCommitment (E_CoSi (E v)) (commit s) = (c', own_commit R v)"
    "Ru_view R c' = (Ru_view R (commit s))\<lparr>V_random := Some (Ru_r2 R v)\<rparr>"
    using cosi_lawsD(1)[OF run_okD(9)[OF R v], of "commit s"] c by (auto simp: own_commit_def)
  have "static_ok R v (s\<lparr>commit := c'\<rparr>)" using s by simp
  from to_parent[OF R v this k(2)] show ?thesis
    using k(1) static_okD(1,10)[OF s] c'
    by (intro exI[of _ c']) (simp add: readAnnouncementCommit_def startCommitment_def getCosi_def setCosi_def
        sending_def round_commitment_def)
qed

lemma commit_read:
  "commit_message (E v) RoundCommit u \<lparr>Cm_TYPE = RoundCommit, Cm_Commitment = x\<rparr> s
    = Inr (Suc (length (tempCommitCommit s)) = length (tempPrepareCommit s),
           s\<lparr>tempCommitCommit := tempCommitCommit s @ [x]\<rparr>)"
  by (simp add: commit_message_def Let_def)

lemma commit_finish:
  assumes R: "run_ok E R" and v: "v \<in> run_nodes R" and s: "static_ok R v s"
    and c: "V_next (Ru_view R (commit s)) = Ru_r2 R v" and n: "None \<notin> set (tempCommitCommit s)"
    and x: "x = own_commit R v + sum_list (map the (tempCommitCommit s))"
  shows "\<exists>c'. finishCommitmentCommit (E v) s = Inr (s\<lparr>commit := c'\<rparr>,
      case Tr_par (Ru_tree R) v of None \<Rightarrow> [] | Some p \<Rightarrow> [Send p (round_commitment x)])
    \<and> Ru_view R c' = (Ru_view R (commit s))\<lparr>V_random := Some (Ru_r2 R v), V_commit := Some x\<rparr>"
proof -
  obtain c' where c': "Commit (E_CoSi (E v)) (commit s) (tempCommitCommit s) = Inr (c', x)"
    "Ru_view R c' = (Ru_view R (commit s))\<lparr>V_random := Some (Ru_r2 R v), V_commit := Some x\<rparr>"
    using cosi_lawsD(2)[OF run_okD(9)[OF R v], of "commit s" "map the (tempCommitCommit s)"] c
    by (auto simp: own_commit_def x somes[OF n] simp del: map_map)
  show ?thesis
  proof (cases "v = run_root R")
    case True
    then show ?thesis using c' run_okD(7)[OF R v] tree_okD(3)[OF run_okD(1)[OF R]]
      by (intro exI[of _ c']) (simp add: finishCommitmentCommit_def)
  next
    case False
    then obtain p where p: "Tr_par (Ru_tree R) v = Some p" using tree_parent[OF run_okD(1)[OF R] v] by blast
    have "static_ok R v (s\<lparr>commit := c'\<rparr>)" using s by simp
    from to_parent[OF R v this p] show ?thesis
      using False c' run_okD(7)[OF R v] p
      by (intro exI[of _ c']) (simp add: finishCommitmentCommit_def sending_def round_commitment_def)
  qed
qed

definition challenge1 :: "('c, 'p :: ab_group_add, 's :: comm_ring) run \<Rightarrow> 's ChallengePrepare" where
  "challenge1 R = \<lparr>CP_Msg = Ru_msg R, CP_Data = Ru_data R, CP_Challenge = chal1 R\<rparr>"

definition response_msg :: "RoundType \<Rightarrow> 's \<Rightarrow> ('p, 's) bft_msg" where
  "response_msg t x = MResponse \<lparr>R_Response = x, R_Exceptions = [], R_TYPE = t\<rparr>"

text \<open>What the root and the others hold when the challenge of the prepare round reaches them.\<close>

definition challenged :: "('c, 'p :: ab_group_add, 's :: comm_ring) run \<Rightarrow> ('c, 'p, 's) bft \<Rightarrow> bool" where
  "challenged R s \<longleftrightarrow> Msg s = Ru_msg R \<and> Data s = Ru_data R \<and> V_challenge (Ru_view R (prepare s)) = Some (chal1 R)"

lemma challenge_prepare_inner:
  assumes R: "run_ok E R" and v: "v \<in> run_nodes R" and s: "static_ok R v s"
    and k: "Tr_kids (Ru_tree R) v \<noteq> []" and r: "v = run_root R \<Longrightarrow> challenged R s"
  shows "\<exists>c'. handleChallengePrepare (E v) (challenge1 R) s = Inr (Some (s\<lparr>Msg := Ru_msg R, Data := Ru_data R,
      prepare := c'\<rparr>, map (\<lambda>u. Send u (MChallengePrepare (challenge1 R))) (Tr_kids (Ru_tree R) v)))
    \<and> Ru_view R c' = (Ru_view R (prepare s))\<lparr>V_challenge := Some (chal1 R)\<rparr>"
proof -
  let ?c = "if v = run_root R then prepare s else Challenge (E_CoSi (E v)) (prepare s) (chal1 R)"
  let ?s = "s\<lparr>Msg := Ru_msg R, Data := Ru_data R, prepare := ?c\<rparr>"
  have "static_ok R v ?s" using s by simp
  note send = to_children[OF R v this] and leaf = static_okD(10)[OF this]
  have "(if \<not> IsRoot (E v) then s\<lparr>Msg := CP_Msg (challenge1 R), Data := CP_Data (challenge1 R),
      prepare := Challenge (E_CoSi (E v)) (prepare s) (CP_Challenge (challenge1 R))\<rparr> else s) = ?s"
    using run_okD(7)[OF R v] r by (auto simp: challenge1_def challenged_def)
  moreover have "Ru_view R ?c = (Ru_view R (prepare s))\<lparr>V_challenge := Some (chal1 R)\<rparr>"
    using r cosi_lawsD(4)[OF run_okD(9)[OF R v]] by (auto simp: challenged_def)
  ultimately show ?thesis
    using send leaf k static_okD(1)[OF s]
    by (intro exI[of _ ?c]) (simp add: handleChallengePrepare_def sending_def Let_def)
qed

lemma verification_wait:
  assumes R: "run_ok E R" and v: "v \<in> run_nodes R" and s: "static_ok R v s" and ch: "challenged R s"
    and p: "V_random (Ru_view R (prepare s)) = Some (Ru_r1 R v)" "V_key (Ru_view R (prepare s)) = Ru_key R v"
    and l: "Tr_kids (Ru_tree R) v = [] \<Longrightarrow> tempPrepareResponse s = []"
    and a: "\<And>u. u \<in> set (Tr_kids (Ru_tree R) v) \<Longrightarrow> SI_Public (Identity u) \<in> set (tempPrepareResponsePublics s)"
    and x: "x = own_response1 R v + sum_list (tempPrepareResponse s)"
  shows "\<exists>c'. waitResponseVerification (E v) s = Inr (Some \<lparr>R_Response = x, R_Exceptions = [],
      R_TYPE = RoundPrepare\<rparr>, True, s\<lparr>prepare := c'\<rparr>)
    \<and> Ru_view R c' = (Ru_view R (prepare s))\<lparr>V_random := None, V_response := Some x\<rparr>"
proof -
  obtain c' where "CoSi_Response (E_CoSi (E v)) (prepare s) (tempPrepareResponse s) = Inr (c', x)"
    "Ru_view R c' = (Ru_view R (prepare s))\<lparr>V_random := None, V_response := Some x\<rparr>"
    using cosi_lawsD(6)[OF run_okD(9)[OF R v] p(1), of "chal1 R" "tempPrepareResponse s"] ch p(2) x
    by (auto simp: challenged_def own_response1_def)
  then show ?thesis
    using l a run_okD(8)[OF R v] ch static_okD(4,7,10)[OF s]
    by (intro exI[of _ c']) (auto simp: waitResponseVerification_def challenged_def Let_def)
qed

lemma prepare_finish:
  assumes R: "run_ok E R" and v: "v \<in> run_nodes R" and s: "static_ok R v s" and ch: "challenged R s"
    and p: "V_random (Ru_view R (prepare s)) = Some (Ru_r1 R v)" "V_key (Ru_view R (prepare s)) = Ru_key R v"
    and l: "Tr_kids (Ru_tree R) v = [] \<Longrightarrow> tempPrepareResponse s = []"
    and a: "\<And>u. u \<in> set (Tr_kids (Ru_tree R) v) \<Longrightarrow> SI_Public (Identity u) \<in> set (tempPrepareResponsePublics s)"
    and x: "x = own_response1 R v + sum_list (tempPrepareResponse s)" and q: "Tr_par (Ru_tree R) v = Some q"
  shows "\<exists>c'. finishResponsePrepare (E v) s = Inr (s\<lparr>prepare := c'\<rparr>, [Send q (response_msg RoundPrepare x)])"
proof -
  have "v \<noteq> run_root R" using q tree_okD(3)[OF run_okD(1)[OF R]] by auto
  moreover obtain c' where "waitResponseVerification (E v) s = Inr (Some \<lparr>R_Response = x, R_Exceptions = [],
      R_TYPE = RoundPrepare\<rparr>, True, s\<lparr>prepare := c'\<rparr>)" using verification_wait[OF assms(1-9)] by blast
  ultimately show ?thesis
    using run_okD(7)[OF R v] static_okD(3)[OF s] q
    by (intro exI[of _ c']) (simp add: finishResponsePrepare_def response_msg_def)
qed

lemma challenge_prepare_leaf:
  assumes R: "run_ok E R" and v: "v \<in> run_nodes R" and s: "static_ok R v s"
    and k: "Tr_kids (Ru_tree R) v = []" and q: "Tr_par (Ru_tree R) v = Some q"
    and p: "V_random (Ru_view R (prepare s)) = Some (Ru_r1 R v)" "V_key (Ru_view R (prepare s)) = Ru_key R v"
    and t: "tempPrepareResponse s = []"
  shows "\<exists>c'. handleChallengePrepare (E v) (challenge1 R) (close_leaf s) = Inr (Some (s\<lparr>responseChanClosed := True,
      Msg := Ru_msg R, Data := Ru_data R, prepare := c'\<rparr>, [Send q (response_msg RoundPrepare (own_response1 R v))]))"
proof -
  let ?c = "Challenge (E_CoSi (E v)) (prepare s) (chal1 R)"
  let ?s = "s\<lparr>responseChanClosed := True, Msg := Ru_msg R, Data := Ru_data R, prepare := ?c\<rparr>"
  note vw = cosi_lawsD(4)[OF run_okD(9)[OF R v], of "prepare s" "chal1 R"]
  have st: "static_ok R v ?s" using s by simp
  obtain c' where "finishResponsePrepare (E v) ?s
      = Inr (?s\<lparr>prepare := c'\<rparr>, [Send q (response_msg RoundPrepare (own_response1 R v))])"
    using prepare_finish[OF R v st _ _ _ _ _ _ q, of "own_response1 R v"] p k t vw by (auto simp: challenged_def)
  moreover have "v \<noteq> run_root R" using q tree_okD(3)[OF run_okD(1)[OF R]] by auto
  ultimately show ?thesis
    using static_okD(1,10)[OF s] static_okD(10)[OF st] k run_okD(7)[OF R v]
    by (intro exI[of _ c']) (simp add: handleChallengePrepare_def close_leaf_def startResponse_def
        handleResponsePrepare_def challenge1_def Let_def)
qed

text \<open>The challenge of the commit round, with the signature of the prepare round.\<close>

definition challenge2 :: "('c, 'p :: ab_group_add, 's :: comm_ring) run \<Rightarrow> octets \<Rightarrow> ('p, 's) ChallengeCommit" where
  "challenge2 R bits = \<lparr>CC_Challenge = chal2 R, CC_Signature = Some \<lparr>Bs_Sig = Some (MarshalPoint (Ru_suite R) (commit1 R)
     @ MarshalScalar (Ru_suite R) (response1 R) @ bits), Bs_Msg = Some (Ru_msg R), Bs_Exceptions = []\<rparr>\<rparr>"

lemma copy_same:
  assumes "suite_ok S"
  shows "copy_response S (MarshalPoint S q @ MarshalScalar S r @ m) (MarshalScalar S r)
    = Inr (MarshalPoint S q @ MarshalScalar S r @ m)"
  using suite_okD(3,5)[OF assms] by (simp add: copy_response_def Let_def)

lemma prepare_finish_root:
  assumes R: "run_ok E R" and v: "v = run_root R" and s: "static_ok R v s" and ch: "challenged R s"
    and p: "V_random (Ru_view R (prepare s)) = Some (Ru_r1 R v)" "V_key (Ru_view R (prepare s)) = Ru_key R v"
      "V_commit (Ru_view R (prepare s)) = Some (commit1 R)" "V_commit (Ru_view R (commit s)) = Some (commit2 R)"
    and a: "\<And>u. u \<in> set (Tr_kids (Ru_tree R) v) \<Longrightarrow> SI_Public (Identity u) \<in> set (tempPrepareResponsePublics s)"
    and x: "response1 R = own_response1 R v + sum_list (tempPrepareResponse s)"
  shows "\<exists>c' c'' sg bits. finishResponsePrepare (E v) s = Inr (s\<lparr>prepare := c', prepareSignature := sg, commit := c''\<rparr>,
      [ToSelf (MChallengeCommit (challenge2 R bits))])
    \<and> Ru_view R c'' = (Ru_view R (commit s))\<lparr>V_challenge := Some (chal2 R)\<rparr>"
proof -
  let ?S = "Ru_suite R" and ?C = "E_CoSi (E v)"
  have V: "v \<in> run_nodes R" using tree_okD(2)[OF run_okD(1)[OF R]] v by simp
  note laws = run_okD(9)[OF R V]
  have k: "Tr_kids (Ru_tree R) v \<noteq> []" using run_okD(2)[OF R] v by simp
  obtain c' where w: "waitResponseVerification (E v) s = Inr (Some \<lparr>R_Response = response1 R, R_Exceptions = [],
      R_TYPE = RoundPrepare\<rparr>, True, s\<lparr>prepare := c'\<rparr>)"
    "Ru_view R c' = (Ru_view R (prepare s))\<lparr>V_random := None, V_response := Some (response1 R)\<rparr>"
    using verification_wait[OF R V s ch p(1,2) _ a x] k by blast
  obtain bits where sg: "CoSi_Signature ?C c' = MarshalPoint ?S (commit1 R) @ MarshalScalar ?S (response1 R) @ bits"
    using cosi_lawsD(7)[OF laws, of c' "commit1 R" "response1 R"] w(2) p(3) by auto
  obtain c'' where c'': "CreateChallenge ?C (commit s) (Ru_msg R) = Inr (c'', chal2 R)"
    "Ru_view R c'' = (Ru_view R (commit s))\<lparr>V_challenge := Some (chal2 R)\<rparr>"
    using cosi_lawsD(3)[OF laws p(4), of "Ru_msg R"] by (auto simp: chal2_def)
  have "finishResponsePrepare (E v) s = Inr (s\<lparr>prepare := c', prepareSignature := CoSi_Signature ?C c', commit := c''\<rparr>,
      [ToSelf (MChallengeCommit (challenge2 R bits))])"
    using w sg c''(1) run_okD(5,6,7)[OF R V] v ch static_okD(7)[OF s] copy_same[OF run_okD(3)[OF R]] Verify_round1[OF R]
    by (simp add: finishResponsePrepare_def startChallenge_def challenged_def challenge2_def Let_def)
  with c''(2) show ?thesis by blast
qed

lemma challenge_checked:
  assumes R: "run_ok E R" and v: "v \<in> run_nodes R" and s: "static_ok R v s"
  shows "check_commit_challenge (E v) (the (CC_Signature (challenge2 R bits))) s = Inr s"
proof -
  have "s\<lparr>signRefusal := False, tempExceptions := []\<rparr> = s" using static_okD(6,7)[OF s] by simp
  then show ?thesis
    using Verify_round1[OF R] run_okD(5,6)[OF R v] static_okD(6,8)[OF s]
    by (simp add: check_commit_challenge_def challenge2_def Let_def)
qed

lemma challenge_commit_inner:
  assumes R: "run_ok E R" and v: "v \<in> run_nodes R" and s: "static_ok R v s"
    and k: "Tr_kids (Ru_tree R) v \<noteq> []"
    and r: "v = run_root R \<Longrightarrow> V_challenge (Ru_view R (commit s)) = Some (chal2 R)"
  shows "\<exists>c'. handleChallengeCommit (E v) (challenge2 R bits) s = Inr (Some (s\<lparr>commit := c'\<rparr>,
      map (\<lambda>u. Send u (MChallengeCommit (challenge2 R bits))) (Tr_kids (Ru_tree R) v)))
    \<and> Ru_view R c' = (Ru_view R (commit s))\<lparr>V_challenge := Some (chal2 R)\<rparr>"
proof -
  let ?c = "if v = run_root R then commit s else Challenge (E_CoSi (E v)) (commit s) (chal2 R)"
  have st: "static_ok R v (s\<lparr>commit := ?c\<rparr>)" using s by simp
  obtain sg where sg: "CC_Signature (challenge2 R bits) = Some sg" by (simp add: challenge2_def)
  have eq: "(if \<not> IsRoot (E v) then s\<lparr>commit := Challenge (E_CoSi (E v)) (commit s) (CC_Challenge (challenge2 R bits))\<rparr>
      else s) = s\<lparr>commit := ?c\<rparr>"
    using run_okD(7)[OF R v] by (simp add: challenge2_def)
  have "check_commit_challenge (E v) sg (s\<lparr>commit := ?c\<rparr>) = Inr (s\<lparr>commit := ?c\<rparr>)"
    using challenge_checked[OF R v st, of bits] sg by simp
  then have "handleChallengeCommit (E v) (challenge2 R bits) s = Inr (Some (s\<lparr>commit := ?c\<rparr>,
      map (\<lambda>u. Send u (MChallengeCommit (challenge2 R bits))) (Tr_kids (Ru_tree R) v)))"
    using to_children[OF R v st] static_okD(10)[OF st] k static_okD(1)[OF s] sg
    unfolding handleChallengeCommit_def eq by (simp add: sending_def)
  moreover have "Ru_view R ?c = (Ru_view R (commit s))\<lparr>V_challenge := Some (chal2 R)\<rparr>"
    using r cosi_lawsD(4)[OF run_okD(9)[OF R v]] by auto
  ultimately show ?thesis by blast
qed

lemma challenge_commit_leaf:
  assumes R: "run_ok E R" and v: "v \<in> run_nodes R" and s: "static_ok R v s"
    and k: "Tr_kids (Ru_tree R) v = []" and q: "Tr_par (Ru_tree R) v = Some q"
    and p: "V_random (Ru_view R (commit s)) = Some (Ru_r2 R v)" "V_key (Ru_view R (commit s)) = Ru_key R v"
    and t: "responseChanClosed s"
  shows "\<exists>c'. handleChallengeCommit (E v) (challenge2 R bits) s = Inr (Some (s\<lparr>commit := c'\<rparr>,
      [Send q (response_msg RoundCommit (own_response2 R v))]))"
proof -
  let ?c = "Challenge (E_CoSi (E v)) (commit s) (chal2 R)"
  let ?s = "s\<lparr>commit := ?c\<rparr>"
  have st: "static_ok R v ?s" using s by simp
  note vw = cosi_lawsD(4)[OF run_okD(9)[OF R v], of "commit s" "chal2 R"]
  obtain c' where c': "CreateResponse (E_CoSi (E v)) ?c = Inr (c', own_response2 R v)"
    using cosi_lawsD(5)[OF run_okD(9)[OF R v], of ?c "Ru_r2 R v" "chal2 R"] vw p by (auto simp: own_response2_def)
  have root: "\<not> IsRoot (E v)" using q tree_okD(3)[OF run_okD(1)[OF R]] run_okD(7)[OF R v] by auto
  have st': "static_ok R v (?s\<lparr>commit := c'\<rparr>)" using s by simp
  have "finishResponseCommit (E v) ?s = Inr (?s\<lparr>commit := c'\<rparr>, [Send q (response_msg RoundCommit (own_response2 R v))])"
    using c' root static_okD(6,10)[OF st'] static_okD(6,10)[OF st] k to_parent[OF R v st' q]
    by (simp add: finishResponseCommit_def commit_response_def sending_def response_msg_def)
  then show ?thesis
    using challenge_checked[OF R v st, of bits] static_okD(1,10)[OF s] static_okD(10)[OF st] k root t
    by (intro exI[of _ c']) (simp add: handleChallengeCommit_def handleResponseCommit_def challenge2_def Let_def)
qed

lemma response_read:
  "response_message RoundPrepare u \<lparr>R_Response = x, R_Exceptions = e, R_TYPE = RoundPrepare\<rparr> s =
     (Suc (length (tempPrepareResponse s)) = length (tempPrepareCommit s),
      s\<lparr>tempPrepareResponse := tempPrepareResponse s @ [x], dynamicChildrenAux := dynamicChildrenAux s @ [u],
        tempPrepareResponsePublics := tempPrepareResponsePublics s @ [SI_Public (Identity u)]\<rparr>)"
  "response_message RoundCommit u \<lparr>R_Response = x, R_Exceptions = e, R_TYPE = RoundCommit\<rparr> s =
     (Suc (length (tempCommitResponse s)) = length (tempCommitCommit s),
      s\<lparr>tempCommitResponse := tempCommitResponse s @ [x]\<rparr>)"
  by (simp_all add: response_message_def Let_def)

lemma commit_finish_inner:
  assumes R: "run_ok E R" and v: "v \<in> run_nodes R" and s: "static_ok R v s" and k: "Tr_kids (Ru_tree R) v \<noteq> []"
    and p: "V_random (Ru_view R (commit s)) = Some (Ru_r2 R v)" "V_key (Ru_view R (commit s)) = Ru_key R v"
      "V_challenge (Ru_view R (commit s)) = Some (chal2 R)"
    and x: "x = own_response2 R v + sum_list (tempCommitResponse s)"
  shows "\<exists>c'. finishResponseCommit (E v) s = Inr (s\<lparr>commit := c'\<rparr>, case Tr_par (Ru_tree R) v of
        None \<Rightarrow> [SignatureDone (Signature (E v) (s\<lparr>commit := c'\<rparr>))] | Some q \<Rightarrow> [Send q (response_msg RoundCommit x)])
    \<and> Ru_view R c' = (Ru_view R (commit s))\<lparr>V_random := None, V_response := Some x\<rparr>"
proof -
  obtain c' where c': "CoSi_Response (E_CoSi (E v)) (commit s) (tempCommitResponse s) = Inr (c', x)"
    "Ru_view R c' = (Ru_view R (commit s))\<lparr>V_random := None, V_response := Some x\<rparr>"
    using cosi_lawsD(6)[OF run_okD(9)[OF R v] p(1,3), of "tempCommitResponse s"] p(2) x by (auto simp: own_response2_def)
  have st: "static_ok R v (s\<lparr>commit := c'\<rparr>)" using s by simp
  have cr: "commit_response (E v) s = Inr (s\<lparr>commit := c'\<rparr>,
      \<lparr>R_Response = x, R_Exceptions = [], R_TYPE = RoundCommit\<rparr>)"
    using c'(1) k static_okD(6,10)[OF s] static_okD(6)[OF st] by (simp add: commit_response_def)
  show ?thesis
  proof (cases "v = run_root R")
    case True
    then show ?thesis using c' cr run_okD(7)[OF R v] tree_okD(3)[OF run_okD(1)[OF R]]
      by (intro exI[of _ c']) (simp add: finishResponseCommit_def)
  next
    case False
    then obtain q where q: "Tr_par (Ru_tree R) v = Some q" using tree_parent[OF run_okD(1)[OF R] v] by blast
    from to_parent[OF R v st q] show ?thesis
      using False c' cr run_okD(7)[OF R v] q
      by (intro exI[of _ c']) (simp add: finishResponseCommit_def sending_def response_msg_def)
  qed
qed

lemma signature_accepted:
  assumes R: "run_ok E R" and v: "v \<in> run_nodes R" and s: "static_ok R v s" and m: "Msg s = Ru_msg R"
    and c: "V_commit (Ru_view R (commit s)) = Some (commit2 R)" "V_response (Ru_view R (commit s)) = Some (response2 R)"
  shows "Verify (Ru_suite R) (Some (Signature (E v) s)) (Ru_publics R) = Inr ()"
    and "Bs_Msg (Signature (E v) s) = Some (Ru_msg R)" and "Bs_Exceptions (Signature (E v) s) = []"
proof -
  obtain bits where "CoSi_Signature (E_CoSi (E v)) (commit s)
      = MarshalPoint (Ru_suite R) (commit2 R) @ MarshalScalar (Ru_suite R) (response2 R) @ bits"
    using cosi_lawsD(7)[OF run_okD(9)[OF R v] c] by blast
  then have "Signature (E v) s = \<lparr>Bs_Sig = Some (MarshalPoint (Ru_suite R) (commit2 R)
      @ MarshalScalar (Ru_suite R) (response2 R) @ bits), Bs_Msg = Some (Ru_msg R), Bs_Exceptions = []\<rparr>"
    using static_okD(6,7)[OF s] m by (simp add: Signature_def)
  then show "Verify (Ru_suite R) (Some (Signature (E v) s)) (Ru_publics R) = Inr ()"
    "Bs_Msg (Signature (E v) s) = Some (Ru_msg R)" "Bs_Exceptions (Signature (E v) s) = []"
    using Verify_round2[OF R] by simp_all
qed

end
