(* ===== verification/Bft_Run.thy ===== *)
theory Bft_Run
  imports Bft_Sign
begin

text \<open>
  The rounds after the flood as casts: the views of the three rounds in a network of
  \<open>sign_step\<close>, the invariant of the run, and that every step keeps it.
\<close>

subsection \<open>The three casts of a network\<close>

fun rank :: "stage \<Rightarrow> nat" where
  "rank ReadCommits = 0" | "rank WaitChallengePrepare = 1" | "rank ReadPrepareResponses = 2"
| "rank WaitChallengeCommit = 3" | "rank ReadCommitResponses = 4" | "rank Finished = 5"

lemma rank_eq [simp]:
  "rank g = 0 \<longleftrightarrow> g = ReadCommits" "rank g = 2 \<longleftrightarrow> g = ReadPrepareResponses" "rank g = 4 \<longleftrightarrow> g = ReadCommitResponses"
  "rank g = 5 \<longleftrightarrow> g = Finished" "1 \<le> rank g \<longleftrightarrow> g \<noteq> ReadCommits" "Suc 0 \<le> rank g \<longleftrightarrow> g \<noteq> ReadCommits"
  "5 \<le> rank g \<longleftrightarrow> g = Finished"
  by (cases g; simp)+

fun cast1 :: "('p, 's) packet \<Rightarrow> (TreeNode, 'p) cmsg multiset" where
  "cast1 (s, v, MAnnounceCommit a) = {#Down v#}"
| "cast1 (Some u, v, MCommitment c) =
     (case Cm_Commitment c of Some x \<Rightarrow> if Cm_TYPE c = RoundCommit then {#Up u v x#} else {#} | None \<Rightarrow> {#})"
| "cast1 _ = {#}"

fun cast2 :: "('p, 's) packet \<Rightarrow> (TreeNode, 's) cmsg multiset" where
  "cast2 (s, v, MChallengePrepare c) = {#Down v#}"
| "cast2 (Some u, v, MResponse r) = (if R_TYPE r = RoundPrepare then {#Up u v (R_Response r)#} else {#})"
| "cast2 _ = {#}"

fun cast3 :: "('p, 's) packet \<Rightarrow> (TreeNode, 's) cmsg multiset" where
  "cast3 (s, v, MChallengeCommit c) = {#Down v#}"
| "cast3 (Some u, v, MResponse r) = (if R_TYPE r = RoundCommit then {#Up u v (R_Response r)#} else {#})"
| "cast3 _ = {#}"

definition cast_all :: "('q \<Rightarrow> 'm multiset) \<Rightarrow> 'q multiset \<Rightarrow> 'm multiset" where
  "cast_all f M = sum_mset (image_mset f M)"

lemma cast_all_simps [simp]:
  "cast_all f {#} = {#}" "cast_all f (add_mset q M) = f q + cast_all f M"
  "cast_all f (M + N) = cast_all f M + cast_all f N"
  by (simp_all add: cast_all_def)

definition view1 :: "('c, 'p, 's) run \<Rightarrow> ('c, 'p, 's) snet \<Rightarrow> (TreeNode, 'p) cview" where
  "view1 R \<tau> = \<lparr>cv_open = {v \<in> run_nodes R. \<not> S_ann \<tau> v},
     cv_done = {v \<in> run_nodes R. \<not> S_ann \<tau> v \<and> (Tr_kids (Ru_tree R) v = [] \<or> S_stage \<tau> v \<noteq> ReadCommits)},
     cv_vals = (\<lambda>v. map the (tempCommitCommit (S_state \<tau> v))), cv_who = (\<lambda>v. None),
     cv_msgs = cast_all cast1 (S_msgs \<tau>)\<rparr>"

definition view2 :: "('c, 'p, 's) run \<Rightarrow> ('c, 'p, 's) snet \<Rightarrow> (TreeNode, 's) cview" where
  "view2 R \<tau> = \<lparr>cv_open = {v \<in> run_nodes R. 2 \<le> rank (S_stage \<tau> v)},
     cv_done = {v \<in> run_nodes R. 3 \<le> rank (S_stage \<tau> v)},
     cv_vals = (\<lambda>v. tempPrepareResponse (S_state \<tau> v)), cv_who = (\<lambda>v. Some (dynamicChildrenAux (S_state \<tau> v))),
     cv_msgs = cast_all cast2 (S_msgs \<tau>)\<rparr>"

text \<open>The last cast starts when the root has finished the prepare round.\<close>

definition view3 :: "('c, 'p, 's) run \<Rightarrow> ('c, 'p, 's) snet \<Rightarrow> (TreeNode, 's) cview" where
  "view3 R \<tau> = \<lparr>cv_open = {v \<in> run_nodes R. 4 \<le> rank (S_stage \<tau> v)},
     cv_done = {v \<in> run_nodes R. S_stage \<tau> v = Finished},
     cv_vals = (\<lambda>v. tempCommitResponse (S_state \<tau> v)), cv_who = (\<lambda>v. None),
     cv_msgs = cast_all cast3 (S_msgs \<tau>)
       + (if rank (S_stage \<tau> (run_root R)) < 3 then {#Down (run_root R)#} else {#})\<rparr>"

lemmas view_defs = view1_def view2_def view3_def

lemma outbox_sends:
  "cast_all cast1 (outbox v (map (\<lambda>u. Send u (MAnnounceCommit a)) us)) = image_mset Down (mset us)"
  "cast_all cast2 (outbox v (map (\<lambda>u. Send u (MAnnounceCommit a)) us)) = {#}"
  "cast_all cast3 (outbox v (map (\<lambda>u. Send u (MAnnounceCommit a)) us)) = {#}"
  "cast_all cast1 (outbox v (map (\<lambda>u. Send u (MChallengePrepare c)) us)) = {#}"
  "cast_all cast2 (outbox v (map (\<lambda>u. Send u (MChallengePrepare c)) us)) = image_mset Down (mset us)"
  "cast_all cast3 (outbox v (map (\<lambda>u. Send u (MChallengePrepare c)) us)) = {#}"
  "cast_all cast1 (outbox v (map (\<lambda>u. Send u (MChallengeCommit cc)) us)) = {#}"
  "cast_all cast2 (outbox v (map (\<lambda>u. Send u (MChallengeCommit cc)) us)) = {#}"
  "cast_all cast3 (outbox v (map (\<lambda>u. Send u (MChallengeCommit cc)) us)) = image_mset Down (mset us)"
  by (induction us) simp_all

lemma cast_answers [simp]:
  "cast1 (Some u, v, round_commitment x) = {#Up u v x#}" "cast2 (Some u, v, round_commitment x) = {#}"
  "cast3 (Some u, v, round_commitment x) = {#}" "cast1 (Some u, v, response_msg t y) = {#}"
  "cast2 (Some u, v, response_msg t y) = (if t = RoundPrepare then {#Up u v y#} else {#})"
  "cast3 (Some u, v, response_msg t y) = (if t = RoundCommit then {#Up u v y#} else {#})"
  by (simp_all add: round_commitment_def response_msg_def)

subsection \<open>Invariant of the run\<close>

fun pkt_ok :: "('c, 'p :: ab_group_add, 's :: comm_ring) run \<Rightarrow> ('p, 's) packet \<Rightarrow> bool" where
  "pkt_ok R (sender, v, m) \<longleftrightarrow> v \<in> run_nodes R \<and>
     (case m of
        MAnnounceCommit a \<Rightarrow> True
      | MChallengePrepare ch \<Rightarrow> ch = challenge1 R
      | MChallengeCommit cc \<Rightarrow> \<exists>bits. cc = challenge2 R bits
      | MCommitment c \<Rightarrow> sender \<noteq> None \<and> (\<exists>x. m = round_commitment x)
      | MResponse r \<Rightarrow> sender \<noteq> None \<and> (\<exists>x. m = response_msg RoundPrepare x \<or> m = response_msg RoundCommit x)
      | MAnnounce a \<Rightarrow> False)"

lemma pkt_ok_simps:
  "pkt_ok R (sender, v, MAnnounceCommit a) \<longleftrightarrow> v \<in> run_nodes R"
  "pkt_ok R (sender, v, MChallengePrepare ch) \<longleftrightarrow> v \<in> run_nodes R \<and> ch = challenge1 R"
  "pkt_ok R (sender, v, MChallengeCommit cc) \<longleftrightarrow> v \<in> run_nodes R \<and> (\<exists>bits. cc = challenge2 R bits)"
  "pkt_ok R (Some u, v, round_commitment x) \<longleftrightarrow> v \<in> run_nodes R"
  "pkt_ok R (Some u, v, response_msg RoundPrepare y) \<longleftrightarrow> v \<in> run_nodes R"
  "pkt_ok R (Some u, v, response_msg RoundCommit y) \<longleftrightarrow> v \<in> run_nodes R"
  by (auto simp: round_commitment_def response_msg_def)

lemma pkt_commitment:
  assumes "pkt_ok R (Some u, v, MCommitment c)"
  obtains x where "v \<in> run_nodes R" "c = \<lparr>Cm_TYPE = RoundCommit, Cm_Commitment = Some x\<rparr>"
  using assms by (auto simp: round_commitment_def)

lemma pkt_response:
  assumes "pkt_ok R (Some u, v, MResponse r)"
  obtains x t where "v \<in> run_nodes R" "r = \<lparr>R_Response = x, R_Exceptions = [], R_TYPE = t\<rparr>"
    "t = RoundPrepare \<or> t = RoundCommit"
  using assms by (auto simp: response_msg_def)

declare pkt_ok.simps [simp del] and pkt_ok_simps [simp]

text \<open>The node has committed in the commit round.\<close>

definition committed :: "('c, 'p, 's) run \<Rightarrow> stage \<Rightarrow> bool \<Rightarrow> TreeNode \<Rightarrow> bool" where
  "committed R g ann v \<longleftrightarrow> \<not> ann \<and> (Tr_kids (Ru_tree R) v = [] \<or> g \<noteq> ReadCommits)"

text \<open>What the CoSi states of a node hold at each stage.\<close>

definition cosi_ok :: "('c, 'p :: ab_group_add, 's :: comm_ring) run \<Rightarrow> stage \<Rightarrow> bool \<Rightarrow> TreeNode \<Rightarrow> ('c, 'p, 's) bft \<Rightarrow> bool" where
  "cosi_ok R g ann v s \<longleftrightarrow>
     (rank g \<le> 2 \<longrightarrow> V_key (Ru_view R (prepare s)) = Ru_key R v)
     \<and> (g \<noteq> Finished \<longrightarrow> V_key (Ru_view R (commit s)) = Ru_key R v)
     \<and> (rank g \<le> 2 \<longrightarrow> V_random (Ru_view R (prepare s)) = Some (Ru_r1 R v))
     \<and> (v = run_root R \<and> rank g \<le> 2 \<longrightarrow> V_commit (Ru_view R (prepare s)) = Some (commit1 R))
     \<and> (v = run_root R \<and> rank g \<le> 2 \<or> g = ReadPrepareResponses \<longrightarrow> challenged R s)
     \<and> (v = run_root R \<longrightarrow> Msg s = Ru_msg R)
     \<and> (\<not> committed R g ann v \<longrightarrow> V_next (Ru_view R (commit s)) = Ru_r2 R v)
     \<and> (committed R g ann v \<and> g \<noteq> Finished \<longrightarrow> V_random (Ru_view R (commit s)) = Some (Ru_r2 R v))
     \<and> (v = run_root R \<and> g \<noteq> ReadCommits \<longrightarrow> V_commit (Ru_view R (commit s)) = Some (commit2 R))
     \<and> (v = run_root R \<and> g = WaitChallengeCommit \<or> g = ReadCommitResponses \<longrightarrow>
          V_challenge (Ru_view R (commit s)) = Some (chal2 R))"

definition node_inv ::
  "('c, 'p :: ab_group_add, 's :: comm_ring) run \<Rightarrow> stage \<Rightarrow> bool \<Rightarrow> bool \<Rightarrow> TreeNode \<Rightarrow> ('c, 'p, 's) bft \<Rightarrow> bool" where
  "node_inv R g ann rdy v s \<longleftrightarrow> static_ok R v s \<and> cosi_ok R g ann v s \<and> None \<notin> set (tempCommitCommit s)
     \<and> (Tr_kids (Ru_tree R) v = [] \<longrightarrow> g \<in> {WaitChallengePrepare, WaitChallengeCommit, Finished})
     \<and> (Tr_kids (Ru_tree R) v \<noteq> [] \<and> g \<noteq> ReadCommits \<longrightarrow>
          \<not> ann \<and> length (tempCommitCommit s) = length (Tr_kids (Ru_tree R) v))
     \<and> (rdy \<longleftrightarrow> g = ReadCommits \<and> length (tempCommitCommit s) = length (Tr_kids (Ru_tree R) v)
          \<or> g = ReadPrepareResponses \<and> length (tempPrepareResponse s) = length (Tr_kids (Ru_tree R) v)
          \<or> g = ReadCommitResponses \<and> length (tempCommitResponse s) = length (Tr_kids (Ru_tree R) v))
     \<and> tempPrepareResponsePublics s = map (\<lambda>u. SI_Public (Identity u)) (dynamicChildrenAux s)
     \<and> (responseChanClosed s \<longleftrightarrow> Tr_kids (Ru_tree R) v = [] \<and> 2 \<le> rank g)"

definition signed :: "('c, 'p :: ab_group_add, 's :: comm_ring) run \<Rightarrow> 'p BFTSignature \<Rightarrow> bool" where
  "signed R sg \<longleftrightarrow> Verify (Ru_suite R) (Some sg) (Ru_publics R) = Inr () \<and> Bs_Msg sg = Some (Ru_msg R)
     \<and> Bs_Exceptions sg = []"

definition sign_inv :: "('c, 'p :: ab_group_add, 's :: comm_ring) run \<Rightarrow> ('c, 'p, 's) snet \<Rightarrow> bool" where
  "sign_inv R \<tau> \<longleftrightarrow>
     (\<forall>v \<in> run_nodes R. node_inv R (S_stage \<tau> v) (S_ann \<tau> v) (S_ready \<tau> v) v (S_state \<tau> v))
     \<and> (\<forall>v. v \<notin> run_nodes R \<longrightarrow> S_stage \<tau> v = WaitChallengePrepare)
     \<and> (\<forall>q \<in># S_msgs \<tau>. pkt_ok R q)
     \<and> view_inv (Ru_tree R) (own_commit R) (view1 R \<tau>)
     \<and> view_inv (Ru_tree R) (own_response1 R) (view2 R \<tau>)
     \<and> view_inv (Ru_tree R) (own_response2 R) (view3 R \<tau>)
     \<and> (if S_stage \<tau> (run_root R) = Finished then \<exists>sg. S_sigs \<tau> = [sg] \<and> signed R sg else S_sigs \<tau> = [])"

lemma sign_invD:
  assumes "sign_inv R \<tau>"
  shows "v \<in> run_nodes R \<Longrightarrow> node_inv R (S_stage \<tau> v) (S_ann \<tau> v) (S_ready \<tau> v) v (S_state \<tau> v)"
    "v \<notin> run_nodes R \<Longrightarrow> S_stage \<tau> v = WaitChallengePrepare" "q \<in># S_msgs \<tau> \<Longrightarrow> pkt_ok R q"
    "view_inv (Ru_tree R) (own_commit R) (view1 R \<tau>)"
    "view_inv (Ru_tree R) (own_response1 R) (view2 R \<tau>)"
    "view_inv (Ru_tree R) (own_response2 R) (view3 R \<tau>)"
    "S_stage \<tau> (run_root R) \<noteq> Finished \<Longrightarrow> S_sigs \<tau> = []"
    "S_stage \<tau> (run_root R) = Finished \<Longrightarrow> \<exists>sg. S_sigs \<tau> = [sg] \<and> signed R sg"
  using assms by (auto simp: sign_inv_def)

lemma node_invD:
  assumes "node_inv R g ann rdy v s"
  shows "static_ok R v s" "cosi_ok R g ann v s" "None \<notin> set (tempCommitCommit s)"
    "Tr_kids (Ru_tree R) v = [] \<Longrightarrow> g \<in> {WaitChallengePrepare, WaitChallengeCommit, Finished}"
    "Tr_kids (Ru_tree R) v \<noteq> [] \<Longrightarrow> g \<noteq> ReadCommits \<Longrightarrow>
       \<not> ann \<and> length (tempCommitCommit s) = length (Tr_kids (Ru_tree R) v)"
    "rdy \<longleftrightarrow> g = ReadCommits \<and> length (tempCommitCommit s) = length (Tr_kids (Ru_tree R) v)
          \<or> g = ReadPrepareResponses \<and> length (tempPrepareResponse s) = length (Tr_kids (Ru_tree R) v)
          \<or> g = ReadCommitResponses \<and> length (tempCommitResponse s) = length (Tr_kids (Ru_tree R) v)"
    "tempPrepareResponsePublics s = map (\<lambda>u. SI_Public (Identity u)) (dynamicChildrenAux s)"
    "responseChanClosed s \<longleftrightarrow> Tr_kids (Ru_tree R) v = [] \<and> 2 \<le> rank g"
  using assms unfolding node_inv_def by blast+

lemma cosi_okD:
  assumes "cosi_ok R g ann v s"
  shows "rank g \<le> 2 \<Longrightarrow> V_key (Ru_view R (prepare s)) = Ru_key R v"
    "g \<noteq> Finished \<Longrightarrow> V_key (Ru_view R (commit s)) = Ru_key R v"
    "rank g \<le> 2 \<Longrightarrow> V_random (Ru_view R (prepare s)) = Some (Ru_r1 R v)"
    "v = run_root R \<Longrightarrow> rank g \<le> 2 \<Longrightarrow> V_commit (Ru_view R (prepare s)) = Some (commit1 R)"
    "v = run_root R \<Longrightarrow> rank g \<le> 2 \<Longrightarrow> challenged R s" "g = ReadPrepareResponses \<Longrightarrow> challenged R s"
    "v = run_root R \<Longrightarrow> Msg s = Ru_msg R"
    "\<not> committed R g ann v \<Longrightarrow> V_next (Ru_view R (commit s)) = Ru_r2 R v"
    "committed R g ann v \<Longrightarrow> g \<noteq> Finished \<Longrightarrow> V_random (Ru_view R (commit s)) = Some (Ru_r2 R v)"
    "v = run_root R \<Longrightarrow> g \<noteq> ReadCommits \<Longrightarrow> V_commit (Ru_view R (commit s)) = Some (commit2 R)"
    "v = run_root R \<Longrightarrow> g = WaitChallengeCommit \<Longrightarrow> V_challenge (Ru_view R (commit s)) = Some (chal2 R)"
    "g = ReadCommitResponses \<Longrightarrow> V_challenge (Ru_view R (commit s)) = Some (chal2 R)"
  using assms unfolding cosi_ok_def by blast+

text \<open>One node changes, with the messages and the signatures.\<close>

definition upd :: "TreeNode \<Rightarrow> ('c, 'p, 's) bft \<Rightarrow> stage \<Rightarrow> bool \<Rightarrow> bool \<Rightarrow> ('p, 's) packet multiset
    \<Rightarrow> 'p BFTSignature list \<Rightarrow> ('c, 'p, 's) snet \<Rightarrow> ('c, 'p, 's) snet" where
  "upd v s g a r M sgs \<tau> = \<lparr>S_state = (S_state \<tau>)(v := s), S_stage = (S_stage \<tau>)(v := g),
     S_ann = (S_ann \<tau>)(v := a), S_ready = (S_ready \<tau>)(v := r), S_msgs = M, S_sigs = sgs\<rparr>"

lemma upd_simps [simp]:
  "S_state (upd v s g a r M sgs \<tau>) = (S_state \<tau>)(v := s)" "S_stage (upd v s g a r M sgs \<tau>) = (S_stage \<tau>)(v := g)"
  "S_ann (upd v s g a r M sgs \<tau>) = (S_ann \<tau>)(v := a)" "S_ready (upd v s g a r M sgs \<tau>) = (S_ready \<tau>)(v := r)"
  "S_msgs (upd v s g a r M sgs \<tau>) = M" "S_sigs (upd v s g a r M sgs \<tau>) = sgs"
  by (simp_all add: upd_def)

lemma upd_inv:
  assumes "sign_inv R \<tau>" "v \<in> run_nodes R" "node_inv R g a r v s" "\<And>q. q \<in># M \<Longrightarrow> pkt_ok R q"
    and "view_inv (Ru_tree R) (own_commit R) (view1 R (upd v s g a r M sgs \<tau>))"
    and "view_inv (Ru_tree R) (own_response1 R) (view2 R (upd v s g a r M sgs \<tau>))"
    and "view_inv (Ru_tree R) (own_response2 R) (view3 R (upd v s g a r M sgs \<tau>))"
    and "v = run_root R \<and> g = Finished \<and> (\<exists>sg. sgs = [sg] \<and> signed R sg)
      \<or> sgs = S_sigs \<tau> \<and> (v = run_root R \<longrightarrow> g \<noteq> Finished \<and> S_stage \<tau> v \<noteq> Finished)"
  shows "sign_inv R (upd v s g a r M sgs \<tau>)"
  using assms by (auto simp: sign_inv_def)

lemma view1_keep:
  assumes "sign_inv R \<tau>" "a = S_ann \<tau> v" "g = ReadCommits \<longleftrightarrow> S_stage \<tau> v = ReadCommits"
    and "tempCommitCommit s = tempCommitCommit (S_state \<tau> v)" "cast_all cast1 M = cast_all cast1 (S_msgs \<tau>)"
  shows "view_inv (Ru_tree R) (own_commit R) (view1 R (upd v s g a r M sgs \<tau>))"
  using sign_invD(4)[OF assms(1)] by (rule view_same) (use assms(2-) in \<open>auto simp: view1_def\<close>)

lemma view2_keep:
  assumes "sign_inv R \<tau>" "2 \<le> rank g \<longleftrightarrow> 2 \<le> rank (S_stage \<tau> v)" "3 \<le> rank g \<longleftrightarrow> 3 \<le> rank (S_stage \<tau> v)"
    and "tempPrepareResponse s = tempPrepareResponse (S_state \<tau> v)"
      "dynamicChildrenAux s = dynamicChildrenAux (S_state \<tau> v)" "cast_all cast2 M = cast_all cast2 (S_msgs \<tau>)"
  shows "view_inv (Ru_tree R) (own_response1 R) (view2 R (upd v s g a r M sgs \<tau>))"
  using sign_invD(5)[OF assms(1)] by (rule view_same) (use assms(2-) in \<open>auto simp: view2_def\<close>)

lemma view3_keep:
  assumes "sign_inv R \<tau>" "4 \<le> rank g \<longleftrightarrow> 4 \<le> rank (S_stage \<tau> v)" "g = Finished \<longleftrightarrow> S_stage \<tau> v = Finished"
    and "tempCommitResponse s = tempCommitResponse (S_state \<tau> v)" "cast_all cast3 M = cast_all cast3 (S_msgs \<tau>)"
    and "v = run_root R \<Longrightarrow> rank g < 3 \<longleftrightarrow> rank (S_stage \<tau> v) < 3"
  shows "view_inv (Ru_tree R) (own_response2 R) (view3 R (upd v s g a r M sgs \<tau>))"
  using sign_invD(6)[OF assms(1)] by (rule view_same) (use assms(2-) in \<open>auto simp: view3_def\<close>)

subsection \<open>Every step keeps the invariant\<close>

lemma signatures_sends [simp]: "signatures (map (\<lambda>u. Send u m) us) = []"
  by (induction us) simp_all

lemma leaf_parent:
  assumes "run_ok E R" "v \<in> run_nodes R" "Tr_kids (Ru_tree R) v = []"
  obtains p where "Tr_par (Ru_tree R) v = Some p" "v \<noteq> run_root R"
proof -
  have "v \<noteq> run_root R" using run_okD(2)[OF assms(1)] assms(3) by auto
  with tree_parent[OF run_okD(1)[OF assms(1)] assms(2)] that show thesis by blast
qed

lemma answer_Some [simp]: "Tr_par T v = Some p \<Longrightarrow> answer T v x = {#Up v p x#}"
  by (simp add: answer_def)

lemma outbox_ok:
  assumes "\<forall>q \<in># M. pkt_ok R q" "\<And>u. u \<in> set us \<Longrightarrow> pkt_ok R (Some v, u, m)"
    and "q \<in># M + outbox v (map (\<lambda>u. Send u m) us)"
  shows "pkt_ok R q"
  using assms(2,3) by (induction us) (use assms(1) in auto)

lemma kids_nodes: "run_ok E R \<Longrightarrow> v \<in> run_nodes R \<Longrightarrow> u \<in> set (Tr_kids (Ru_tree R) v) \<Longrightarrow> u \<in> run_nodes R"
  using tree_okD(5)[OF run_okD(1)] by blast

lemma announce_commit_inv:
  assumes R: "run_ok E R" and I: "sign_inv R \<tau>" and m: "S_msgs \<tau> = add_mset (sender, v, MAnnounceCommit a) M"
    and n: "S_ann \<tau> v" and h: "readAnnouncementCommit (E v) a (S_state \<tau> v) = Inr (s', as)"
  shows "sign_inv R (upd v s' (S_stage \<tau> v) False (S_ready \<tau> v) (M + outbox v as) (S_sigs \<tau>) \<tau>)"
proof -
  let ?s = "S_state \<tau> v" and ?g = "S_stage \<tau> v"
  have v: "v \<in> run_nodes R" using sign_invD(3)[OF I, of "(sender, v, MAnnounceCommit a)"] m by simp
  note N = sign_invD(1)[OF I v]
  note st = node_invD(1)[OF N] and T = run_okD(1)[OF R]
  have oldm: "cv_msgs (view1 R \<tau>) = add_mset (Down v) (cast_all cast1 M)" by (simp add: view1_def m)
  have old: "\<forall>q \<in># M. pkt_ok R q" using sign_invD(3)[OF I] m by simp
  show ?thesis
  proof (cases "Tr_kids (Ru_tree R) v = []")
    case False
    have sa: "s' = ?s" "as = map (\<lambda>u. Send u (MAnnounceCommit a)) (Tr_kids (Ru_tree R) v)"
      using h announce_inner[OF R v st False, of a] by simp_all
    have g: "?g = ReadCommits" using node_invD(5)[OF N False] n by blast
    have "node_inv R ?g False (S_ready \<tau> v) v s'"
      using N False g by (simp add: node_inv_def cosi_ok_def committed_def sa)
    moreover have "pkt_ok R q" if "q \<in># M + outbox v as" for q
      using outbox_ok[OF old _ that[unfolded sa]] kids_nodes[OF R v] by simp
    moreover have "view_inv (Ru_tree R) (own_commit R)
        (view1 R (upd v s' ?g False (S_ready \<tau> v) (M + outbox v as) (S_sigs \<tau>) \<tau>))"
      by (rule view_forward[OF T sign_invD(4)[OF I] oldm]) (use False g v in \<open>auto simp: view1_def sa outbox_sends\<close>)
    ultimately show ?thesis
      using sign_invD(7)[OF I] g by (intro upd_inv[OF I v] view2_keep[OF I] view3_keep[OF I])
        (auto simp: sa outbox_sends m)
  next
    case True
    obtain p where p: "Tr_par (Ru_tree R) v = Some p" "v \<noteq> run_root R" using leaf_parent[OF R v True] by blast
    have P: "p \<in> run_nodes R" by (rule tree_okD(6)[OF T v p(1)])
    have "V_next (Ru_view R (commit ?s)) = Ru_r2 R v"
      using cosi_okD(8)[OF node_invD(2)[OF N]] n by (simp add: committed_def)
    from announce_leaf[OF R v st True p(1) this, of a] obtain c' where
      sa: "s' = ?s\<lparr>commit := c'\<rparr>" "as = [Send p (round_commitment (own_commit R v))]"
      "Ru_view R c' = (Ru_view R (commit ?s))\<lparr>V_random := Some (Ru_r2 R v)\<rparr>" using h by auto
    have "node_inv R ?g False (S_ready \<tau> v) v s'"
      using N True p(2) by (auto simp: node_inv_def cosi_ok_def committed_def sa challenged_def)
    moreover have "pkt_ok R q" if "q \<in># M + outbox v as" for q
      using that old P by (auto simp: sa)
    moreover have "view_inv (Ru_tree R) (own_commit R)
        (view1 R (upd v s' ?g False (S_ready \<tau> v) (M + outbox v as) (S_sigs \<tau>) \<tau>))"
      by (rule view_leaf[OF T sign_invD(4)[OF I] oldm True]) (use True v p in \<open>auto simp: view1_def sa\<close>)
    ultimately show ?thesis
      using p(2) by (intro upd_inv[OF I v] view2_keep[OF I] view3_keep[OF I]) (auto simp: sa m)
  qed
qed

lemma commitment_read_inv:
  assumes R: "run_ok E R" and I: "sign_inv R \<tau>" and m: "S_msgs \<tau> = add_mset (Some u, v, MCommitment c) M"
    and g: "S_stage \<tau> v = ReadCommits" and h: "commit_message (E v) RoundCommit u c (S_state \<tau> v) = Inr (ready, s')"
  shows "sign_inv R (upd v s' ReadCommits (S_ann \<tau> v) (S_ready \<tau> v \<or> ready) M (S_sigs \<tau>) \<tau>)"
proof -
  let ?s = "S_state \<tau> v"
  have "pkt_ok R (Some u, v, MCommitment c)" using sign_invD(3)[OF I] m by simp
  then obtain x where v: "v \<in> run_nodes R" and c: "c = \<lparr>Cm_TYPE = RoundCommit, Cm_Commitment = Some x\<rparr>"
    by (rule pkt_commitment)
  note N = sign_invD(1)[OF I v]
  have sr: "s' = ?s\<lparr>tempCommitCommit := tempCommitCommit ?s @ [Some x]\<rparr>"
    "ready \<longleftrightarrow> Suc (length (tempCommitCommit ?s)) = length (Tr_kids (Ru_tree R) v)"
    using h c commit_read[of E v u "Some x" ?s] static_okD(5)[OF node_invD(1)[OF N]] by auto
  have oldm: "cv_msgs (view1 R \<tau>) = add_mset (Up u v x) (cast_all cast1 M)" by (simp add: view1_def m c)
  have "length (tempCommitCommit ?s) < length (Tr_kids (Ru_tree R) v)"
    using view_up(6)[OF run_okD(1)[OF R] sign_invD(4)[OF I] oldm] by (simp add: view1_def)
  then have "node_inv R ReadCommits (S_ann \<tau> v) (S_ready \<tau> v \<or> ready) v s'"
    using N g by (auto simp: node_inv_def cosi_ok_def challenged_def sr)
  moreover have "view_inv (Ru_tree R) (own_commit R)
      (view1 R (upd v s' ReadCommits (S_ann \<tau> v) (S_ready \<tau> v \<or> ready) M (S_sigs \<tau>) \<tau>))"
    by (rule view_got[OF run_okD(1)[OF R] sign_invD(4)[OF I] oldm]) (use g in \<open>auto simp: view1_def sr\<close>)
  moreover have "pkt_ok R q" if "q \<in># M" for q using sign_invD(3)[OF I, of q] that m by simp
  ultimately show ?thesis
    using g c by (intro upd_inv[OF I v] view2_keep[OF I] view3_keep[OF I]) (auto simp: sr m)
qed

lemma commitment_done_inv:
  assumes R: "run_ok E R" and I: "sign_inv R \<tau>" and g: "S_stage \<tau> v = ReadCommits"
    and r: "S_ready \<tau> v \<or> commitChanClosed (S_state \<tau> v)"
    and h: "finishCommitmentCommit (E v) (S_state \<tau> v) = Inr (s', as)"
  shows "sign_inv R (upd v s' WaitChallengePrepare (S_ann \<tau> v) False (S_msgs \<tau> + outbox v as)
    (S_sigs \<tau> @ signatures as) \<tau>)"
proof -
  let ?s = "S_state \<tau> v" and ?x = "own_commit R v + sum_list (map the (tempCommitCommit (S_state \<tau> v)))"
  have v: "v \<in> run_nodes R" using sign_invD(2)[OF I, of v] g by auto
  note N = sign_invD(1)[OF I v] and T = run_okD(1)[OF R] and V = sign_invD(4)[OF I]
  note st = node_invD(1)[OF N]
  have k: "Tr_kids (Ru_tree R) v \<noteq> []" using node_invD(4)[OF N] g by auto
  then have len: "length (tempCommitCommit ?s) = length (Tr_kids (Ru_tree R) v)"
    using r node_invD(6)[OF N] g static_okD(9)[OF st] by auto
  then have open1: "v \<in> cv_open (view1 R \<tau>)" "\<not> S_ann \<tau> v"
    using view_shape(3)[OF V v] k v by (auto simp: view1_def)
  have notdone: "v \<notin> cv_done (view1 R \<tau>)" using k g by (simp add: view1_def)
  have nxt: "V_next (Ru_view R (commit ?s)) = Ru_r2 R v"
    using cosi_okD(8)[OF node_invD(2)[OF N]] k g by (simp add: committed_def)
  obtain c' where sa: "s' = ?s\<lparr>commit := c'\<rparr>"
    "as = (case Tr_par (Ru_tree R) v of None \<Rightarrow> [] | Some p \<Rightarrow> [Send p (round_commitment ?x)])"
    "Ru_view R c' = (Ru_view R (commit ?s))\<lparr>V_random := Some (Ru_r2 R v), V_commit := Some ?x\<rparr>"
    using commit_finish[OF R v st nxt node_invD(3)[OF N] refl] h by auto
  have root: "?x = commit2 R" if "v = run_root R"
    using view_root_full[OF T V] len open1 that by (simp add: view1_def commit2_def)
  have "node_inv R WaitChallengePrepare (S_ann \<tau> v) False v s'"
    using N g k len root open1(2) by (auto simp: node_inv_def cosi_ok_def committed_def challenged_def sa)
  moreover have "pkt_ok R q" if "q \<in># S_msgs \<tau> + outbox v as" for q
    using that sign_invD(3)[OF I, of q] tree_okD(6)[OF T v] by (cases q) (auto simp: sa split: option.splits)
  moreover have "view_inv (Ru_tree R) (own_commit R)
      (view1 R (upd v s' WaitChallengePrepare (S_ann \<tau> v) False (S_msgs \<tau> + outbox v as) (S_sigs \<tau> @ signatures as) \<tau>))"
    by (rule view_finish[OF T V open1(1) notdone])
      (use v k len open1(2) in \<open>auto simp: view1_def sa answer_def split: option.splits\<close>)
  moreover have "signatures as = []" "cast_all cast2 (outbox v as) = {#}" "cast_all cast3 (outbox v as) = {#}"
    by (simp_all add: sa split: option.splits)
  ultimately show ?thesis
    using g by (intro upd_inv[OF I v] view2_keep[OF I] view3_keep[OF I]) (auto simp: sa)
qed

lemma challenge_prepare_inv:
  assumes R: "run_ok E R" and I: "sign_inv R \<tau>" and m: "S_msgs \<tau> = add_mset (sender, v, MChallengePrepare ch) M"
    and g: "S_stage \<tau> v = WaitChallengePrepare"
    and h: "handleChallengePrepare (E v) ch (close_leaf (S_state \<tau> v)) = Inr (Some (s', as))"
    and g': "g' = (if Tr_kids (Ru_tree R) v = [] then WaitChallengeCommit else ReadPrepareResponses)"
  shows "sign_inv R (upd v s' g' (S_ann \<tau> v) False (M + outbox v as) (S_sigs \<tau> @ signatures as) \<tau>)"
proof -
  let ?s = "S_state \<tau> v"
  have "pkt_ok R (sender, v, MChallengePrepare ch)" by (rule sign_invD(3)[OF I]) (simp add: m)
  then have v: "v \<in> run_nodes R" and ch: "ch = challenge1 R" by simp_all
  note N = sign_invD(1)[OF I v] and T = run_okD(1)[OF R] and V = sign_invD(5)[OF I]
  note st = node_invD(1)[OF N] and C = cosi_okD[OF node_invD(2)[OF N]]
  have oldm: "cv_msgs (view2 R \<tau>) = add_mset (Down v) (cast_all cast2 M)" by (simp add: view2_def m)
  have old: "\<forall>q \<in># M. pkt_ok R q" using sign_invD(3)[OF I] m by simp
  have empty: "tempPrepareResponse ?s = []" using view_down(4)[OF T V oldm] by (simp add: view2_def)
  show ?thesis
  proof (cases "Tr_kids (Ru_tree R) v = []")
    case False
    have rt: "v = run_root R \<Longrightarrow> challenged R ?s" using C(5) g by simp
    have "close_leaf ?s = ?s" using False static_okD(10)[OF st] by (simp add: close_leaf_def)
    then obtain c' where sa: "s' = ?s\<lparr>Msg := Ru_msg R, Data := Ru_data R, prepare := c'\<rparr>"
      "as = map (\<lambda>u. Send u (MChallengePrepare (challenge1 R))) (Tr_kids (Ru_tree R) v)"
      "Ru_view R c' = (Ru_view R (prepare ?s))\<lparr>V_challenge := Some (chal1 R)\<rparr>"
      using challenge_prepare_inner[OF R v st False rt] h ch by auto
    have "node_inv R g' (S_ann \<tau> v) False v s'"
      using N g False empty g' by (auto simp: node_inv_def cosi_ok_def committed_def challenged_def sa)
    moreover have "pkt_ok R q" if "q \<in># M + outbox v as" for q
      using outbox_ok[OF old _ that[unfolded sa]] kids_nodes[OF R v] by simp
    moreover have "view_inv (Ru_tree R) (own_response1 R)
        (view2 R (upd v s' g' (S_ann \<tau> v) False (M + outbox v as) (S_sigs \<tau> @ signatures as) \<tau>))"
      by (rule view_forward[OF T V oldm]) (use False g g' v in \<open>auto simp: view2_def sa outbox_sends\<close>)
    ultimately show ?thesis
      using g g' False by (intro upd_inv[OF I v] view1_keep[OF I] view3_keep[OF I]) (auto simp: sa outbox_sends m)
  next
    case True
    obtain p where p: "Tr_par (Ru_tree R) v = Some p" "v \<noteq> run_root R" using leaf_parent[OF R v True] by blast
    have P: "p \<in> run_nodes R" by (rule tree_okD(6)[OF T v p(1)])
    obtain c' where sa: "s' = ?s\<lparr>responseChanClosed := True, Msg := Ru_msg R, Data := Ru_data R, prepare := c'\<rparr>"
      "as = [Send p (response_msg RoundPrepare (own_response1 R v))]"
      using challenge_prepare_leaf[OF R v st True p(1) _ C(1) empty] C(3) g h ch by auto
    have "node_inv R g' (S_ann \<tau> v) False v s'"
      using N g True empty g' p(2) by (auto simp: node_inv_def cosi_ok_def committed_def challenged_def sa)
    moreover have "pkt_ok R q" if "q \<in># M + outbox v as" for q
      using that old P by (cases q) (auto simp: sa)
    moreover have "view_inv (Ru_tree R) (own_response1 R)
        (view2 R (upd v s' g' (S_ann \<tau> v) False (M + outbox v as) (S_sigs \<tau> @ signatures as) \<tau>))"
      by (rule view_leaf[OF T V oldm True]) (use True g g' v p in \<open>auto simp: view2_def sa\<close>)
    ultimately show ?thesis
      using p(2) g g' True by (intro upd_inv[OF I v] view1_keep[OF I] view3_keep[OF I]) (auto simp: sa m)
  qed
qed

lemma prepare_response_inv:
  assumes R: "run_ok E R" and I: "sign_inv R \<tau>" and m: "S_msgs \<tau> = add_mset (Some u, v, MResponse r) M"
    and g: "S_stage \<tau> v = ReadPrepareResponses"
    and h: "response_message RoundPrepare u r (S_state \<tau> v) = (ready, s')"
  shows "sign_inv R (upd v s' ReadPrepareResponses (S_ann \<tau> v) ready M (S_sigs \<tau>) \<tau>)"
proof -
  let ?s = "S_state \<tau> v"
  have "pkt_ok R (Some u, v, MResponse r)" by (rule sign_invD(3)[OF I]) (simp add: m)
  then obtain x t where v: "v \<in> run_nodes R" and r: "r = \<lparr>R_Response = x, R_Exceptions = [], R_TYPE = t\<rparr>"
    "t = RoundPrepare \<or> t = RoundCommit" by (rule pkt_response)
  note N = sign_invD(1)[OF I v] and T = run_okD(1)[OF R]
  have "t \<noteq> RoundCommit"
  proof
    assume "t = RoundCommit"
    then have "\<exists>M'. cv_msgs (view3 R \<tau>) = add_mset (Up u v x) M'" by (simp add: view3_def m r)
    then obtain M' where "cv_msgs (view3 R \<tau>) = add_mset (Up u v x) M'" by blast
    from view_up(3)[OF T sign_invD(6)[OF I] this] show False using g by (simp add: view3_def)
  qed
  then have t: "t = RoundPrepare" using r(2) by simp
  have sr: "s' = ?s\<lparr>tempPrepareResponse := tempPrepareResponse ?s @ [x], dynamicChildrenAux := dynamicChildrenAux ?s @ [u],
      tempPrepareResponsePublics := tempPrepareResponsePublics ?s @ [SI_Public (Identity u)]\<rparr>"
    "ready \<longleftrightarrow> Suc (length (tempPrepareResponse ?s)) = length (Tr_kids (Ru_tree R) v)"
    using h response_read(1)[of u x "[]" ?s] static_okD(5)[OF node_invD(1)[OF N]] by (auto simp: r(1) t)
  have oldm: "cv_msgs (view2 R \<tau>) = add_mset (Up u v x) (cast_all cast2 M)" by (simp add: view2_def m r(1) t)
  have "node_inv R ReadPrepareResponses (S_ann \<tau> v) ready v s'"
    using N g by (auto simp: node_inv_def cosi_ok_def challenged_def sr)
  moreover have "view_inv (Ru_tree R) (own_response1 R)
      (view2 R (upd v s' ReadPrepareResponses (S_ann \<tau> v) ready M (S_sigs \<tau>) \<tau>))"
    by (rule view_got[OF T sign_invD(5)[OF I] oldm]) (use g in \<open>auto simp: view2_def sr\<close>)
  moreover have "pkt_ok R q" if "q \<in># M" for q by (rule sign_invD(3)[OF I]) (simp add: m that)
  ultimately show ?thesis
    using g t r(1) by (intro upd_inv[OF I v] view1_keep[OF I] view3_keep[OF I]) (auto simp: sr m)
qed

lemma prepare_done_inv:
  assumes R: "run_ok E R" and I: "sign_inv R \<tau>" and g: "S_stage \<tau> v = ReadPrepareResponses"
    and r: "S_ready \<tau> v \<or> responseChanClosed (S_state \<tau> v)"
    and h: "finishResponsePrepare (E v) (S_state \<tau> v) = Inr (s', as)"
  shows "sign_inv R (upd v s' WaitChallengeCommit (S_ann \<tau> v) False (S_msgs \<tau> + outbox v as)
    (S_sigs \<tau> @ signatures as) \<tau>)" (is "sign_inv R ?\<tau>")
proof -
  let ?s = "S_state \<tau> v" and ?x = "own_response1 R v + sum_list (tempPrepareResponse (S_state \<tau> v))"
  have v: "v \<in> run_nodes R" using sign_invD(2)[OF I, of v] g by auto
  note N = sign_invD(1)[OF I v] and T = run_okD(1)[OF R] and V = sign_invD(5)[OF I]
  note st = node_invD(1)[OF N] and C = cosi_okD[OF node_invD(2)[OF N]]
  have k: "Tr_kids (Ru_tree R) v \<noteq> []" using node_invD(4)[OF N] g by auto
  then have len: "length (tempPrepareResponse ?s) = length (Tr_kids (Ru_tree R) v)"
    using r node_invD(6,8)[OF N] g by auto
  have open2: "v \<in> cv_open (view2 R \<tau>)" "v \<notin> cv_done (view2 R \<tau>)" using v g by (simp_all add: view2_def)
  have pub: "SI_Public (Identity u) \<in> set (tempPrepareResponsePublics ?s)" if "u \<in> set (Tr_kids (Ru_tree R) v)" for u
    using view_full_who[OF T V v] len that node_invD(7)[OF N] by (simp add: view2_def)
  have p: "V_random (Ru_view R (prepare ?s)) = Some (Ru_r1 R v)" "V_key (Ru_view R (prepare ?s)) = Ru_key R v"
    "challenged R ?s" using C(1,3,6) g by simp_all
  show ?thesis
  proof (cases "v = run_root R")
    case True
    have x: "response1 R = ?x"
      using view_root_full[OF T V] len open2 True by (simp add: view2_def response1_def)
    obtain c' c'' sg bits where sa: "s' = ?s\<lparr>prepare := c', prepareSignature := sg, commit := c''\<rparr>"
      "as = [ToSelf (MChallengeCommit (challenge2 R bits))]"
      "Ru_view R c'' = (Ru_view R (commit ?s))\<lparr>V_challenge := Some (chal2 R)\<rparr>"
      using prepare_finish_root[OF R True st p(3,1,2) _ _ pub x] C(4,10) g True h by auto
    have "node_inv R WaitChallengeCommit (S_ann \<tau> v) False v s'"
      using N g k by (auto simp: node_inv_def cosi_ok_def committed_def challenged_def sa)
    moreover have "pkt_ok R q" if "q \<in># S_msgs \<tau> + outbox v as" for q
      using that sign_invD(3)[OF I, of q] v by (cases q) (auto simp: sa)
    moreover have "view_inv (Ru_tree R) (own_response1 R) (view2 R ?\<tau>)"
      by (rule view_finish[OF T V open2])
        (use v g len True tree_okD(3)[OF T] in \<open>auto simp: view2_def sa answer_def\<close>)
    moreover have "view_inv (Ru_tree R) (own_response2 R) (view3 R ?\<tau>)"
      by (rule view_same[OF sign_invD(6)[OF I]]) (use g True in \<open>auto simp: view3_def sa\<close>)
    ultimately show ?thesis
      using g sign_invD(7)[OF I] by (intro upd_inv[OF I v] view1_keep[OF I]) (auto simp: sa)
  next
    case False
    then obtain q where q: "Tr_par (Ru_tree R) v = Some q" using tree_parent[OF T v] by blast
    obtain c' where sa: "s' = ?s\<lparr>prepare := c'\<rparr>" "as = [Send q (response_msg RoundPrepare ?x)]"
      using prepare_finish[OF R v st p(3,1,2) _ pub refl q] k h by auto
    have "node_inv R WaitChallengeCommit (S_ann \<tau> v) False v s'"
      using N g k False by (auto simp: node_inv_def cosi_ok_def committed_def sa)
    moreover have "pkt_ok R q'" if "q' \<in># S_msgs \<tau> + outbox v as" for q'
      using that sign_invD(3)[OF I, of q'] tree_okD(6)[OF T v q] by (cases q') (auto simp: sa)
    moreover have "view_inv (Ru_tree R) (own_response1 R) (view2 R ?\<tau>)"
      by (rule view_finish[OF T V open2]) (use v g len q in \<open>auto simp: view2_def sa\<close>)
    ultimately show ?thesis
      using g False by (intro upd_inv[OF I v] view1_keep[OF I] view3_keep[OF I]) (auto simp: sa)
  qed
qed

lemma all_committed:
  assumes R: "run_ok E R" and I: "sign_inv R \<tau>" and g: "S_stage \<tau> (run_root R) \<noteq> ReadCommits" and v: "v \<in> run_nodes R"
  shows "\<not> S_ann \<tau> v"
proof -
  have root: "run_root R \<in> run_nodes R" by (rule tree_okD(2)[OF run_okD(1)[OF R]])
  have "\<not> S_ann \<tau> (run_root R)" using node_invD(5)[OF sign_invD(1)[OF I root] run_okD(2)[OF R] g] by blast
  then have "run_root R \<in> cv_done (view1 R \<tau>)" using root g by (simp add: view1_def)
  from view_root_done(2)[OF run_okD(1)[OF R] sign_invD(4)[OF I] this] v show ?thesis by (auto simp: view1_def)
qed

lemma challenge_commit_inv:
  assumes R: "run_ok E R" and I: "sign_inv R \<tau>" and m: "S_msgs \<tau> = add_mset (sender, v, MChallengeCommit cc) M"
    and g: "S_stage \<tau> v = WaitChallengeCommit"
    and h: "handleChallengeCommit (E v) cc (S_state \<tau> v) = Inr (Some (s', as))"
    and g': "g' = (if Tr_kids (Ru_tree R) v = [] then Finished else ReadCommitResponses)"
  shows "sign_inv R (upd v s' g' (S_ann \<tau> v) False (M + outbox v as) (S_sigs \<tau> @ signatures as) \<tau>)"
    (is "sign_inv R ?\<tau>")
proof -
  let ?s = "S_state \<tau> v"
  let ?ph = "if rank (S_stage \<tau> (run_root R)) < 3 then {#Down (run_root R)#} else {#}"
  have "pkt_ok R (sender, v, MChallengeCommit cc)" by (rule sign_invD(3)[OF I]) (simp add: m)
  then obtain bits where v: "v \<in> run_nodes R" and cc: "cc = challenge2 R bits" by auto
  note N = sign_invD(1)[OF I v] and T = run_okD(1)[OF R] and V = sign_invD(6)[OF I]
  note st = node_invD(1)[OF N] and C = cosi_okD[OF node_invD(2)[OF N]]
  have oldm: "cv_msgs (view3 R \<tau>) = add_mset (Down v) (cast_all cast3 M + ?ph)" by (simp add: view3_def m)
  have old: "\<forall>q \<in># M. pkt_ok R q" using sign_invD(3)[OF I] m by simp
  have empty: "tempCommitResponse ?s = []" using view_down(4)[OF T V oldm] by (simp add: view3_def)
  show ?thesis
  proof (cases "Tr_kids (Ru_tree R) v = []")
    case False
    have rt: "v = run_root R \<Longrightarrow> V_challenge (Ru_view R (commit ?s)) = Some (chal2 R)" using C(11) g by simp
    obtain c' where sa: "s' = ?s\<lparr>commit := c'\<rparr>"
      "as = map (\<lambda>u. Send u (MChallengeCommit (challenge2 R bits))) (Tr_kids (Ru_tree R) v)"
      "Ru_view R c' = (Ru_view R (commit ?s))\<lparr>V_challenge := Some (chal2 R)\<rparr>"
      using challenge_commit_inner[OF R v st False rt, of bits] h cc by auto
    have "node_inv R g' (S_ann \<tau> v) False v s'"
      using N g False empty g' by (auto simp: node_inv_def cosi_ok_def committed_def sa)
    moreover have "pkt_ok R q" if "q \<in># M + outbox v as" for q
      using outbox_ok[OF old _ that[unfolded sa]] kids_nodes[OF R v] by auto
    moreover have "view_inv (Ru_tree R) (own_response2 R) (view3 R ?\<tau>)"
      by (rule view_forward[OF T V oldm]) (use False g g' v in \<open>auto simp: view3_def sa outbox_sends\<close>)
    ultimately show ?thesis
      using g g' False by (intro upd_inv[OF I v] view1_keep[OF I] view2_keep[OF I]) (auto simp: sa outbox_sends m)
  next
    case True
    obtain p where p: "Tr_par (Ru_tree R) v = Some p" "v \<noteq> run_root R" using leaf_parent[OF R v True] by blast
    have P: "p \<in> run_nodes R" by (rule tree_okD(6)[OF T v p(1)])
    have "S_stage \<tau> (run_root R) \<noteq> ReadCommits" using view_down_root[OF T V oldm p(2)] by (auto simp: view3_def)
    from all_committed[OF R I this v] have com: "committed R (S_stage \<tau> v) (S_ann \<tau> v) v"
      using True by (simp add: committed_def)
    obtain c' where sa: "s' = ?s\<lparr>commit := c'\<rparr>" "as = [Send p (response_msg RoundCommit (own_response2 R v))]"
      using challenge_commit_leaf[OF R v st True p(1) C(9)[OF com] C(2), of bits] node_invD(8)[OF N] True g h cc by auto
    have "node_inv R g' (S_ann \<tau> v) False v s'"
      using N g True g' p(2) com by (auto simp: node_inv_def cosi_ok_def committed_def sa)
    moreover have "pkt_ok R q" if "q \<in># M + outbox v as" for q
      using that old P by (cases q) (auto simp: sa)
    moreover have "view_inv (Ru_tree R) (own_response2 R) (view3 R ?\<tau>)"
      by (rule view_leaf[OF T V oldm True]) (use True g g' v p in \<open>auto simp: view3_def sa\<close>)
    ultimately show ?thesis
      using p(2) g g' True by (intro upd_inv[OF I v] view1_keep[OF I] view2_keep[OF I]) (auto simp: sa m)
  qed
qed

lemma commit_response_inv:
  assumes R: "run_ok E R" and I: "sign_inv R \<tau>" and m: "S_msgs \<tau> = add_mset (Some u, v, MResponse r) M"
    and g: "S_stage \<tau> v = ReadCommitResponses"
    and h: "response_message RoundCommit u r (S_state \<tau> v) = (ready, s')"
  shows "sign_inv R (upd v s' ReadCommitResponses (S_ann \<tau> v) ready M (S_sigs \<tau>) \<tau>)"
proof -
  let ?s = "S_state \<tau> v"
  let ?ph = "if rank (S_stage \<tau> (run_root R)) < 3 then {#Down (run_root R)#} else {#}"
  have "pkt_ok R (Some u, v, MResponse r)" by (rule sign_invD(3)[OF I]) (simp add: m)
  then obtain x t where v: "v \<in> run_nodes R" and r: "r = \<lparr>R_Response = x, R_Exceptions = [], R_TYPE = t\<rparr>"
    "t = RoundPrepare \<or> t = RoundCommit" by (rule pkt_response)
  note N = sign_invD(1)[OF I v] and T = run_okD(1)[OF R]
  have "t \<noteq> RoundPrepare"
  proof
    assume "t = RoundPrepare"
    then have "cv_msgs (view2 R \<tau>) = add_mset (Up u v x) (cast_all cast2 M)" by (simp add: view2_def m r)
    from view_up(4)[OF T sign_invD(5)[OF I] this] show False using g v by (simp add: view2_def)
  qed
  then have t: "t = RoundCommit" using r(2) by simp
  have k: "Tr_kids (Ru_tree R) v \<noteq> []" using node_invD(4)[OF N] g by auto
  have sr: "s' = ?s\<lparr>tempCommitResponse := tempCommitResponse ?s @ [x]\<rparr>"
    "ready \<longleftrightarrow> Suc (length (tempCommitResponse ?s)) = length (Tr_kids (Ru_tree R) v)"
    using h response_read(2)[of u x "[]" ?s] node_invD(5)[OF N k] g by (auto simp: r(1) t)
  have oldm: "cv_msgs (view3 R \<tau>) = add_mset (Up u v x) (cast_all cast3 M + ?ph)" by (simp add: view3_def m r(1) t)
  have "node_inv R ReadCommitResponses (S_ann \<tau> v) ready v s'"
    using N g by (auto simp: node_inv_def cosi_ok_def challenged_def sr)
  moreover have "view_inv (Ru_tree R) (own_response2 R)
      (view3 R (upd v s' ReadCommitResponses (S_ann \<tau> v) ready M (S_sigs \<tau>) \<tau>))"
    by (rule view_got[OF T sign_invD(6)[OF I] oldm]) (use g in \<open>auto simp: view3_def sr\<close>)
  moreover have "pkt_ok R q" if "q \<in># M" for q by (rule sign_invD(3)[OF I]) (simp add: m that)
  ultimately show ?thesis
    using g t r(1) by (intro upd_inv[OF I v] view1_keep[OF I] view2_keep[OF I]) (auto simp: sr m)
qed

lemma commit_done_inv:
  assumes R: "run_ok E R" and I: "sign_inv R \<tau>" and g: "S_stage \<tau> v = ReadCommitResponses"
    and r: "S_ready \<tau> v \<or> responseChanClosed (S_state \<tau> v)"
    and h: "finishResponseCommit (E v) (S_state \<tau> v) = Inr (s', as)"
  shows "sign_inv R (upd v s' Finished (S_ann \<tau> v) False (S_msgs \<tau> + outbox v as)
    (S_sigs \<tau> @ signatures as) \<tau>)" (is "sign_inv R ?\<tau>")
proof -
  let ?s = "S_state \<tau> v" and ?x = "own_response2 R v + sum_list (tempCommitResponse (S_state \<tau> v))"
  have v: "v \<in> run_nodes R" using sign_invD(2)[OF I, of v] g by auto
  note N = sign_invD(1)[OF I v] and T = run_okD(1)[OF R] and V = sign_invD(6)[OF I]
  note st = node_invD(1)[OF N] and C = cosi_okD[OF node_invD(2)[OF N]]
  have k: "Tr_kids (Ru_tree R) v \<noteq> []" using node_invD(4)[OF N] g by auto
  then have len: "length (tempCommitResponse ?s) = length (Tr_kids (Ru_tree R) v)"
    using r node_invD(6,8)[OF N] g by auto
  have open3: "v \<in> cv_open (view3 R \<tau>)" "v \<notin> cv_done (view3 R \<tau>)" using v g by (simp_all add: view3_def)
  have com: "committed R (S_stage \<tau> v) (S_ann \<tau> v) v" using node_invD(5)[OF N k] g by (simp add: committed_def)
  obtain c' where sa: "s' = ?s\<lparr>commit := c'\<rparr>" "as = (case Tr_par (Ru_tree R) v of
        None \<Rightarrow> [SignatureDone (Signature (E v) (?s\<lparr>commit := c'\<rparr>))] | Some q \<Rightarrow> [Send q (response_msg RoundCommit ?x)])"
    "Ru_view R c' = (Ru_view R (commit ?s))\<lparr>V_random := None, V_response := Some ?x\<rparr>"
    using commit_finish_inner[OF R v st k C(9)[OF com] C(2) C(12) refl] g h by auto
  have node: "node_inv R Finished (S_ann \<tau> v) False v s'"
    using N g k com by (auto simp: node_inv_def cosi_ok_def committed_def sa)
  have pkt: "pkt_ok R q" if "q \<in># S_msgs \<tau> + outbox v as" for q
    using that sign_invD(3)[OF I, of q] tree_okD(6)[OF T v] by (cases q) (auto simp: sa split: option.splits)
  have out: "cast_all cast1 (outbox v as) = {#}" "cast_all cast2 (outbox v as) = {#}"
    "cast_all cast3 (outbox v as) = answer (Ru_tree R) v ?x"
    by (simp_all add: sa answer_def split: option.splits)
  have view: "view_inv (Ru_tree R) (own_response2 R) (view3 R ?\<tau>)"
    by (rule view_finish[OF T V open3]) (use v g len out(3) in \<open>auto simp: view3_def sa(1)\<close>)
  have sigs: "v = run_root R \<and> Finished = Finished \<and> (\<exists>sg. S_sigs \<tau> @ signatures as = [sg] \<and> signed R sg)
      \<or> S_sigs \<tau> @ signatures as = S_sigs \<tau> \<and> (v = run_root R \<longrightarrow> Finished \<noteq> Finished \<and> S_stage \<tau> v \<noteq> Finished)"
  proof (cases "v = run_root R")
    case True
    have "?x = response2 R" using view_root_full[OF T V] len open3 True by (simp add: view3_def response2_def)
    then have "signed R (Signature (E v) s')"
      using signature_accepted[OF R v node_invD(1)[OF node]] C(7)[OF True] C(10)[OF True] g
      by (simp add: signed_def sa(1,3))
    moreover have "signatures as = [Signature (E v) s']" using True tree_okD(3)[OF T] by (simp add: sa(1,2))
    ultimately show ?thesis using True sign_invD(7)[OF I] g by simp
  next
    case False
    then obtain q where "Tr_par (Ru_tree R) v = Some q" using tree_parent[OF T v] by blast
    then show ?thesis using False by (simp add: sa(2))
  qed
  show ?thesis
    using g by (intro upd_inv[OF I v node pkt _ _ view sigs] view1_keep[OF I] view2_keep[OF I]) (auto simp: sa(1) out)
qed

lemma move_upd: "move v g s as M \<tau> = upd v s g (S_ann \<tau> v) False (M + outbox v as) (S_sigs \<tau> @ signatures as) \<tau>"
  by (intro snet.equality) (simp_all add: move_def)

lemma sign_step_inv:
  assumes "sign_step E \<tau> \<tau>'" and R: "run_ok E R" and I: "sign_inv R \<tau>"
  shows "sign_inv R \<tau>'"
  using assms(1)
proof cases
  case (announce_commit sender v a M s' as)
  have "\<tau>' = upd v s' (S_stage \<tau> v) False (S_ready \<tau> v) (M + outbox v as) (S_sigs \<tau>) \<tau>"
    by (intro snet.equality) (simp_all add: announce_commit(1))
  then show ?thesis using announce_commit_inv[OF R I announce_commit(2-4)] by simp
next
  case (commitment_read u v c M ready s')
  have "\<tau>' = upd v s' ReadCommits (S_ann \<tau> v) (S_ready \<tau> v \<or> ready) M (S_sigs \<tau>) \<tau>"
    using commitment_read(3) by (intro snet.equality) (auto simp: commitment_read(1))
  then show ?thesis using commitment_read_inv[OF R I commitment_read(2,3,5)] by simp
next
  case (commitment_done v s' as)
  then show ?thesis using commitment_done_inv[OF R I commitment_done(2-4)] by (simp add: move_upd)
next
  case (challenge_prepare sender v ch M s' as)
  have "pkt_ok R (sender, v, MChallengePrepare ch)" by (rule sign_invD(3)[OF I]) (simp add: challenge_prepare(2))
  then have v: "v \<in> run_nodes R" by simp
  show ?thesis
    using challenge_prepare_inv[OF R I challenge_prepare(2-4) refl] static_okD(10)[OF node_invD(1)[OF sign_invD(1)[OF I v]]]
    by (simp add: challenge_prepare(1) move_upd)
next
  case (prepare_response u v r M ready s')
  have "\<tau>' = upd v s' ReadPrepareResponses (S_ann \<tau> v) ready M (S_sigs \<tau>) \<tau>"
    using prepare_response(3) by (intro snet.equality) (auto simp: prepare_response(1))
  then show ?thesis using prepare_response_inv[OF R I prepare_response(2,3,8)] by simp
next
  case (prepare_done v s' as)
  then show ?thesis using prepare_done_inv[OF R I prepare_done(2-4)] by (simp add: move_upd)
next
  case (challenge_commit sender v cc M s' as)
  have "pkt_ok R (sender, v, MChallengeCommit cc)" by (rule sign_invD(3)[OF I]) (simp add: challenge_commit(2))
  then have v: "v \<in> run_nodes R" by simp
  show ?thesis
    using challenge_commit_inv[OF R I challenge_commit(2-4) refl] static_okD(10)[OF node_invD(1)[OF sign_invD(1)[OF I v]]]
    by (simp add: challenge_commit(1) move_upd)
next
  case (commit_response u v r M ready s')
  have "\<tau>' = upd v s' ReadCommitResponses (S_ann \<tau> v) ready M (S_sigs \<tau>) \<tau>"
    using commit_response(3) by (intro snet.equality) (auto simp: commit_response(1))
  then show ?thesis using commit_response_inv[OF R I commit_response(2,3,6)] by simp
next
  case (commit_done v s' as)
  then show ?thesis using commit_done_inv[OF R I commit_done(2-4)] by (simp add: move_upd)
qed



subsection \<open>No step is missing\<close>

lemma announce_enabled:
  assumes R: "run_ok E R" and I: "sign_inv R \<tau>" and m: "S_msgs \<tau> = add_mset (sender, v, MAnnounceCommit a) M"
  shows "\<exists>\<tau>'. sign_step E \<tau> \<tau>'"
proof -
  have v: "v \<in> run_nodes R" using sign_invD(3)[OF I, of "(sender, v, MAnnounceCommit a)"] m by simp
  note N = sign_invD(1)[OF I v] and T = run_okD(1)[OF R]
  have "cv_msgs (view1 R \<tau>) = add_mset (Down v) (cast_all cast1 M)" by (simp add: view1_def m)
  from view_down(2)[OF T sign_invD(4)[OF I] this] v have n: "S_ann \<tau> v" by (simp add: view1_def)
  have "\<exists>s' as. readAnnouncementCommit (E v) a (S_state \<tau> v) = Inr (s', as)"
  proof (cases "Tr_kids (Ru_tree R) v = []")
    case True
    obtain p where "Tr_par (Ru_tree R) v = Some p" using leaf_parent[OF R v True] by blast
    moreover have "V_next (Ru_view R (commit (S_state \<tau> v))) = Ru_r2 R v"
      using cosi_okD(8)[OF node_invD(2)[OF N]] n by (simp add: committed_def)
    ultimately show ?thesis using announce_leaf[OF R v node_invD(1)[OF N] True] by blast
  qed (use announce_inner[OF R v node_invD(1)[OF N]] in blast)
  then show ?thesis using sign_step.announce_commit[OF m n] by blast
qed

lemma commitment_enabled1:
  assumes R: "run_ok E R" and I: "sign_inv R \<tau>" and m: "S_msgs \<tau> = add_mset (Some u, v, MCommitment c) M"
  shows "\<exists>\<tau>'. sign_step E \<tau> \<tau>'"
proof -
  have "pkt_ok R (Some u, v, MCommitment c)" by (rule sign_invD(3)[OF I]) (simp add: m)
  then obtain x where v: "v \<in> run_nodes R" and c: "c = \<lparr>Cm_TYPE = RoundCommit, Cm_Commitment = Some x\<rparr>"
    by (rule pkt_commitment)
  have "cv_msgs (view1 R \<tau>) = add_mset (Up u v x) (cast_all cast1 M)" by (simp add: view1_def m c)
  from view_up(3,4)[OF run_okD(1)[OF R] sign_invD(4)[OF I] this] v
  have g: "S_stage \<tau> v = ReadCommits" by (auto simp: view1_def)
  have "\<not> closing (S_state \<tau> v)" by (rule static_okD(1)[OF node_invD(1)[OF sign_invD(1)[OF I v]]])
  from sign_step.commitment_read[OF m g this] show ?thesis unfolding c commit_read by blast
qed

lemma commitment_done_enabled:
  assumes R: "run_ok E R" and I: "sign_inv R \<tau>" and v: "v \<in> cv_open (view1 R \<tau>)" "v \<notin> cv_done (view1 R \<tau>)"
    and len: "length (cv_vals (view1 R \<tau>) v) = length (Tr_kids (Ru_tree R) v)"
  shows "\<exists>\<tau>'. sign_step E \<tau> \<tau>'"
proof -
  have V: "v \<in> run_nodes R" and g: "S_stage \<tau> v = ReadCommits" and k: "Tr_kids (Ru_tree R) v \<noteq> []"
    using v by (auto simp: view1_def)
  note N = sign_invD(1)[OF I V]
  have r: "S_ready \<tau> v" using node_invD(6)[OF N] g len by (simp add: view1_def)
  have "V_next (Ru_view R (commit (S_state \<tau> v))) = Ru_r2 R v"
    using cosi_okD(8)[OF node_invD(2)[OF N]] k g by (simp add: committed_def)
  from commit_finish[OF R V node_invD(1)[OF N] this node_invD(3)[OF N] refl] show ?thesis
    using sign_step.commitment_done[OF g] r by blast
qed

lemma round1_progress:
  assumes R: "run_ok E R" and I: "sign_inv R \<tau>" and open_root: "run_root R \<notin> cv_done (view1 R \<tau>)"
  shows "\<exists>\<tau>'. sign_step E \<tau> \<tau>'"
proof (cases "\<exists>q \<in># S_msgs \<tau>. cast1 q \<noteq> {#}")
  case True
  then obtain q M where q: "S_msgs \<tau> = add_mset q M" "cast1 q \<noteq> {#}" by (metis multi_member_split)
  then show ?thesis
    using announce_enabled[OF R I] commitment_enabled1[OF R I] by (cases q rule: cast1.cases) auto
next
  case False
  then have "cv_msgs (view1 R \<tau>) = {#}" by (simp add: view1_def cast_all_def)
  from view_progress[OF run_okD(1)[OF R] sign_invD(4)[OF I] open_root this] commitment_done_enabled[OF R I]
  show ?thesis by blast
qed

lemma round1_over:
  assumes R: "run_ok E R" and I: "sign_inv R \<tau>" and d: "run_root R \<in> cv_done (view1 R \<tau>)" and v: "v \<in> run_nodes R"
  shows "S_stage \<tau> v \<noteq> ReadCommits"
proof
  assume g: "S_stage \<tau> v = ReadCommits"
  from view_root_done(1)[OF run_okD(1)[OF R] sign_invD(4)[OF I] d] v
  have "v \<in> cv_done (view1 R \<tau>)" by simp
  then show False using g node_invD(4)[OF sign_invD(1)[OF I v]] by (auto simp: view1_def)
qed

lemma challenge_prepare_enabled:
  assumes R: "run_ok E R" and I: "sign_inv R \<tau>" and m: "S_msgs \<tau> = add_mset (sender, v, MChallengePrepare ch) M"
    and d: "run_root R \<in> cv_done (view1 R \<tau>)"
  shows "\<exists>\<tau>'. sign_step E \<tau> \<tau>'"
proof -
  let ?s = "S_state \<tau> v"
  have "pkt_ok R (sender, v, MChallengePrepare ch)" by (rule sign_invD(3)[OF I]) (simp add: m)
  then have v: "v \<in> run_nodes R" and ch: "ch = challenge1 R" by simp_all
  note N = sign_invD(1)[OF I v] and T = run_okD(1)[OF R] and V = sign_invD(5)[OF I]
  note st = node_invD(1)[OF N] and C = cosi_okD[OF node_invD(2)[OF N]]
  have oldm: "cv_msgs (view2 R \<tau>) = add_mset (Down v) (cast_all cast2 M)" by (simp add: view2_def m)
  have empty: "tempPrepareResponse ?s = []" using view_down(4)[OF T V oldm] by (simp add: view2_def)
  have g: "S_stage \<tau> v = WaitChallengePrepare"
    using view_down(2)[OF T V oldm] v round1_over[OF R I d v] by (cases "S_stage \<tau> v") (auto simp: view2_def)
  have "\<exists>s' as. handleChallengePrepare (E v) ch (close_leaf ?s) = Inr (Some (s', as))"
  proof (cases "Tr_kids (Ru_tree R) v = []")
    case True
    obtain p where "Tr_par (Ru_tree R) v = Some p" using leaf_parent[OF R v True] by blast
    then show ?thesis using challenge_prepare_leaf[OF R v st True _ C(3,1) empty] g ch by auto
  next
    case False
    then have "close_leaf ?s = ?s" using static_okD(10)[OF st] by (simp add: close_leaf_def)
    then show ?thesis using challenge_prepare_inner[OF R v st False] C(5) g ch by force
  qed
  then show ?thesis using sign_step.challenge_prepare[OF m g] by blast
qed

lemma response_enabled:
  assumes R: "run_ok E R" and I: "sign_inv R \<tau>" and m: "S_msgs \<tau> = add_mset (Some u, v, MResponse r) M"
  shows "\<exists>\<tau>'. sign_step E \<tau> \<tau>'"
proof -
  have "pkt_ok R (Some u, v, MResponse r)" by (rule sign_invD(3)[OF I]) (simp add: m)
  then obtain x t where v: "v \<in> run_nodes R" and r: "r = \<lparr>R_Response = x, R_Exceptions = [], R_TYPE = t\<rparr>"
    "t = RoundPrepare \<or> t = RoundCommit" by (rule pkt_response)
  note N = sign_invD(1)[OF I v] and T = run_okD(1)[OF R]
  note st = static_okD[OF node_invD(1)[OF N]]
  from r(2) show ?thesis
  proof
    assume "t = RoundPrepare"
    then have up: "cv_msgs (view2 R \<tau>) = add_mset (Up u v x) (cast_all cast2 M)" by (simp add: view2_def m r(1))
    have "v \<in> cv_open (view2 R \<tau>)" "v \<notin> cv_done (view2 R \<tau>)" "length (tempPrepareResponse (S_state \<tau> v)) < length (Tr_kids (Ru_tree R) v)"
      using view_up(3,4,6)[OF T sign_invD(5)[OF I] up] by (simp_all add: view2_def)
    then have g: "S_stage \<tau> v = ReadPrepareResponses" and k: "Tr_kids (Ru_tree R) v \<noteq> []" and nr: "\<not> S_ready \<tau> v"
      using node_invD(6)[OF N] v by (cases "S_stage \<tau> v"; auto simp: view2_def)+
    have "length (tempCommitCommit (S_state \<tau> v)) = length (tempPrepareCommit (S_state \<tau> v))" "tempPrepareCommit (S_state \<tau> v) \<noteq> []"
      using node_invD(5)[OF N k] g st(5) k by auto
    from sign_step.prepare_response[OF m g nr st(1) this] show ?thesis by (metis prod.collapse)
  next
    assume "t = RoundCommit"
    then obtain M' where up: "cv_msgs (view3 R \<tau>) = add_mset (Up u v x) M'" by (auto simp: view3_def m r(1))
    have "v \<in> cv_open (view3 R \<tau>)" "v \<notin> cv_done (view3 R \<tau>)" "length (tempCommitResponse (S_state \<tau> v)) < length (Tr_kids (Ru_tree R) v)"
      using view_up(3,4,6)[OF T sign_invD(6)[OF I] up] by (simp_all add: view3_def)
    then have g: "S_stage \<tau> v = ReadCommitResponses" and nr: "\<not> S_ready \<tau> v"
      using node_invD(6)[OF N] v by (cases "S_stage \<tau> v"; auto simp: view3_def)+
    from sign_step.commit_response[OF m g nr st(1)] show ?thesis by (metis prod.collapse)
  qed
qed

lemma prepare_done_enabled:
  assumes R: "run_ok E R" and I: "sign_inv R \<tau>" and v: "v \<in> cv_open (view2 R \<tau>)" "v \<notin> cv_done (view2 R \<tau>)"
    and len: "length (cv_vals (view2 R \<tau>) v) = length (Tr_kids (Ru_tree R) v)"
  shows "\<exists>\<tau>'. sign_step E \<tau> \<tau>'"
proof -
  let ?s = "S_state \<tau> v"
  have V: "v \<in> run_nodes R" and g: "S_stage \<tau> v = ReadPrepareResponses"
    using v by (auto simp: view2_def) (cases "S_stage \<tau> v"; simp)
  note N = sign_invD(1)[OF I V] and T = run_okD(1)[OF R] and W = sign_invD(5)[OF I]
  note st = node_invD(1)[OF N] and C = cosi_okD[OF node_invD(2)[OF N]]
  have k: "Tr_kids (Ru_tree R) v \<noteq> []" using node_invD(4)[OF N] g by auto
  have r: "S_ready \<tau> v" using node_invD(6)[OF N] g len by (simp add: view2_def)
  have pub: "SI_Public (Identity u) \<in> set (tempPrepareResponsePublics ?s)" if "u \<in> set (Tr_kids (Ru_tree R) v)" for u
    using view_full_who[OF T W V len] that node_invD(7)[OF N] by (simp add: view2_def)
  have p: "V_random (Ru_view R (prepare ?s)) = Some (Ru_r1 R v)" "V_key (Ru_view R (prepare ?s)) = Ru_key R v"
    "challenged R ?s" using C(1,3,6) g by simp_all
  have "\<exists>s' as. finishResponsePrepare (E v) ?s = Inr (s', as)"
  proof (cases "v = run_root R")
    case True
    have "response1 R = own_response1 R v + sum_list (tempPrepareResponse ?s)"
      using view_root_full[OF T W] len v True by (simp add: view2_def response1_def)
    from prepare_finish_root[OF R True st p(3,1,2) _ _ pub this] show ?thesis using C(4,10) True g by auto
  next
    case False
    then obtain q where "Tr_par (Ru_tree R) v = Some q" using tree_parent[OF T V] by blast
    from prepare_finish[OF R V st p(3,1,2) _ pub refl this] show ?thesis using k by blast
  qed
  then show ?thesis using sign_step.prepare_done[OF g] r by blast
qed

lemma round2_progress:
  assumes R: "run_ok E R" and I: "sign_inv R \<tau>" and d: "run_root R \<in> cv_done (view1 R \<tau>)"
    and open_root: "run_root R \<notin> cv_done (view2 R \<tau>)"
  shows "\<exists>\<tau>'. sign_step E \<tau> \<tau>'"
proof (cases "\<exists>q \<in># S_msgs \<tau>. cast2 q \<noteq> {#}")
  case True
  then obtain q M where q: "S_msgs \<tau> = add_mset q M" "cast2 q \<noteq> {#}" by (metis multi_member_split)
  then show ?thesis
    using challenge_prepare_enabled[OF R I _ d] response_enabled[OF R I] by (cases q rule: cast2.cases) auto
next
  case False
  then have "cv_msgs (view2 R \<tau>) = {#}" by (simp add: view2_def cast_all_def)
  from view_progress[OF run_okD(1)[OF R] sign_invD(5)[OF I] open_root this] prepare_done_enabled[OF R I]
  show ?thesis by blast
qed

lemma challenge_commit_enabled:
  assumes R: "run_ok E R" and I: "sign_inv R \<tau>" and m: "S_msgs \<tau> = add_mset (sender, v, MChallengeCommit cc) M"
    and d: "run_root R \<in> cv_done (view2 R \<tau>)"
  shows "\<exists>\<tau>'. sign_step E \<tau> \<tau>'"
proof -
  let ?s = "S_state \<tau> v"
  have "pkt_ok R (sender, v, MChallengeCommit cc)" by (rule sign_invD(3)[OF I]) (simp add: m)
  then obtain bits where v: "v \<in> run_nodes R" and cc: "cc = challenge2 R bits" by auto
  note N = sign_invD(1)[OF I v] and T = run_okD(1)[OF R]
  note st = node_invD(1)[OF N] and C = cosi_okD[OF node_invD(2)[OF N]]
  obtain M' where oldm: "cv_msgs (view3 R \<tau>) = add_mset (Down v) M'" by (auto simp: view3_def m)
  have "3 \<le> rank (S_stage \<tau> v)"
    using view_root_done(1)[OF T sign_invD(5)[OF I] d] v by (auto simp: view2_def)
  then have g: "S_stage \<tau> v = WaitChallengeCommit"
    using view_down(2)[OF T sign_invD(6)[OF I] oldm] v by (cases "S_stage \<tau> v") (auto simp: view3_def)
  have "\<exists>s' as. handleChallengeCommit (E v) cc ?s = Inr (Some (s', as))"
  proof (cases "Tr_kids (Ru_tree R) v = []")
    case True
    obtain p where p: "Tr_par (Ru_tree R) v = Some p" using leaf_parent[OF R v True] by blast
    have "S_stage \<tau> (run_root R) \<noteq> ReadCommits" using d by (auto simp: view2_def)
    from all_committed[OF R I this v] have "committed R (S_stage \<tau> v) (S_ann \<tau> v) v" using True by (simp add: committed_def)
    then show ?thesis
      using challenge_commit_leaf[OF R v st True p C(9) C(2), of bits] node_invD(8)[OF N] True g cc by auto
  next
    case False
    have "v = run_root R \<Longrightarrow> V_challenge (Ru_view R (commit ?s)) = Some (chal2 R)" using C(11) g by simp
    from challenge_commit_inner[OF R v st False this, of bits] show ?thesis using cc by auto
  qed
  then show ?thesis using sign_step.challenge_commit[OF m g] by blast
qed

lemma commit_done_enabled:
  assumes R: "run_ok E R" and I: "sign_inv R \<tau>" and v: "v \<in> cv_open (view3 R \<tau>)" "v \<notin> cv_done (view3 R \<tau>)"
    and len: "length (cv_vals (view3 R \<tau>) v) = length (Tr_kids (Ru_tree R) v)"
  shows "\<exists>\<tau>'. sign_step E \<tau> \<tau>'"
proof -
  have V: "v \<in> run_nodes R" and g: "S_stage \<tau> v = ReadCommitResponses"
    using v by (auto simp: view3_def) (cases "S_stage \<tau> v"; simp)
  note N = sign_invD(1)[OF I V]
  note C = cosi_okD[OF node_invD(2)[OF N]]
  have k: "Tr_kids (Ru_tree R) v \<noteq> []" using node_invD(4)[OF N] g by auto
  have r: "S_ready \<tau> v" using node_invD(6)[OF N] g len by (simp add: view3_def)
  have "committed R (S_stage \<tau> v) (S_ann \<tau> v) v" using node_invD(5)[OF N k] g by (simp add: committed_def)
  from commit_finish_inner[OF R V node_invD(1)[OF N] k C(9)[OF this] C(2) C(12) refl]
  obtain s' as where "finishResponseCommit (E v) (S_state \<tau> v) = Inr (s', as)" using g by auto
  then show ?thesis using sign_step.commit_done[OF g] r by blast
qed

lemma round3_progress:
  assumes R: "run_ok E R" and I: "sign_inv R \<tau>" and d: "run_root R \<in> cv_done (view2 R \<tau>)"
    and open_root: "S_stage \<tau> (run_root R) \<noteq> Finished"
  shows "\<exists>\<tau>'. sign_step E \<tau> \<tau>'"
proof (cases "\<exists>q \<in># S_msgs \<tau>. cast3 q \<noteq> {#}")
  case True
  then obtain q M where q: "S_msgs \<tau> = add_mset q M" "cast3 q \<noteq> {#}" by (metis multi_member_split)
  then show ?thesis
    using challenge_commit_enabled[OF R I _ d] response_enabled[OF R I] by (cases q rule: cast3.cases) auto
next
  case False
  then have m: "cv_msgs (view3 R \<tau>) = {#}" using d by (auto simp: view3_def view2_def cast_all_def)
  have "run_root R \<notin> cv_done (view3 R \<tau>)" using open_root by (simp add: view3_def)
  from view_progress[OF run_okD(1)[OF R] sign_invD(6)[OF I] this m] commit_done_enabled[OF R I]
  show ?thesis by blast
qed

lemma sign_progress:
  assumes "run_ok E R" "sign_inv R \<tau>" "S_stage \<tau> (run_root R) \<noteq> Finished"
  shows "\<exists>\<tau>'. sign_step E \<tau> \<tau>'"
  using round1_progress[OF assms(1,2)] round2_progress[OF assms(1,2)] round3_progress[OF assms(1,2) _ assms(3)] by blast

subsection \<open>The run ends\<close>

text \<open>No handler sends more than one message or one per recorded child.\<close>

lemma DelayedSend_length: "DelayedSend E s u m = Inr as \<Longrightarrow> length as \<le> 1"
  by (auto simp: DelayedSend_def res_bind_Inr_iff split: option.splits)

lemma send_all_length:
  assumes "send_all E s us m = Inr as"
  shows "length as \<le> length us"
proof -
  have "length as \<le> length acc + length us"
    if "res_fold (\<lambda>to acc. res_bind (DelayedSend E s to m) (\<lambda>a. Inr (acc @ a))) us acc = Inr as" for acc
    using that by (induction us arbitrary: acc) (fastforce simp: res_bind_Inr_iff dest: DelayedSend_length)+
  with assms show ?thesis by (fastforce simp: send_all_def)
qed

lemma to_children_length: "DelayedSendToChildren E s m = Inr as \<Longrightarrow> length as \<le> length (dynamicChildren s)"
  by (auto simp: DelayedSendToChildren_def dest: send_all_length)

lemma to_parent_length: "DelayedSendToParent E s m = Inr as \<Longrightarrow> length as \<le> 1"
  by (auto simp: DelayedSendToParent_def split: option.splits dest: DelayedSend_length)

lemma outbox_size: "size (outbox v as) \<le> length as"
proof (induction as)
  case (Cons a as)
  then show ?case by (cases a) auto
qed simp

lemma sending_Inr: "sending s r = Inr (s', as) \<longleftrightarrow> s' = s \<and> r = Inr as"
  by (auto simp: sending_def res_bind_Inr_iff)

lemma announce_length: "readAnnouncementCommit E a s = Inr (s', as) \<Longrightarrow> length as \<le> length (dynamicChildren s) + 1"
  by (auto simp: readAnnouncementCommit_def startCommitment_def sending_Inr Let_def split_beta split: if_splits
      dest: to_children_length to_parent_length)

lemma commitment_length: "finishCommitmentCommit E s = Inr (s', as) \<Longrightarrow> length as \<le> 1"
  by (auto simp: finishCommitmentCommit_def res_bind_Inr_iff sending_Inr Let_def split: if_splits dest: to_parent_length)

lemma startChallenge_length: "startChallenge E t s = Inr (s', as) \<Longrightarrow> length as \<le> 1"
  by (cases t) (auto simp: startChallenge_def res_bind_Inr_iff)

lemma prepare_length: "finishResponsePrepare E s = Inr (s', as) \<Longrightarrow> length as \<le> 1"
  by (auto simp: finishResponsePrepare_def res_bind_Inr_iff Let_def split: if_splits option.splits
      dest: startChallenge_length)

lemma commit_length: "finishResponseCommit E s = Inr (s', as) \<Longrightarrow> length as \<le> 1"
  by (auto simp: finishResponseCommit_def res_bind_Inr_iff sending_Inr split: if_splits dest: to_parent_length)

lemma challenge_prepare_length:
  assumes "handleChallengePrepare E ch s = Inr (Some (s', as))"
  shows "length as \<le> length (dynamicChildren s) + 1"
proof -
  let ?s = "if \<not> IsRoot E then s\<lparr>Msg := CP_Msg ch, Data := CP_Data ch,
    prepare := Challenge (E_CoSi E) (prepare s) (CP_Challenge ch)\<rparr> else s"
  have d: "dynamicChildren ?s = dynamicChildren s" by simp
  show ?thesis
  proof (cases "closing s")
    case False
    show ?thesis
    proof (cases "isLocalityTreeLeaf ?s")
      case True
      then have "handleResponsePrepare E [] ?s = Inr (Some (s', as))"
        using assms False by (simp add: handleChallengePrepare_def startResponse_def Let_def)
      then show ?thesis
        by (auto simp: handleResponsePrepare_def res_bind_Inr_iff split: if_splits dest: prepare_length)
    next
      case leaf: False
      then have "DelayedSendToChildren E ?s (MChallengePrepare ch) = Inr as"
        using assms False unfolding handleChallengePrepare_def Let_def by (auto simp: res_bind_Inr_iff sending_Inr)
      from to_children_length[OF this] show ?thesis unfolding d by simp
    qed
  qed (use assms in \<open>simp add: handleChallengePrepare_def\<close>)
qed

lemma check_children: "check_commit_challenge E sg s = Inr s' \<Longrightarrow> dynamicChildren s' = dynamicChildren s"
  by (auto simp: check_commit_challenge_def Let_def split: sum.splits go_error.splits)

lemma response_commit_length: "handleResponseCommit E ms s = Inr (Some (s', as)) \<Longrightarrow> length as \<le> 1"
  by (auto simp: handleResponseCommit_def res_bind_Inr_iff split: sum.splits go_error.splits if_splits
      dest!: commit_length simp del: One_nat_def)

lemma challenge_commit_length:
  assumes "handleChallengeCommit E ch s = Inr (Some (s', as))"
  shows "length as \<le> length (dynamicChildren s) + 1"
proof -
  let ?s = "if \<not> IsRoot E then s\<lparr>commit := Challenge (E_CoSi E) (commit s) (CC_Challenge ch)\<rparr> else s"
  show ?thesis
  proof (cases "closing s")
    case False
    with assms obtain sg s1 where s1: "check_commit_challenge E sg ?s = Inr s1"
      "(if isLocalityTreeLeaf s1 then handleResponseCommit E [] s1
        else res_bind (sending s1 (DelayedSendToChildren E s1 (MChallengeCommit ch))) (\<lambda>r. Inr (Some r)))
       = Inr (Some (s', as))"
      unfolding handleChallengeCommit_def Let_def by (auto simp: res_bind_Inr_iff split: option.splits)
    then have "length as \<le> length (dynamicChildren s1) + 1"
      by (auto simp: res_bind_Inr_iff sending_Inr split: if_splits dest: to_children_length response_commit_length)
    then show ?thesis using check_children[OF s1(1)] by (simp split: if_splits)
  qed (use assms in \<open>simp add: handleChallengeCommit_def\<close>)
qed

definition node_weight :: "('c, 'p, 's) run \<Rightarrow> bool \<Rightarrow> stage \<Rightarrow> TreeNode \<Rightarrow> nat" where
  "node_weight R a g v = (length (Tr_kids (Ru_tree R) v) + 2) * (of_bool a + (5 - rank g))"

definition sign_measure :: "('c, 'p, 's) run \<Rightarrow> ('c, 'p, 's) snet \<Rightarrow> nat" where
  "sign_measure R \<tau> = (\<Sum>v \<in> run_nodes R. node_weight R (S_ann \<tau> v) (S_stage \<tau> v) v) + size (S_msgs \<tau>)"

lemma measure_upd:
  assumes "finite (run_nodes R)" "v \<in> run_nodes R"
    and "node_weight R a g v + size M < node_weight R (S_ann \<tau> v) (S_stage \<tau> v) v + size (S_msgs \<tau>)"
  shows "sign_measure R (upd v s g a r M sgs \<tau>) < sign_measure R \<tau>"
proof -
  have "(\<Sum>w \<in> run_nodes R - {v}. node_weight R (if w = v then a else S_ann \<tau> w) (if w = v then g else S_stage \<tau> w) w)
      = (\<Sum>w \<in> run_nodes R - {v}. node_weight R (S_ann \<tau> w) (S_stage \<tau> w) w)" by (rule sum.cong) auto
  then show ?thesis
    using assms by (simp add: sign_measure_def sum.remove[of _ v] fun_upd_def)
qed

text \<open>Moving on pays for the messages sent.\<close>

lemma weight_drop:
  assumes "rank g < rank g'" "rank g' \<le> 5"
  shows "node_weight R a g' v + (length (Tr_kids (Ru_tree R) v) + 2) \<le> node_weight R a g v"
proof -
  have "Suc (of_bool a + (5 - rank g')) \<le> of_bool a + (5 - rank g)" using assms by simp
  then have "(length (Tr_kids (Ru_tree R) v) + 2) * Suc (of_bool a + (5 - rank g'))
      \<le> (length (Tr_kids (Ru_tree R) v) + 2) * (of_bool a + (5 - rank g))" by (rule mult_le_mono2)
  then show ?thesis by (simp only: node_weight_def mult_Suc_right add.commute)
qed

lemma announced_drop:
  "node_weight R False g v + (length (Tr_kids (Ru_tree R) v) + 2) = node_weight R True g v"
  by (simp add: node_weight_def)

lemma sign_step_measure:
  assumes "sign_step E \<tau> \<tau>'" and R: "run_ok E R" and I: "sign_inv R \<tau>"
  shows "sign_measure R \<tau>' < sign_measure R \<tau>"
proof -
  note fin = tree_okD(1)[OF run_okD(1)[OF R]]
  have kids: "length (dynamicChildren (S_state \<tau> v)) = length (Tr_kids (Ru_tree R) v)" if "v \<in> run_nodes R" for v
    using static_okD(4)[OF node_invD(1)[OF sign_invD(1)[OF I that]]] by simp
  have inside: "v \<in> run_nodes R" if "S_stage \<tau> v \<noteq> WaitChallengePrepare" for v using sign_invD(2)[OF I] that by blast
  have close: "dynamicChildren (close_leaf s) = dynamicChildren s" for s :: "('a, 'b, 'c) bft" by (simp add: close_leaf_def)
  have dest: "v \<in> run_nodes R" if "S_msgs \<tau> = add_mset (sender, v, m) M" for sender v m M
    using sign_invD(3)[OF I, of "(sender, v, m)"] that by (simp add: pkt_ok.simps)
  have "sign_measure R (move v g s' as M \<tau>) < sign_measure R \<tau>"
    if "v \<in> run_nodes R" "rank (S_stage \<tau> v) < rank g" "size M + length as \<le> size (S_msgs \<tau>) + length (Tr_kids (Ru_tree R) v) + 1"
    for v g s' as M
    unfolding move_upd
  proof (rule measure_upd[OF fin that(1)])
    have "rank g \<le> 5" by (cases g) simp_all
    from weight_drop[OF that(2) this, of R "S_ann \<tau> v" v] show "node_weight R (S_ann \<tau> v) g v + size (M + outbox v as)
        < node_weight R (S_ann \<tau> v) (S_stage \<tau> v) v + size (S_msgs \<tau>)"
      using that(3) outbox_size[of v as] by simp
  qed
  note mv = this
  from assms(1) show ?thesis
  proof cases
    case (announce_commit sender v a M s' as)
    have t: "\<tau>' = upd v s' (S_stage \<tau> v) False (S_ready \<tau> v) (M + outbox v as) (S_sigs \<tau>) \<tau>"
      by (intro snet.equality) (simp_all add: announce_commit(1))
    have v: "v \<in> run_nodes R" by (rule dest[OF announce_commit(2)])
    show ?thesis unfolding t
      using announced_drop[of R "S_stage \<tau> v" v] announce_length[OF announce_commit(4)] outbox_size[of v as] kids[OF v]
        announce_commit(2,3) by (intro measure_upd[OF fin v]) simp
  next
    case (commitment_done v s' as)
    then show ?thesis using commitment_length[OF commitment_done(4)] mv[of v WaitChallengePrepare] inside[of v] by simp
  next
    case (challenge_prepare sender v ch M s' as)
    then show ?thesis
      using challenge_prepare_length[OF challenge_prepare(4)] mv[OF dest[OF challenge_prepare(2)]]
        kids[OF dest[OF challenge_prepare(2)]] close[of "S_state \<tau> v"] by simp
  next
    case (prepare_done v s' as)
    then show ?thesis using prepare_length[OF prepare_done(4)] mv[of v WaitChallengeCommit] inside[of v] by simp
  next
    case (challenge_commit sender v cc M s' as)
    then show ?thesis
      using challenge_commit_length[OF challenge_commit(4)] mv[OF dest[OF challenge_commit(2)]]
        kids[OF dest[OF challenge_commit(2)]] by simp
  next
    case (commit_done v s' as)
    then show ?thesis using commit_length[OF commit_done(4)] mv[of v Finished] inside[of v] by simp
  qed (simp_all add: sign_measure_def)
qed

end
