(* ===== verification/Bft_End.thy ===== *)
theory Bft_End
  imports Bft_Run
begin

text \<open>
  A whole run of BFT-CoSi, from the first announcement to the callback with the signature: what
  the flood leaves behind is a network in which the three casts can start, so the properties of
  the casts carry over to every run of the code's handlers.
\<close>

subsection \<open>What the prepare round leaves untouched\<close>

definition same_rest :: "('c, 'p, 's) bft \<Rightarrow> ('c, 'p, 's) bft \<Rightarrow> bool" where
  "same_rest s t \<longleftrightarrow> Msg s = Msg t \<and> Data s = Data t \<and> commit s = commit t \<and> signRefusal s = signRefusal t
     \<and> allowedExceptions s = allowedExceptions t \<and> tempExceptions s = tempExceptions t
     \<and> tempCommitCommit s = tempCommitCommit t \<and> tempPrepareResponse s = tempPrepareResponse t
     \<and> tempPrepareResponsePublics s = tempPrepareResponsePublics t \<and> tempCommitResponse s = tempCommitResponse t
     \<and> dynamicChildrenAux s = dynamicChildrenAux t \<and> responseChanClosed s = responseChanClosed t
     \<and> (length (tempPrepareCommit t) = length (dynamicChildren t)
         \<longrightarrow> length (tempPrepareCommit s) = length (dynamicChildren s))"

lemma same_rest_refl [simp]: "same_rest s s"
  by (simp add: same_rest_def)

lemma same_rest_trans: "same_rest s t \<Longrightarrow> same_rest t u \<Longrightarrow> same_rest s u"
  by (simp add: same_rest_def)

lemma readAnnouncement_cases:
  assumes r: "readAnnouncement E sender a s = Inr (s', as)"
    and t: "t = s\<lparr>index := TreeIndex a, Parent := sender,
      ReceivedMessages := map_set (ReceivedMessages s) (HashMsg E a) True\<rparr>"
  obtains (closed) "s' = s" "as = []"
    | (loop) "s' = s\<lparr>index := TreeIndex a\<rparr>" "reply_loop_break E sender s' = Inr as"
    | (leaf) "s' = t\<lparr>commitChanClosed := True\<rparr>" "as = []"
    | (flood) "s' = t" "DelayedSendToNeighborsExcParent E s' (MAnnounce a) = Inr as"
proof (cases "closing s")
  case open_node: False
  have tree: "TreeIndex a \<noteq> 999" using r open_node by (cases "TreeIndex a = 999") (simp_all add: readAnnouncement_def)
  show thesis
  proof (cases "has (ReceivedMessages s) (HashMsg E a)")
    case True
    then have "sending (s\<lparr>index := TreeIndex a\<rparr>) (reply_loop_break E sender (s\<lparr>index := TreeIndex a\<rparr>)) = Inr (s', as)"
      using r open_node tree by (simp add: readAnnouncement_def isLoopAndSet_def Let_def)
    then show thesis using loop by (simp add: sending_Inr)
  next
    case False
    then have "res_bind (isLeafInRound E t) (\<lambda>leaf. if leaf
        then if commitChanClosed t then Inl (GoPanic ''close of closed channel'')
             else Inr (t\<lparr>commitChanClosed := True\<rparr>, [])
        else sending t (DelayedSendToNeighborsExcParent E t (MAnnounce a))) = Inr (s', as)"
      using r open_node tree by (simp add: readAnnouncement_def isLoopAndSet_def Let_def t cong: if_cong)
    then show thesis using leaf flood by (auto simp: res_bind_Inr_iff sending_Inr split: if_splits)
  qed
next
  case True
  have "s' = s" "as = []" using r True by (simp_all add: readAnnouncement_def)
  then show thesis by (rule closed)
qed

lemma readAnnouncement_rest:
  assumes "readAnnouncement E sender a s = Inr (s', as)"
  shows "same_rest s' s" "prepare s' = prepare s" "tempPrepareCommit s' = tempPrepareCommit s"
  by (rule readAnnouncement_cases[OF assms refl], simp_all add: same_rest_def)+

lemma commit_message_rest:
  assumes "commit_message E RoundPrepare u c s = Inr (r, s')" "Cm_TYPE c = LoopBreak \<or> Cm_TYPE c = RoundPrepare"
  shows "same_rest s' s \<and> prepare s' = prepare s"
  using assms by (auto simp: commit_message_def updateCommitPrepAndCompare_def Let_def res_bind_Inr_iff same_rest_def)

lemma finish_rest:
  assumes "finishCommitmentPrepare E s = Inr (s', as)"
  shows "\<exists>c x. Commit (E_CoSi E) (prepare s) (tempPrepareCommit s) = Inr (c, x) \<and>
    (if IsRoot E then \<exists>c' ch. CreateChallenge (E_CoSi E) c (Sha512 (E_Suite E) (Msg s)) = Inr (c', ch)
        \<and> s' = s\<lparr>prepare := c'\<rparr>
        \<and> as = [ToSelf (MChallengePrepare \<lparr>CP_Msg = Msg s, CP_Data = Data s, CP_Challenge = ch\<rparr>)]
     else s' = s\<lparr>prepare := c\<rparr>)"
proof -
  obtain c x where cx: "Commit (E_CoSi E) (prepare s) (tempPrepareCommit s) = Inr (c, x)"
    "(if IsRoot E then startChallenge E RoundPrepare (s\<lparr>prepare := c\<rparr>)
      else sending (s\<lparr>prepare := c\<rparr>) (DelayedSendToParent E (s\<lparr>prepare := c\<rparr>)
        (MCommitment \<lparr>Cm_TYPE = RoundPrepare, Cm_Commitment = Some x\<rparr>))) = Inr (s', as)"
    using assms unfolding finishCommitmentPrepare_def res_bind_Inr_iff Let_def by (auto simp del: if_split)
  show ?thesis
  proof (cases "IsRoot E")
    case True
    then have "startChallenge E RoundPrepare (s\<lparr>prepare := c\<rparr>) = Inr (s', as)" using cx(2) by simp
    then have "\<exists>c' ch. CreateChallenge (E_CoSi E) c (Sha512 (E_Suite E) (Msg s)) = Inr (c', ch)
        \<and> s' = s\<lparr>prepare := c'\<rparr>
        \<and> as = [ToSelf (MChallengePrepare \<lparr>CP_Msg = Msg s, CP_Data = Data s, CP_Challenge = ch\<rparr>)]"
      by (auto simp: startChallenge_def res_bind_Inr_iff)
    with cx(1) True show ?thesis by simp
  next
    case False
    then have "s' = s\<lparr>prepare := c\<rparr>" using cx(2) by (simp add: sending_Inr)
    with cx(1) False show ?thesis by simp
  qed
qed

text \<open>The packets of the network that do not belong to the flood.\<close>

definition others :: "('p, 's) packet multiset \<Rightarrow> ('p, 's) packet multiset" where
  "others M = filter_mset (\<lambda>q. abs_packet q = {#}) M"

lemma others_simps [simp]:
  "others {#} = {#}" "others (add_mset q M) = (if abs_packet q = {#} then add_mset q (others M) else others M)"
  "others (M + N) = others M + others N"
  by (simp_all add: others_def)

lemma others_announcements: "others (outbox v (map (\<lambda>w. Send w (MAnnounce a)) ws)) = {#}"
  by (induction ws) simp_all

lemma send_all_msgs:
  assumes "send_all E s us m = Inr as" "a \<in> set as"
  shows "\<exists>n. a = Send n m"
proof -
  have one: "\<exists>n. b = Send n m" if "DelayedSend E s u m = Inr bs" "b \<in> set bs" for u b bs
    using that by (auto simp: DelayedSend_def res_bind_Inr_iff split: option.splits)
  have "\<forall>b \<in> set as. b \<in> set acc \<or> (\<exists>n. b = Send n m)"
    if "res_fold (\<lambda>to acc. res_bind (DelayedSend E s to m) (\<lambda>a. Inr (acc @ a))) us acc = Inr as" for acc
    using that by (induction us arbitrary: acc) (fastforce simp: res_bind_Inr_iff dest: one)+
  with assms show ?thesis by (fastforce simp: send_all_def)
qed

lemma others_outbox:
  assumes "\<And>a. a \<in> set as \<Longrightarrow> \<exists>n m. a = Send n m \<and> abs_packet (Some v, n, m) \<noteq> {#}"
  shows "others (outbox v as) = {#}"
  using assms
proof (induction as)
  case (Cons a as)
  obtain n m where "a = Send n m" "abs_packet (Some v, n, m) \<noteq> {#}" using Cons.prems[of a] by auto
  with Cons show ?case by simp
qed simp

lemma readAnnouncement_others:
  assumes "readAnnouncement E sender a s = Inr (s', as)"
  shows "others (outbox v as) = {#}"
  using assms refl
proof (cases rule: readAnnouncement_cases)
  case loop
  then have "as = [] \<or> (\<exists>w. as = [Send w loop_break])"
    by (auto simp: reply_loop_break_def DelayedSend_def res_bind_Inr_iff split: option.splits)
  then show ?thesis by auto
next
  case flood
  then obtain us where "send_all E s' us (MAnnounce a) = Inr as"
    by (auto simp: DelayedSendToNeighborsExcParent_def res_bind_Inr_iff)
  from send_all_msgs[OF this] show ?thesis by (intro others_outbox) fastforce
qed simp_all

text \<open>The announcement of the commit round, which waits in the root's channel from the start.\<close>

definition commit_ann :: "TreeNode \<Rightarrow> ('c, 'p, 's) bft \<Rightarrow> ('p, 's) packet" where
  "commit_ann r s = (None, r, MAnnounceCommit \<lparr>AC_TYPE = RoundCommit, AC_Timeout = Timeout s\<rparr>)"

definition frame_inv ::
  "(TreeNode \<Rightarrow> ('c, 'p :: ab_group_add, 's) Env) \<Rightarrow> (TreeNode, 'p) ring \<Rightarrow> (TreeNode \<Rightarrow> ('c, 'p, 's) bft)
    \<Rightarrow> ('c, 'p, 's) net \<Rightarrow> bool" where
  "frame_inv E G st0 \<sigma> \<longleftrightarrow>
     (\<forall>v. same_rest (N_state \<sigma> v) (st0 v))
     \<and> (\<forall>v \<in> Rg_nodes G. v \<noteq> Rg_root G \<and> N_phase \<sigma> v = CommitmentSent \<longrightarrow>
          (\<exists>x. Commit (E_CoSi (E v)) (prepare (st0 v)) (tempPrepareCommit (N_state \<sigma> v)) = Inr (prepare (N_state \<sigma> v), x)))
     \<and> (N_phase \<sigma> (Rg_root G) \<noteq> CommitmentSent \<longrightarrow>
          others (N_msgs \<sigma>) = {#commit_ann (Rg_root G) (st0 (Rg_root G))#})
     \<and> (N_phase \<sigma> (Rg_root G) = CommitmentSent \<longrightarrow>
          (let s = N_state \<sigma> (Rg_root G); Er = E (Rg_root G) in
           \<exists>c x ch. Commit (E_CoSi Er) (prepare (st0 (Rg_root G))) (tempPrepareCommit s) = Inr (c, x)
             \<and> CreateChallenge (E_CoSi Er) c (Sha512 (E_Suite Er) (Msg s)) = Inr (prepare s, ch)
             \<and> others (N_msgs \<sigma>) = {#commit_ann (Rg_root G) (st0 (Rg_root G)),
                 (None, Rg_root G, MChallengePrepare \<lparr>CP_Msg = Msg s, CP_Data = Data s, CP_Challenge = ch\<rparr>)#}))"

lemma frame_init:
  assumes "prepare_init E (Rg_root G) st0 \<sigma>"
  shows "frame_inv E G st0 \<sigma>"
  using assms
  by (simp add: prepare_init_def frame_inv_def Start_def startAnnouncement_def commit_ann_def)

lemma frame_invD:
  assumes "frame_inv E G st0 \<sigma>"
  shows "same_rest (N_state \<sigma> v) (st0 v)"
    "v \<in> Rg_nodes G \<Longrightarrow> v \<noteq> Rg_root G \<Longrightarrow> N_phase \<sigma> v = CommitmentSent \<Longrightarrow>
      \<exists>x. Commit (E_CoSi (E v)) (prepare (st0 v)) (tempPrepareCommit (N_state \<sigma> v)) = Inr (prepare (N_state \<sigma> v), x)"
    "N_phase \<sigma> (Rg_root G) \<noteq> CommitmentSent \<Longrightarrow> others (N_msgs \<sigma>) = {#commit_ann (Rg_root G) (st0 (Rg_root G))#}"
    "N_phase \<sigma> (Rg_root G) = CommitmentSent \<Longrightarrow>
      \<exists>c x ch. Commit (E_CoSi (E (Rg_root G))) (prepare (st0 (Rg_root G))) (tempPrepareCommit (N_state \<sigma> (Rg_root G))) = Inr (c, x)
        \<and> CreateChallenge (E_CoSi (E (Rg_root G))) c (Sha512 (E_Suite (E (Rg_root G))) (Msg (N_state \<sigma> (Rg_root G))))
            = Inr (prepare (N_state \<sigma> (Rg_root G)), ch)
        \<and> others (N_msgs \<sigma>) = {#commit_ann (Rg_root G) (st0 (Rg_root G)),
            (None, Rg_root G, MChallengePrepare \<lparr>CP_Msg = Msg (N_state \<sigma> (Rg_root G)), CP_Data = Data (N_state \<sigma> (Rg_root G)),
               CP_Challenge = ch\<rparr>)#}"
  using assms by (simp_all add: frame_inv_def Let_def)

text \<open>A step that leaves the CoSi state, the commitments and the other packets alone.\<close>

lemma frame_keep:
  assumes F: "frame_inv E G st0 \<sigma>"
    and s': "same_rest s' (N_state \<sigma> v)" "prepare s' = prepare (N_state \<sigma> v)"
    and t: "N_phase \<sigma> v = CommitmentSent \<Longrightarrow> tempPrepareCommit s' = tempPrepareCommit (N_state \<sigma> v)"
    and m: "others M = others (N_msgs \<sigma>)"
    and p: "\<And>w. ph w = CommitmentSent \<longleftrightarrow> N_phase \<sigma> w = CommitmentSent"
  shows "frame_inv E G st0 (\<sigma>\<lparr>N_state := (N_state \<sigma>)(v := s'), N_phase := ph, N_ready := rd, N_msgs := M\<rparr>)"
proof -
  have same: "same_rest (((N_state \<sigma>)(v := s')) w) (st0 w)" for w
    using same_rest_trans[OF s'(1) frame_invD(1)[OF F]] frame_invD(1)[OF F] by simp
  have keep: "N_phase \<sigma> w = CommitmentSent \<Longrightarrow> tempPrepareCommit (((N_state \<sigma>)(v := s')) w) = tempPrepareCommit (N_state \<sigma> w)"
    "prepare (((N_state \<sigma>)(v := s')) w) = prepare (N_state \<sigma> w)"
    "Msg (((N_state \<sigma>)(v := s')) w) = Msg (N_state \<sigma> w)" "Data (((N_state \<sigma>)(v := s')) w) = Data (N_state \<sigma> w)" for w
    using t s' by (auto simp: same_rest_def)
  show ?thesis
    using frame_invD(2-4)[OF F] same p m unfolding frame_inv_def Let_def by (simp add: keep del: fun_upd_apply)
qed

lemma frame_send:
  assumes R: "ring_ok E G st0" and F: "frame_inv E G st0 \<sigma>" and v: "v \<in> Rg_nodes G"
    and ph: "N_phase \<sigma> v = ReadCommitments" "prepare (N_state \<sigma> v) = prepare (st0 v)"
    and h: "finishCommitmentPrepare (E v) (N_state \<sigma> v) = Inr (s', as)"
    and o: "v \<noteq> Rg_root G \<Longrightarrow> others (outbox v as) = {#}"
  shows "frame_inv E G st0 (\<sigma>\<lparr>N_state := (N_state \<sigma>)(v := s'), N_phase := (N_phase \<sigma>)(v := CommitmentSent),
    N_msgs := N_msgs \<sigma> + outbox v as\<rparr>)"
proof -
  obtain c x where c: "Commit (E_CoSi (E v)) (prepare (st0 v)) (tempPrepareCommit (N_state \<sigma> v)) = Inr (c, x)"
    and f: "if IsRoot (E v) then \<exists>c' ch. CreateChallenge (E_CoSi (E v)) c (Sha512 (E_Suite (E v)) (Msg (N_state \<sigma> v))) = Inr (c', ch)
        \<and> s' = (N_state \<sigma> v)\<lparr>prepare := c'\<rparr>
        \<and> as = [ToSelf (MChallengePrepare \<lparr>CP_Msg = Msg (N_state \<sigma> v), CP_Data = Data (N_state \<sigma> v), CP_Challenge = ch\<rparr>)]
     else s' = (N_state \<sigma> v)\<lparr>prepare := c\<rparr>"
    using finish_rest[OF h] ph(2) by auto
  note root = IsRoot_ring[OF R v]
  have rest: "same_rest s' (st0 v)" "tempPrepareCommit s' = tempPrepareCommit (N_state \<sigma> v)"
    using f frame_invD(1)[OF F, of v] by (auto simp: same_rest_def split: if_splits)
  show ?thesis
  proof (cases "v = Rg_root G")
    case True
    then obtain c' ch where s': "CreateChallenge (E_CoSi (E v)) c (Sha512 (E_Suite (E v)) (Msg (N_state \<sigma> v))) = Inr (c', ch)"
      "s' = (N_state \<sigma> v)\<lparr>prepare := c'\<rparr>"
      "as = [ToSelf (MChallengePrepare \<lparr>CP_Msg = Msg (N_state \<sigma> v), CP_Data = Data (N_state \<sigma> v), CP_Challenge = ch\<rparr>)]"
      using f root by auto
    have "others (N_msgs \<sigma>) = {#commit_ann v (st0 v)#}" using frame_invD(3)[OF F] ph(1) True by simp
    then show ?thesis
      using frame_invD(1,2)[OF F] rest(1) c s' True by (auto simp: frame_inv_def Let_def)
  next
    case False
    then have "prepare s' = c" using f root by simp
    then show ?thesis
      using frame_invD[OF F] rest c False o ph(1) by (auto simp: frame_inv_def Let_def)
  qed
qed

lemma frame_step:
  assumes R: "ring_ok E G st0" and reached: "reach (prepare_init E (Rg_root G) st0) (prepare_step E) \<sigma>"
    and F: "frame_inv E G st0 \<sigma>" and step: "prepare_step E \<sigma> \<sigma>'"
  shows "frame_inv E G st0 \<sigma>'"
proof -
  note I = reached_flood[OF R reached]
  from step show ?thesis
  proof cases
    case (deliver_announcement sender v a M s' as)
    have o: "others (M + outbox v as) = others (N_msgs \<sigma>)"
      using readAnnouncement_others[OF deliver_announcement(3)] by (cases sender) (simp_all add: deliver_announcement(2))
    have "\<sigma>' = \<sigma>\<lparr>N_state := (N_state \<sigma>)(v := s'),
        N_phase := (N_phase \<sigma>)(v := if N_phase \<sigma> v = WaitAnnouncement then ReadCommitments else N_phase \<sigma> v),
        N_ready := N_ready \<sigma>, N_msgs := M + outbox v as\<rparr>" by (simp add: deliver_announcement(1))
    then show ?thesis
      using readAnnouncement_rest(3)[OF deliver_announcement(3)]
      by (simp only:) (rule frame_keep[OF F readAnnouncement_rest(1,2)[OF deliver_announcement(3)] _ o], auto)
  next
    case (deliver_commitment u v c M ready s')
    have "(Some u, v, MCommitment c) \<in># N_msgs \<sigma>" by (simp add: deliver_commitment(2))
    from net_okD(2)[OF I(1) this] have t: "Cm_TYPE c = LoopBreak \<and> Cm_Commitment c = None \<or> Cm_TYPE c = RoundPrepare"
      by (auto simp: loop_break_def prepare_commitment_def)
    then have o: "others M = others (N_msgs \<sigma>)" by (auto simp: deliver_commitment(2))
    have "\<sigma>' = \<sigma>\<lparr>N_state := (N_state \<sigma>)(v := s'), N_phase := N_phase \<sigma>,
        N_ready := (N_ready \<sigma>)(v := N_ready \<sigma> v \<or> ready), N_msgs := M\<rparr>" by (simp add: deliver_commitment(1))
    then show ?thesis
      using commit_message_rest[OF deliver_commitment(5)] t deliver_commitment(3)
      by (simp only:) (rule frame_keep[OF F _ _ _ o], auto)
  next
    case (send_commitment v s' as)
    have v: "v \<in> Rg_nodes G" using I(3) send_commitment(2) by auto
    note K = net_okD(1)[OF I(1) v]
    have s: "index (N_state \<sigma> v) = index (st0 (Rg_root G))" "prepare (N_state \<sigma> v) = prepare (st0 v)"
      "None \<notin> set (tempPrepareCommit (N_state \<sigma> v))" "has (ReceivedMessages (N_state \<sigma> v)) (run_hash E (Rg_root G) st0)"
      using K send_commitment(2) by (auto simp: node_ok_def)
    have "others (outbox v as) = {#}" if nr: "v \<noteq> Rg_root G"
    proof -
      have "v \<in> ec_inf (flood E G st0 \<sigma>)" using v s(4) by simp
      from flood_parent[OF all_invD(1)[OF I(2)] this] obtain p where "Parent (N_state \<sigma> v) = Some p" "p \<in> Rg_nodes G"
        using nr by auto
      from finish_other[OF R v nr s(1,2) this s(3)] send_commitment(4) show ?thesis by auto
    qed
    from frame_send[OF R F v send_commitment(2) s(2) send_commitment(4) this] show ?thesis
      by (simp add: send_commitment(1))
  qed
qed

lemma frame_reach:
  assumes "ring_ok E G st0" "reach (prepare_init E (Rg_root G) st0) (prepare_step E) \<sigma>"
  shows "frame_inv E G st0 \<sigma>"
  using assms(2)
proof (induction rule: reach.induct)
  case (reach_step s t)
  then show ?case using frame_step[OF assms(1)] by blast
qed (rule frame_init)

subsection \<open>From the flood to the casts\<close>

text \<open>
  What a run relies on beyond the ring: one suite and roster for all nodes, whose keys are the
  ones the nodes sign with, CoSi states that behave as documented, and a message every node
  accepts.
\<close>

definition roster_ok ::
  "(TreeNode \<Rightarrow> ('c, 'p :: ab_group_add, 's :: comm_ring) Env) \<Rightarrow> (TreeNode, 'p) ring \<Rightarrow> (TreeNode \<Rightarrow> ('c, 'p, 's) bft)
    \<Rightarrow> ('p, 's) Suite \<Rightarrow> 'p list \<Rightarrow> ('c \<Rightarrow> ('p, 's) cosi_view) \<Rightarrow> bool" where
  "roster_ok E G st0 S pubs vw \<longleftrightarrow> suite_ok S
     \<and> agg_public pubs = (\<Sum>v \<in> Rg_nodes G. BaseMul S (V_key (vw (prepare (st0 v)))))
     \<and> (\<forall>v \<in> Rg_nodes G. E_Suite (E v) = S \<and> Publics (E v) = pubs
          \<and> VerificationFunction (E v) (Msg (st0 (Rg_root G))) (Data (st0 (Rg_root G)))
          \<and> cosi_laws S (agg_public pubs) vw (E_CoSi (E v))
          \<and> V_key (vw (commit (st0 v))) = V_key (vw (prepare (st0 v))))"

lemma roster_okD:
  assumes "roster_ok E G st0 S pubs vw"
  shows "suite_ok S" "agg_public pubs = (\<Sum>v \<in> Rg_nodes G. BaseMul S (V_key (vw (prepare (st0 v)))))"
    "v \<in> Rg_nodes G \<Longrightarrow> E_Suite (E v) = S" "v \<in> Rg_nodes G \<Longrightarrow> Publics (E v) = pubs"
    "v \<in> Rg_nodes G \<Longrightarrow> VerificationFunction (E v) (Msg (st0 (Rg_root G))) (Data (st0 (Rg_root G)))"
    "v \<in> Rg_nodes G \<Longrightarrow> cosi_laws S (agg_public pubs) vw (E_CoSi (E v))"
    "v \<in> Rg_nodes G \<Longrightarrow> V_key (vw (commit (st0 v))) = V_key (vw (prepare (st0 v)))"
  using assms unfolding roster_ok_def by blast+

definition end_tree :: "(TreeNode, 'p) ring \<Rightarrow> ('c, 'p, 's) net \<Rightarrow> TreeNode cast_tree" where
  "end_tree G \<sigma> = \<lparr>Tr_nodes = Rg_nodes G, Tr_root = Rg_root G, Tr_kids = (\<lambda>v. dynamicChildren (N_state \<sigma> v)),
     Tr_par = (\<lambda>v. Parent (N_state \<sigma> v))\<rparr>"

definition end_run ::
  "(TreeNode, 'p) ring \<Rightarrow> (TreeNode \<Rightarrow> ('c, 'p, 's) bft) \<Rightarrow> ('p, 's) Suite \<Rightarrow> 'p list \<Rightarrow> ('c \<Rightarrow> ('p, 's) cosi_view)
    \<Rightarrow> ('c, 'p, 's) net \<Rightarrow> ('c, 'p, 's) run" where
  "end_run G st0 S pubs vw \<sigma> = \<lparr>Ru_tree = end_tree G \<sigma>, Ru_key = (\<lambda>v. V_key (vw (prepare (st0 v)))),
     Ru_r1 = (\<lambda>v. V_next (vw (prepare (st0 v)))), Ru_r2 = (\<lambda>v. V_next (vw (commit (st0 v)))),
     Ru_msg = Msg (st0 (Rg_root G)), Ru_data = Data (st0 (Rg_root G)), Ru_index = index (st0 (Rg_root G)),
     Ru_suite = S, Ru_publics = pubs, Ru_view = vw\<rparr>"

lemma end_run_simps [simp]:
  "Ru_tree (end_run G st0 S pubs vw \<sigma>) = end_tree G \<sigma>"
  "Ru_key (end_run G st0 S pubs vw \<sigma>) v = V_key (vw (prepare (st0 v)))"
  "Ru_r1 (end_run G st0 S pubs vw \<sigma>) v = V_next (vw (prepare (st0 v)))"
  "Ru_r2 (end_run G st0 S pubs vw \<sigma>) v = V_next (vw (commit (st0 v)))"
  "Ru_msg (end_run G st0 S pubs vw \<sigma>) = Msg (st0 (Rg_root G))" "Ru_data (end_run G st0 S pubs vw \<sigma>) = Data (st0 (Rg_root G))"
  "Ru_index (end_run G st0 S pubs vw \<sigma>) = index (st0 (Rg_root G))" "Ru_suite (end_run G st0 S pubs vw \<sigma>) = S"
  "Ru_publics (end_run G st0 S pubs vw \<sigma>) = pubs" "Ru_view (end_run G st0 S pubs vw \<sigma>) = vw"
  "Tr_nodes (end_tree G \<sigma>) = Rg_nodes G" "Tr_root (end_tree G \<sigma>) = Rg_root G"
  "Tr_kids (end_tree G \<sigma>) v = dynamicChildren (N_state \<sigma> v)" "Tr_par (end_tree G \<sigma>) v = Parent (N_state \<sigma> v)"
  by (simp_all add: end_run_def end_tree_def)

text \<open>The facts every lemma of this section starts from: the flood of a connected ring is over.\<close>

definition flooded ::
  "(TreeNode \<Rightarrow> ('c, 'p :: ab_group_add, 's) Env) \<Rightarrow> (TreeNode, 'p) ring \<Rightarrow> (TreeNode \<Rightarrow> ('c, 'p, 's) bft)
    \<Rightarrow> ('c, 'p, 's) net \<Rightarrow> bool" where
  "flooded E G st0 \<sigma> \<longleftrightarrow> ring_ok E G st0 \<and> connected_graph G \<and> Rg_nbr G (Rg_root G) \<noteq> []
     \<and> reach (prepare_init E (Rg_root G) st0) (prepare_step E) \<sigma> \<and> N_phase \<sigma> (Rg_root G) = CommitmentSent"

lemma flooded_tree:
  assumes "flooded E G st0 \<sigma>" "v \<in> Rg_nodes G"
  shows "N_phase \<sigma> v = CommitmentSent" "distinct (dynamicChildren (N_state \<sigma> v))"
    "set (dynamicChildren (N_state \<sigma> v)) = {w \<in> Rg_nodes G. Parent (N_state \<sigma> w) = Some v}"
    "(Rg_root G, v) \<in> (kid_rel (end_tree G \<sigma>))\<^sup>*"
    "v \<noteq> Rg_root G \<Longrightarrow> \<exists>p. Parent (N_state \<sigma> v) = Some p \<and> p \<in> set (Rg_nbr G v) \<and> p \<in> Rg_nodes G"
    "v = Rg_root G \<Longrightarrow> Parent (N_state \<sigma> v) = None"
proof -
  have R: "ring_ok E G st0" "connected_graph G" and r: "reach (prepare_init E (Rg_root G) st0) (prepare_step E) \<sigma>"
    "N_phase \<sigma> (Rg_root G) = CommitmentSent" using assms(1) by (simp_all add: flooded_def)
  note I = reached_flood[OF R(1) r(1)] and G = ring_okD(1)[OF R(1)]
  note T = root_done_tree[OF G R(2) I(2) reached_root_done[OF R(1) r(2)] assms(2)]
  show "N_phase \<sigma> v = CommitmentSent" using T(1) by simp
  show "distinct (dynamicChildren (N_state \<sigma> v))" using T(2) by (simp add: flood_fields[OF assms(2)])
  have "{w \<in> Rg_nodes G. ec_parent (flood E G st0 \<sigma>) w = Some v} = {w \<in> Rg_nodes G. Parent (N_state \<sigma> w) = Some v}"
    by (auto simp: abs_net_def)
  then show "set (dynamicChildren (N_state \<sigma> v)) = {w \<in> Rg_nodes G. Parent (N_state \<sigma> w) = Some v}"
    using T(3) by (simp add: flood_fields[OF assms(2)])
  have "{(a, b). ec_parent (flood E G st0 \<sigma>) b = Some a} = kid_rel (end_tree G \<sigma>)"
    by (auto simp: abs_net_def kid_rel_def)
  then show "(Rg_root G, v) \<in> (kid_rel (end_tree G \<sigma>))\<^sup>*" using T(4) by simp
  have "v \<in> ec_inf (flood E G st0 \<sigma>)"
    using root_done_all_informed[OF G R(2) I(2) reached_root_done[OF R(1) r(2)]] assms(2) by blast
  from flood_parent[OF all_invD(1)[OF I(2)] this]
  show "v \<noteq> Rg_root G \<Longrightarrow> \<exists>p. Parent (N_state \<sigma> v) = Some p \<and> p \<in> set (Rg_nbr G v) \<and> p \<in> Rg_nodes G"
    "v = Rg_root G \<Longrightarrow> Parent (N_state \<sigma> v) = None" by auto
qed

lemma flooded_tree_ok: "flooded E G st0 \<sigma> \<Longrightarrow> tree_ok (end_tree G \<sigma>)"
proof -
  assume F: "flooded E G st0 \<sigma>"
  then have G: "graph_ok G" using ring_okD(1) by (auto simp: flooded_def)
  have "p \<in> Rg_nodes G" if "v \<in> Rg_nodes G" "Parent (N_state \<sigma> v) = Some p" for v p
    using flooded_tree(5,6)[OF F that(1)] that(2) by (cases "v = Rg_root G") auto
  moreover have fin: "finite (Rg_nodes G)" "Rg_root G \<in> Rg_nodes G" using G unfolding graph_ok_def by blast+
  ultimately show ?thesis
    using flooded_tree(2-4)[OF F] flooded_tree(6)[OF F fin(2) refl] unfolding tree_ok_def end_run_simps by blast
qed

lemma flooded_root_kids: "flooded E G st0 \<sigma> \<Longrightarrow> dynamicChildren (N_state \<sigma> (Rg_root G)) \<noteq> []"
proof -
  assume F: "flooded E G st0 \<sigma>"
  then have G: "graph_ok G" and n: "Rg_nbr G (Rg_root G) \<noteq> []" using ring_okD(1) by (auto simp: flooded_def)
  have root: "Rg_root G \<in> Rg_nodes G" using G unfolding graph_ok_def by blast
  obtain w where w: "w \<in> set (Rg_nbr G (Rg_root G))" using n by (cases "Rg_nbr G (Rg_root G)") auto
  then have "w \<in> Rg_nodes G" "w \<noteq> Rg_root G" using G root unfolding graph_ok_def by blast+
  then obtain y where "(Rg_root G, y) \<in> kid_rel (end_tree G \<sigma>)"
    using flooded_tree(4)[OF F, of w] by (metis converse_rtranclE)
  then have "y \<in> set (dynamicChildren (N_state \<sigma> (Rg_root G)))"
    using flooded_tree(3)[OF F root] by (simp add: kid_rel_def)
  then show ?thesis by auto
qed

text \<open>A node whose commitment channel was closed has no children.\<close>

lemma flooded_closed:
  assumes F: "flooded E G st0 \<sigma>" and v: "v \<in> Rg_nodes G" and c: "commitChanClosed (N_state \<sigma> v)"
  shows "dynamicChildren (N_state \<sigma> v) = []"
proof -
  have R: "ring_ok E G st0" and r: "reach (prepare_init E (Rg_root G) st0) (prepare_step E) \<sigma>"
    using F by (simp_all add: flooded_def)
  have K: "node_ok (run_hash E (Rg_root G) st0) G st0 (N_phase \<sigma> v) (N_ready \<sigma> v) (N_state \<sigma> v) v"
    by (rule net_okD(1)[OF reached_flood(1)[OF R r] v])
  then have l: "length (Rg_nbr G v) = 1" "Parent (N_state \<sigma> v) \<noteq> None"
    using c flooded_tree(1)[OF F v] by (auto simp: node_ok_def)
  then obtain p where p: "Parent (N_state \<sigma> v) = Some p" "p \<in> set (Rg_nbr G v)"
    using flooded_tree(5,6)[OF F v] by (cases "v = Rg_root G") auto
  then have nbr: "set (Rg_nbr G v) = {p}" using l(1) by (auto simp: length_Suc_conv)
  have "w \<notin> set (dynamicChildren (N_state \<sigma> v))" for w
  proof
    assume "w \<in> set (dynamicChildren (N_state \<sigma> v))"
    then have w: "w \<in> Rg_nodes G" "Parent (N_state \<sigma> w) = Some v" using flooded_tree(3)[OF F v] by auto
    then have "v \<in> set (Rg_nbr G w)" using flooded_tree(5,6)[OF F w(1)] by (cases "w = Rg_root G") auto
    then have "w = p" using nbr w(1) ring_okD(1)[OF R] unfolding graph_ok_def by blast
    then have "(v, p) \<in> kid_rel (end_tree G \<sigma>)" "(p, v) \<in> kid_rel (end_tree G \<sigma>)"
      using w p(1) v by (simp_all add: kid_rel_def)
    then have "(v, v) \<in> (kid_rel (end_tree G \<sigma>))\<^sup>+" by (meson trancl.r_into_trancl trancl_into_trancl)
    then show False using tree_acyclic[OF flooded_tree_ok[OF F]] v by simp
  qed
  then show ?thesis by (metis list.set_intros(1) neq_Nil_conv)
qed

lemma flooded_msgs:
  assumes "flooded E G st0 \<sigma>"
  shows "others (N_msgs \<sigma>) = N_msgs \<sigma>"
proof -
  have R: "ring_ok E G st0" "connected_graph G" and r: "reach (prepare_init E (Rg_root G) st0) (prepare_step E) \<sigma>"
    "N_phase \<sigma> (Rg_root G) = CommitmentSent" using assms by (simp_all add: flooded_def)
  have "abs_msgs (N_msgs \<sigma>) = {#}"
    using root_done_no_messages[OF ring_okD(1)[OF R(1)] R(2) reached_flood(2)[OF R(1) r(1)] reached_root_done[OF R(1) r(2)]]
    by simp
  then show ?thesis by (simp add: abs_msgs_def others_def filter_mset_eq_conv)
qed

lemma cosi_commit:
  assumes "cosi_laws S A vw C" "None \<notin> set cs" "Commit C c cs = Inr (c', x)"
  shows "x = BaseMul S (V_next (vw c)) + sum_list (map the cs)"
    "vw c' = (vw c)\<lparr>V_random := Some (V_next (vw c)), V_commit := Some x\<rparr>"
  using cosi_lawsD(2)[OF assms(1), of c "map the cs"] assms(2,3) by (auto simp: somes simp del: map_map)

lemma flooded_commits:
  assumes F: "flooded E G st0 \<sigma>" and L: "roster_ok E G st0 S pubs vw" and v: "v \<in> Rg_nodes G"
  shows "Rg_own G v = BaseMul S (V_next (vw (prepare (st0 v))))" "None \<notin> set (tempPrepareCommit (N_state \<sigma> v))"
proof -
  have R: "ring_ok E G st0" and r: "reach (prepare_init E (Rg_root G) st0) (prepare_step E) \<sigma>"
    using F by (simp_all add: flooded_def)
  obtain c' where "Commit (E_CoSi (E v)) (prepare (st0 v)) [] = Inr (c', Rg_own G v)"
    using ring_okD(6)[OF R v] unfolding cosi_adds_def by (metis add_0_right list.map(1) sum_list.Nil)
  from cosi_commit(1)[OF roster_okD(6)[OF L v] _ this]
  show "Rg_own G v = BaseMul S (V_next (vw (prepare (st0 v))))" by simp
  show "None \<notin> set (tempPrepareCommit (N_state \<sigma> v))"
    using net_okD(1)[OF reached_flood(1)[OF R r] v] by (simp add: node_ok_def)
qed

lemma end_run_ok:
  assumes F: "flooded E G st0 \<sigma>" and L: "roster_ok E G st0 S pubs vw"
  shows "run_ok E (end_run G st0 S pubs vw \<sigma>)"
proof -
  have R: "ring_ok E G st0" using F by (simp add: flooded_def)
  have "DelayedSend (E v) s u m = Inr [Send u m]"
    if "v \<in> Rg_nodes G" "u \<in> Rg_nodes G" "index s = index (st0 (Rg_root G))" for v u s m
    using DelayedSend_ok[OF ring_okD(4)[OF R that(1)] that(3,2,1)] .
  then show ?thesis
    using flooded_tree_ok[OF F] flooded_root_kids[OF F] roster_okD[OF L] IsRoot_ring[OF R]
    unfolding run_ok_def end_run_simps by blast
qed

lemma flooded_root:
  assumes F: "flooded E G st0 \<sigma>" and L: "roster_ok E G st0 S pubs vw"
  shows "commit1 (end_run G st0 S pubs vw \<sigma>) = Rg_own G (Rg_root G) + sum_list (map the (tempPrepareCommit (N_state \<sigma> (Rg_root G))))"
proof -
  have R: "ring_ok E G st0" "connected_graph G" and r: "reach (prepare_init E (Rg_root G) st0) (prepare_step E) \<sigma>"
    "N_phase \<sigma> (Rg_root G) = CommitmentSent" using F by (simp_all add: flooded_def)
  note G = ring_okD(1)[OF R(1)]
  have fin: "finite (Rg_nodes G)" "Rg_root G \<in> Rg_nodes G" using G unfolding graph_ok_def by blast+
  have "commit1 (end_run G st0 S pubs vw \<sigma>) = (\<Sum>w \<in> Rg_nodes G. Rg_own G w)"
    using flooded_commits(1)[OF F L] by (simp add: commit1_def)
  then show ?thesis
    using root_done_sum[OF G R(2) reached_flood(2)[OF R(1) r(1)] reached_root_done[OF R(1) r(2)]] fin
    by (simp add: flood_fields sum.remove)
qed

lemma fresh_state:
  assumes "reach (prepare_init E r st0) step \<sigma>"
  shows "\<not> signRefusal (st0 v)" "tempExceptions (st0 v) = []" "0 \<le> allowedExceptions (st0 v)" "tempCommitCommit (st0 v) = []"
    "tempPrepareResponse (st0 v) = []" "tempPrepareResponsePublics (st0 v) = []" "tempCommitResponse (st0 v) = []"
    "dynamicChildrenAux (st0 v) = []" "\<not> responseChanClosed (st0 v)" "tempPrepareCommit (st0 v) = []"
    "dynamicChildren (st0 v) = []"
proof -
  have "new_instance (E v) (st0 v)" using assms by induction (simp_all add: prepare_init_def)
  then show "\<not> signRefusal (st0 v)" "tempExceptions (st0 v) = []" "0 \<le> allowedExceptions (st0 v)" "tempCommitCommit (st0 v) = []"
    "tempPrepareResponse (st0 v) = []" "tempPrepareResponsePublics (st0 v) = []" "tempCommitResponse (st0 v) = []"
    "dynamicChildrenAux (st0 v) = []" "\<not> responseChanClosed (st0 v)" "tempPrepareCommit (st0 v) = []"
    "dynamicChildren (st0 v) = []"
    by (auto simp: new_instance_def NewBFTCoSiProtocol_def allowed_exceptions_def)
qed

lemma waiting_childless:
  assumes "reach (prepare_init E r st0) (prepare_step E) \<sigma>" "N_phase \<sigma> v = WaitAnnouncement"
  shows "dynamicChildren (N_state \<sigma> v) = []"
  using assms
proof (induction rule: reach.induct)
  case (reach_init s)
  then have "N_state s = st0" by (simp add: prepare_init_def)
  then show ?case using fresh_state(11)[OF reach.reach_init[of "prepare_init E r st0", OF reach_init(1)]] by simp
next
  case (reach_step s t)
  from reach_step(2) show ?case
  proof cases
    case (deliver_announcement sender w a M s' as)
    with reach_step show ?thesis by (cases "v = w") (auto split: if_splits)
  next
    case (deliver_commitment u w c M ready s')
    with reach_step show ?thesis by (cases "v = w") auto
  next
    case (send_commitment w s' as)
    with reach_step show ?thesis by (cases "v = w") auto
  qed
qed

text \<open>The CoSi states at the end of the flood.\<close>

lemma flooded_cosi:
  assumes F: "flooded E G st0 \<sigma>" and L: "roster_ok E G st0 S pubs vw" and v: "v \<in> Rg_nodes G"
  shows "V_key (vw (prepare (N_state \<sigma> v))) = V_key (vw (prepare (st0 v)))"
    "V_random (vw (prepare (N_state \<sigma> v))) = Some (V_next (vw (prepare (st0 v))))"
    "v = Rg_root G \<Longrightarrow> V_commit (vw (prepare (N_state \<sigma> v))) = Some (commit1 (end_run G st0 S pubs vw \<sigma>))"
    "v = Rg_root G \<Longrightarrow> V_challenge (vw (prepare (N_state \<sigma> v))) = Some (chal1 (end_run G st0 S pubs vw \<sigma>))"
    "v = Rg_root G \<Longrightarrow> N_msgs \<sigma> = {#commit_ann v (st0 v), (None, v, MChallengePrepare (challenge1 (end_run G st0 S pubs vw \<sigma>)))#}"
proof -
  let ?R = "end_run G st0 S pubs vw \<sigma>" and ?s = "N_state \<sigma> v"
  have R: "ring_ok E G st0" and r: "reach (prepare_init E (Rg_root G) st0) (prepare_step E) \<sigma>"
    using F by (simp_all add: flooded_def)
  note I = frame_reach[OF R r] and laws = roster_okD(6)[OF L v] and n = flooded_commits(2)[OF F L v]
  note sent = flooded_tree(1)[OF F v]
  have "V_key (vw (prepare ?s)) = V_key (vw (prepare (st0 v)))
    \<and> V_random (vw (prepare ?s)) = Some (V_next (vw (prepare (st0 v))))
    \<and> (v = Rg_root G \<longrightarrow> V_commit (vw (prepare ?s)) = Some (commit1 ?R) \<and> V_challenge (vw (prepare ?s)) = Some (chal1 ?R)
        \<and> N_msgs \<sigma> = {#commit_ann v (st0 v), (None, v, MChallengePrepare (challenge1 ?R))#})"
  proof (cases "v = Rg_root G")
    case True
    obtain c x ch where c: "Commit (E_CoSi (E v)) (prepare (st0 v)) (tempPrepareCommit ?s) = Inr (c, x)"
      "CreateChallenge (E_CoSi (E v)) c (Sha512 (E_Suite (E v)) (Msg ?s)) = Inr (prepare ?s, ch)"
      "others (N_msgs \<sigma>) = {#commit_ann v (st0 v),
        (None, v, MChallengePrepare \<lparr>CP_Msg = Msg ?s, CP_Data = Data ?s, CP_Challenge = ch\<rparr>)#}"
      using frame_invD(4)[OF I] sent True by auto
    note x = cosi_commit[OF laws n c(1)]
    have "x = commit1 ?R" using x(1) flooded_root[OF F L] flooded_commits(1)[OF F L v] True by simp
    then have "ch = recreate_challenge S (commit1 ?R) (agg_public pubs) (Sha512 S (Msg ?s))"
      "vw (prepare ?s) = (vw c)\<lparr>V_challenge := Some ch\<rparr>"
      using cosi_lawsD(3)[OF laws, of c x "Sha512 S (Msg ?s)"] x(2) c(2) roster_okD(3)[OF L v] by auto
    moreover have "Msg ?s = Msg (st0 v)" "Data ?s = Data (st0 v)"
      using frame_invD(1)[OF I, of v] by (simp_all add: same_rest_def)
    ultimately show ?thesis
      using x(2) \<open>x = commit1 ?R\<close> True c(3) flooded_msgs[OF F] by (simp add: chal1_def challenge1_def)
  next
    case False
    then obtain x where "Commit (E_CoSi (E v)) (prepare (st0 v)) (tempPrepareCommit ?s) = Inr (prepare ?s, x)"
      using frame_invD(2)[OF I v _ sent] by blast
    from cosi_commit(2)[OF laws n this] show ?thesis using False by simp
  qed
  then show "V_key (vw (prepare ?s)) = V_key (vw (prepare (st0 v)))"
    "V_random (vw (prepare ?s)) = Some (V_next (vw (prepare (st0 v))))"
    "v = Rg_root G \<Longrightarrow> V_commit (vw (prepare ?s)) = Some (commit1 ?R)"
    "v = Rg_root G \<Longrightarrow> V_challenge (vw (prepare ?s)) = Some (chal1 ?R)"
    "v = Rg_root G \<Longrightarrow> N_msgs \<sigma> = {#commit_ann v (st0 v), (None, v, MChallengePrepare (challenge1 ?R))#}" by blast+
qed

subsection \<open>The casts start\<close>

lemma flooded_static:
  assumes F: "flooded E G st0 \<sigma>" and v: "v \<in> Rg_nodes G"
  shows "static_ok (end_run G st0 S pubs vw \<sigma>) v (N_state \<sigma> v)"
proof -
  have R: "ring_ok E G st0" and r: "reach (prepare_init E (Rg_root G) st0) (prepare_step E) \<sigma>"
    using F by (simp_all add: flooded_def)
  note K = net_okD(1)[OF reached_flood(1)[OF R r] v] and same = frame_invD(1)[OF frame_reach[OF R r], of v]
  have "\<not> closing (N_state \<sigma> v)" "index (N_state \<sigma> v) = index (st0 (Rg_root G))"
    using K flooded_tree(1)[OF F v] by (simp_all add: node_ok_def)
  then show ?thesis
    using same fresh_state[OF r, of v] flooded_closed[OF F v] by (simp add: static_ok_def same_rest_def)
qed

lemma flooded_node:
  assumes F: "flooded E G st0 \<sigma>" and L: "roster_ok E G st0 S pubs vw" and v: "v \<in> Rg_nodes G"
    and g: "g = (if dynamicChildren (N_state \<sigma> v) = [] then WaitChallengePrepare else ReadCommits)"
  shows "node_inv (end_run G st0 S pubs vw \<sigma>) g True False v (N_state \<sigma> v)"
proof -
  let ?R = "end_run G st0 S pubs vw \<sigma>" and ?s = "N_state \<sigma> v"
  have R: "ring_ok E G st0" and r: "reach (prepare_init E (Rg_root G) st0) (prepare_step E) \<sigma>"
    using F by (simp_all add: flooded_def)
  have same: "same_rest ?s (st0 v)" by (rule frame_invD(1)[OF frame_reach[OF R r]])
  have root: "v = Rg_root G \<Longrightarrow> g = ReadCommits" using g flooded_root_kids[OF F] by auto
  have "challenged ?R ?s" if "v = Rg_root G"
    using flooded_cosi(4)[OF F L v that] same that by (simp add: challenged_def same_rest_def)
  then have "cosi_ok ?R g True v ?s"
    using flooded_cosi(1-3)[OF F L v] same roster_okD(7)[OF L v] root g
    by (auto simp: cosi_ok_def committed_def same_rest_def)
  then show ?thesis
    using flooded_static[OF F v] same fresh_state[OF r, of v] g
    by (auto simp: node_inv_def same_rest_def)
qed

lemma flooded_inv:
  assumes F: "flooded E G st0 \<sigma>" and L: "roster_ok E G st0 S pubs vw" and t: "sign_init \<sigma> \<tau>"
  shows "sign_inv (end_run G st0 S pubs vw \<sigma>) \<tau>"
proof -
  let ?R = "end_run G st0 S pubs vw \<sigma>" and ?r = "Rg_root G"
  have R: "ring_ok E G st0" and r: "reach (prepare_init E ?r st0) (prepare_step E) \<sigma>"
    using F by (simp_all add: flooded_def)
  have root: "?r \<in> Rg_nodes G" using ring_okD(1)[OF R] unfolding graph_ok_def by blast
  note msgs = flooded_cosi(5)[OF F L root refl] and T = flooded_tree_ok[OF F]
  have leaf: "isLocalityTreeLeaf (N_state \<sigma> v) \<longleftrightarrow> dynamicChildren (N_state \<sigma> v) = []" for v
    by (simp add: isLocalityTreeLeaf_def)
  have stage: "S_stage \<tau> v = (if dynamicChildren (N_state \<sigma> v) = [] then WaitChallengePrepare else ReadCommits)"
    and st: "S_state \<tau> = N_state \<sigma>" "S_ann \<tau> v" "\<not> S_ready \<tau> v" "S_msgs \<tau> = N_msgs \<sigma>" "S_sigs \<tau> = []" for v
    using t leaf by (simp_all add: sign_init_def)
  have empty: "tempCommitCommit (N_state \<sigma> v) = []" "tempPrepareResponse (N_state \<sigma> v) = []"
    "dynamicChildrenAux (N_state \<sigma> v) = []" "tempCommitResponse (N_state \<sigma> v) = []" for v
    using frame_invD(1)[OF frame_reach[OF R r], of v] fresh_state[OF r, of v] by (simp_all add: same_rest_def)
  have outside: "S_stage \<tau> v = WaitChallengePrepare" if "v \<notin> Rg_nodes G" for v
    using waiting_childless[OF r] reached_flood(3)[OF R r] that stage by simp
  have low: "rank (S_stage \<tau> v) \<le> 1" for v by (simp add: stage)
  have "view_inv (end_tree G \<sigma>) (own_commit ?R) (view1 ?R \<tau>)" "view_inv (end_tree G \<sigma>) (own_response1 ?R) (view2 ?R \<tau>)"
    "view_inv (end_tree G \<sigma>) (own_response2 ?R) (view3 ?R \<tau>)"
    using low by (intro view_init[OF T]; force simp: view_defs st empty msgs commit_ann_def stage)+
  then show ?thesis
    using flooded_node[OF F L _ stage] outside msgs stage[of ?r] root
    by (auto simp: sign_inv_def st commit_ann_def)
qed

text \<open>The run goes on from any network the flood has left behind.\<close>

definition signing_start ::
  "(TreeNode \<Rightarrow> ('c, 'p :: ab_group_add, 's :: comm_ring) Env) \<Rightarrow> (TreeNode, 'p) ring \<Rightarrow> (TreeNode \<Rightarrow> ('c, 'p, 's) bft)
    \<Rightarrow> ('p, 's) Suite \<Rightarrow> 'p list \<Rightarrow> ('c \<Rightarrow> ('p, 's) cosi_view) \<Rightarrow> ('c, 'p, 's) net \<Rightarrow> ('c, 'p, 's) snet \<Rightarrow> bool" where
  "signing_start E G st0 S pubs vw \<sigma> \<tau> \<longleftrightarrow> flooded E G st0 \<sigma> \<and> roster_ok E G st0 S pubs vw \<and> sign_init \<sigma> \<tau>"

interpretation signing: invariant_system "signing_start E G st0 S pubs vw \<sigma>" "sign_step E"
  "\<lambda>\<tau>. run_ok E (end_run G st0 S pubs vw \<sigma>) \<and> sign_inv (end_run G st0 S pubs vw \<sigma>) \<tau>"
  for E :: "TreeNode \<Rightarrow> ('c, 'p :: ab_group_add, 's :: comm_ring) Env" and G st0 S pubs vw \<sigma>
  by unfold_locales (auto simp: signing_start_def intro: sign_step_inv flooded_inv end_run_ok)

text \<open>The measure of the casts at the start.\<close>

lemma tree_edges:
  assumes "tree_ok T"
  shows "(\<Sum>v \<in> Tr_nodes T. length (Tr_kids T v)) < card (Tr_nodes T)"
proof -
  have "(\<Sum>v \<in> Tr_nodes T. length (Tr_kids T v)) = (\<Sum>v \<in> Tr_nodes T. card {w \<in> Tr_nodes T. Tr_par T w = Some v})"
    using tree_okD(4,5)[OF assms] by (intro sum.cong) (auto simp flip: distinct_card)
  also have "\<dots> = card (\<Union>v \<in> Tr_nodes T. {w \<in> Tr_nodes T. Tr_par T w = Some v})"
    by (rule card_UN_disjoint[symmetric]) (use tree_okD(1)[OF assms] in auto)
  also have "\<dots> < card (Tr_nodes T)"
  proof (rule psubset_card_mono)
    have "Tr_root T \<notin> (\<Union>v \<in> Tr_nodes T. {w \<in> Tr_nodes T. Tr_par T w = Some v})" using tree_okD(3)[OF assms] by simp
    then show "(\<Union>v \<in> Tr_nodes T. {w \<in> Tr_nodes T. Tr_par T w = Some v}) \<subset> Tr_nodes T"
      using tree_okD(2)[OF assms] by blast
  qed (rule tree_okD(1)[OF assms])
  finally show ?thesis .
qed

lemma start_measure:
  assumes F: "flooded E G st0 \<sigma>" and L: "roster_ok E G st0 S pubs vw" and t: "sign_init \<sigma> \<tau>"
  shows "sign_measure (end_run G st0 S pubs vw \<sigma>) \<tau> + 4 \<le> 18 * card (Rg_nodes G)"
proof -
  let ?R = "end_run G st0 S pubs vw \<sigma>" and ?k = "\<lambda>v. length (dynamicChildren (N_state \<sigma> v))"
  have root: "Rg_root G \<in> Rg_nodes G" using tree_okD(2)[OF flooded_tree_ok[OF F]] by simp
  have "size (S_msgs \<tau>) = 2" using t flooded_cosi(5)[OF F L root refl] by (simp add: sign_init_def)
  moreover have "node_weight ?R (S_ann \<tau> v) (S_stage \<tau> v) v \<le> 6 * (?k v + 2)" for v
    using t by (simp add: sign_init_def node_weight_def)
  then have "(\<Sum>v \<in> Rg_nodes G. node_weight ?R (S_ann \<tau> v) (S_stage \<tau> v) v) \<le> (\<Sum>v \<in> Rg_nodes G. 6 * (?k v + 2))"
    by (intro sum_mono)
  moreover have "(\<Sum>v \<in> Rg_nodes G. 6 * (?k v + 2)) = 6 * (\<Sum>v \<in> Rg_nodes G. ?k v) + 12 * card (Rg_nodes G)"
    by (simp add: sum_distrib_left[symmetric] sum.distrib)
  ultimately show ?thesis using tree_edges[OF flooded_tree_ok[OF F]] by (simp add: sign_measure_def)
qed

lemma signing_steps:
  assumes "run_ok E R" "sign_inv R \<tau>" "(sign_step E ^^ n) \<tau> \<tau>'"
  shows "sign_inv R \<tau>' \<and> n + sign_measure R \<tau>' \<le> sign_measure R \<tau>"
  using assms(3)
proof (induction n arbitrary: \<tau>')
  case (Suc n)
  then obtain \<rho> where \<rho>: "(sign_step E ^^ n) \<tau> \<rho>" "sign_step E \<rho> \<tau>'" by auto
  with Suc.IH have "sign_inv R \<rho>" "n + sign_measure R \<rho> \<le> sign_measure R \<tau>" by blast+
  then show ?case using sign_step_measure[OF \<rho>(2) assms(1)] sign_step_inv[OF \<rho>(2) assms(1)] by fastforce
qed (use assms(2) in simp)

subsection \<open>A run of BFT-CoSi\<close>

text \<open>C1: When the root has finished, in whatever order messages were delivered and goroutines ran,
  it has called \<open>onSignatureDone\<close> exactly once, with a signature on the message it was started
  with that \<open>Verify\<close> accepts for the whole roster and that lists no exceptions; before it has
  finished, it has not called it.\<close>

theorem signing_complete:
  assumes "reach (signing_start E G st0 S pubs vw \<sigma>) (sign_step E) \<tau>"
  shows "if S_stage \<tau> (Rg_root G) = Finished
    then \<exists>sg. S_sigs \<tau> = [sg] \<and> Verify S (Some sg) pubs = Inr () \<and> Bs_Msg sg = Some (Msg (st0 (Rg_root G)))
      \<and> Bs_Exceptions sg = []
    else S_sigs \<tau> = []"
  using signing.reachable_inv[OF assms] by (auto simp: signed_def dest: sign_invD(7,8))


text \<open>C4: The signing ends: after the prepare commitments, no order of deliveries takes more than
  \<open>18 * n - 4\<close> steps in a ring of \<open>n\<close> nodes.\<close>

theorem signing_bound:
  assumes "signing_start E G st0 S pubs vw \<sigma> \<tau>" "(sign_step E ^^ n) \<tau> \<tau>'"
  shows "n + 4 \<le> 18 * card (Rg_nodes G)"
proof -
  let ?R = "end_run G st0 S pubs vw \<sigma>"
  have s: "flooded E G st0 \<sigma>" "roster_ok E G st0 S pubs vw" "sign_init \<sigma> \<tau>" using assms(1) by (simp_all add: signing_start_def)
  have "n + sign_measure ?R \<tau>' \<le> sign_measure ?R \<tau>"
    using signing_steps[OF end_run_ok[OF s(1,2)] flooded_inv[OF s] assms(2)] by blast
  then show ?thesis using start_measure[OF s] by linarith
qed

subsection \<open>A signature of two nodes\<close>

text \<open>A CoSi instance on bytes whose state is what the laws speak of.\<close>

definition view_cosi :: "8 word \<Rightarrow> ((8 word, 8 word) cosi_view, 8 word, 8 word) CoSi" where
  "view_cosi A = \<lparr>
     Commit = (\<lambda>c ps. if None \<in> set ps then Inl NilDereference
       else Inr (c\<lparr>V_random := Some (V_next c), V_commit := Some (V_next c + sum_list (map the ps))\<rparr>,
                 V_next c + sum_list (map the ps))),
     CreateCommitment = (\<lambda>c. (c\<lparr>V_random := Some (V_next c)\<rparr>, V_next c)),
     Challenge = (\<lambda>c k. c\<lparr>V_challenge := Some k\<rparr>),
     CreateChallenge = (\<lambda>c m. case V_commit c of
         Some q \<Rightarrow> Inr (c\<lparr>V_challenge := Some (recreate_challenge byte_suite q A m)\<rparr>, recreate_challenge byte_suite q A m)
       | None \<Rightarrow> Inr (c, 0)),
     CreateResponse = (\<lambda>c. case (V_random c, V_challenge c) of
         (Some r, Some k) \<Rightarrow> Inr (c\<lparr>V_random := None\<rparr>, r + k * V_key c) | _ \<Rightarrow> Inl NilDereference),
     CoSi_Response = (\<lambda>c rs. case (V_random c, V_challenge c) of
         (Some r, Some k) \<Rightarrow> Inr (c\<lparr>V_random := None, V_response := Some (r + k * V_key c + sum_list rs)\<rparr>,
                                r + k * V_key c + sum_list rs) | _ \<Rightarrow> Inl NilDereference),
     GetCommitment = (\<lambda>c. the (V_commit c)), GetResponse = (\<lambda>c. the (V_response c)),
     CoSi_Signature = (\<lambda>c. case (V_commit c, V_response c) of (Some q, Some r) \<Rightarrow> [q, r, 0] | _ \<Rightarrow> [])\<rparr>"

lemma view_cosi_laws: "cosi_laws byte_suite A (\<lambda>c. c) (view_cosi A)"
  by (auto simp: cosi_laws_def view_cosi_def byte_suite_def comp_def)

definition duo_cosi :: "TreeNode \<Rightarrow> 8 word \<Rightarrow> (8 word, 8 word) cosi_view" where
  "duo_cosi v r = \<lparr>V_key = (if v = pair_node 0 then 3 else 4), V_next = r, V_random = None, V_commit = None,
     V_challenge = None, V_response = None\<rparr>"

definition duo_env :: "TreeNode \<Rightarrow> ((8 word, 8 word) cosi_view, 8 word, 8 word) Env" where
  "duo_env v = \<lparr>Own = v, Root = pair_node 0, Svc = pair_trees, Publics = [3, 4], E_Suite = byte_suite,
     E_CoSi = view_cosi 7, HashMsg = (\<lambda>a. []), VerificationFunction = (\<lambda>m d. True)\<rparr>"

definition duo_start :: "TreeNode \<Rightarrow> ((8 word, 8 word) cosi_view, 8 word, 8 word) bft" where
  "duo_start v = (NewBFTCoSiProtocol (duo_env v) 7 2 (RosterIndex v) (duo_cosi v (Rg_own pair_ring v)) (duo_cosi v 9))\<lparr>Msg := [1, 2]\<rparr>"

lemma duo_index: "index (duo_start (pair_node 0)) = 0"
  by (simp add: duo_start_def NewBFTCoSiProtocol_def duo_env_def getIndex_def pair_trees_def map_get_def
      GetServerIdentityToName_def pair_node_def)

lemma duo_ring_ok: "ring_ok duo_env pair_ring duo_start"
proof -
  have "lookups_ok (duo_env v) pair_ring 0 v" if "v \<in> Rg_nodes pair_ring" for v
    using that pair_lookups
    by (auto simp: lookups_ok_def pair_ring_def duo_env_def pair_nbr_def extra_parent_def)
  moreover have "cosi_adds (E_CoSi (duo_env v)) (prepare (duo_start v)) (Rg_own pair_ring v)" for v
    by (auto simp: cosi_adds_def duo_env_def view_cosi_def duo_start_def NewBFTCoSiProtocol_def duo_cosi_def comp_def)
  moreover have "inj_on node_id (Rg_nodes pair_ring)" by (auto simp: pair_ring_def inj_on_def)
  ultimately show ?thesis
    using pair_ring_graph(1) duo_index by (simp add: ring_ok_def pair_ring_def duo_env_def)
qed

lemma duo_roster: "roster_ok duo_env pair_ring duo_start byte_suite [3, 4] (\<lambda>c. c)"
  using byte_suite_ok(1) view_cosi_laws
  by (simp add: roster_ok_def duo_env_def pair_ring_def duo_start_def NewBFTCoSiProtocol_def duo_cosi_def
      agg_public_def byte_suite_def)

lemma duo_flooded: "\<exists>\<sigma>. flooded duo_env pair_ring duo_start \<sigma>"
proof -
  have "new_instance (duo_env v) (duo_start v)" for v
    unfolding new_instance_def duo_start_def
    by (intro exI[of _ 7] exI[of _ 2] exI[of _ "RosterIndex v"] exI[of _ "duo_cosi v (Rg_own pair_ring v)"]
        exI[of _ "duo_cosi v 9"] exI[of _ "[1, 2]"] exI[of _ defaultTimeout]) (simp add: NewBFTCoSiProtocol_def)
  then obtain \<sigma> where "prepare_init duo_env (Rg_root pair_ring) duo_start \<sigma>" by (auto simp: prepare_init_def)
  moreover have "challenge_ok (E_CoSi (duo_env v))" for v
    by (auto simp: challenge_ok_def duo_env_def view_cosi_def split: option.splits)
  ultimately show ?thesis
    using prepare_round_reaches_end[OF duo_ring_ok pair_challenge(1)] pair_challenge(1) duo_ring_ok pair_ring_graph(2)
    by (auto simp: flooded_def intro: reach.reach_init)
qed

lemma duo_signing_start: "\<exists>\<sigma> \<tau>. signing_start duo_env pair_ring duo_start byte_suite [3, 4] (\<lambda>c. c) \<sigma> \<tau>"
  using duo_flooded duo_roster by (auto simp: signing_start_def sign_init_def)

lemma duo_finished:
  "\<exists>\<sigma> \<tau>. reach (signing_start duo_env pair_ring duo_start byte_suite [3, 4] (\<lambda>c. c) \<sigma>) (sign_step duo_env) \<tau>
    \<and> S_stage \<tau> (Rg_root pair_ring) = Finished"
proof -
  obtain \<sigma> \<tau> where s: "signing_start duo_env pair_ring duo_start byte_suite [3, 4] (\<lambda>c. c) \<sigma> \<tau>" using duo_signing_start by blast
  let ?I = "signing_start duo_env pair_ring duo_start byte_suite [3, 4] (\<lambda>c. c) \<sigma>"
    and ?R = "end_run pair_ring duo_start byte_suite [3, 4] (\<lambda>c. c) \<sigma>"
  have "\<exists>\<tau>'. reach ?I (sign_step duo_env) \<tau>' \<and> S_stage \<tau>' (Rg_root pair_ring) = Finished" if "reach ?I (sign_step duo_env) \<tau>" for \<tau>
    using that
  proof (induction "sign_measure ?R \<tau>" arbitrary: \<tau> rule: less_induct)
    case less
    have R: "run_ok duo_env ?R" "sign_inv ?R \<tau>" using signing.reachable_inv[OF less.prems] by blast+
    show ?case
    proof (cases "S_stage \<tau> (Rg_root pair_ring) = Finished")
      case False
      then obtain \<tau>' where \<tau>': "sign_step duo_env \<tau> \<tau>'" using sign_progress[OF R] by auto
      with less show ?thesis using sign_step_measure[OF \<tau>' R] by (blast intro: reach.reach_step)
    qed (use less.prems in blast)
  qed
  from this[OF reach.reach_init[of ?I, OF s]] show ?thesis by blast
qed

theorem signing_complete_witness:
  "\<exists>\<sigma> \<tau> sg. reach (signing_start duo_env pair_ring duo_start byte_suite [3, 4] (\<lambda>c. c) \<sigma>) (sign_step duo_env) \<tau>
    \<and> S_sigs \<tau> = [sg] \<and> Verify byte_suite (Some sg) [3, 4] = Inr () \<and> Bs_Msg sg = Some [1, 2]"
proof -
  obtain \<sigma> \<tau> where t: "reach (signing_start duo_env pair_ring duo_start byte_suite [3, 4] (\<lambda>c. c) \<sigma>) (sign_step duo_env) \<tau>"
    "S_stage \<tau> (Rg_root pair_ring) = Finished" using duo_finished by blast
  have "Msg (duo_start v) = [1, 2]" for v by (simp add: duo_start_def)
  with signing_complete[OF t(1)] t show ?thesis by auto
qed


theorem signing_bound_witness:
  "\<exists>\<sigma> \<tau>. signing_start duo_env pair_ring duo_start byte_suite [3, 4] (\<lambda>c. c) \<sigma> \<tau>
    \<and> (\<forall>n \<tau>'. (sign_step duo_env ^^ n) \<tau> \<tau>' \<longrightarrow> n \<le> 32)"
proof -
  obtain \<sigma> \<tau> where s: "signing_start duo_env pair_ring duo_start byte_suite [3, 4] (\<lambda>c. c) \<sigma> \<tau>" using duo_signing_start by blast
  have "n \<le> 32" if "(sign_step duo_env ^^ n) \<tau> \<tau>'" for n \<tau>'
    using signing_bound[OF s that] by (simp add: pair_ring_def)
  with s show ?thesis by blast
qed

end
