(* ===== verification/Bft_Refusal.thy ===== *)
theory Bft_Refusal
  imports Bft_End
begin

text \<open>
  How BFT-CoSi refuses: a node whose verification function rejects the message, a prepare
  signature that does not verify, too many exceptions. And the other direction: the root hands
  out no signature unless every node of the ring has accepted the message.
\<close>

subsection \<open>Refusing in the commit round\<close>

lemma allowed_exceptions_third: "0 \<le> n \<Longrightarrow> allowed_exceptions n = n div 3"
  by (simp add: allowed_exceptions_def)

text \<open>The prepare signature as the challenge of the commit round is checked against.\<close>

definition hashed_signature :: "('c, 'p, 's) Env \<Rightarrow> 'p BFTSignature \<Rightarrow> 'p BFTSignature" where
  "hashed_signature E sg = \<lparr>Bs_Sig = Bs_Sig sg,
     Bs_Msg = Some (Sha512 (E_Suite E) (case Bs_Msg sg of None \<Rightarrow> [] | Some m \<Rightarrow> m)), Bs_Exceptions = Bs_Exceptions sg\<rparr>"

lemma check_commit_challenge_Inr:
  assumes "check_commit_challenge E sg s = Inr s'"
  shows "s' = s\<lparr>signRefusal := signRefusal s \<or> Verify (E_Suite E) (Some (hashed_signature E sg)) (Publics E) \<noteq> Inr ()
      \<or> allowedExceptions s < int (length (Bs_Exceptions sg)), tempExceptions := Bs_Exceptions sg\<rparr>
    \<and> (\<forall>e. Verify (E_Suite E) (Some (hashed_signature E sg)) (Publics E) = Inl e \<longrightarrow> (\<exists>x. e = GoError x))"
  using assms unfolding check_commit_challenge_def hashed_signature_def Let_def
  by (auto split: sum.splits go_error.splits)

text \<open>C37: The check of the commit challenge makes a node refuse to sign exactly when the prepare
  signature does not verify or more than a third of the nodes are listed as exceptions, unless
  it refuses already.\<close>

theorem refusal_threshold:
  assumes "allowedExceptions s = allowed_exceptions nodes" "0 \<le> nodes" "check_commit_challenge E sg s = Inr s'"
  shows "signRefusal s' \<longleftrightarrow> signRefusal s
    \<or> Verify (E_Suite E) (Some (hashed_signature E sg)) (Publics E) \<noteq> Inr ()
    \<or> nodes < 3 * int (length (Bs_Exceptions sg))"
proof -
  have "allowedExceptions s < int (length (Bs_Exceptions sg)) \<longleftrightarrow> nodes < 3 * int (length (Bs_Exceptions sg))"
    unfolding assms(1) allowed_exceptions_third[OF assms(2)] by linarith
  then show ?thesis using check_commit_challenge_Inr[OF assms(3)] by auto
qed

theorem refusal_threshold_witness:
  "signRefusal (projr (check_commit_challenge (duo_env (pair_node 1))
     \<lparr>Bs_Sig = Some [0, 0], Bs_Msg = Some [], Bs_Exceptions = [\<lparr>Ex_Index = 0, Ex_Commitment = 0\<rparr>]\<rparr> (duo_start (pair_node 1))))"
proof -
  let ?E = "duo_env (pair_node 1)" and ?sg = "\<lparr>Bs_Sig = Some [0, 0], Bs_Msg = Some [],
    Bs_Exceptions = [\<lparr>Ex_Index = 0, Ex_Commitment = 0 :: 8 word\<rparr>]\<rparr>" and ?s = "duo_start (pair_node 1)"
  have "\<exists>s'. check_commit_challenge ?E ?sg ?s = Inr s'"
    by (simp add: check_commit_challenge_def Verify_def duo_env_def byte_suite_def except_step_def slice_get_def Let_def)
  then obtain s' where s': "check_commit_challenge ?E ?sg ?s = Inr s'" by blast
  have "allowedExceptions ?s = allowed_exceptions 2" by (simp add: duo_start_def NewBFTCoSiProtocol_def)
  from refusal_threshold[OF this _ s'] s' show ?thesis by simp
qed

text \<open>A root that refuses to sign still calls the callback, with a signature that no verifier
  accepts, whatever the suite and the roster.\<close>

theorem refused_signature_rejected:
  assumes "signRefusal s" "IsRoot E" "finishResponseCommit E s = Inr (s', as)"
  shows "\<exists>sg. as = [SignatureDone sg] \<and> Bs_Msg sg = Some (Msg s) \<and> Bs_Exceptions sg = tempExceptions s
    \<and> Verify S (Some sg) pubs = Inl (GoError ''Invalid signature'')"
  using assms by (auto simp: finishResponseCommit_def commit_response_def Let_def res_bind_Inr_iff Signature_def Verify_def)

theorem refused_signature_rejected_witness:
  "\<exists>s' sg. finishResponseCommit (duo_env (pair_node 0)) ((duo_start (pair_node 0))\<lparr>signRefusal := True,
      dynamicChildren := [pair_node 1], commit := (duo_cosi (pair_node 0) 9)\<lparr>V_random := Some 9, V_challenge := Some 2\<rparr>\<rparr>)
     = Inr (s', [SignatureDone sg]) \<and> Verify byte_suite (Some sg) [3, 4] = Inl (GoError ''Invalid signature'')"
proof -
  let ?s = "(duo_start (pair_node 0))\<lparr>signRefusal := True, dynamicChildren := [pair_node 1],
    commit := (duo_cosi (pair_node 0) 9)\<lparr>V_random := Some 9, V_challenge := Some 2\<rparr>\<rparr>"
  have root: "IsRoot (duo_env (pair_node 0))" by (simp add: IsRoot_def duo_env_def)
  then have "\<exists>s' as. finishResponseCommit (duo_env (pair_node 0)) ?s = Inr (s', as)"
    by (simp add: finishResponseCommit_def commit_response_def isLocalityTreeLeaf_def duo_env_def view_cosi_def IsRoot_def)
  then obtain s' as where f: "finishResponseCommit (duo_env (pair_node 0)) ?s = Inr (s', as)" by blast
  from refused_signature_rejected[OF _ root f, of byte_suite "[3, 4]"] f show ?thesis by auto
qed

subsection \<open>Rejecting the message\<close>

text \<open>C38: A node that rejects the message does not send a response with an exception, as the protocol
  describes: once its CoSi response is computed, \<open>handleResponsePrepare\<close> panics, on a leaf
  and on an inner node.\<close>

theorem rejection_panics:
  assumes "\<not> VerificationFunction E (Msg s) (Data s)" "isLocalityTreeLeaf s \<Longrightarrow> tempPrepareResponse s = []"
    and "CoSi_Response (E_CoSi E) (prepare s) (tempPrepareResponse s) = Inr (c, r)"
  shows "finishResponsePrepare E s = Inl (GoPanic ''Exceptions 2'')"
  using assms by (auto simp: finishResponsePrepare_def waitResponseVerification_def Let_def)

theorem rejection_panics_witness:
  "finishResponsePrepare ((duo_env (pair_node 1))\<lparr>VerificationFunction := \<lambda>m d. m \<noteq> [1, 2]\<rparr>)
     ((duo_start (pair_node 1))\<lparr>prepare := (duo_cosi (pair_node 1) 9)\<lparr>V_random := Some 9, V_challenge := Some 2\<rparr>\<rparr>)
   = Inl (GoPanic ''Exceptions 2'')"
  by (rule rejection_panics[where c = "(duo_cosi (pair_node 1) 9)\<lparr>V_challenge := Some 2, V_response := Some 17\<rparr>" and r = 17])
    (simp_all add: duo_start_def NewBFTCoSiProtocol_def duo_env_def view_cosi_def duo_cosi_def)

subsection \<open>No signature without the consent of every node\<close>

text \<open>Only \<open>waitResponseVerification\<close> asks the verification function; the other handlers do not
  depend on it.\<close>

definition permissive :: "('c, 'p, 's) Env \<Rightarrow> ('c, 'p, 's) Env" where
  "permissive E = E\<lparr>VerificationFunction := \<lambda>m d. True\<rparr>"

lemma permissive_simps [simp]:
  "Own (permissive E) = Own E" "Root (permissive E) = Root E" "Svc (permissive E) = Svc E"
  "Publics (permissive E) = Publics E" "E_Suite (permissive E) = E_Suite E" "E_CoSi (permissive E) = E_CoSi E"
  "HashMsg (permissive E) = HashMsg E" "VerificationFunction (permissive E) = (\<lambda>m d. True)" "IsRoot (permissive E) = IsRoot E"
  by (simp_all add: permissive_def IsRoot_def)

lemma permissive_sends [simp]:
  "DelayedSend (permissive E) = DelayedSend E" "send_all (permissive E) = send_all E"
  "DelayedSendToChildren (permissive E) = DelayedSendToChildren E" "graph_node (permissive E) = graph_node E"
  "DelayedSendToNeighborsExcParent (permissive E) = DelayedSendToNeighborsExcParent E"
  "DelayedSendToParent (permissive E) = DelayedSendToParent E"
  by (auto simp: fun_eq_iff DelayedSend_def send_all_def DelayedSendToChildren_def graph_node_def
      DelayedSendToNeighborsExcParent_def DelayedSendToParent_def split: option.splits)

lemma permissive_handlers [simp]:
  "readAnnouncement (permissive E) = readAnnouncement E" "commit_message (permissive E) = commit_message E"
  "startChallenge (permissive E) = startChallenge E" "finishCommitmentPrepare (permissive E) = finishCommitmentPrepare E"
  "readAnnouncementCommit (permissive E) = readAnnouncementCommit E"
  "finishCommitmentCommit (permissive E) = finishCommitmentCommit E"
  "finishResponseCommit (permissive E) = finishResponseCommit E"
  "check_commit_challenge (permissive E) = check_commit_challenge E"
  unfolding fun_eq_iff readAnnouncement_def isLoopAndSet_def isLeafInRound_def reply_loop_break_def
      commit_message_def updateCommitPrepAndCompare_def startChallenge_def finishCommitmentPrepare_def
      readAnnouncementCommit_def startCommitment_def finishCommitmentCommit_def finishResponseCommit_def
      commit_response_def Signature_def check_commit_challenge_def permissive_simps permissive_sends
  by simp_all

lemma permissive_commit [simp]: "handleResponseCommit (permissive E) = handleResponseCommit E"
  unfolding fun_eq_iff handleResponseCommit_def permissive_handlers by simp

lemma permissive_challenge [simp]: "handleChallengeCommit (permissive E) = handleChallengeCommit E"
  unfolding fun_eq_iff handleChallengeCommit_def permissive_simps permissive_sends permissive_handlers permissive_commit
  by simp

lemma prepare_step_permissive:
  fixes E :: "TreeNode \<Rightarrow> ('c, 'p :: ab_group_add, 's :: comm_ring) Env"
  shows "prepare_step (\<lambda>v. permissive (E v)) = prepare_step E"
proof -
  have "prepare_step (\<lambda>v. permissive (E v)) \<sigma> \<sigma>' \<longleftrightarrow> prepare_step E \<sigma> \<sigma>'" for \<sigma> \<sigma>'
    by (subst (1 2) prepare_step.simps) simp
  then show ?thesis by (intro ext)
qed

text \<open>A node that has finished the responses of the prepare round has accepted the message.\<close>

lemma finishResponsePrepare_accepts:
  fixes E :: "('c, 'p :: ab_group_add, 's :: comm_ring) Env"
  assumes "finishResponsePrepare E s = Inr r" "CoSi_Response (E_CoSi E) (prepare s) (tempPrepareResponse s) = Inr x"
  shows "VerificationFunction E (Msg s) (Data s)" "finishResponsePrepare (permissive E) s = Inr r"
proof -
  obtain y where y: "waitResponseVerification E s = Inr y" using assms(1) by (auto simp: finishResponsePrepare_def res_bind_Inr_iff)
  with assms(2) have w: "VerificationFunction E (Msg s) (Data s)" "waitResponseVerification (permissive E) s = Inr y"
    by (cases x; auto simp: waitResponseVerification_def Let_def split: if_splits)+
  then show "VerificationFunction E (Msg s) (Data s)" by blast
  have "finishResponsePrepare (permissive E) s = finishResponsePrepare E s"
    unfolding finishResponsePrepare_def permissive_simps permissive_handlers y w(2) by simp
  then show "finishResponsePrepare (permissive E) s = Inr r" using assms(1) by simp
qed

lemma flooded_permissive:
  fixes E :: "TreeNode \<Rightarrow> ('c, 'p :: ab_group_add, 's :: comm_ring) Env"
  shows "flooded (\<lambda>v. permissive (E v)) G st0 \<sigma> \<longleftrightarrow> flooded E G st0 \<sigma>"
proof -
  have "prepare_init (\<lambda>v. permissive (E v)) (Rg_root G) st0 = prepare_init E (Rg_root G) st0"
    by (simp add: fun_eq_iff prepare_init_def new_instance_def NewBFTCoSiProtocol_def)
  then show ?thesis by (simp add: flooded_def prepare_step_permissive ring_ok_def lookups_ok_def)
qed

text \<open>In a run, the CoSi response of a node can be computed when the prepare round ends for it.\<close>

lemma response_computed:
  assumes R: "run_ok E R" and I: "sign_inv R \<tau>" and v: "v \<in> run_nodes R" and s: "challenged R s"
    and p: "Ru_view R (prepare s) = (Ru_view R (prepare (S_state \<tau> v)))\<lparr>V_challenge := Some (chal1 R)\<rparr>"
    and g: "rank (S_stage \<tau> v) \<le> 2"
  shows "\<exists>x. CoSi_Response (E_CoSi (E v)) (prepare s) rs = Inr x"
proof -
  have "V_random (Ru_view R (prepare s)) = Some (Ru_r1 R v)" "V_challenge (Ru_view R (prepare s)) = Some (chal1 R)"
    using cosi_okD(3)[OF node_invD(2)[OF sign_invD(1)[OF I v]] g] p by simp_all
  from cosi_lawsD(6)[OF run_okD(9)[OF R v] this] show ?thesis by blast
qed

lemma handleChallengePrepare_permissive:
  assumes "handleChallengePrepare E ch s = Inr (Some (s', as))" "isLocalityTreeLeaf s" "\<not> IsRoot E" "\<not> closing s"
    and "responseChanClosed s"
    and "CoSi_Response (E_CoSi E) (Challenge (E_CoSi E) (prepare s) (CP_Challenge ch)) (tempPrepareResponse s) = Inr x"
  shows "VerificationFunction E (CP_Msg ch) (CP_Data ch)" "handleChallengePrepare (permissive E) ch s = Inr (Some (s', as))"
proof -
  let ?s = "s\<lparr>Msg := CP_Msg ch, Data := CP_Data ch, prepare := Challenge (E_CoSi E) (prepare s) (CP_Challenge ch)\<rparr>"
  have l: "isLocalityTreeLeaf ?s" using assms(2) by (simp add: isLocalityTreeLeaf_def)
  have f: "finishResponsePrepare E ?s = Inr (s', as)"
    using assms(1,3,4,5) l by (auto simp: handleChallengePrepare_def startResponse_def handleResponsePrepare_def Let_def
        res_bind_Inr_iff)
  then show "VerificationFunction E (CP_Msg ch) (CP_Data ch)"
    using finishResponsePrepare_accepts(1)[OF f] assms(6) by simp
  have "finishResponsePrepare (permissive E) ?s = Inr (s', as)"
    using finishResponsePrepare_accepts(2)[OF f] assms(6) by simp
  then show "handleChallengePrepare (permissive E) ch s = Inr (Some (s', as))"
    using assms(3,4,5) l by (simp add: handleChallengePrepare_def startResponse_def handleResponsePrepare_def Let_def)
qed

definition consent :: "(TreeNode \<Rightarrow> ('c, 'p, 's) Env) \<Rightarrow> ('c, 'p, 's) run \<Rightarrow> ('c, 'p, 's) snet \<Rightarrow> bool" where
  "consent E R \<tau> \<longleftrightarrow> (\<forall>v \<in> run_nodes R. 3 \<le> rank (S_stage \<tau> v) \<longrightarrow> VerificationFunction (E v) (Ru_msg R) (Ru_data R))"

lemma consent_move:
  assumes "consent E R \<tau>" "3 \<le> rank g \<Longrightarrow> 3 \<le> rank (S_stage \<tau> v) \<or> VerificationFunction (E v) (Ru_msg R) (Ru_data R)"
  shows "consent E R (move v g s' as M \<tau>)"
  using assms by (auto simp: consent_def move_def)

lemma prepare_done_consent:
  assumes R: "run_ok (\<lambda>v. permissive (E v)) R" and I: "sign_inv R \<tau>" and g: "S_stage \<tau> v = ReadPrepareResponses"
    and h: "finishResponsePrepare (E v) (S_state \<tau> v) = Inr r"
  shows "VerificationFunction (E v) (Ru_msg R) (Ru_data R)" "finishResponsePrepare (permissive (E v)) (S_state \<tau> v) = Inr r"
proof -
  have v: "v \<in> run_nodes R" using sign_invD(2)[OF I] g by fastforce
  have ch: "challenged R (S_state \<tau> v)" by (rule cosi_okD(6)[OF node_invD(2)[OF sign_invD(1)[OF I v]] g])
  obtain x where x: "CoSi_Response (E_CoSi (E v)) (prepare (S_state \<tau> v)) (tempPrepareResponse (S_state \<tau> v)) = Inr x"
    using response_computed[OF R I v ch, of "tempPrepareResponse (S_state \<tau> v)"] ch g by (auto simp: challenged_def)
  from finishResponsePrepare_accepts[OF h x] ch
  show "VerificationFunction (E v) (Ru_msg R) (Ru_data R)" "finishResponsePrepare (permissive (E v)) (S_state \<tau> v) = Inr r"
    by (simp_all add: challenged_def)
qed

lemma challenge_prepare_consent:
  assumes R: "run_ok (\<lambda>v. permissive (E v)) R" and I: "sign_inv R \<tau>"
    and m: "S_msgs \<tau> = add_mset (sender, v, MChallengePrepare ch) M" and g: "S_stage \<tau> v = WaitChallengePrepare"
    and h: "handleChallengePrepare (E v) ch (close_leaf (S_state \<tau> v)) = Inr (Some (s', as))"
  shows "isLocalityTreeLeaf (S_state \<tau> v) \<Longrightarrow> VerificationFunction (E v) (Ru_msg R) (Ru_data R)"
    "handleChallengePrepare (permissive (E v)) ch (close_leaf (S_state \<tau> v)) = Inr (Some (s', as))"
proof -
  let ?s = "S_state \<tau> v"
  have v: "v \<in> run_nodes R" and ch: "ch = challenge1 R" using sign_invD(3)[OF I, of "(sender, v, MChallengePrepare ch)"] m by auto
  note N = sign_invD(1)[OF I v]
  note st = node_invD(1)[OF N]
  have both: "VerificationFunction (E v) (Ru_msg R) (Ru_data R)
      \<and> handleChallengePrepare (permissive (E v)) ch (close_leaf ?s) = Inr (Some (s', as))" if l: "isLocalityTreeLeaf ?s"
  proof -
    let ?t = "?s\<lparr>Msg := Ru_msg R, Data := Ru_data R, prepare := Challenge (E_CoSi (E v)) (prepare ?s) (chal1 R)\<rparr>"
    have "v \<noteq> run_root R" using run_okD(2)[OF R] l static_okD(10)[OF st] by auto
    then have root: "\<not> IsRoot (E v)" using run_okD(7)[OF R v] by simp
    have vw: "Ru_view R (prepare ?t) = (Ru_view R (prepare ?s))\<lparr>V_challenge := Some (chal1 R)\<rparr>"
      using cosi_lawsD(4)[OF run_okD(9)[OF R v]] by simp
    then have "challenged R ?t" by (simp add: challenged_def)
    from response_computed[OF R I v this vw, of "tempPrepareResponse ?s"] obtain x where
      "CoSi_Response (E_CoSi (E v)) (Challenge (E_CoSi (E v)) (prepare ?s) (chal1 R)) (tempPrepareResponse ?s) = Inr x"
      using g by auto
    with handleChallengePrepare_permissive[OF h _ root] l static_okD(1)[OF st] ch show ?thesis
      by (simp add: close_leaf_def isLocalityTreeLeaf_def challenge1_def)
  qed
  then show "isLocalityTreeLeaf ?s \<Longrightarrow> VerificationFunction (E v) (Ru_msg R) (Ru_data R)" by blast
  show "handleChallengePrepare (permissive (E v)) ch (close_leaf ?s) = Inr (Some (s', as))"
  proof (cases "isLocalityTreeLeaf ?s")
    case False
    then show ?thesis
      using h by (auto simp: handleChallengePrepare_def close_leaf_def isLocalityTreeLeaf_def Let_def split: if_splits)
  qed (use both in blast)
qed

lemma sign_step_consent:
  assumes "sign_step E \<tau> \<tau>'" and R: "run_ok (\<lambda>v. permissive (E v)) R" and I: "sign_inv R \<tau>" and C: "consent E R \<tau>"
  shows "sign_step (\<lambda>v. permissive (E v)) \<tau> \<tau>' \<and> consent E R \<tau>'"
  using assms(1)
proof cases
  case (announce_commit sender v a M s' as)
  then show ?thesis using C sign_step.announce_commit[of \<tau> sender v a M "\<lambda>v. permissive (E v)"] by (simp add: consent_def)
next
  case (commitment_read u v c M ready s')
  then show ?thesis using C sign_step.commitment_read[of \<tau> u v c M "\<lambda>v. permissive (E v)"] by (simp add: consent_def)
next
  case (commitment_done v s' as)
  then show ?thesis
    using consent_move[OF C, of WaitChallengePrepare] sign_step.commitment_done[of \<tau> v "\<lambda>v. permissive (E v)"] by simp
next
  case (challenge_prepare sender v ch M s' as)
  note h = challenge_prepare_consent[OF R I challenge_prepare(2-4)]
  show ?thesis
    using consent_move[OF C, of ReadPrepareResponses] consent_move[OF C, of WaitChallengeCommit] h
      sign_step.challenge_prepare[of \<tau> sender v ch M "\<lambda>v. permissive (E v)"] challenge_prepare(1-3)
    by simp
next
  case (prepare_response u v r M ready s')
  then show ?thesis using C sign_step.prepare_response[of \<tau> u v r M ready s' "\<lambda>v. permissive (E v)"] by (simp add: consent_def)
next
  case (prepare_done v s' as)
  note h = prepare_done_consent[OF R I prepare_done(2,4)]
  show ?thesis
    using consent_move[OF C] h sign_step.prepare_done[of \<tau> v "\<lambda>v. permissive (E v)"] prepare_done(1-3) by simp
next
  case (challenge_commit sender v cc M s' as)
  then show ?thesis using consent_move[OF C] sign_step.challenge_commit[of \<tau> sender v cc M "\<lambda>v. permissive (E v)"] by simp
next
  case (commit_response u v r M ready s')
  then show ?thesis using C sign_step.commit_response[of \<tau> u v r M ready s' "\<lambda>v. permissive (E v)"] by (simp add: consent_def)
next
  case (commit_done v s' as)
  then show ?thesis using consent_move[OF C] sign_step.commit_done[of \<tau> v "\<lambda>v. permissive (E v)"] by simp
qed

text \<open>C2: If the root hands out a signature, every node of the ring has accepted the message: one
  node whose verification function rejects it is enough to prevent the signature. The roster is
  as in a run where every node accepts; nothing is assumed of the verification functions.\<close>

theorem signature_needs_consent:
  fixes E :: "TreeNode \<Rightarrow> ('c, 'p :: ab_group_add, 's :: comm_ring) Env"
  assumes "flooded E G st0 \<sigma>" "roster_ok (\<lambda>v. permissive (E v)) G st0 S pubs vw"
    and "reach (sign_init \<sigma>) (sign_step E) \<tau>" "S_sigs \<tau> \<noteq> []" "v \<in> Rg_nodes G"
  shows "VerificationFunction (E v) (Msg (st0 (Rg_root G))) (Data (st0 (Rg_root G)))"
proof -
  let ?R = "end_run G st0 S pubs vw \<sigma>" and ?E = "\<lambda>v. permissive (E v)"
  have F: "flooded ?E G st0 \<sigma>" using assms(1) by (simp add: flooded_permissive)
  note R = end_run_ok[OF F assms(2)]
  have I: "sign_inv ?R \<tau> \<and> consent E ?R \<tau>" using assms(3)
  proof (induction rule: reach.induct)
    case (reach_init s)
    then show ?case using flooded_inv[OF F assms(2) reach_init] by (simp add: consent_def sign_init_def)
  next
    case (reach_step s t)
    then show ?case using sign_step_consent[OF _ R] sign_step_inv[OF _ R] by blast
  qed
  then have "S_stage \<tau> (Rg_root G) = Finished" using sign_invD(7)[of ?R \<tau>] assms(4) by fastforce
  moreover have "Rg_root G \<in> Rg_nodes G" using tree_okD(2)[OF run_okD(1)[OF R]] by simp
  ultimately have "cv_done (view2 ?R \<tau>) = Rg_nodes G"
    using view_root_done(1)[OF run_okD(1)[OF R] sign_invD(5)] I by (simp add: view2_def)
  then have "3 \<le> rank (S_stage \<tau> v)" using assms(5) by (auto simp: view2_def)
  then show ?thesis using I assms(5) by (simp add: consent_def)
qed

lemma permissive_duo [simp]: "permissive (duo_env v) = duo_env v"
  by (simp add: permissive_def duo_env_def)

theorem signature_needs_consent_witness:
  "\<exists>\<sigma> \<tau>. reach (sign_init \<sigma>) (sign_step duo_env) \<tau> \<and> S_sigs \<tau> \<noteq> []
    \<and> VerificationFunction (duo_env (pair_node 1)) [1, 2] (Data (duo_start (pair_node 0)))"
proof -
  let ?start = "signing_start duo_env pair_ring duo_start byte_suite [3, 4] (\<lambda>c. c)"
  obtain \<sigma> \<tau> where t: "reach (?start \<sigma>) (sign_step duo_env) \<tau>" "S_stage \<tau> (Rg_root pair_ring) = Finished"
    using duo_finished by blast
  have r: "reach (sign_init \<sigma>) (sign_step duo_env) \<tau> \<and> flooded duo_env pair_ring duo_start \<sigma>"
    using t(1) by induction (auto simp: signing_start_def intro: reach.intros)
  have "S_sigs \<tau> \<noteq> []" using signing.reachable_inv[OF t(1)] t(2) sign_invD(8) by fastforce
  moreover have "Msg (duo_start v) = [1, 2]" for v by (simp add: duo_start_def)
  ultimately show ?thesis
    using signature_needs_consent[of duo_env pair_ring duo_start \<sigma> byte_suite "[3, 4]" "\<lambda>c. c" \<tau> "pair_node 1"] r duo_roster
    by (auto simp: pair_ring_def)
qed

end
