(* ===== verification/Node_Files.thy ===== *)
theory Node_Files
  imports Ring_Tree
begin

text \<open>
  How a simulation gets its nodes (simulation/service.go): the line reader over the node file, the
  parser of its lines, the nodes it creates, and the maps between nodes and server identities
  that it fills from the tree of the deployment. The standard library is modelled as far as the
  reader uses it: \<open>bufio.Reader.ReadString\<close>, \<open>strings.Split\<close>, \<open>strconv.Atoi\<close>, and
  \<open>strconv.ParseFloat\<close> on decimal numerals.
\<close>

subsection \<open>Numbers\<close>

text \<open>The value \<open>strconv.Atoi\<close> returns beside its error: zero for what is not a numeral, the nearest
  64-bit number for a numeral out of range.\<close>

definition atoi_value :: "string \<Rightarrow> int" where
  "atoi_value s =
     (let neg = (s \<noteq> [] \<and> hd s = CHR ''-'');
          ds = (if s \<noteq> [] \<and> (hd s = CHR ''-'' \<or> hd s = CHR ''+'') then tl s else s)
      in case atoi s of
           Some v \<Rightarrow> v
         | None \<Rightarrow> if ds = [] \<or> \<not> list_all is_digit ds then 0 else if neg then - (2 ^ 63) else 2 ^ 63 - 1)"

text \<open>The value \<open>strconv.ParseFloat\<close> returns beside its error, for decimal numerals with an optional
  sign, fraction and exponent, without rounding; zero for everything else.\<close>

definition exponent_value :: "string \<Rightarrow> int option" where
  "exponent_value s =
     (case s of
        [] \<Rightarrow> Some 0
      | c # t \<Rightarrow>
          let ds = (if t \<noteq> [] \<and> (hd t = CHR ''-'' \<or> hd t = CHR ''+'') then tl t else t)
          in if (c = CHR ''e'' \<or> c = CHR ''E'') \<and> ds \<noteq> [] \<and> list_all is_digit ds
             then Some (if hd t = CHR ''-'' then - digits_value ds else digits_value ds) else None)"

definition ParseFloat :: "string \<Rightarrow> real" where
  "ParseFloat s =
     (let neg = (s \<noteq> [] \<and> hd s = CHR ''-'');
          s1 = (if s \<noteq> [] \<and> (hd s = CHR ''-'' \<or> hd s = CHR ''+'') then tl s else s);
          ip = takeWhile is_digit s1;
          s2 = dropWhile is_digit s1;
          dot = (s2 \<noteq> [] \<and> hd s2 = CHR ''.'');
          fp = (if dot then takeWhile is_digit (tl s2) else []);
          s3 = (if dot then dropWhile is_digit (tl s2) else s2);
          v = real_of_int (digits_value ip) + real_of_int (digits_value fp) / 10 ^ length fp
      in if ip = [] \<and> fp = [] then 0
         else case exponent_value s3 of None \<Rightarrow> 0 | Some e \<Rightarrow> (if neg then - v else v) * 10 powi e)"

subsection \<open>Lines\<close>

text \<open>\<open>ReadString\<close>: the data up to and including the delimiter, the rest, and whether the end of the
  file was met first.\<close>

definition ReadString :: "char \<Rightarrow> string \<Rightarrow> string \<times> string \<times> bool" where
  "ReadString d s =
     (case dropWhile (\<lambda>c. c \<noteq> d) s of
        [] \<Rightarrow> (s, [], True)
      | c # rest \<Rightarrow> (takeWhile (\<lambda>c. c \<noteq> d) s @ [c], rest, False))"

text \<open>The variables of the closure that \<open>ReadFileLineByLine\<close> returns: what is left of the file, and
  whether \<open>err\<close> is \<open>io.EOF\<close>.\<close>

record line_reader =
  Lr_rest :: string
  Lr_eof :: bool

abbreviation newline :: char where
  "newline \<equiv> CHR 0x0A"

definition readLine :: "line_reader \<Rightarrow> string \<times> line_reader" where
  "readLine r =
     (if Lr_eof r then ([], r)
      else case ReadString newline (Lr_rest r) of
        (line, rest, eof) \<Rightarrow> (hd (split_on newline line), \<lparr>Lr_rest = rest, Lr_eof = eof\<rparr>))"

text \<open>Opening a file that does not exist panics.\<close>

definition ReadFileLineByLine :: "(string \<Rightarrow> string option) \<Rightarrow> string \<Rightarrow> line_reader result" where
  "ReadFileLineByLine files configFilePath =
     (case files configFilePath of
        None \<Rightarrow> Inl (GoPanic ''open'')
      | Some s \<Rightarrow> Inr \<lparr>Lr_rest = s, Lr_eof = False\<rparr>)"

subsection \<open>Nodes\<close>

definition CreateNode :: "string \<Rightarrow> real \<Rightarrow> real \<Rightarrow> string \<Rightarrow> int \<Rightarrow> LocalityNode" where
  "CreateNode name x y ip level =
     \<lparr>Name = name, IP = ip, X = x, Y = y, Level = level, ADist = [], PDist = [], Cluster = [], Bunch = [],
      OptimalCluster = [], OptimalBunch = [], Rings = [], NrOwnRings = 0, NodeIdentity = None\<rparr>"

definition parse_line :: "string \<Rightarrow> LocalityNode result" where
  "parse_line line =
     (let tokens = split_on CHR '' '' line in
      res_bind (slice_get tokens 1) (\<lambda>t1.
      let coords = split_on CHR '','' t1 in
      res_bind (slice_get tokens 0) (\<lambda>name.
      res_bind (slice_get coords 0) (\<lambda>x_str.
      res_bind (slice_get coords 1) (\<lambda>y_str.
      res_bind (slice_get tokens 2) (\<lambda>ip.
      res_bind (slice_get tokens 3) (\<lambda>level_str.
        Inr (CreateNode name (ParseFloat x_str) (ParseFloat y_str) ip (atoi_value level_str)))))))))"

lemma ReadString_shorter:
  "ReadString d s = (line, rest, False) \<Longrightarrow> length rest < length s"
  using length_dropWhile_le[of "\<lambda>c. c \<noteq> d" s] by (auto simp: ReadString_def split: list.splits)

function read_nodes :: "line_reader \<Rightarrow> LocalityNode list \<Rightarrow> LocalityNode list result" where
  "read_nodes r ns =
     (case readLine r of (line, r') \<Rightarrow>
        if line = [] then Inr ns
        else if hd line = CHR ''#'' then read_nodes r' ns
        else res_bind (parse_line line) (\<lambda>n. read_nodes r' (ns @ [n])))"
  by pat_completeness auto

termination
proof (relation "measure (\<lambda>(r, ns). if Lr_eof r then 0 else Suc (length (Lr_rest r)))")
qed (auto simp: readLine_def split: if_splits prod.splits dest: ReadString_shorter)

declare read_nodes.simps [simp del]

definition ReadNodesFromFile :: "(string \<Rightarrow> string option) \<Rightarrow> string \<Rightarrow> LocalityNode list result" where
  "ReadNodesFromFile files filename = res_bind (ReadFileLineByLine files filename) (\<lambda>r. read_nodes r [])"

definition ReadNodeInfo :: "(string \<Rightarrow> string option) \<Rightarrow> bool \<Rightarrow> LocalityNode list result" where
  "ReadNodeInfo files isLocalTest =
     ReadNodesFromFile files (if isLocalTest then ''../nodes_local_20.txt'' else ''nodes_local_20.txt'')"

subsection \<open>The format of a node file\<close>

text \<open>What the node files of the repository contain: comments, and entries of a name, two decimal
  coordinates, an address and a level.\<close>

record file_entry =
  Fe_name :: string
  Fe_x :: "nat \<times> string"
  Fe_y :: "nat \<times> string"
  Fe_ip :: string
  Fe_level :: nat

datatype file_line = Comment string | Entry file_entry

definition print_coord :: "nat \<times> string \<Rightarrow> string" where
  "print_coord c = itoa_nat (fst c) @ (if snd c = [] then [] else CHR ''.'' # snd c)"

definition coord_value :: "nat \<times> string \<Rightarrow> real" where
  "coord_value c = real (fst c) + real_of_int (digits_value (snd c)) / 10 ^ length (snd c)"

definition print_entry :: "file_entry \<Rightarrow> string" where
  "print_entry e = Fe_name e @ CHR '' '' # (print_coord (Fe_x e) @ CHR '','' # print_coord (Fe_y e)) @ CHR '' '' # Fe_ip e
     @ CHR '' '' # itoa_nat (Fe_level e)"

fun print_file_line :: "file_line \<Rightarrow> string" where
  "print_file_line (Comment s) = CHR ''#'' # s"
| "print_file_line (Entry e) = print_entry e"

fun file_line_ok :: "file_line \<Rightarrow> bool" where
  "file_line_ok (Comment s) \<longleftrightarrow> newline \<notin> set s"
| "file_line_ok (Entry e) \<longleftrightarrow> Fe_name e \<noteq> [] \<and> hd (Fe_name e) \<noteq> CHR ''#'' \<and> CHR '' '' \<notin> set (Fe_name e) \<and> newline \<notin> set (Fe_name e)
     \<and> CHR '' '' \<notin> set (Fe_ip e) \<and> newline \<notin> set (Fe_ip e) \<and> list_all is_digit (snd (Fe_x e)) \<and> list_all is_digit (snd (Fe_y e))
     \<and> Fe_level e < 2 ^ 63"

fun join_lines :: "string list \<Rightarrow> string" where
  "join_lines [] = []"
| "join_lines [l] = l"
| "join_lines (l # ls) = l @ newline # join_lines ls"

text \<open>The nodes a file describes, in order.\<close>

definition entry_node :: "file_entry \<Rightarrow> LocalityNode" where
  "entry_node e = CreateNode (Fe_name e) (coord_value (Fe_x e)) (coord_value (Fe_y e)) (Fe_ip e) (int (Fe_level e))"

fun file_nodes :: "file_line list \<Rightarrow> LocalityNode list" where
  "file_nodes [] = []"
| "file_nodes (Comment s # ls) = file_nodes ls"
| "file_nodes (Entry e # ls) = entry_node e # file_nodes ls"

lemma digit_plain:
  "is_digit c \<Longrightarrow> c \<noteq> CHR '' '' \<and> c \<noteq> CHR '','' \<and> c \<noteq> CHR ''.'' \<and> c \<noteq> newline \<and> c \<noteq> CHR ''#''"
  by (auto simp: is_digit_def)

lemma digits_plain:
  assumes "list_all is_digit s"
  shows "CHR '' '' \<notin> set s" "CHR '','' \<notin> set s" "newline \<notin> set s"
  using assms digit_plain by (auto simp: list_all_iff)

lemma ParseFloat_print:
  assumes "list_all is_digit (snd c)"
  shows "ParseFloat (print_coord c) = coord_value c"
proof -
  have all: "\<forall>x \<in> set (itoa_nat (fst c)). is_digit x" "\<forall>x \<in> set (snd c). is_digit x" "\<not> is_digit CHR ''.''"
    using itoa_nat_digits[of "fst c"] assms by (auto simp: list_all_iff is_digit_def)
  have w: "takeWhile is_digit (itoa_nat (fst c) @ CHR ''.'' # snd c) = itoa_nat (fst c)"
    "dropWhile is_digit (itoa_nat (fst c) @ CHR ''.'' # snd c) = CHR ''.'' # snd c"
    "takeWhile is_digit (itoa_nat (fst c)) = itoa_nat (fst c)" "dropWhile is_digit (itoa_nat (fst c)) = []"
    "takeWhile is_digit (snd c) = snd c" "dropWhile is_digit (snd c) = []"
    using all by (simp_all add: takeWhile_append dropWhile_append takeWhile_eq_all_conv)
  have "digits_value [] = 0" by (simp add: digits_value_def)
  then show ?thesis
    using itoa_nat_hd[of "fst c"]
    by (cases "snd c = []") (simp_all add: ParseFloat_def print_coord_def coord_value_def digits_value_itoa exponent_value_def Let_def w)
qed

lemma print_coord_plain:
  assumes "list_all is_digit (snd c)"
  shows "CHR '' '' \<notin> set (print_coord c)" "CHR '','' \<notin> set (print_coord c)" "newline \<notin> set (print_coord c)"
  using digits_plain[OF itoa_nat_digits[of "fst c"]] digits_plain[OF assms] by (auto simp: print_coord_def)

lemma atoi_value_itoa: "n < 2 ^ 63 \<Longrightarrow> atoi_value (itoa_nat n) = int n"
  using atoi_itoa[of "int n"] by (simp add: atoi_value_def itoa_def Let_def)

lemma split_on_4:
  assumes "s \<notin> set a" "s \<notin> set b" "s \<notin> set c" "s \<notin> set d"
  shows "split_on s (a @ s # b @ s # c @ s # d) = [a, b, c, d]"
  using assms by (simp add: split_on_append_sep split_on_no_sep)

lemma parse_print:
  assumes "file_line_ok (Entry e)"
  shows "parse_line (print_entry e) = Inr (entry_node e)"
proof -
  note p = print_coord_plain ParseFloat_print digits_plain[OF itoa_nat_digits[of "Fe_level e"]]
  let ?c = "print_coord (Fe_x e) @ CHR '','' # print_coord (Fe_y e)"
  have "CHR '' '' \<notin> set ?c" using assms p(1) by simp
  then have "split_on CHR '' '' (print_entry e) = [Fe_name e, ?c, Fe_ip e, itoa_nat (Fe_level e)]"
    unfolding print_entry_def using assms p(5) by (intro split_on_4) auto
  moreover have "split_on CHR '','' ?c = [print_coord (Fe_x e), print_coord (Fe_y e)]"
    using assms p(2) by (simp add: split_on_append_sep split_on_no_sep)
  ultimately show ?thesis
    using assms p(4) by (simp add: parse_line_def slice_get_def entry_node_def atoi_value_itoa)
qed

lemma print_line_plain:
  assumes "file_line_ok l"
  shows "newline \<notin> set (print_file_line l)" "print_file_line l \<noteq> []"
    "hd (print_file_line l) = CHR ''#'' \<longleftrightarrow> (\<exists>s. l = Comment s)"
proof -
  have "newline \<notin> set (print_file_line l) \<and> print_file_line l \<noteq> [] \<and> (hd (print_file_line l) = CHR ''#'' \<longleftrightarrow> (\<exists>s. l = Comment s))"
    using assms print_coord_plain(3) digits_plain(3)[OF itoa_nat_digits]
    by (cases l) (auto simp: print_entry_def)
  then show "newline \<notin> set (print_file_line l)" "print_file_line l \<noteq> []"
    "hd (print_file_line l) = CHR ''#'' \<longleftrightarrow> (\<exists>s. l = Comment s)" by blast+
qed

lemma readLine_line:
  assumes "newline \<notin> set l"
  shows "readLine \<lparr>Lr_rest = l @ newline # t, Lr_eof = False\<rparr> = (l, \<lparr>Lr_rest = t, Lr_eof = False\<rparr>)"
    "readLine \<lparr>Lr_rest = l, Lr_eof = False\<rparr> = (l, \<lparr>Lr_rest = [], Lr_eof = True\<rparr>)"
proof -
  have "\<forall>c \<in> set l. c \<noteq> newline" using assms by metis
  then have "ReadString newline (l @ newline # t) = (l @ [newline], t, False)" "ReadString newline l = (l, [], True)"
    by (simp_all add: ReadString_def takeWhile_append dropWhile_append dropWhile_eq_Nil_conv[THEN iffD2])
  then show "readLine \<lparr>Lr_rest = l @ newline # t, Lr_eof = False\<rparr> = (l, \<lparr>Lr_rest = t, Lr_eof = False\<rparr>)"
    "readLine \<lparr>Lr_rest = l, Lr_eof = False\<rparr> = (l, \<lparr>Lr_rest = [], Lr_eof = True\<rparr>)"
    using split_on_append_sep[OF assms, of "[]"] split_on_no_sep[OF assms] by (simp_all add: readLine_def)
qed

lemma read_end:
  "read_nodes \<lparr>Lr_rest = [], Lr_eof = True\<rparr> ns = Inr ns" "read_nodes \<lparr>Lr_rest = [], Lr_eof = False\<rparr> ns = Inr ns"
  "read_nodes \<lparr>Lr_rest = newline # t, Lr_eof = False\<rparr> ns = Inr ns"
  using readLine_line[of "[]"] by (simp_all add: read_nodes.simps[of _ ns] readLine_def[of "\<lparr>Lr_rest = [], Lr_eof = True\<rparr>"])

text \<open>One line of a file, whatever the reader is left with.\<close>

lemma read_step:
  assumes "file_line_ok l" "readLine r = (print_file_line l, r')"
  shows "read_nodes r ns = read_nodes r' (ns @ file_nodes [l])"
  using print_line_plain[OF assms(1)] assms
  by (cases l) (simp_all add: read_nodes.simps[of r] parse_print)

lemma file_nodes_Cons: "file_nodes (l # ls) = file_nodes [l] @ file_nodes ls"
  by (cases l) simp_all

lemma read_lines:
  assumes "\<forall>l \<in> set ls. file_line_ok l" "ls \<noteq> []" "t = [] \<or> t = [newline] \<or> (\<exists>u. t = newline # newline # u)"
  shows "read_nodes \<lparr>Lr_rest = join_lines (map print_file_line ls) @ t, Lr_eof = False\<rparr> ns = Inr (ns @ file_nodes ls)"
  using assms(1,2)
proof (induction ls arbitrary: ns rule: induct_list012)
  case (2 l)
  then have l: "file_line_ok l" by simp
  note r = readLine_line[OF print_line_plain(1)[OF l]]
  from assms(3) show ?case using read_step[OF l r(1)] read_step[OF l r(2)] read_end by auto
next
  case (3 k l ls)
  then have "file_line_ok k" by simp
  from read_step[OF this readLine_line(1)[OF print_line_plain(1)[OF this]]] 3(2)[of "ns @ file_nodes [k]"] 3(3) show ?case
    by (simp add: file_nodes_Cons[of k "l # ls"])
qed simp

text \<open>An entry without its last field.\<close>

definition print_short :: "file_entry \<Rightarrow> string" where
  "print_short e = Fe_name e @ CHR '' '' # (print_coord (Fe_x e) @ CHR '','' # print_coord (Fe_y e)) @ CHR '' '' # Fe_ip e"

lemma short_panics:
  assumes "file_line_ok (Entry e)"
  shows "parse_line (print_short e) = Inl IndexOutOfRange"
proof -
  let ?c = "print_coord (Fe_x e) @ CHR '','' # print_coord (Fe_y e)"
  have "CHR '' '' \<notin> set ?c" using assms print_coord_plain(1) by simp
  then have "split_on CHR '' '' (?c @ CHR '' '' # Fe_ip e) = [?c, Fe_ip e]"
    using assms split_on_append_sep[of _ ?c "Fe_ip e"] by (simp add: split_on_no_sep)
  then have "length (split_on CHR '' '' (Fe_name e @ CHR '' '' # ?c @ CHR '' '' # Fe_ip e)) = 3"
    using assms split_on_append_sep[of _ "Fe_name e" "?c @ CHR '' '' # Fe_ip e"] by simp
  then show ?thesis by (simp add: parse_line_def slice_get_def print_short_def Let_def)
qed

lemma read_prefix:
  assumes "\<And>l. l \<in> set ls \<Longrightarrow> file_line_ok l"
  shows "read_nodes \<lparr>Lr_rest = join_lines (map print_file_line ls @ [u]) @ t, Lr_eof = False\<rparr> ns
    = read_nodes \<lparr>Lr_rest = u @ t, Lr_eof = False\<rparr> (ns @ file_nodes ls)"
  using assms
proof (induction ls arbitrary: ns)
  case (Cons l ls)
  then have l: "file_line_ok l" by simp
  have "join_lines (map print_file_line (l # ls) @ [u]) = print_file_line l @ newline # join_lines (map print_file_line ls @ [u])"
    by (cases ls) simp_all
  then show ?case
    using read_step[OF l readLine_line(1)[OF print_line_plain(1)[OF l]]] Cons by (simp add: file_nodes_Cons[of l ls])
qed simp

subsection \<open>The maps between nodes and server identities\<close>

text \<open>\<open>InitializeMaps\<close>: the field of the collection, and the map for the request. \<open>config.Tree.List()\<close>
  is an argument, the identities of its nodes in order. In the local mode the nodes of the file
  take the identities by position, otherwise by the address.\<close>

type_synonym init_maps = "LocalityNodes \<times> (ServerIdentity, string) gomap"

definition associate :: "node_ptr \<Rightarrow> ServerIdentity \<Rightarrow> init_maps \<Rightarrow> init_maps" where
  "associate p sid st =
     (let ns = update_node p (\<lambda>n. n\<lparr>NodeIdentity := Some sid\<rparr>) (fst st)
      in (ns\<lparr>ServerIdentityToName := map_set (ServerIdentityToName ns) (SI_ID sid) (Name (node_at ns p))\<rparr>,
          map_set (snd st) sid (Name (node_at ns p))))"

definition associate_local :: "ServerIdentity list \<Rightarrow> nat \<Rightarrow> init_maps \<Rightarrow> init_maps result" where
  "associate_local tree i st = res_bind (slice_get tree (int i)) (\<lambda>sid. Inr (associate i sid st))"

definition associate_ip :: "ServerIdentity \<Rightarrow> init_maps \<Rightarrow> init_maps result" where
  "associate_ip sid st =
     (case GetByIP (fst st) (SI_Host sid) of
        None \<Rightarrow> Inl NilDereference
      | Some p \<Rightarrow> Inr (associate p sid st))"

definition InitializeMaps :: "ServerIdentity list \<Rightarrow> bool \<Rightarrow> LocalityNodes \<Rightarrow> init_maps result" where
  "InitializeMaps tree isLocalTest ns =
     (let st = (ns\<lparr>ServerIdentityToName := []\<rparr>, [])
      in if isLocalTest then res_fold (associate_local tree) [0..<nr_nodes ns] st
         else res_fold associate_ip tree st)"

text \<open>\<open>NyleSimulation.Node\<close> up to the request: the nodes of the file, the maps of the local mode, and
  the collection that the service keeps.\<close>

definition simulation_nodes :: "(string \<Rightarrow> string option) \<Rightarrow> ServerIdentity list \<Rightarrow> LocalityNodes \<Rightarrow> LocalityNodes result" where
  "simulation_nodes files tree ns =
     res_bind (ReadNodeInfo files False) (\<lambda>nodes.
     res_bind (InitializeMaps tree True (ns\<lparr>All_nodes := nodes\<rparr>)) (\<lambda>st.
       Setup_nodes (All_nodes (fst st)) (snd st)))"

lemma associate_simps [simp]:
  "nr_nodes (fst (associate p sid st)) = nr_nodes (fst st)"
  "q < nr_nodes (fst st) \<Longrightarrow> node_at (fst (associate p sid st)) q
     = (if q = p then (node_at (fst st) p)\<lparr>NodeIdentity := Some sid\<rparr> else node_at (fst st) q)"
  by (simp_all add: associate_def Let_def node_at_update)

text \<open>The local mode, after the first \<open>k\<close> nodes.\<close>

definition local_maps :: "ServerIdentity list \<Rightarrow> LocalityNode list \<Rightarrow> nat \<Rightarrow> init_maps \<Rightarrow> bool" where
  "local_maps tree vs k st \<longleftrightarrow>
     All_nodes (fst st) = map (\<lambda>i. if i < k then (vs ! i)\<lparr>NodeIdentity := Some (tree ! i)\<rparr> else vs ! i) [0..<length vs]
     \<and> map_of (ServerIdentityToName (fst st)) = map_of (map (\<lambda>i. (SI_ID (tree ! i), Name (vs ! i))) [0..<k])
     \<and> map_of (snd st) = map_of (map (\<lambda>i. (tree ! i, Name (vs ! i))) [0..<k]) \<and> map_ok (snd st)"

lemma local_maps_step:
  assumes "local_maps tree vs k st" "k < length vs" "k < length tree" "distinct (map SI_ID tree)"
  shows "\<exists>st'. associate_local tree k st = Inr st' \<and> local_maps tree vs (Suc k) st'"
proof -
  let ?v = "vs ! k" and ?s = "tree ! k"
  have new: "SI_ID (tree ! i) \<noteq> SI_ID ?s" "tree ! i \<noteq> ?s" if "i < k" for i
    using assms(3,4) that nth_eq_iff_index_eq[OF assms(4), of i k] by auto
  have name: "Name (node_at (fst (associate k ?s st)) k) = Name ?v" "nr_nodes (fst st) = length vs"
    using assms(1,2) by (simp_all add: local_maps_def)
  have snoc: "(map_of (map f [0..<k]))(fst (f k) \<mapsto> snd (f k)) = map_of (map f [0..<Suc k])"
    if "\<And>i. i < k \<Longrightarrow> fst (f i) \<noteq> fst (f k)" for f :: "nat \<Rightarrow> 'a \<times> string"
  proof -
    have "map_of (map f [0..<k]) (fst (f k)) = None" using that by (auto simp: map_of_eq_None_iff) metis
    then show ?thesis by (auto simp: map_add_def fun_eq_iff split: option.splits)
  qed
  have "local_maps tree vs (Suc k) (associate k ?s st)"
    unfolding local_maps_def
  proof (intro conjI)
    show "All_nodes (fst (associate k ?s st)) = map (\<lambda>i. if i < Suc k then (vs ! i)\<lparr>NodeIdentity := Some (tree ! i)\<rparr> else vs ! i) [0..<length vs]"
      using assms(1,2) name(2) by (intro nth_equalityI) (auto simp: local_maps_def less_Suc_eq)
  qed (use assms(1,2) name new snoc[of "\<lambda>i. (SI_ID (tree ! i), Name (vs ! i))"] snoc[of "\<lambda>i. (tree ! i, Name (vs ! i))"]
      in \<open>auto simp: associate_def Let_def node_at_update local_maps_def gomap.lookup_update simp del: upt_Suc\<close>)
  then show ?thesis using assms(3) by (simp add: associate_local_def)
qed

lemma InitializeMaps_local:
  assumes "length vs \<le> length tree" "distinct (map SI_ID tree)"
  shows "\<exists>st. InitializeMaps tree True (ns\<lparr>All_nodes := vs\<rparr>) = Inr st \<and> local_maps tree vs (length vs) st"
proof -
  have "\<exists>st. res_fold (associate_local tree) [0..<k] (ns\<lparr>All_nodes := vs, ServerIdentityToName := []\<rparr>, []) = Inr st
      \<and> local_maps tree vs k st" if "k \<le> length vs" for k
    using that
  proof (induction k)
    case 0
    show ?case by (auto simp: local_maps_def intro!: nth_equalityI)
  next
    case (Suc k)
    then obtain st where "res_fold (associate_local tree) [0..<k] (ns\<lparr>All_nodes := vs, ServerIdentityToName := []\<rparr>, []) = Inr st"
      "local_maps tree vs k st" by auto
    moreover obtain st' where "associate_local tree k st = Inr st'" "local_maps tree vs (Suc k) st'"
      using local_maps_step[of tree vs k st] assms Suc.prems calculation by auto
    ultimately show ?case by (simp add: res_fold_append)
  qed
  then show ?thesis by (simp add: InitializeMaps_def Let_def)
qed

lemma requested_names:
  fixes d :: string and req :: "(ServerIdentity \<times> string) list"
  assumes "distinct (map (SI_ID \<circ> fst) req)" "(sid, v) \<in> set req"
  shows "map_get d (fold (\<lambda>(k, v) m. map_set m (SI_ID k) v) req m) (SI_ID sid) = v"
proof -
  have other: "map_get d (fold (\<lambda>(k, v) m. map_set m (SI_ID k) v) req m) i = map_get d m i" if "i \<notin> (SI_ID \<circ> fst) ` set req"
    for req :: "(ServerIdentity \<times> string) list" and m i
    using that by (induction req arbitrary: m) (auto simp: case_prod_unfold)
  show ?thesis
    using assms
  proof (induction req arbitrary: m)
    case (Cons kv req)
    then show ?case using other[of "SI_ID sid" req] by (cases kv) (auto simp: image_iff)
  qed simp
qed

lemma local_maps_entries:
  assumes "local_maps tree vs (length vs) st" "length vs \<le> length tree" "distinct (map SI_ID tree)"
  shows "distinct (map (SI_ID \<circ> fst) (snd st))" "i < length vs \<Longrightarrow> (tree ! i, Name (vs ! i)) \<in> set (snd st)"
proof -
  let ?xs = "map (\<lambda>i. (tree ! i, Name (vs ! i))) [0..<length vs]"
  have inj: "inj_on SI_ID (set tree)" "distinct tree" using assms(3) by (simp_all add: distinct_map)
  have "map fst ?xs = take (length vs) tree" using assms(2) by (intro nth_equalityI) simp_all
  then have xs: "distinct (map fst ?xs)" "set (map fst ?xs) \<subseteq> set tree"
    using distinct_take[OF inj(2), of "length vs"] set_take_subset[of "length vs" tree] by metis+
  have st: "map_of (snd st) = map_of ?xs" "distinct (map fst (snd st))" using assms(1) by (simp_all add: local_maps_def map_ok_def)
  have set: "set (snd st) = set ?xs" using map_of_inject_set[OF st(2) xs(1)] st(1) by simp
  then have "set (map fst (snd st)) \<subseteq> set tree" using xs(2) by (simp only: set_map)
  from inj_on_subset[OF inj(1) this] have "distinct (map SI_ID (map fst (snd st)))" using st(2) by (subst distinct_map) simp
  then show "distinct (map (SI_ID \<circ> fst) (snd st))" by simp
  show "i < length vs \<Longrightarrow> (tree ! i, Name (vs ! i)) \<in> set (snd st)" unfolding set by simp
qed

lemma names_complete_cong:
  assumes "map Name ws = map Name vs"
  shows "names_complete ws = names_complete vs"
proof -
  have idx: "map name_idx us = map (\<lambda>n. case NodeNameToInt n of Inr i \<Rightarrow> nat i | Inl _ \<Rightarrow> 0) (map Name us)" for us
    by (simp add: name_idx_def comp_def)
  have "length ws = length vs" using arg_cong[OF assms, of length] by simp
  moreover have "(\<forall>n \<in> set us. NodeNameToInt (Name n) = Inr (int (name_idx n)) \<and> name_idx n < k)
      = (\<forall>m \<in> set (map Name us). (case NodeNameToInt m of Inr i \<Rightarrow> i \<ge> 0 \<and> nat i < k | Inl _ \<Rightarrow> False))" for us k
    by (auto simp: name_idx_def split: sum.splits)
  ultimately show ?thesis unfolding names_complete_def idx[of ws] idx[of vs] by (simp only: assms)
qed

text \<open>The collection that \<open>Setup\<close> keeps for nodes with identities and names that agree.\<close>

lemma Setup_names_ok:
  assumes "names_complete vs" "\<And>n. n \<in> set vs \<Longrightarrow> \<exists>sid. NodeIdentity n = Some sid \<and> (sid, Name n) \<in> set req"
    and "distinct (map (SI_ID \<circ> fst) req)"
  shows "\<exists>ns. Setup_nodes vs req = Inr ns \<and> names_ok ns \<and> mset (All_nodes ns) = mset (map reset_node vs)"
proof -
  obtain nodes where n: "order_nodes (map reset_node vs) = Inr (map Some nodes)" "indexed nodes" "mset nodes = mset (map reset_node vs)"
    using assms(1) order_nodes_complete[of "map reset_node vs"] names_complete_reset by metis
  have "deref_all (map Some nodes) = Inr nodes" by (auto simp: deref_all_def comp_def)
  with n(1) obtain ns where ns: "Setup_nodes vs req = Inr ns" "All_nodes ns = nodes"
    "ServerIdentityToName ns = fold (\<lambda>(k, v) m. map_set m (SI_ID k) v) req []" by (simp add: Setup_nodes_def)
  have "\<exists>sid. NodeIdentity v = Some sid \<and> GetServerIdentityToName ns sid = Name v" if "v \<in> set nodes" for v
  proof -
    have "v \<in> set (map reset_node vs)" using that n(3) by (metis set_mset_mset)
    then obtain w where w: "w \<in> set vs" "v = reset_node w" by auto
    then obtain sid where "NodeIdentity w = Some sid" "(sid, Name w) \<in> set req" using assms(2) by blast
    then show ?thesis
      using requested_names[OF assms(3), of sid "Name w" "[]" "[]"] w(2)
      by (simp add: GetServerIdentityToName_def ns(3)) (simp add: reset_node_def)
  qed
  then show ?thesis using ns(1,2) n(2,3) by (auto simp: names_ok_def)
qed

subsection \<open>Properties of the node files\<close>

text \<open>C25: A file that is written in the format of the repository's node files is read back as the
  nodes it describes, in order: comments are skipped, the last line needs no newline, and what
  follows an empty line is ignored.\<close>

theorem node_file_roundtrip:
  assumes "files filename = Some (join_lines (map print_file_line ls) @ t)" "ls \<noteq> []" "\<And>l. l \<in> set ls \<Longrightarrow> file_line_ok l"
    and "t = [] \<or> t = [newline] \<or> (\<exists>u. t = newline # newline # u)"
  shows "ReadNodesFromFile files filename = Inr (file_nodes ls)"
  using read_lines[of ls t "[]"] assms by (simp add: ReadNodesFromFile_def ReadFileLineByLine_def)

text \<open>C26: A node file with the names \<open>node_0\<close> to \<open>node_(n-1)\<close> and a tree of at least as many different
  servers give the service a collection in which every lookup the ring construction makes
  succeeds: each name leads to its node, the node to its server, and the server back to the name.\<close>

theorem simulation_nodes_ok:
  assumes "files ''nodes_local_20.txt'' = Some (join_lines (map print_file_line ls))" "ls \<noteq> []" "\<And>l. l \<in> set ls \<Longrightarrow> file_line_ok l"
    and "names_complete (file_nodes ls)" "length (file_nodes ls) \<le> length tree" "distinct (map SI_ID tree)"
  shows "\<exists>all. simulation_nodes files tree ns = Inr all \<and> names_ok all
    \<and> mset (map Name (All_nodes all)) = mset (map Name (file_nodes ls))"
proof -
  let ?vs = "file_nodes ls"
  have read: "ReadNodeInfo files False = Inr ?vs"
    using read_lines[of ls "[]" "[]"] assms(1-3) by (simp add: ReadNodeInfo_def ReadNodesFromFile_def ReadFileLineByLine_def)
  obtain st where st: "InitializeMaps tree True (ns\<lparr>All_nodes := ?vs\<rparr>) = Inr st" "local_maps tree ?vs (length ?vs) st"
    using InitializeMaps_local[OF assms(5,6)] by blast
  have nodes: "All_nodes (fst st) = map (\<lambda>i. (?vs ! i)\<lparr>NodeIdentity := Some (tree ! i)\<rparr>) [0..<length ?vs]"
    using st(2) by (simp add: local_maps_def)
  have names: "map Name (All_nodes (fst st)) = map Name ?vs"
    unfolding nodes by (intro nth_equalityI) simp_all
  note e = local_maps_entries[OF st(2) assms(5,6)]
  have "\<exists>sid. NodeIdentity n = Some sid \<and> (sid, Name n) \<in> set (snd st)" if "n \<in> set (All_nodes (fst st))" for n
    using that e(2) unfolding nodes by auto
  from Setup_names_ok[OF names_complete_cong[OF names, THEN iffD2, OF assms(4)] this e(1)] obtain all where
    "Setup_nodes (All_nodes (fst st)) (snd st) = Inr all" "names_ok all" "mset (All_nodes all) = mset (map reset_node (All_nodes (fst st)))"
    by blast
  moreover from this(3) have "mset (map Name (All_nodes all)) = mset (map Name ?vs)"
    using arg_cong[of "mset (All_nodes all)" _ "image_mset Name"] by (simp add: names[symmetric] multiset.map_comp comp_def)
  ultimately show ?thesis using read st(1) by (simp add: simulation_nodes_def)
qed

definition demo_lines :: "file_line list" where
  "demo_lines = [Comment '' node_name x,y IP level_optional'',
     Entry \<lparr>Fe_name = ''node_1'', Fe_x = (48, ''25''), Fe_y = (12, []), Fe_ip = ''127.0.0.1'', Fe_level = 1\<rparr>,
     Entry \<lparr>Fe_name = ''node_0'', Fe_x = (39, []), Fe_y = (25, ''5''), Fe_ip = ''127.0.0.1'', Fe_level = 0\<rparr>]"

lemma demo_lines_ok: "\<And>l. l \<in> set demo_lines \<Longrightarrow> file_line_ok l" "demo_lines \<noteq> []"
  by (auto simp: demo_lines_def is_digit_def)

lemma demo_file:
  "join_lines (map print_file_line demo_lines)
   = ''# node_name x,y IP level_optional'' @ newline # ''node_1 48.25,12 127.0.0.1 1'' @ newline # ''node_0 39,25.5 127.0.0.1 0''"
  by code_simp

theorem node_file_roundtrip_witness:
  "ReadNodesFromFile (\<lambda>f. Some (''# node_name x,y IP level_optional'' @ newline # ''node_1 48.25,12 127.0.0.1 1'' @ newline
       # ''node_0 39,25.5 127.0.0.1 0'' @ [newline])) ''nodes.txt''
   = Inr [CreateNode ''node_1'' (4825 / 100) 12 ''127.0.0.1'' 1, CreateNode ''node_0'' 39 (255 / 10) ''127.0.0.1'' 0]"
  using node_file_roundtrip[OF _ demo_lines_ok(2,1), of "\<lambda>f. Some (join_lines (map print_file_line demo_lines) @ [newline])" _ "[newline]"]
  by (simp add: demo_file) (simp add: demo_lines_def entry_node_def coord_value_def digits_value_def)

theorem simulation_nodes_ok_witness:
  "\<exists>all. simulation_nodes (\<lambda>f. Some (join_lines (map print_file_line demo_lines)))
      (map (\<lambda>i. \<lparr>SI_ID = i, SI_String = [], SI_Host = [], SI_Public = []\<rparr>) [0, 1])
      \<lparr>All_nodes = [], ServerIdentityToName = [], ClusterBunchDistances = (\<lambda>a b. 0), Links = (\<lambda>a b. [])\<rparr> = Inr all
    \<and> names_ok all \<and> mset (map Name (All_nodes all)) = {#''node_0'', ''node_1''#}"
proof -
  have "names_complete (file_nodes demo_lines)"
    by (simp add: demo_lines_def entry_node_def CreateNode_def names_complete_def name_idx_def duo_name_ints)
  from simulation_nodes_ok[OF refl demo_lines_ok(2,1) this, of "map (\<lambda>i. \<lparr>SI_ID = i, SI_String = [], SI_Host = [], SI_Public = []\<rparr>) [0, 1]"]
  show ?thesis by (simp add: demo_lines_def entry_node_def CreateNode_def add_mset_commute)
qed

text \<open>An entry without its level, which the format comment of the node files calls optional, stops
  the reader: it panics with an index error, whatever the lines before and after the entry are.\<close>

theorem missing_level_panics:
  assumes "files filename = Some (join_lines (map print_file_line ls @ [print_short e]) @ t)" "\<And>l. l \<in> set ls \<Longrightarrow> file_line_ok l"
    and "file_line_ok (Entry e)" "t = [] \<or> hd t = newline"
  shows "ReadNodesFromFile files filename = Inl IndexOutOfRange"
proof -
  have e: "newline \<notin> set (print_short e)" "print_short e \<noteq> []" "hd (print_short e) \<noteq> CHR ''#''"
    using assms(3) print_coord_plain(3) by (auto simp: print_short_def)
  have "readLine \<lparr>Lr_rest = print_short e @ t, Lr_eof = False\<rparr> = (print_short e, r)"
    if "r = \<lparr>Lr_rest = tl t, Lr_eof = (t = [])\<rparr>" for r
    using readLine_line[OF e(1)] assms(4) that by (cases t) auto
  then have "read_nodes \<lparr>Lr_rest = print_short e @ t, Lr_eof = False\<rparr> ns = Inl IndexOutOfRange" for ns
    using e short_panics[OF assms(3)] by (subst read_nodes.simps) simp
  then show ?thesis using assms(1) read_prefix[OF assms(2), where u = "print_short e" and t = t and ns = "[]"]
    by (simp add: ReadNodesFromFile_def ReadFileLineByLine_def)
qed

theorem missing_level_panics_witness:
  "ReadNodesFromFile (\<lambda>f. Some (''node_0 39,25 127.0.0.1 0'' @ newline # ''node_1 48,12 127.0.0.1'')) ''nodes.txt'' = Inl IndexOutOfRange"
proof -
  let ?e = "\<lambda>n x y. \<lparr>Fe_name = n, Fe_x = (x, []), Fe_y = (y, []), Fe_ip = ''127.0.0.1'', Fe_level = 0\<rparr>"
  have "join_lines (map print_file_line [Entry (?e ''node_0'' 39 25)] @ [print_short (?e ''node_1'' 48 12)]) @ []
      = ''node_0 39,25 127.0.0.1 0'' @ newline # ''node_1 48,12 127.0.0.1''" by code_simp
  then show ?thesis
    using missing_level_panics[of "\<lambda>f. Some (''node_0 39,25 127.0.0.1 0'' @ newline # ''node_1 48,12 127.0.0.1'')" "''nodes.txt''"
      "[Entry (?e ''node_0'' 39 25)]" "?e ''node_1'' 48 12" "[]"] by simp
qed

end
