(* ===== verification/Locality_Protocol.thy ===== *)
theory Locality_Protocol
  imports Cosi_Trees
begin

text \<open>
  The multicast of the tree experiment (tree\_experiment/service/protocol.go): the root floods an
  announcement over a graph tree, every node that hears it for the first time replies to the
  root, and the root reports the number of nodes on a channel. The lookups are those of
  localityservice.go; the network delivers messages in any order.
\<close>

subsection \<open>Lookups of the locality service\<close>

text \<open>The roster is that of the field \<open>Tree\<close> of the graph tree.\<close>

record Rooted_GraphTree = GraphTree +
  Gt_Roster :: "ServerIdentity option list"

record Locality_Service =
  Ls_Nodes :: LocalityNodes
  Ls_GraphTree :: "Rooted_GraphTree list"
  Ls_BinaryTree :: "BinTree list"
  alive :: bool
  Ls_distances :: "node_ptr \<Rightarrow> node_ptr \<Rightarrow> real"

definition Ls_FromBinaryNodeToGraphNode :: "Locality_Service \<Rightarrow> TreeNode \<Rightarrow> int \<Rightarrow> GraphNode option result" where
  "Ls_FromBinaryNodeToGraphNode s Node index =
     res_bind (slice_get (Ls_GraphTree s) index) (\<lambda>t. Inr (find_graph_node (ListOfNodes t) (node_id Node)))"

definition Ls_FromGraphNodeToBinaryTreeNode :: "Locality_Service \<Rightarrow> TreeNode \<Rightarrow> int \<Rightarrow> TreeNode option result" where
  "Ls_FromGraphNodeToBinaryTreeNode s Node index =
     res_bind (slice_get (Ls_BinaryTree s) index) (\<lambda>t. Inr (find_tree_node (Tree_List t) (node_id Node)))"

definition Ls_getIndex :: "Locality_Service \<Rightarrow> nat \<Rightarrow> int" where
  "Ls_getIndex s tree = index_of_tree (Ls_BinaryTree s) tree 0"

subsection \<open>One instance\<close>

text \<open>What the instance knows of its surroundings: its own node, the root, the tree it runs on, the
  length of the roster, and its service.\<close>

record Locality_Env =
  Le_own :: TreeNode
  Le_root :: TreeNode
  Le_tree :: nat
  Le_roster :: nat
  Le_service :: Locality_Service

text \<open>\<open>TotalCount\<close> holds the values written to the channel, \<open>Lp_done\<close> whether \<open>Done\<close> was called.\<close>

record LocalityPresProtocol =
  MsgReceived :: bool
  Count :: int
  TotalCount :: "int list"
  Lp_index :: int
  Lp_done :: bool

datatype locality_msg = LAnnounce int | LReply int

definition NewLocalityProtocol :: LocalityPresProtocol where
  "NewLocalityProtocol = \<lparr>MsgReceived = False, Count = 1, TotalCount = [], Lp_index = 0, Lp_done = False\<rparr>"

abbreviation le_name :: "Locality_Env \<Rightarrow> TreeNode \<Rightarrow> string" where
  "le_name E n \<equiv> GetServerIdentityToName (Ls_Nodes (Le_service E)) (Identity n)"

text \<open>\<open>DelayedSend\<close>: the names of receiver and sender are looked up for the delay; a message to a node
  that is not in the binary tree is not sent.\<close>

definition Lp_DelayedSend ::
  "Locality_Env \<Rightarrow> LocalityPresProtocol \<Rightarrow> TreeNode \<Rightarrow> locality_msg \<Rightarrow> (TreeNode \<times> locality_msg) list result" where
  "Lp_DelayedSend E p to msg =
     res_bind (GetByName (Ls_Nodes (Le_service E)) (le_name E to)) (\<lambda>_.
     res_bind (GetByName (Ls_Nodes (Le_service E)) (le_name E (Le_own E))) (\<lambda>_.
     res_bind (Ls_FromGraphNodeToBinaryTreeNode (Le_service E) to (Lp_index p)) (\<lambda>t.
       Inr (case t of None \<Rightarrow> [] | Some n \<Rightarrow> [(n, msg)]))))"

definition Lp_send_all ::
  "Locality_Env \<Rightarrow> LocalityPresProtocol \<Rightarrow> TreeNode list \<Rightarrow> locality_msg \<Rightarrow> (TreeNode \<times> locality_msg) list result" where
  "Lp_send_all E p tos msg =
     res_fold (\<lambda>to acc. res_bind (Lp_DelayedSend E p to msg) (\<lambda>a. Inr (acc @ a))) tos []"

text \<open>The graph node of a tree node; its fields are read without a check for \<open>nil\<close>.\<close>

definition Lp_graph_node :: "Locality_Env \<Rightarrow> LocalityPresProtocol \<Rightarrow> TreeNode \<Rightarrow> GraphNode result" where
  "Lp_graph_node E p n =
     res_bind (Ls_FromBinaryNodeToGraphNode (Le_service E) n (Lp_index p)) (\<lambda>g.
       case g of None \<Rightarrow> Inl NilDereference | Some x \<Rightarrow> Inr x)"

type_synonym locality_handled = "(LocalityPresProtocol \<times> (TreeNode \<times> locality_msg) list) result"

definition Lp_Start :: "Locality_Env \<Rightarrow> LocalityPresProtocol \<Rightarrow> locality_handled" where
  "Lp_Start E p =
     (let p1 = p\<lparr>Lp_index := Ls_getIndex (Le_service E) (Le_tree E), MsgReceived := True\<rparr>
      in res_bind (Lp_graph_node E p1 (Le_own E)) (\<lambda>g.
         let p2 = (if Children g = [] then p1\<lparr>TotalCount := TotalCount p1 @ [Count p1], Lp_done := True\<rparr> else p1)
         in res_bind (Lp_send_all E p2 (Children g) (LAnnounce (Lp_index p2))) (\<lambda>as. Inr (p2, as))))"

definition HandleAnnounce :: "Locality_Env \<Rightarrow> int \<Rightarrow> LocalityPresProtocol \<Rightarrow> locality_handled" where
  "HandleAnnounce E m p =
     (if MsgReceived p then Inr (p, [])
      else let p1 = p\<lparr>Lp_index := m, MsgReceived := True\<rparr>
        in if \<not> alive (Le_service E)
           then res_bind (Lp_graph_node E p1 (Le_root E)) (\<lambda>root.
                res_bind (Lp_DelayedSend E p1 (Graph_Node root) (LReply 1)) (\<lambda>as. Inr (p1, as)))
           else res_bind (Lp_graph_node E p1 (Le_own E)) (\<lambda>g.
                res_bind (Lp_send_all E p1 (Children g) (LAnnounce m)) (\<lambda>as.
                res_bind (Lp_graph_node E p1 (Le_root E)) (\<lambda>root.
                res_bind (Lp_DelayedSend E p1 (Graph_Node root) (LReply 1)) (\<lambda>bs.
                  Inr (p1\<lparr>Lp_done := True\<rparr>, as @ bs))))))"

definition HandleReply :: "Locality_Env \<Rightarrow> int \<Rightarrow> LocalityPresProtocol \<Rightarrow> locality_handled" where
  "HandleReply E m p =
     (if node_id (Le_own E) = node_id (Le_root E)
      then let p1 = p\<lparr>Count := Count p + 1\<rparr>
        in Inr (if Count p1 = int (Le_roster E) then p1\<lparr>TotalCount := TotalCount p1 @ [Count p1], Lp_done := True\<rparr> else p1, [])
      else res_bind (Lp_graph_node E p (Le_own E)) (\<lambda>g.
        case Graph_Parent g of
          None \<Rightarrow> Inl NilDereference
        | Some n \<Rightarrow> res_bind (Lp_DelayedSend E p n (LReply m)) (\<lambda>as. Inr (p, as))))"

fun handle_locality :: "Locality_Env \<Rightarrow> locality_msg \<Rightarrow> LocalityPresProtocol \<Rightarrow> locality_handled" where
  "handle_locality E (LAnnounce m) p = HandleAnnounce E m p"
| "handle_locality E (LReply m) p = HandleReply E m p"

subsection \<open>The network\<close>

record locality_net =
  Ln_state :: "TreeNode \<Rightarrow> LocalityPresProtocol"
  Ln_msgs :: "(TreeNode \<times> locality_msg) multiset"

text \<open>A message is handled; \<open>onet\<close> drops a message to an instance that is done.\<close>

inductive locality_step :: "(TreeNode \<Rightarrow> Locality_Env) \<Rightarrow> locality_net \<Rightarrow> locality_net \<Rightarrow> bool"
  for E :: "TreeNode \<Rightarrow> Locality_Env" where
  locality_deliver: "Ln_msgs \<sigma> = add_mset (v, m) M \<Longrightarrow> \<not> Lp_done (Ln_state \<sigma> v) \<Longrightarrow>
    handle_locality (E v) m (Ln_state \<sigma> v) = Inr (s', as) \<Longrightarrow>
    locality_step E \<sigma> \<lparr>Ln_state = (Ln_state \<sigma>)(v := s'), Ln_msgs = M + mset as\<rparr>"
| locality_drop: "Ln_msgs \<sigma> = add_mset (v, m) M \<Longrightarrow> Lp_done (Ln_state \<sigma> v) \<Longrightarrow>
    locality_step E \<sigma> \<lparr>Ln_state = Ln_state \<sigma>, Ln_msgs = M\<rparr>"

definition locality_init :: "(TreeNode \<Rightarrow> Locality_Env) \<Rightarrow> TreeNode \<Rightarrow> locality_net \<Rightarrow> bool" where
  "locality_init E r \<sigma> \<longleftrightarrow> (\<exists>s as. Lp_Start (E r) NewLocalityProtocol = Inr (s, as)
     \<and> \<sigma> = \<lparr>Ln_state = (\<lambda>v. NewLocalityProtocol)(r := s), Ln_msgs = mset as\<rparr>)"

subsection \<open>Graph trees\<close>

text \<open>What the multicast relies on: every node finds itself, its children and the receivers of its
  messages in the tables of its service, under the index the root starts with. The nodes of a graph
  tree and of a binary tree correspond by their identities.\<close>

record locality_graph =
  Lg_nodes :: "TreeNode set"
  Lg_root :: TreeNode
  Lg_kids :: "TreeNode \<Rightarrow> TreeNode list"
  Lg_index :: int

definition locality_lookups :: "(TreeNode \<Rightarrow> Locality_Env) \<Rightarrow> locality_graph \<Rightarrow> TreeNode \<Rightarrow> TreeNode \<Rightarrow> bool" where
  "locality_lookups E G v u \<longleftrightarrow>
     (\<exists>g. Ls_FromBinaryNodeToGraphNode (Le_service (E v)) u (Lg_index G) = Inr (Some g)
        \<and> Identity (Graph_Node g) = Identity u \<and> map Identity (Children g) = map Identity (Lg_kids G u))
     \<and> Ls_FromGraphNodeToBinaryTreeNode (Le_service (E v)) u (Lg_index G) = Inr (Some u)
     \<and> (\<exists>x. GetByName (Ls_Nodes (Le_service (E v))) (le_name (E v) u) = Inr x)"

definition locality_ok :: "(TreeNode \<Rightarrow> Locality_Env) \<Rightarrow> locality_graph \<Rightarrow> bool" where
  "locality_ok E G \<longleftrightarrow> finite (Lg_nodes G) \<and> Lg_root G \<in> Lg_nodes G \<and> inj_on node_id (Lg_nodes G)
     \<and> Ls_getIndex (Le_service (E (Lg_root G))) (Le_tree (E (Lg_root G))) = Lg_index G
     \<and> (\<forall>v \<in> Lg_nodes G. Le_own (E v) = v \<and> Le_root (E v) = Lg_root G \<and> Le_roster (E v) = card (Lg_nodes G)
          \<and> set (Lg_kids G v) \<subseteq> Lg_nodes G - {v} \<and> (\<forall>u \<in> Lg_nodes G. locality_lookups E G v u))"

lemma locality_okD:
  assumes "locality_ok E G"
  shows "finite (Lg_nodes G)" "Lg_root G \<in> Lg_nodes G" "inj_on node_id (Lg_nodes G)"
    "Ls_getIndex (Le_service (E (Lg_root G))) (Le_tree (E (Lg_root G))) = Lg_index G"
    "v \<in> Lg_nodes G \<Longrightarrow> Le_own (E v) = v" "v \<in> Lg_nodes G \<Longrightarrow> Le_root (E v) = Lg_root G"
    "v \<in> Lg_nodes G \<Longrightarrow> Le_roster (E v) = card (Lg_nodes G)" "v \<in> Lg_nodes G \<Longrightarrow> set (Lg_kids G v) \<subseteq> Lg_nodes G - {v}"
    "v \<in> Lg_nodes G \<Longrightarrow> u \<in> Lg_nodes G \<Longrightarrow> locality_lookups E G v u"
  using assms by (simp_all add: locality_ok_def)

abbreviation announces :: "locality_graph \<Rightarrow> TreeNode list \<Rightarrow> (TreeNode \<times> locality_msg) list" where
  "announces G ws \<equiv> map (\<lambda>w. (w, LAnnounce (Lg_index G))) ws"

text \<open>The nodes an announcement can reach: a node that is not alive replies, but does not forward.\<close>

definition forwards :: "(TreeNode \<Rightarrow> Locality_Env) \<Rightarrow> locality_graph \<Rightarrow> TreeNode \<Rightarrow> bool" where
  "forwards E G v \<longleftrightarrow> v = Lg_root G \<or> alive (Le_service (E v))"

inductive_set reached :: "(TreeNode \<Rightarrow> Locality_Env) \<Rightarrow> locality_graph \<Rightarrow> TreeNode set"
  for E :: "TreeNode \<Rightarrow> Locality_Env" and G :: locality_graph where
  reached_root: "Lg_root G \<in> reached E G"
| reached_kid: "u \<in> reached E G \<Longrightarrow> forwards E G u \<Longrightarrow> w \<in> set (Lg_kids G u) \<Longrightarrow> w \<in> reached E G"

lemma reached_nodes:
  assumes "v \<in> reached E G" "locality_ok E G"
  shows "v \<in> Lg_nodes G"
  using assms(1) by induction (use locality_okD(2,8)[OF assms(2)] in blast)+

subsection \<open>The handlers on a graph tree\<close>

lemma Lp_send_cong:
  "Identity to = Identity to' \<Longrightarrow> Lp_DelayedSend E p to m = Lp_DelayedSend E p to' m"
  "map Identity tos = map Identity tos' \<Longrightarrow> Lp_send_all E p tos m = Lp_send_all E p tos' m"
proof -
  show c: "Identity to = Identity to' \<Longrightarrow> Lp_DelayedSend E p to m = Lp_DelayedSend E p to' m" for to to'
    by (simp add: Lp_DelayedSend_def Ls_FromGraphNodeToBinaryTreeNode_def)
  let ?f = "\<lambda>to acc. res_bind (Lp_DelayedSend E p to m) (\<lambda>a. Inr (acc @ a))"
  have "res_fold ?f tos acc = res_fold ?f tos' acc" if "map Identity tos = map Identity tos'" for acc
    using that
  proof (induction tos arbitrary: tos' acc)
    case (Cons t ts)
    then obtain t' ts' where t: "tos' = t' # ts'" "Identity t = Identity t'" "map Identity ts = map Identity ts'" by (cases tos') auto
    show ?case using Cons.IH[OF t(3)] c[OF t(2)] by (cases "Lp_DelayedSend E p t' m") (simp_all add: t(1))
  qed simp
  then show "map Identity tos = map Identity tos' \<Longrightarrow> Lp_send_all E p tos m = Lp_send_all E p tos' m"
    by (simp add: Lp_send_all_def)
qed

lemma Lp_sends_ok:
  assumes "locality_ok E G" "v \<in> Lg_nodes G" "Lp_index p = Lg_index G"
  shows "u \<in> Lg_nodes G \<Longrightarrow> Lp_DelayedSend (E v) p u m = Inr [(u, m)]"
    "set us \<subseteq> Lg_nodes G \<Longrightarrow> Lp_send_all (E v) p us m = Inr (map (\<lambda>u. (u, m)) us)"
    "u \<in> Lg_nodes G \<Longrightarrow> \<exists>g. Lp_graph_node (E v) p u = Inr g
       \<and> Identity (Graph_Node g) = Identity u \<and> map Identity (Children g) = map Identity (Lg_kids G u)"
proof -
  have L: "locality_lookups E G v u" if "u \<in> Lg_nodes G" for u using locality_okD(9)[OF assms(1,2) that] .
  have own: "Le_own (E v) = v" by (rule locality_okD(5)[OF assms(1,2)])
  have send: "Lp_DelayedSend (E v) p u m = Inr [(u, m)]" if "u \<in> Lg_nodes G" for u
    using L[OF that] L[OF assms(2)] assms(3) own unfolding locality_lookups_def Lp_DelayedSend_def by auto
  then show "u \<in> Lg_nodes G \<Longrightarrow> Lp_DelayedSend (E v) p u m = Inr [(u, m)]" .
  have "res_fold (\<lambda>to acc. res_bind (Lp_DelayedSend (E v) p to m) (\<lambda>a. Inr (acc @ a))) us acc
      = Inr (acc @ map (\<lambda>u. (u, m)) us)" if "set us \<subseteq> Lg_nodes G" for acc us
    using that by (induction us arbitrary: acc) (simp_all add: send)
  then show "set us \<subseteq> Lg_nodes G \<Longrightarrow> Lp_send_all (E v) p us m = Inr (map (\<lambda>u. (u, m)) us)"
    by (simp add: Lp_send_all_def)
  show "u \<in> Lg_nodes G \<Longrightarrow> \<exists>g. Lp_graph_node (E v) p u = Inr g
       \<and> Identity (Graph_Node g) = Identity u \<and> map Identity (Children g) = map Identity (Lg_kids G u)"
    using L assms(3) by (fastforce simp: locality_lookups_def Lp_graph_node_def)
qed

lemma Lp_Start_ok:
  assumes "locality_ok E G"
  shows "Lp_Start (E (Lg_root G)) NewLocalityProtocol = Inr
    (\<lparr>MsgReceived = True, Count = 1, TotalCount = (if Lg_kids G (Lg_root G) = [] then [1] else []), Lp_index = Lg_index G,
      Lp_done = (Lg_kids G (Lg_root G) = [])\<rparr>, announces G (Lg_kids G (Lg_root G)))"
proof -
  let ?r = "Lg_root G" and ?p = "NewLocalityProtocol\<lparr>Lp_index := Lg_index G, MsgReceived := True\<rparr>"
  note r = locality_okD(2)[OF assms]
  obtain g where g: "Lp_graph_node (E ?r) ?p ?r = Inr g" "map Identity (Children g) = map Identity (Lg_kids G ?r)"
    using Lp_sends_ok(3)[OF assms r, of ?p ?r] r by auto
  have "set (Lg_kids G ?r) \<subseteq> Lg_nodes G" using locality_okD(8)[OF assms r] by blast
  from Lp_sends_ok(2)[OF assms r _ this] g(1) show ?thesis
    using locality_okD(4)[OF assms] locality_okD(5)[OF assms r] Lp_send_cong(2)[OF g(2), of "E ?r"] map_is_Nil_conv[of Identity "Children g"] g(2)
    by (auto simp: Lp_Start_def NewLocalityProtocol_def Let_def)
qed

lemma HandleAnnounce_ok:
  assumes "locality_ok E G" "v \<in> Lg_nodes G" "\<not> MsgReceived p" "v \<noteq> Lg_root G"
  shows "HandleAnnounce (E v) (Lg_index G) p = Inr
    (p\<lparr>Lp_index := Lg_index G, MsgReceived := True, Lp_done := (forwards E G v \<or> Lp_done p)\<rparr>,
     announces G (if forwards E G v then Lg_kids G v else []) @ [(Lg_root G, LReply 1)])"
proof -
  let ?p = "p\<lparr>Lp_index := Lg_index G, MsgReceived := True\<rparr>"
  have i: "Lp_index ?p = Lg_index G" by simp
  note r = locality_okD(2)[OF assms(1)] and S = Lp_sends_ok[OF assms(1,2) i]
  obtain g where g: "Lp_graph_node (E v) ?p v = Inr g" "map Identity (Children g) = map Identity (Lg_kids G v)" using S(3)[OF assms(2)] by blast
  obtain h where h: "Lp_graph_node (E v) ?p (Lg_root G) = Inr h" "Identity (Graph_Node h) = Identity (Lg_root G)" using S(3)[OF r] by blast
  have "set (Lg_kids G v) \<subseteq> Lg_nodes G" using locality_okD(8)[OF assms(1,2)] by blast
  then show ?thesis
    using S(1)[OF r] S(2)[of "Lg_kids G v"] g(1) h(1) Lp_send_cong(2)[OF g(2)] Lp_send_cong(1)[OF h(2)] assms(3,4) locality_okD(5,6)[OF assms(1,2)]
    by (auto simp: HandleAnnounce_def forwards_def Let_def)
qed

lemma HandleReply_ok:
  assumes "locality_ok E G"
  shows "HandleReply (E (Lg_root G)) m p = Inr
    (let c = Count p + 1 in if c = int (card (Lg_nodes G)) then p\<lparr>Count := c, TotalCount := TotalCount p @ [c], Lp_done := True\<rparr>
      else p\<lparr>Count := c\<rparr>, [])"
  using locality_okD(5,6,7)[OF assms locality_okD(2)[OF assms]] by (simp add: HandleReply_def Let_def)

subsection \<open>The invariant\<close>

abbreviation told :: "locality_graph \<Rightarrow> locality_net \<Rightarrow> TreeNode set" where
  "told G \<sigma> \<equiv> {v \<in> Lg_nodes G. MsgReceived (Ln_state \<sigma> v)}"

abbreviation replies :: "(TreeNode \<times> locality_msg) multiset \<Rightarrow> nat" where
  "replies M \<equiv> size {#m \<in># M. snd m = LReply 1#}"

definition locality_inv :: "(TreeNode \<Rightarrow> Locality_Env) \<Rightarrow> locality_graph \<Rightarrow> locality_net \<Rightarrow> bool" where
  "locality_inv E G \<sigma> \<longleftrightarrow>
     (let r = Lg_root G; c = Count (Ln_state \<sigma> r); n = card (Lg_nodes G) in
      MsgReceived (Ln_state \<sigma> r) \<and> told G \<sigma> \<subseteq> reached E G
      \<and> (\<forall>m \<in># Ln_msgs \<sigma>. m = (r, LReply 1) \<or> (\<exists>w \<in> reached E G. m = (w, LAnnounce (Lg_index G))))
      \<and> 1 \<le> c \<and> int (replies (Ln_msgs \<sigma>)) + c = int (card (told G \<sigma>))
      \<and> (\<forall>u \<in> told G \<sigma>. forwards E G u \<longrightarrow> (\<forall>w \<in> set (Lg_kids G u). w \<in> told G \<sigma> \<or> (w, LAnnounce (Lg_index G)) \<in># Ln_msgs \<sigma>))
      \<and> TotalCount (Ln_state \<sigma> r) = (if Lg_kids G r = [] then [1] else if c = int n then [int n] else [])
      \<and> (\<forall>v \<in> Lg_nodes G. Lp_done (Ln_state \<sigma> v) \<longrightarrow> MsgReceived (Ln_state \<sigma> v))
      \<and> (Lp_done (Ln_state \<sigma> r) \<longleftrightarrow> TotalCount (Ln_state \<sigma> r) \<noteq> []))"

lemma locality_invD:
  assumes "locality_inv E G \<sigma>"
  shows "MsgReceived (Ln_state \<sigma> (Lg_root G))" "told G \<sigma> \<subseteq> reached E G"
    "m \<in># Ln_msgs \<sigma> \<Longrightarrow> m = (Lg_root G, LReply 1) \<or> (\<exists>w \<in> reached E G. m = (w, LAnnounce (Lg_index G)))"
    "int (replies (Ln_msgs \<sigma>)) + Count (Ln_state \<sigma> (Lg_root G)) = int (card (told G \<sigma>))"
    "u \<in> told G \<sigma> \<Longrightarrow> forwards E G u \<Longrightarrow> w \<in> set (Lg_kids G u) \<Longrightarrow> w \<in> told G \<sigma> \<or> (w, LAnnounce (Lg_index G)) \<in># Ln_msgs \<sigma>"
    "TotalCount (Ln_state \<sigma> (Lg_root G)) = (if Lg_kids G (Lg_root G) = [] then [1]
       else if Count (Ln_state \<sigma> (Lg_root G)) = int (card (Lg_nodes G)) then [int (card (Lg_nodes G))] else [])"
    "v \<in> Lg_nodes G \<Longrightarrow> Lp_done (Ln_state \<sigma> v) \<Longrightarrow> MsgReceived (Ln_state \<sigma> v)"
    "Lp_done (Ln_state \<sigma> (Lg_root G)) \<longleftrightarrow> TotalCount (Ln_state \<sigma> (Lg_root G)) \<noteq> []"
    "1 \<le> Count (Ln_state \<sigma> (Lg_root G))"
  using assms by (auto simp: locality_inv_def Let_def)

lemma locality_init_inv:
  assumes G: "locality_ok E G" and "locality_init E (Lg_root G) \<sigma>"
  shows "locality_inv E G \<sigma>"
proof -
  let ?r = "Lg_root G"
  have \<sigma>: "\<sigma> = \<lparr>Ln_state = (\<lambda>v. NewLocalityProtocol)(?r := \<lparr>MsgReceived = True, Count = 1,
      TotalCount = (if Lg_kids G ?r = [] then [1] else []), Lp_index = Lg_index G, Lp_done = (Lg_kids G ?r = [])\<rparr>),
      Ln_msgs = mset (announces G (Lg_kids G ?r))\<rparr>"
    using assms(2) by (simp add: locality_init_def Lp_Start_ok[OF G])
  have told: "told G \<sigma> = {?r}" using locality_okD(2)[OF G] by (auto simp: \<sigma> NewLocalityProtocol_def)
  have "filter_mset (\<lambda>m. snd m = LReply 1) (mset (announces G ws)) = {#}" for ws by (induction ws) auto
  moreover have "card (Lg_nodes G) \<noteq> 1" if "Lg_kids G ?r \<noteq> []"
    using that locality_okD(2)[OF G] locality_okD(8)[OF G, of ?r] by (auto simp: card_1_singleton_iff)
  moreover have "w \<in> reached E G" if "w \<in> set (Lg_kids G ?r)" for w
    using reached.reached_kid[OF reached.reached_root _ that] by (simp add: forwards_def)
  ultimately show ?thesis
    unfolding locality_inv_def told Let_def using reached.reached_root[of G E] locality_okD(2)[OF G]
    by (auto simp: \<sigma> NewLocalityProtocol_def)
qed

text \<open>A message that changes nothing but itself.\<close>

lemma locality_inv_remove:
  assumes I: "locality_inv E G \<sigma>" and m: "Ln_msgs \<sigma> = add_mset (v, LAnnounce i) M" and v: "v \<in> told G \<sigma>"
  shows "locality_inv E G (\<sigma>\<lparr>Ln_msgs := M\<rparr>)"
proof -
  have "replies (Ln_msgs \<sigma>) = replies M" by (simp add: m)
  moreover have "x = (Lg_root G, LReply 1) \<or> (\<exists>w \<in> reached E G. x = (w, LAnnounce (Lg_index G)))" if "x \<in># M" for x
    using locality_invD(3)[OF I, of x] that by (simp add: m)
  moreover have "w \<in> told G \<sigma> \<or> (w, LAnnounce (Lg_index G)) \<in># M" if "u \<in> told G \<sigma>" "forwards E G u" "w \<in> set (Lg_kids G u)" for u w
    using locality_invD(5)[OF I that] v by (auto simp: m)
  ultimately show ?thesis using I unfolding locality_inv_def Let_def by simp
qed

lemma no_reply_when_done:
  assumes G: "locality_ok E G" and I: "locality_inv E G \<sigma>" and m: "(v, LReply 1) \<in># Ln_msgs \<sigma>"
  shows "Lg_kids G (Lg_root G) \<noteq> []" "Count (Ln_state \<sigma> (Lg_root G)) < int (card (Lg_nodes G))" "\<not> Lp_done (Ln_state \<sigma> (Lg_root G))"
proof -
  let ?r = "Lg_root G"
  have "replies (Ln_msgs \<sigma>) \<noteq> 0" using m by auto
  then have lt: "Count (Ln_state \<sigma> ?r) < int (card (told G \<sigma>))" using locality_invD(4)[OF I] by linarith
  have "card (told G \<sigma>) \<le> card (Lg_nodes G)" by (rule card_mono[OF locality_okD(1)[OF G]]) auto
  with lt show c: "Count (Ln_state \<sigma> ?r) < int (card (Lg_nodes G))" by linarith
  show k: "Lg_kids G ?r \<noteq> []"
  proof
    assume k: "Lg_kids G ?r = []"
    have "v = ?r" if "v \<in> reached E G" for v using that by induction (use k in auto)
    then have "told G \<sigma> \<subseteq> {?r}" using locality_invD(2)[OF I] by blast
    then have "card (told G \<sigma>) \<le> 1" using card_mono[of "{?r}"] by simp
    with lt locality_invD(9)[OF I] show False by linarith
  qed
  show "\<not> Lp_done (Ln_state \<sigma> ?r)" using locality_invD(6,8)[OF I] k c by simp
qed

lemma locality_inv_reply:
  assumes G: "locality_ok E G" and I: "locality_inv E G \<sigma>" and m: "Ln_msgs \<sigma> = add_mset (Lg_root G, LReply 1) M"
    and s: "HandleReply (E (Lg_root G)) 1 (Ln_state \<sigma> (Lg_root G)) = Inr (s', as)"
  shows "locality_inv E G \<lparr>Ln_state = (Ln_state \<sigma>)(Lg_root G := s'), Ln_msgs = M + mset as\<rparr>"
proof -
  let ?r = "Lg_root G" and ?s = "Ln_state \<sigma> (Lg_root G)"
  have "(?r, LReply 1) \<in># Ln_msgs \<sigma>" by (simp add: m)
  note n = no_reply_when_done[OF G I this]
  have T: "TotalCount ?s = []" using locality_invD(6)[OF I] n(1,2) by simp
  have s': "as = []" "MsgReceived s' = MsgReceived ?s" "Count s' = Count ?s + 1" "Lp_done s' \<longleftrightarrow> TotalCount s' \<noteq> []"
    "TotalCount s' = (if Count ?s + 1 = int (card (Lg_nodes G)) then [int (card (Lg_nodes G))] else [])"
    using s n(3) T by (auto simp: HandleReply_ok[OF G] Let_def split: if_splits)
  let ?\<sigma> = "\<lparr>Ln_state = (Ln_state \<sigma>)(?r := s'), Ln_msgs = M\<rparr>"
  have told: "told G ?\<sigma> = told G \<sigma>" using s'(2) by auto
  have "replies (Ln_msgs \<sigma>) = Suc (replies M)" by (simp add: m)
  then have "int (replies M) + (Count ?s + 1) = int (card (told G \<sigma>))" using locality_invD(4)[OF I] by simp
  moreover have "w \<in> told G \<sigma> \<or> (w, LAnnounce (Lg_index G)) \<in># M" if "u \<in> told G \<sigma>" "forwards E G u" "w \<in> set (Lg_kids G u)" for u w
    using locality_invD(5)[OF I that] by (auto simp: m)
  moreover have "x = (?r, LReply 1) \<or> (\<exists>w \<in> reached E G. x = (w, LAnnounce (Lg_index G)))" if "x \<in># M" for x
    using locality_invD(3)[OF I, of x] that by (simp add: m)
  ultimately have "locality_inv E G ?\<sigma>"
    unfolding locality_inv_def Let_def told using s' n(1) locality_invD(1,2,7,9)[OF I] by auto
  then show ?thesis using s'(1) by simp
qed

lemma locality_inv_announce:
  assumes G: "locality_ok E G" and I: "locality_inv E G \<sigma>" and m: "Ln_msgs \<sigma> = add_mset (v, LAnnounce (Lg_index G)) M"
    and v: "v \<in> reached E G" "\<not> MsgReceived (Ln_state \<sigma> v)"
    and s: "HandleAnnounce (E v) (Lg_index G) (Ln_state \<sigma> v) = Inr (s', as)"
  shows "locality_inv E G \<lparr>Ln_state = (Ln_state \<sigma>)(v := s'), Ln_msgs = M + mset as\<rparr>"
proof -
  let ?r = "Lg_root G"
  have r: "v \<noteq> ?r" using locality_invD(1)[OF I] v(2) by auto
  note V = reached_nodes[OF v(1) G]
  have s': "as = announces G (if forwards E G v then Lg_kids G v else []) @ [(?r, LReply 1)]" "MsgReceived s'"
    using s by (auto simp: HandleAnnounce_ok[OF G V v(2) r])
  let ?\<sigma> = "\<lparr>Ln_state = (Ln_state \<sigma>)(v := s'), Ln_msgs = M + mset as\<rparr>"
  have told: "told G ?\<sigma> = insert v (told G \<sigma>)" "v \<notin> told G \<sigma>" using s'(2) V v(2) by auto
  have "finite (told G \<sigma>)" using locality_okD(1)[OF G] by simp
  with told have card: "card (told G ?\<sigma>) = Suc (card (told G \<sigma>))" by simp
  have "filter_mset (\<lambda>m. snd m = LReply 1) (mset (announces G ws)) = {#}" for ws by (induction ws) auto
  from this[of "if forwards E G v then Lg_kids G v else []"] have rep: "replies (M + mset as) = Suc (replies (Ln_msgs \<sigma>))"
    unfolding s'(1) m mset_append filter_union_mset by simp
  have kids: "w \<in> insert v (told G \<sigma>) \<or> (w, LAnnounce (Lg_index G)) \<in># M + mset as"
    if "u \<in> insert v (told G \<sigma>)" "forwards E G u" "w \<in> set (Lg_kids G u)" for u w
    using locality_invD(5)[OF I, of u w] that by (auto simp: m s'(1))
  have msgs: "x = (?r, LReply 1) \<or> (\<exists>w \<in> reached E G. x = (w, LAnnounce (Lg_index G)))" if "x \<in># M + mset as" for x
    using locality_invD(3)[OF I, of x] that reached.reached_kid[OF v(1)] by (auto simp: m s'(1) split: if_splits)
  show ?thesis
    unfolding locality_inv_def Let_def told(1)[symmetric]
  proof (intro conjI)
    show "int (replies (Ln_msgs ?\<sigma>)) + Count (Ln_state ?\<sigma> ?r) = int (card (told G ?\<sigma>))"
      using locality_invD(4)[OF I] rep card r by simp
  qed (use r s'(2) v(1) told(1) kids msgs locality_invD(1,2,6-9)[OF I] in auto)
qed

lemma locality_step_inv:
  assumes step: "locality_step E \<sigma> \<sigma>'" and G: "locality_ok E G" and I: "locality_inv E G \<sigma>"
  shows "locality_inv E G \<sigma>'"
  using step
proof cases
  case (locality_deliver v m M s' as)
  then have "(v, m) \<in># Ln_msgs \<sigma>" by simp
  with locality_invD(3)[OF I] consider "v = Lg_root G" "m = LReply 1" | "v \<in> reached E G" "m = LAnnounce (Lg_index G)" by blast
  then show ?thesis
  proof cases
    case 1
    then show ?thesis using locality_inv_reply[OF G I] locality_deliver by simp
  next
    case 2
    show ?thesis
    proof (cases "MsgReceived (Ln_state \<sigma> v)")
      case True
      then have "s' = Ln_state \<sigma> v" "as = []" using 2 locality_deliver by (simp_all add: HandleAnnounce_def)
      moreover have "v \<in> told G \<sigma>" using True reached_nodes[OF 2(1) G] by simp
      ultimately show ?thesis using locality_inv_remove[OF I, of v "Lg_index G" M] 2 locality_deliver(1,2)
        by (cases \<sigma>) simp
    qed (use 2 locality_deliver locality_inv_announce[OF G I] in simp)
  qed
next
  case (locality_drop v m M)
  then have "(v, m) \<in># Ln_msgs \<sigma>" by simp
  with locality_invD(3)[OF I] no_reply_when_done(3)[OF G I] locality_drop(3)
  have v: "v \<in> reached E G" "m = LAnnounce (Lg_index G)" by blast+
  then have "v \<in> told G \<sigma>" using locality_invD(7)[OF I _ locality_drop(3)] reached_nodes[OF v(1) G] by simp
  then show ?thesis using locality_inv_remove[OF I, of v "Lg_index G" M] v locality_drop by (cases \<sigma>) simp
qed

interpretation multicast: invariant_system "locality_init E (Lg_root G)" "locality_step E" "\<lambda>\<sigma>. locality_ok E G \<longrightarrow> locality_inv E G \<sigma>"
  for E G
  by unfold_locales (auto intro: locality_init_inv locality_step_inv)

subsection \<open>Progress\<close>

lemma locality_progress:
  assumes G: "locality_ok E G" and I: "locality_inv E G \<sigma>" and "Ln_msgs \<sigma> \<noteq> {#}"
  shows "\<exists>\<sigma>'. locality_step E \<sigma> \<sigma>'"
proof -
  obtain v m M where m: "Ln_msgs \<sigma> = add_mset (v, m) M" using assms(3) by (metis multiset_cases prod.exhaust)
  then have "(v, m) \<in># Ln_msgs \<sigma>" by simp
  with locality_invD(3)[OF I] consider "v = Lg_root G" "m = LReply 1" | "v \<in> reached E G" "m = LAnnounce (Lg_index G)" by blast
  then have "\<exists>s' as. handle_locality (E v) m (Ln_state \<sigma> v) = Inr (s', as)"
  proof cases
    case 2
    then show ?thesis
      using HandleAnnounce_ok[OF G reached_nodes[OF 2(1) G], of "Ln_state \<sigma> v"] locality_invD(1)[OF I]
      by (cases "MsgReceived (Ln_state \<sigma> v)") (auto simp: HandleAnnounce_def)
  qed (auto simp: HandleReply_ok[OF G])
  then show ?thesis using m by (cases "Lp_done (Ln_state \<sigma> v)") (blast intro: locality_step.intros)+
qed

text \<open>The messages under way, and those the nodes not yet told can still send.\<close>

definition locality_measure :: "locality_graph \<Rightarrow> locality_net \<Rightarrow> nat" where
  "locality_measure G \<sigma> = size (Ln_msgs \<sigma>) + (\<Sum>v \<in> Lg_nodes G - told G \<sigma>. Suc (length (Lg_kids G v)))"

lemma locality_step_measure:
  assumes step: "locality_step E \<sigma> \<sigma>'" and G: "locality_ok E G" and I: "locality_inv E G \<sigma>"
  shows "locality_measure G \<sigma>' < locality_measure G \<sigma>"
  using step
proof cases
  case (locality_deliver v m M s' as)
  then have "(v, m) \<in># Ln_msgs \<sigma>" by simp
  with locality_invD(3)[OF I] consider "v = Lg_root G" "m = LReply 1" | "v \<in> reached E G" "m = LAnnounce (Lg_index G)" by blast
  then consider (same) "MsgReceived s' = MsgReceived (Ln_state \<sigma> v)" "as = []"
    | (new) "v \<in> Lg_nodes G" "v \<notin> told G \<sigma>" "MsgReceived s'" "length as \<le> Suc (length (Lg_kids G v))"
  proof cases
    case 1
    then show ?thesis using that(1) locality_deliver(4) by (auto simp: HandleReply_ok[OF G] Let_def)
  next
    case 2
    note V = reached_nodes[OF 2(1) G]
    show ?thesis
    proof (cases "MsgReceived (Ln_state \<sigma> v)")
      case True
      then show ?thesis using that(1) 2 locality_deliver(4) by (simp add: HandleAnnounce_def)
    next
      case False
      then have "v \<noteq> Lg_root G" using locality_invD(1)[OF I] by auto
      from HandleAnnounce_ok[OF G V False this] show ?thesis using that(2) 2 V False locality_deliver(4) by auto
    qed
  qed
  then show ?thesis
  proof cases
    case same
    then have "told G \<sigma>' = told G \<sigma>" using locality_deliver(1) by auto
    then show ?thesis using same locality_deliver(1,2) by (simp add: locality_measure_def)
  next
    case new
    then have "told G \<sigma>' = insert v (told G \<sigma>)" using locality_deliver(1) by auto
    then have "Lg_nodes G - told G \<sigma> = insert v (Lg_nodes G - told G \<sigma>')" "v \<notin> Lg_nodes G - told G \<sigma>'" using new by auto
    moreover have "finite (Lg_nodes G - told G \<sigma>')" using locality_okD(1)[OF G] by simp
    ultimately have "(\<Sum>v \<in> Lg_nodes G - told G \<sigma>. Suc (length (Lg_kids G v)))
        = Suc (length (Lg_kids G v)) + (\<Sum>v \<in> Lg_nodes G - told G \<sigma>'. Suc (length (Lg_kids G v)))"
      by (simp only: sum.insert not_False_eq_True)
    then show ?thesis using new(4) locality_deliver(1,2) by (simp add: locality_measure_def)
  qed
qed (simp add: locality_measure_def)

lemma locality_run_measure:
  assumes "locality_ok E G" "(locality_step E ^^ n) \<sigma> \<sigma>'" "locality_inv E G \<sigma>"
  shows "n + locality_measure G \<sigma>' \<le> locality_measure G \<sigma>" "locality_inv E G \<sigma>'"
proof -
  have "n + locality_measure G \<sigma>' \<le> locality_measure G \<sigma> \<and> locality_inv E G \<sigma>'"
    using assms(2)
  proof (induction n arbitrary: \<sigma>')
    case (Suc n)
    then obtain \<tau> where \<tau>: "(locality_step E ^^ n) \<sigma> \<tau>" "locality_step E \<tau> \<sigma>'" by auto
    then show ?case
      using Suc.IH[OF \<tau>(1)] locality_step_measure[OF \<tau>(2) assms(1)] locality_step_inv[OF \<tau>(2) assms(1)] by force
  qed (use assms(3) in simp)
  then show "n + locality_measure G \<sigma>' \<le> locality_measure G \<sigma>" "locality_inv E G \<sigma>'" by blast+
qed

subsection \<open>Properties of the multicast\<close>

lemma multicast_reached:
  assumes "locality_ok E G" "reach (locality_init E (Lg_root G)) (locality_step E) \<sigma>"
  shows "locality_inv E G \<sigma>"
  using multicast.reachable_inv[OF assms(2)] assms(1) by blast

lemma quiet_told:
  assumes G: "locality_ok E G" and I: "locality_inv E G \<sigma>" and "Ln_msgs \<sigma> = {#}"
  shows "told G \<sigma> = reached E G"
proof
  show "reached E G \<subseteq> told G \<sigma>"
  proof
    fix v assume "v \<in> reached E G"
    then show "v \<in> told G \<sigma>"
    proof induction
      case (reached_kid u w)
      from locality_invD(5)[OF I reached_kid.IH reached_kid.hyps(2,3)] show ?case using assms(3) by simp
    qed (use locality_invD(1)[OF I] locality_okD(2)[OF G] in simp)
  qed
qed (rule locality_invD(2)[OF I])

text \<open>C19: The count of the multicast is right: a count that the root reports is the number of all nodes
  and every node has then heard the announcement (a root without children reports itself at
  once); and when no message is under way, exactly the nodes that are reached over nodes that
  are alive have heard it, the root has counted them, and it has reported exactly when they are
  all nodes.\<close>

theorem multicast_count:
  assumes "locality_ok E G" "reach (locality_init E (Lg_root G)) (locality_step E) \<sigma>" "Lg_kids G (Lg_root G) \<noteq> []"
  shows "(\<forall>n \<in> set (TotalCount (Ln_state \<sigma> (Lg_root G))). n = int (card (Lg_nodes G)) \<and> told G \<sigma> = Lg_nodes G)
    \<and> (Ln_msgs \<sigma> = {#} \<longrightarrow> told G \<sigma> = reached E G \<and> Count (Ln_state \<sigma> (Lg_root G)) = int (card (reached E G))
         \<and> TotalCount (Ln_state \<sigma> (Lg_root G)) = (if reached E G = Lg_nodes G then [int (card (Lg_nodes G))] else []))"
proof -
  let ?r = "Lg_root G"
  note I = multicast_reached[OF assms(1,2)] and fin = locality_okD(1)[OF assms(1)]
  have T: "TotalCount (Ln_state \<sigma> ?r) = (if Count (Ln_state \<sigma> ?r) = int (card (Lg_nodes G)) then [int (card (Lg_nodes G))] else [])"
    using locality_invD(6)[OF I] assms(3) by simp
  have "told G \<sigma> = Lg_nodes G" if "Count (Ln_state \<sigma> ?r) = int (card (Lg_nodes G))"
  proof -
    have "card (Lg_nodes G) \<le> card (told G \<sigma>)" using locality_invD(4)[OF I] that by linarith
    then show ?thesis by (intro card_seteq[OF fin]) auto
  qed
  moreover have "told G \<sigma> = reached E G \<and> Count (Ln_state \<sigma> ?r) = int (card (reached E G))" if "Ln_msgs \<sigma> = {#}"
    using quiet_told[OF assms(1) I that] locality_invD(4)[OF I] that by simp
  moreover have "reached E G \<subseteq> Lg_nodes G" by (rule subsetI) (rule reached_nodes[OF _ assms(1)])
  then have "card (reached E G) = card (Lg_nodes G) \<longleftrightarrow> reached E G = Lg_nodes G" using card_subset_eq[OF fin] by metis
  moreover define A where "A = told G \<sigma>"
  ultimately show ?thesis
    unfolding T A_def[symmetric] by (cases "Count (Ln_state \<sigma> ?r) = int (card (Lg_nodes G))") simp_all
qed

text \<open>C27: The multicast ends and no handler panics: as long as a message is under way it can be
  delivered, and no order of deliveries takes more than \<open>n + d - 1\<close> of them, for \<open>n\<close> nodes
  and \<open>d\<close> the sum of the numbers of their children.\<close>

theorem multicast_ends:
  assumes "locality_ok E G" "locality_init E (Lg_root G) \<sigma>" "(locality_step E ^^ n) \<sigma> \<sigma>'"
  shows "(Ln_msgs \<sigma>' \<noteq> {#} \<longrightarrow> (\<exists>\<sigma>''. locality_step E \<sigma>' \<sigma>''))
    \<and> n + 1 \<le> card (Lg_nodes G) + (\<Sum>v \<in> Lg_nodes G. length (Lg_kids G v))"
proof -
  let ?r = "Lg_root G"
  note R = locality_run_measure[OF assms(1,3) locality_init_inv[OF assms(1,2)]] and r = locality_okD(2)[OF assms(1)]
  have fresh: "\<not> MsgReceived NewLocalityProtocol" by (simp add: NewLocalityProtocol_def)
  have \<sigma>: "told G \<sigma> = {?r}" "size (Ln_msgs \<sigma>) = length (Lg_kids G ?r)"
    using assms(2) r fresh by (auto simp: locality_init_def Lp_Start_ok[OF assms(1)])
  have fin: "finite (Lg_nodes G - {?r})" using locality_okD(1)[OF assms(1)] by simp
  have "insert ?r (Lg_nodes G - {?r}) = Lg_nodes G" using r by blast
  then have "(\<Sum>v \<in> Lg_nodes G. Suc (length (Lg_kids G v))) = Suc (length (Lg_kids G ?r)) + (\<Sum>v \<in> Lg_nodes G - {?r}. Suc (length (Lg_kids G v)))"
    using sum.insert[OF fin, of ?r "\<lambda>v. Suc (length (Lg_kids G v))"] by simp
  then have "Suc (locality_measure G \<sigma>) = (\<Sum>v \<in> Lg_nodes G. Suc (length (Lg_kids G v)))" by (simp add: locality_measure_def \<sigma>)
  also have "\<dots> = card (Lg_nodes G) + (\<Sum>v \<in> Lg_nodes G. length (Lg_kids G v))"    by (simp add: sum.distrib[of "\<lambda>v. 1" "\<lambda>v. length (Lg_kids G v)", simplified])
  finally show ?thesis using R(1) locality_progress[OF assms(1) R(2)] by auto
qed

subsection \<open>A multicast of two nodes\<close>

definition mc_node :: "nat \<Rightarrow> TreeNode" where
  "mc_node i = \<lparr>Identity = \<lparr>SI_ID = i, SI_String = itoa_nat i, SI_Host = [], SI_Public = []\<rparr>, RosterIndex = int i\<rparr>"

definition mc_kids :: "TreeNode \<Rightarrow> TreeNode list" where
  "mc_kids v = (if v = mc_node 0 then [mc_node 1] else [])"

definition mc_service :: Locality_Service where
  "mc_service =
     \<lparr>Ls_Nodes = \<lparr>All_nodes = map (\<lambda>i. \<lparr>Name = node_name (int i), IP = [], X = 0, Y = 0, Level = 0, ADist = [], PDist = [], Cluster = [],
          Bunch = [], OptimalCluster = [], OptimalBunch = [], Rings = [], NrOwnRings = 0, NodeIdentity = Some (Identity (mc_node i))\<rparr>) [0, 1],
        ServerIdentityToName = [(0, node_name 0), (1, node_name 1)], ClusterBunchDistances = (\<lambda>a b. 0), Links = (\<lambda>a b. [])\<rparr>,
      Ls_GraphTree = [\<lparr>ListOfNodes = map (\<lambda>v. \<lparr>Graph_Node = v, Children = mc_kids v, Graph_Parent = None\<rparr>) [mc_node 0, mc_node 1],
        Gt_Roster = [Some (Identity (mc_node 0)), Some (Identity (mc_node 1))]\<rparr>],
      Ls_BinaryTree = [\<lparr>Tree_Ptr = 7, Tree_List = [mc_node 0, mc_node 1]\<rparr>], alive = False,
      Ls_distances = (\<lambda>a b. 0)\<rparr>"

definition mc_env :: "TreeNode \<Rightarrow> Locality_Env" where
  "mc_env v = \<lparr>Le_own = v, Le_root = mc_node 0, Le_tree = 7, Le_roster = 2, Le_service = mc_service\<rparr>"

definition mc_graph :: locality_graph where
  "mc_graph = \<lparr>Lg_nodes = {mc_node 0, mc_node 1}, Lg_root = mc_node 0, Lg_kids = mc_kids, Lg_index = 0\<rparr>"

lemma mc_nodes: "mc_node 0 \<noteq> mc_node 1" "node_id (mc_node 0) \<noteq> node_id (mc_node 1)"
  by code_simp+

lemma mc_names: "GetByName (Ls_Nodes mc_service) (GetServerIdentityToName (Ls_Nodes mc_service) (Identity (mc_node i))) = Inr (Some i)" if "i < 2"
proof -
  have "i = 0 \<or> i = 1" using that by auto
  then show ?thesis
    using NodeNameToInt_node_name[of 0] NodeNameToInt_node_name[of 1]
    by (auto simp: GetByName_def GetServerIdentityToName_def mc_service_def mc_node_def map_get_def slice_get_def)
qed

lemma mc_ok: "locality_ok mc_env mc_graph"
proof -
  have "locality_lookups mc_env mc_graph v u" if "u \<in> {mc_node 0, mc_node 1}" for u v
    using that mc_names[of 0] mc_names[of 1] mc_nodes
    by (auto simp: locality_lookups_def mc_env_def mc_graph_def Ls_FromBinaryNodeToGraphNode_def Ls_FromGraphNodeToBinaryTreeNode_def)
      (auto simp: mc_service_def slice_get_def)
  moreover have "inj_on node_id {mc_node 0, mc_node 1}" using mc_nodes by (simp add: inj_on_def)
  moreover have "Ls_getIndex mc_service 7 = 0" by (simp add: mc_service_def Ls_getIndex_def)
  ultimately show ?thesis using mc_nodes by (simp add: locality_ok_def mc_graph_def mc_env_def mc_kids_def)
qed

lemma mc_run:
  "\<exists>\<sigma> \<sigma>'. locality_init mc_env (Lg_root mc_graph) \<sigma> \<and> (locality_step mc_env ^^ 2) \<sigma> \<sigma>' \<and> Ln_msgs \<sigma>' = {#}"
proof -
  obtain \<sigma> where \<sigma>: "locality_init mc_env (Lg_root mc_graph) \<sigma>" using Lp_Start_ok[OF mc_ok] by (auto simp: locality_init_def)
  have kids: "Lg_kids mc_graph (Lg_root mc_graph) = [mc_node 1]" "Lg_nodes mc_graph = {mc_node 0, mc_node 1}" "Lg_kids mc_graph (mc_node 1) = []"
    "Lg_root mc_graph = mc_node 0"
    using mc_nodes by (simp_all add: mc_graph_def mc_kids_def)
  note H = HandleAnnounce_ok[OF mc_ok, of "mc_node 1"]
  let ?s1 = "NewLocalityProtocol\<lparr>Lp_index := Lg_index mc_graph, MsgReceived := True\<rparr>"
  have m: "Ln_msgs \<sigma> = add_mset (mc_node 1, LAnnounce (Lg_index mc_graph)) {#}" "Ln_state \<sigma> (mc_node 1) = NewLocalityProtocol"
    "\<not> Lp_done (Ln_state \<sigma> (mc_node 0))"
    using \<sigma> kids mc_nodes Lp_Start_ok[OF mc_ok] by (auto simp: locality_init_def)
  have new: "\<not> Lp_done NewLocalityProtocol" by (simp add: NewLocalityProtocol_def)
  have "\<not> forwards mc_env mc_graph (mc_node 1)" using mc_nodes by (simp add: forwards_def mc_graph_def mc_env_def mc_service_def)
  then have s1: "HandleAnnounce (mc_env (mc_node 1)) (Lg_index mc_graph) NewLocalityProtocol = Inr (?s1, [(mc_node 0, LReply 1)])"
    using H[of NewLocalityProtocol] mc_nodes kids by (simp add: NewLocalityProtocol_def)
  have "locality_step mc_env \<sigma> \<lparr>Ln_state = (Ln_state \<sigma>)(mc_node 1 := ?s1), Ln_msgs = {#} + mset [(mc_node 0, LReply 1)]\<rparr>"
    (is "locality_step _ _ ?\<tau>")
    by (rule locality_step.locality_deliver[OF m(1)]) (use m(2) new s1 in simp_all)
  moreover obtain s where "HandleReply (mc_env (mc_node 0)) 1 (Ln_state ?\<tau> (mc_node 0)) = Inr (s, [])"
    using HandleReply_ok[OF mc_ok] kids by metis
  then have "locality_step mc_env ?\<tau> \<lparr>Ln_state = (Ln_state ?\<tau>)(mc_node 0 := s), Ln_msgs = {#} + mset []\<rparr>"
    using m(3) mc_nodes by (intro locality_step.locality_deliver[where m = "LReply 1"]) simp_all
  ultimately have "(locality_step mc_env ^^ 2) \<sigma> \<lparr>Ln_state = (Ln_state ?\<tau>)(mc_node 0 := s), Ln_msgs = {#} + mset []\<rparr>"
    by (auto simp: numeral_2_eq_2)
  then show ?thesis using \<sigma> by force
qed

lemma mc_reached: "reached mc_env mc_graph = {mc_node 0, mc_node 1}"
proof -
  have "mc_node 1 \<in> reached mc_env mc_graph"
    using reached.reached_kid[OF reached.reached_root, where G = mc_graph and E = mc_env]
    by (simp add: forwards_def) (simp add: mc_graph_def mc_kids_def)
  moreover have "mc_node 0 \<in> reached mc_env mc_graph" using reached.reached_root[of mc_graph mc_env] by (simp add: mc_graph_def)
  moreover have "reached mc_env mc_graph \<subseteq> Lg_nodes mc_graph" using reached_nodes[OF _ mc_ok] by blast
  ultimately show ?thesis by (auto simp: mc_graph_def)
qed

theorem multicast_count_witness:
  "\<exists>\<sigma>. reach (locality_init mc_env (Lg_root mc_graph)) (locality_step mc_env) \<sigma> \<and> TotalCount (Ln_state \<sigma> (mc_node 0)) = [2]"
proof -
  obtain \<sigma> \<sigma>' where \<sigma>: "locality_init mc_env (Lg_root mc_graph) \<sigma>" "(locality_step mc_env ^^ 2) \<sigma> \<sigma>'" "Ln_msgs \<sigma>' = {#}"
    using mc_run by blast
  then obtain \<tau> where "locality_step mc_env \<sigma> \<tau>" "locality_step mc_env \<tau> \<sigma>'" by (auto simp: numeral_2_eq_2)
  then have R: "reach (locality_init mc_env (Lg_root mc_graph)) (locality_step mc_env) \<sigma>'"
    using reach.reach_init[where init = "locality_init mc_env (Lg_root mc_graph)" and step = "locality_step mc_env", OF \<sigma>(1)]
    by (blast intro: reach.reach_step)
  have G: "Lg_root mc_graph = mc_node 0" "Lg_kids mc_graph (Lg_root mc_graph) \<noteq> []" "reached mc_env mc_graph = Lg_nodes mc_graph"
    "card (Lg_nodes mc_graph) = 2"
    using mc_nodes mc_reached by (simp_all add: mc_graph_def mc_kids_def)
  have "TotalCount (Ln_state \<sigma>' (mc_node 0)) = [2]"
    using multicast_count[OF mc_ok R G(2), THEN conjunct2, THEN mp, OF \<sigma>(3)] G by simp
  with R show ?thesis by blast
qed

theorem multicast_ends_witness:
  "\<exists>\<sigma>. locality_init mc_env (Lg_root mc_graph) \<sigma> \<and> (\<forall>n \<sigma>'. (locality_step mc_env ^^ n) \<sigma> \<sigma>' \<longrightarrow> n \<le> 2)"
proof -
  obtain \<sigma> where \<sigma>: "locality_init mc_env (Lg_root mc_graph) \<sigma>" using mc_run by blast
  have "n \<le> 2" if "(locality_step mc_env ^^ n) \<sigma> \<sigma>'" for n \<sigma>'
    using multicast_ends[OF mc_ok \<sigma> that] mc_nodes by (simp add: mc_graph_def mc_kids_def)
  with \<sigma> show ?thesis by blast
qed

end
