(* ===== verification/Locality_Experiment.thy ===== *)
theory Locality_Experiment
  imports Graph_Build Locality_Protocol Optim_Oracle
begin

text \<open>
  The experiment of tree\_experiment/service/localityservice.go: \<open>FTtest\<close> builds the locality graph,
  its rings, one graph tree of all nodes and the binary tree of its roster. Composed with the
  multicast: on the tree of a network whose nodes are all alive the root reports the number of all
  nodes.
\<close>

subsection \<open>Definitions\<close>

text \<open>The lookups of the service follow the pointers of a graph tree: a node of the store as they see it.\<close>

definition tree_node :: "tree_cell \<Rightarrow> TreeNode" where
  "tree_node c = \<lparr>Identity = the (Tc_identity c), RosterIndex = Tc_index c\<rparr>"

text \<open>The node behind the pointer \<open>k\<close>, with its neighbours. The field \<open>Parents\<close> of a graph tree is never read.\<close>

definition graph_node_at :: "graph_state \<Rightarrow> string \<Rightarrow> GraphNode" where
  "graph_node_at st k =
     (let nd = (\<lambda>j. tree_node (the (map_of (Gs_nodes st) j))); c = the (map_of (Gs_nodes st) k)
      in \<lparr>Graph_Node = nd k, Children = map nd (Tc_children c), Graph_Parent = map_option nd (Tc_parent c)\<rparr>)"

text \<open>\<open>Roster.GenerateBinaryTree\<close> is a parameter: \<open>bin k roster\<close> is the tree of its \<open>k\<close>-th call.\<close>

definition CreateBinaryTreeFromGraphTree ::
  "(nat \<Rightarrow> ServerIdentity option list \<Rightarrow> BinTree) \<Rightarrow> Rooted_GraphTree \<Rightarrow> BinTree list \<Rightarrow> BinTree list" where
  "CreateBinaryTreeFromGraphTree bin t trees = trees @ [bin (length trees) (Gt_Roster t)]"

definition FTtest ::
  "(nat \<Rightarrow> real) \<Rightarrow> (string list \<Rightarrow> string list) \<Rightarrow> graph_params \<Rightarrow> optim_params \<Rightarrow> (nat \<Rightarrow> ServerIdentity option list \<Rightarrow> BinTree)
    \<Rightarrow> nat \<Rightarrow> ServerIdentity \<Rightarrow> bool \<Rightarrow> int \<Rightarrow> bool \<Rightarrow> int \<Rightarrow> int \<Rightarrow> Locality_Service \<Rightarrow> Locality_Service option result" where
  "FTtest rand rng P OP bin fuel own RandomCoordsLevels Levels Optimized OmtimisationLevel OptType s =
     res_bind (CreateLocalityGraph rand (Ls_Nodes s) RandomCoordsLevels RandomCoordsLevels Levels) (\<lambda>g1.
     res_bind (GenerateRings rng g1) (\<lambda>g2.
     let myname = GetServerIdentityToName g2 own
     in res_bind (if Optimized then OptimizeGraph OP g2 myname OmtimisationLevel OptType fuel else Inr (Some g2)) (\<lambda>r1.
        case r1 of
          None \<Rightarrow> Inr None
        | Some g3 \<Rightarrow> res_bind (CreateOnetLPTree P g3 myname fuel) (\<lambda>r2.
            case r2 of
              None \<Rightarrow> Inr None
            | Some T \<Rightarrow>
                let trees = Ls_GraphTree s @ [\<lparr>ListOfNodes = map (graph_node_at (Lt_nodes T)) (Lt_list T), Gt_Roster = Lt_roster T\<rparr>]
                in Inr (Some (s\<lparr>Ls_Nodes := g3, Ls_GraphTree := trees,
                     Ls_BinaryTree := fold (CreateBinaryTreeFromGraphTree bin) trees (Ls_BinaryTree s),
                     Ls_distances := Lt_distances T\<rparr>))))))"

text \<open>What \<open>GenerateBinaryTree\<close> is documented to do: every server of a roster without \<open>nil\<close> entries is in the
  tree, the first one as the root.\<close>

definition binary_tree_ok :: "(nat \<Rightarrow> ServerIdentity option list \<Rightarrow> BinTree) \<Rightarrow> bool" where
  "binary_tree_ok bin \<longleftrightarrow> (\<forall>k r rs. None \<notin> set (r # rs) \<longrightarrow> mset (map (Some \<circ> Identity) (Tree_List (bin k (r # rs)))) = mset (r # rs)
     \<and> map (Some \<circ> Identity) (take 1 (Tree_List (bin k (r # rs)))) = [r])"

subsection \<open>Rings do not matter to the graph\<close>

lemma rings_done_node:
  assumes "p < nr_nodes g"
  shows "Level (node_at (rings_done rng g k) p) = Level (node_at g p)" "Name (node_at (rings_done rng g k) p) = Name (node_at g p)"
    "ADist (node_at (rings_done rng g k) p) = ADist (node_at g p)" "PDist (node_at (rings_done rng g k) p) = PDist (node_at g p)"
    "X (node_at (rings_done rng g k) p) = X (node_at g p)" "Y (node_at (rings_done rng g k) p) = Y (node_at g p)"
    "Bunch (node_at (rings_done rng g k) p) = Bunch (node_at g p)" "Cluster (node_at (rings_done rng g k) p) = Cluster (node_at g p)"
    "OptimalBunch (node_at (rings_done rng g k) p) = OptimalBunch (node_at g p)"
    "OptimalCluster (node_at (rings_done rng g k) p) = OptimalCluster (node_at g p)"
    "NodeIdentity (node_at (rings_done rng g k) p) = NodeIdentity (node_at g p)"
  using assms by (simp_all add: ringed_def)

lemma rings_done_frame [simp]:
  "ServerIdentityToName (rings_done rng g k) = ServerIdentityToName g" "Links (rings_done rng g k) = Links g"
  "ClusterBunchDistances (rings_done rng g k) = ClusterBunchDistances g"
  by (simp_all add: rings_done_def)

lemma rings_done_dist:
  "a < nr_nodes g \<Longrightarrow> b < nr_nodes g \<Longrightarrow> node_dist (rings_done rng g k) a b = node_dist g a b"
  by (intro ComputeDist_cong rings_done_node)

lemma rings_done_graph:
  assumes "locality_graph levels g" "levels_ok levels g"
  shows "locality_graph levels (rings_done rng g k)" "levels_ok levels (rings_done rng g k)"
proof -
  let ?h = "rings_done rng g k"
  note n = rings_done_node[of _ g rng k] and d = rings_done_dist[of _ g _ rng k]
  have l: "\<exists>p < nr_nodes g. Level (node_at ?h p) = levels - 1" using assms(2) n(1) by (fastforce simp: levels_ok_def simp del: rings_done_simps(2))
  show "levels_ok levels ?h" using assms(2) l by (simp add: levels_ok_def n(1) d del: rings_done_simps(2))
  have i: "indexed (All_nodes ?h)" using assms(1) by (simp add: locality_graph_def indexed_def n(2) del: rings_done_simps(2))
  have near: "nearest_ok ?h p j = nearest_ok g p j" if "p < nr_nodes g" for p j
    using that by (auto simp: nearest_ok_def n d simp del: rings_done_simps(2))
  have b: "bunch_rel ?h = bunch_rel g" "cluster_rel ?h = cluster_rel g"
    by (auto simp: bunch_rel_def cluster_rel_def n simp del: rings_done_simps(2))
  have "in_bunch levels ?h a c = in_bunch levels g a c" for a c
    by (auto simp: in_bunch_def bunch_cond_def n d simp del: rings_done_simps(2))
  moreover have "table_ok ?h = table_ok g" by (simp add: table_ok_def b d cong: if_cong split del: if_split del: rings_done_simps(2))
  ultimately show "locality_graph levels ?h"
    using assms(1) i near b rings_done_names[of rng g k] by (simp add: locality_graph_def n del: rings_done_simps(2))
qed


lemma rings_done_names_ok:
  assumes "graph_ok P g"
  shows "graph_ok P (rings_done rng g k)" "names (rings_done rng g k) = names g" "identity_of (rings_done rng g k) = identity_of g"
proof -
  note n = rings_done_node[of _ g rng k]
  note s = same_names[OF rings_done_simps(1)[of rng g k] rings_done_frame(1)[of rng g k] graph_okD(1)[OF assms] n(2) n(11)]
  show "names (rings_done rng g k) = names g" "identity_of (rings_done rng g k) = identity_of g" using s(2,3) by simp_all
  have "\<exists>w \<in> set (All_nodes g). OptimalCluster v = OptimalCluster w \<and> OptimalBunch v = OptimalBunch w" if "v \<in> set (All_nodes (rings_done rng g k))" for v
    using that n(9,10) by (metis in_set_conv_nth rings_done_simps(1))
  then show "graph_ok P (rings_done rng g k)" using assms s by (fastforce simp: graph_ok_def)
qed

subsection \<open>The tables of the experiment\<close>

lemma find_graph_node_map:
  assumes "k \<in> set ks" "\<And>j. j \<in> set ks \<Longrightarrow> node_id (Graph_Node (f j)) = j"
  shows "find_graph_node (map f ks) k = Some (f k)"
  using assms
proof (induction ks)
  case (Cons j ks)
  then show ?case by (cases "j = k") auto
qed simp

lemma find_tree_node_nth:
  assumes "u \<in> set ts" "distinct (map node_id ts)"
  shows "find_tree_node ts (node_id u) = Some u"
  using assms by (induction ts) auto

text \<open>The nodes behind the pointers carry the identities of their names.\<close>

lemma graph_node_at_ok:
  assumes g: "graph_ok P g" "graph_inv False [] g st" "known st = key g ` names g" and a: "a \<in> names g"
  shows "Identity (Graph_Node (graph_node_at st (key g a))) = identity_of g a"
    "\<exists>bs. children_of st (key g a) = map (key g) bs \<and> set bs \<subseteq> names g
       \<and> map Identity (Children (graph_node_at st (key g a))) = map (identity_of g) bs"
proof -
  have id: "Identity (tree_node (the (map_of (Gs_nodes st) (key g b)))) = identity_of g b" if "b \<in> names g" for b
  proof -
    have "key g b \<in> known st" using g(3) that by simp
    then obtain c where c: "map_of (Gs_nodes st) (key g b) = Some c" by (auto simp: known_def)
    then show ?thesis using graph_invD[OF g(2,1) that c] by (simp add: tree_node_def graph_cell_def)
  qed
  then show "Identity (Graph_Node (graph_node_at st (key g a))) = identity_of g a" using a by (simp add: graph_node_at_def Let_def)
  have "set (children_of st (key g a)) \<subseteq> key g ` names g" using children_known[OF g(2)] g(3) by blast
  then have "children_of st (key g a) \<in> map (key g) ` lists (names g)" by (auto simp flip: lists_image)
  then obtain bs where bs: "children_of st (key g a) = map (key g) bs" "set bs \<subseteq> names g" by auto
  have "key g a \<in> known st" using g(3) a by simp
  then have "Tc_children (the (map_of (Gs_nodes st) (key g a))) = map (key g) bs" using bs(1) by (auto simp: known_def children_of_def)
  then show "\<exists>bs. children_of st (key g a) = map (key g) bs \<and> set bs \<subseteq> names g
       \<and> map Identity (Children (graph_node_at st (key g a))) = map (identity_of g) bs"
    using bs id by (intro exI[of _ bs]) (auto simp: graph_node_at_def Let_def)
qed

lemma binary_tree_nodes:
  assumes b: "binary_tree_ok bin" and g: "graph_ok P g" and ws: "mset (r # ws) = mset (map Name (All_nodes g))"
    and t: "t = bin k (map (Some \<circ> identity_of g) (r # ws))"
  shows "Tree_List t \<noteq> []" "Identity (hd (Tree_List t)) = identity_of g r" "distinct (map node_id (Tree_List t))"
    "Identity ` set (Tree_List t) = identity_of g ` names g" "length (Tree_List t) = nr_nodes g"
proof -
  let ?L = "Tree_List t"
  have B: "mset (map (Some \<circ> Identity) ?L) = mset (map (Some \<circ> identity_of g) (r # ws))" "map (Some \<circ> Identity) (take 1 ?L) = [Some (identity_of g r)]"
    using b[unfolded binary_tree_ok_def, rule_format, of "Some (identity_of g r)" "map (Some \<circ> identity_of g) ws" k] by (auto simp: t)
  from B(2) show "?L \<noteq> []" "Identity (hd ?L) = identity_of g r" by (cases ?L; simp)+
  have "image_mset the (mset (map (Some \<circ> Identity) ?L)) = image_mset the (image_mset (Some \<circ> identity_of g) (mset (r # ws)))" using B(1) by simp
  then have m: "mset (map Identity ?L) = mset (map (identity_of g) (map Name (All_nodes g)))"
    unfolding ws by (simp add: multiset.map_comp comp_def)
  from arg_cong[OF m, of set_mset] show "Identity ` set ?L = identity_of g ` names g" by (simp add: names_def image_comp)
  from arg_cong[OF m, of size] show "length ?L = nr_nodes g" by simp
  have "mset (map node_id ?L) = mset (map (key g) (map Name (All_nodes g)))"
    using arg_cong[OF m, of "image_mset SI_String"] by (simp add: multiset.map_comp comp_def)
  moreover have "distinct (map (key g) (map Name (All_nodes g)))"
    using distinct_names[OF graph_okD(1)[OF g]] graph_okD(2)[OF g] by (simp add: distinct_map comp_inj_on_iff names_def image_comp)
  ultimately show "distinct (map node_id ?L)" by (metis mset_eq_imp_distinct_iff)
qed

text \<open>The multicast runs on the first tree of the service, with all nodes alive.\<close>

definition experiment_graph :: "graph_state \<Rightarrow> BinTree \<Rightarrow> locality_graph" where
  "experiment_graph st t = \<lparr>Lg_nodes = set (Tree_List t), Lg_root = hd (Tree_List t),
     Lg_kids = (\<lambda>u. map (\<lambda>k. the (find_tree_node (Tree_List t) k)) (children_of st (node_id u))), Lg_index = 0\<rparr>"

definition experiment_env :: "Locality_Service \<Rightarrow> TreeNode \<Rightarrow> Locality_Env" where
  "experiment_env s v = \<lparr>Le_own = v, Le_root = hd (Tree_List (hd (Ls_BinaryTree s))), Le_tree = Tree_Ptr (hd (Ls_BinaryTree s)),
     Le_roster = length (Gt_Roster (hd (Ls_GraphTree s))), Le_service = s\<lparr>alive := True\<rparr>\<rparr>"

lemma experiment_lookups:
  assumes g: "graph_ok P g" "graph_inv False [] g st" "known st = key g ` names g" and ks: "set ks = key g ` names g"
    and t: "distinct (map node_id (Tree_List t))" "Identity ` set (Tree_List t) = identity_of g ` names g"
    and s: "Ls_Nodes s = g" "Ls_GraphTree s = [\<lparr>ListOfNodes = map (graph_node_at st) ks, Gt_Roster = R\<rparr>]" "Ls_BinaryTree s = [t]"
    and u: "u \<in> set (Tree_List t)"
  shows "locality_lookups (experiment_env s) (experiment_graph st t) v u"
    "set (Lg_kids (experiment_graph st t) u) = {w \<in> set (Tree_List t). node_id w \<in> set (children_of st (node_id u))}"
proof -
  obtain a where a: "a \<in> names g" "Identity u = identity_of g a" using t(2) u by blast
  note N = graph_node_at_ok[OF g]
  obtain bs where bs: "children_of st (key g a) = map (key g) bs" "set bs \<subseteq> names g"
    "map Identity (Children (graph_node_at st (key g a))) = map (identity_of g) bs" using N(2)[OF a(1)] by blast
  have node: "\<exists>w \<in> set (Tree_List t). find_tree_node (Tree_List t) (key g b) = Some w \<and> Identity w = identity_of g b" if "b \<in> names g" for b
  proof -
    have "identity_of g b \<in> Identity ` set (Tree_List t)" unfolding t(2) using that by (rule imageI)
    then obtain w where "w \<in> set (Tree_List t)" "Identity w = identity_of g b" by auto
    then show ?thesis using find_tree_node_nth[OF _ t(1), of w] by auto
  qed
  have kids: "map Identity (Lg_kids (experiment_graph st t) u) = map (identity_of g) bs"
    using bs(2) node by (fastforce simp: experiment_graph_def a(2) bs(1))
  have "find_graph_node (map (graph_node_at st) ks) (key g a) = Some (graph_node_at st (key g a))"
    using N(1) a(1) ks by (intro find_graph_node_map) auto
  moreover obtain p where "GetByName g a = Inr (Some p)" using names_cases[OF graph_okD(1)[OF g(1)] a(1)] by metis
  ultimately show "locality_lookups (experiment_env s) (experiment_graph st t) v u"
    using find_tree_node_nth[OF u t(1)] kids bs(3) N(1)[OF a(1)] a(2) identity_of_ok(2)[OF graph_okD(1)[OF g(1)] a(1)] s
    by (auto simp: locality_lookups_def experiment_env_def Ls_FromBinaryNodeToGraphNode_def Ls_FromGraphNodeToBinaryTreeNode_def slice_get_def)
      (simp_all add: experiment_graph_def)
  show "set (Lg_kids (experiment_graph st t) u) = {w \<in> set (Tree_List t). node_id w \<in> set (children_of st (node_id u))}"
  proof (intro set_eqI iffI)
    fix w assume "w \<in> set (Lg_kids (experiment_graph st t) u)"
    then obtain b where "b \<in> set bs" "w = the (find_tree_node (Tree_List t) (key g b))" by (auto simp: experiment_graph_def a(2) bs(1))
    moreover from this(1) obtain x where "x \<in> set (Tree_List t)" "find_tree_node (Tree_List t) (key g b) = Some x" "Identity x = identity_of g b"
      using node bs(2) by blast
    ultimately show "w \<in> {w \<in> set (Tree_List t). node_id w \<in> set (children_of st (node_id u))}" by (simp add: a(2) bs(1))
  next
    fix w assume w: "w \<in> {w \<in> set (Tree_List t). node_id w \<in> set (children_of st (node_id u))}"
    then have "find_tree_node (Tree_List t) (node_id w) = Some w" using find_tree_node_nth[OF _ t(1)] by simp
    then have "w = the (find_tree_node (Tree_List t) (node_id w))" by simp
    then show "w \<in> set (Lg_kids (experiment_graph st t) u)" using w by (auto simp: experiment_graph_def)
  qed
qed

text \<open>A node of the top level is linked with all others, so the announcement reaches every node.\<close>

lemma experiment_ok:
  assumes g: "graph_ok P g" "graph_inv False [] g st" "known st = key g ` names g" and ks: "set ks = key g ` names g"
    and t: "Tree_List t \<noteq> []" "distinct (map node_id (Tree_List t))" "Identity ` set (Tree_List t) = identity_of g ` names g"
    and s: "Ls_Nodes s = g" "Ls_GraphTree s = [\<lparr>ListOfNodes = map (graph_node_at st) ks, Gt_Roster = R\<rparr>]" "Ls_BinaryTree s = [t]"
    and R: "length R = nr_nodes g" "length (Tree_List t) = nr_nodes g"
    and lg: "locality_graph levels g" "2 \<le> levels" "q < nr_nodes g" "Level (node_at g q) = levels - 1"
    and links: "\<forall>a < nr_nodes g. \<forall>b < nr_nodes g. key g (Name (node_at g b)) \<in> set (children_of st (key g (Name (node_at g a))))
         \<longleftrightarrow> (a, b) \<in> bunch_rel g \<or> (b, a) \<in> bunch_rel g"
  shows "locality_ok (experiment_env s) (experiment_graph st t)" "reached (experiment_env s) (experiment_graph st t) = set (Tree_List t)"
    "Lg_kids (experiment_graph st t) (hd (Tree_List t)) = [] \<Longrightarrow> nr_nodes g = 1"
proof -
  let ?E = "experiment_env s" and ?G = "experiment_graph st t" and ?L = "set (Tree_List t)" and ?r = "hd (Tree_List t)"
  note L = experiment_lookups[OF g ks t(2,3) s]
  have pos: "\<exists>i < nr_nodes g. Identity u = identity_of g (Name (node_at g i))" if "u \<in> ?L" for u
    using t(3) that names_nth by (metis image_iff)
  have kid: "w \<in> set (Lg_kids ?G u) \<longleftrightarrow> (i, j) \<in> bunch_rel g \<or> (j, i) \<in> bunch_rel g"
    if "u \<in> ?L" "w \<in> ?L" "i < nr_nodes g" "Identity u = identity_of g (Name (node_at g i))" "j < nr_nodes g" "Identity w = identity_of g (Name (node_at g j))" for u w i j
    using L(2)[OF that(1)] links that by simp
  have irr: "u \<notin> set (Lg_kids ?G u)" if "u \<in> ?L" for u using pos[OF that] kid[OF that that] bunch_irrefl[OF lg(1)] by blast
  have inj: "inj_on node_id ?L" "card ?L = length R" using t(2) R by (simp_all add: distinct_map distinct_card)
  show ok: "locality_ok ?E ?G"
    unfolding locality_ok_def using t(1) inj irr L s(2,3)
    by (auto simp: experiment_graph_def experiment_env_def Ls_getIndex_def)
  have "identity_of g (Name (node_at g q)) \<in> Identity ` ?L" unfolding t(3) using lg(3) by (simp add: names_def)
  then obtain x where x: "x \<in> ?L" "Identity x = identity_of g (Name (node_at g q))" by auto
  have top: "w \<in> set (Lg_kids ?G x) \<and> x \<in> set (Lg_kids ?G w)" if w: "w \<in> ?L" "w \<noteq> x" for w
  proof -
    obtain i where i: "i < nr_nodes g" "Identity w = identity_of g (Name (node_at g i))" using pos[OF w(1)] by blast
    then have "i \<noteq> q" using inj_onD[OF inj(1) _ w(1) x(1)] x(2) w(2) by auto
    then show ?thesis using top_level_bunch[OF lg(1,2,3,4) i(1)] kid[OF x(1) w(1) lg(3) x(2) i] kid[OF w(1) x(1) i lg(3) x(2)] by blast
  qed
  have r: "?r \<in> ?L" "Lg_root ?G = ?r" using t(1) by (simp_all add: experiment_graph_def)
  have fw: "forwards ?E ?G u" for u by (simp add: forwards_def experiment_env_def)
  note step = reached.reached_kid[OF _ fw]
  have "?r \<in> reached ?E ?G" using reached.reached_root[of ?G ?E] r(2) by simp
  then have xr: "x \<in> reached ?E ?G" using top[OF r(1)] step by (cases "?r = x") auto
  then have "?L \<subseteq> reached ?E ?G" using top step[OF xr] by blast
  then show "reached ?E ?G = ?L" using reached_nodes[OF _ ok] by (auto simp: experiment_graph_def)
  show "nr_nodes g = 1" if "Lg_kids ?G ?r = []"
  proof -
    have "?r = x" using top[OF r(1)] that by auto
    then have "?L \<subseteq> {?r}" using top that by auto
    with r(1) have "?L = {?r}" by blast
    then show ?thesis using inj(2) R(1) by simp
  qed
qed

subsection \<open>Properties\<close>

lemma all_reached_count:
  assumes "locality_ok E G" "reach (locality_init E (Lg_root G)) (locality_step E) \<sigma>" "reached E G = Lg_nodes G"
    and "Lg_kids G (Lg_root G) = [] \<Longrightarrow> card (Lg_nodes G) = 1"
  shows "if Ln_msgs \<sigma> = {#} then TotalCount (Ln_state \<sigma> (Lg_root G)) = [int (card (Lg_nodes G))] else \<exists>\<sigma>'. locality_step E \<sigma> \<sigma>'"
proof (cases "Ln_msgs \<sigma> = {#}")
  case True
  note I = multicast_reached[OF assms(1,2)]
  show ?thesis using locality_invD(4,6)[OF I] quiet_told[OF assms(1) I True] assms(3,4) True by simp
qed (use locality_progress[OF assms(1) multicast_reached[OF assms(1,2)]] in simp)


subsection \<open>Four nodes in a row\<close>

definition row_bin :: "nat \<Rightarrow> ServerIdentity option list \<Rightarrow> BinTree" where
  "row_bin k roster = \<lparr>Tree_Ptr = k, Tree_List = map (\<lambda>sid. \<lparr>Identity = the sid, RosterIndex = 0\<rparr>) roster\<rparr>"

definition row_service :: Locality_Service where
  "row_service = \<lparr>Ls_Nodes = row_nodes 4, Ls_GraphTree = [], Ls_BinaryTree = [], alive = False, Ls_distances = (\<lambda>a b. 0)\<rparr>"

lemma row_bin_ok: "binary_tree_ok row_bin"
proof -
  have "map (Some \<circ> Identity) (Tree_List (row_bin k xs)) = xs" if "None \<notin> set xs" for k xs
    using that by (auto simp: row_bin_def comp_def intro!: map_idI) (metis option.collapse)
  moreover have "map (Some \<circ> Identity) (take 1 (Tree_List (row_bin k (r # rs)))) = [r]" if "r \<noteq> None" for k r rs
    using that by (simp add: row_bin_def)
  ultimately show ?thesis unfolding binary_tree_ok_def by (metis list.set_intros(1))
qed


end
