(* ===== verification/Spec2Isabelle.thy ===== *)
theory Spec2Isabelle
  imports Optim_Oracle Nyle_Setup Simplechain Bft_Refusal Node_Files Locality_Experiment
begin

text \<open>
  \<^bold>\<open>Nyle: locality-preserving consensus rings.\<close>
  A verification of the Go packages \<open>gentree\<close>, \<open>nyle\<close> (with \<open>simplechain\<close>, \<open>cosi_service\<close>
  and \<open>simulation\<close>) and \<open>tree_experiment\<close>.

  \<^bold>\<open>The program.\<close> A set of servers with coordinates and levels is turned into a locality graph:
  every node gets a \<^emph>\<open>bunch\<close> and a \<^emph>\<open>cluster\<close> of links. Over that graph a distance oracle estimates
  distances, and for every root and every radius a tree of the nodes within the radius, a ring, is
  built. On the rings of a node runs a collective signing protocol in two rounds (prepare and
  commit), which floods a graph tree and aggregates commitments and responses along the tree the
  flooding leaves behind. The service of a node runs the protocol on its own rings and asks the nodes
  of its bunch to do the same on theirs. A small chain stores transactions and votes. The tree
  experiment builds one graph tree of all nodes and counts the nodes a multicast reaches.

  \<^bold>\<open>Theories and sources.\<close>

  \<^item> \<open>Go_Prelude\<close>: outcomes of calls (value, returned error, panic), loops that may fail, slices, maps,
    orders of \<open>range\<close>, reachable states. Its locales are \<open>go_map\<close> (interpreted on association lists)
    and \<open>invariant_system\<close> (interpreted on the transition systems of the protocols).
  \<^item> \<open>Simplechain\<close>: nyle/simplechain. Transactions, votes, the in-memory database and the chain. The
    locale of the database contract is interpreted on \<open>MemoryDB\<close>; the chain refines a write-once
    ledger.
  \<^item> \<open>Locality_Nodes\<close>, \<open>Locality_Graph\<close>: gentree.go. Node names, lookups, the ordering of
    \<open>Setup\<close>, \<open>ComputeDist\<close> (a pseudometric, by interpretation), \<open>CreateLocalityGraph\<close>. A pointer to
    a node is its position in the slice \<open>All\<close>.
  \<^item> \<open>Distance_Oracle\<close>: Save.go, \<open>approxDistance\<close> and \<open>AproximateDistanceOracle\<close>.
  \<^item> \<open>Node_Rings\<close>: gentree.go, radiuses and ring names, \<open>GenerateRings\<close>.
  \<^item> \<open>Graph_Bridges\<close>, \<open>Graph_Optim\<close>, \<open>Optim_Oracle\<close>: Save.go, \<open>GetBridges\<close>, \<open>RemoveLinks\<close>,
    \<open>UpdateDistance\<close>, and \<open>OptimizeGraph\<close> of gentree.go.
  \<^item> \<open>Graph_Trees\<close>, \<open>Graph_Links\<close>, \<open>Ring_Filter\<close>, \<open>Graph_Build\<close>: gentree.go,
    \<open>CreateAndSetChildren\<close>, \<open>dfsBuildGraph\<close>, \<open>Filter\<close>, \<open>buildRootedLocalityGraph\<close>,
    \<open>CreateOnetLPTree\<close> and the body of \<open>CreateOnetRings\<close>.
  \<^item> \<open>Ring_Tree\<close>, \<open>Ring_Build\<close>, \<open>Onet_Rings\<close>: gentree.go, \<open>dijkstra\<close>, \<open>dfsBuildTree\<close>,
    \<open>buildOnetTree\<close>, and the loop over the radiuses of \<open>CreateOnetRings\<close>.
  \<^item> \<open>Bft_Signature\<close>: cosi\_service/packets.go, the signature with exceptions and \<open>Verify\<close>.
  \<^item> \<open>Cosi_Trees\<close>, \<open>Bft_Node\<close>: cosi\_service/service.go and bftcosi.go. The lookups between graph trees
    and binary trees, the state of a protocol instance and every handler.
  \<^item> \<open>Echo\<close>, \<open>Bft_Prepare\<close>: the prepare round of all nodes as a transition system, simulated by the
    abstract flooding with echo of \<open>Echo\<close>.
  \<^item> \<open>Tree_Cast\<close>, \<open>Bft_Sign\<close>, \<open>Bft_Run\<close>, \<open>Bft_End\<close>: what follows up to the signature, as waves down
    and up the tree, for a message every node accepts.
  \<^item> \<open>Bft_Refusal\<close>: rejected messages and refused signatures.
  \<^item> \<open>Cosi_Service\<close>: service.go, the calls of \<open>BFTCoSiSimul\<close> and the messages between the services.
  \<^item> \<open>Nyle_Setup\<close>: service.go, \<open>Setup\<close> and \<open>genTrees\<close>.
  \<^item> \<open>Node_Files\<close>: nyle/simulation/service.go, the node files and the association with servers.
  \<^item> \<open>Locality_Protocol\<close>: tree\_experiment/service, the multicast and its lookups.
  \<^item> \<open>Locality_Experiment\<close>: tree\_experiment/service, \<open>FTtest\<close>, put together with the multicast.

  \<^bold>\<open>What is shown.\<close>
  For the signing protocol: whatever the order of deliveries, the prepare round ends within a bound
  linear in nodes and links, cannot get stuck, leaves a spanning tree and the sum of all
  commitments; afterwards the protocol ends within \<open>18 n - 4\<close> steps, cannot get stuck, and hands out
  exactly one signature, which \<open>Verify\<close> accepts; a signature is only handed out when every node's
  verification function accepted. For the graph: bunches are the Thorup-Zwick bunches, clusters their
  converse, the tables of nearest nodes are exact, and the oracle has the stretch
  \<open>2 * levels - 1\<close>; the optimisation keeps the links to the nearest nodes and the oracle then still
  does not underestimate. For the rings: the search ends, its tree spans the allowed nodes with the
  bounds on depth and children, and the rosters of the rings of a root grow strictly. For the services:
  the counters of a request are exact and its calls return. For the files: a round trip and a
  well-formed collection. For the tree experiment: the graph, its tree and the multicast put together
  count all nodes. The error behaviour of each component is stated as well, together with the
  inputs on which a panic or an endless loop happens.

  \<^bold>\<open>Modelling choices.\<close> A \<open>float64\<close> is a real number; rounding and overflow of floating point
  arithmetic are left out, \<open>math.MaxFloat64\<close> is its exact value. An \<open>int\<close> is an integer, with the width
  written out where it matters (\<open>strconv.Atoi\<close>, the \<open>uint32\<close> of a hashed ring number). A Go map is an
  association list with distinct keys. A definition that ranges over a map takes the order as an
  argument, and theorems hold for all orders. A goroutine is a step of a transition system.

  \<^bold>\<open>Fuel.\<close> Recursion that Go does not bound takes fuel, and running out of it is the value \<open>None\<close>:
  the search of \<open>dijkstra\<close> needs one round per node and one more; \<open>grow_graph\<close> as many rounds as
  nodes and one more; \<open>Filter\<close> two rounds; \<open>dfsBuildGraph\<close> and \<open>recursive\<close> a depth of one more than
  the nodes; \<open>UpdateDistance\<close> a round per node. That this is enough is proved in each case. The
  attempts of \<open>CreateOnetRings\<close> and the loop of \<open>RemoveLinks\<close> over a bunch can run forever; the
  theorems about them say when.

  \<^bold>\<open>Parameters.\<close> The CoSi library and the suite (group, scalars, encoding, hash), with the laws of a
  Schnorr multi-signature as hypotheses; SHA-256; the random source; \<open>onet.NewTreeNode\<close>, \<open>AddChild\<close>,
  \<open>sort.Sort\<close> and \<open>GenerateBinaryTree\<close>; the orders of \<open>range\<close> and which keys added during a \<open>range\<close> are met; files as lists of
  lines; the order of the nodes of onet's trees. Each hypothesis is shown to be satisfiable by a
  witness.

  \<^bold>\<open>Not modelled.\<close>
  The plots (\<open>generateSageCodeFromFile\<close> and the writers of ../outTrees), which are pure output;
  \<open>AddTx\<close> of the Nyle service, the multicast protocol and the callbacks, which are stubs; the client
  API, registration with onet and the simulation drivers, which only forward; timeouts, delays and
  bandwidth counters; \<open>MultipleRadiusesTreesTest\<close>, which calls \<open>CreateOnetRings\<close> with a signature it does
  not have; \<open>RemoveLink\<close>, \<open>MinDist\<close> and \<open>dfss\<close>, which nothing calls.
\<close>

end
